(* ===== verification/Prelude.thy ===== *)
theory Prelude
  imports Main "HOL-Library.Word"
begin

text \<open>
  Shared vocabulary of the development: machine words and byte strings of the 32-bit ARM
  target, C strings, generic lemmas, and the locale for a transition system with an
  invariant.
\<close>

unbundle bit_operations_syntax

section \<open>Types\<close>

text \<open>
  The target is ARM (STR8132, 32 bit, plain \<open>char\<close> unsigned): \<open>unsigned long\<close>, \<open>u32\<close> and
  \<open>int\<close> are 32 bits wide, \<open>char\<close> and \<open>u8\<close> are 8 bits wide.
\<close>

type_synonym u8 = "8 word"
type_synonym u16 = "16 word"
type_synonym u32 = "32 word"
type_synonym bytes = "u8 list"

section \<open>Lists and words\<close>

lemma drop_bit_eq_imp_and_mask_eq:
  fixes x y :: "'a::len word"
  assumes "drop_bit n x = drop_bit n y" and "x AND mask n = y AND mask n"
  shows "x = y"
proof (rule bit_word_eqI)
  fix i assume i: "i < LENGTH('a)"
  show "bit x i = bit y i"
  proof (cases "i < n")
    case True
    have "bit (x AND mask n) i = bit (y AND mask n) i" by (simp only: assms(2))
    with True i show ?thesis by (simp add: bit_simps)
  next
    case False
    then obtain k where "i = n + k" by (auto simp: not_less le_iff_add)
    with assms(1) show ?thesis by (metis bit_drop_bit_eq comp_apply)
  qed
qed

lemma xor_cancel_right [simp]:
  fixes x y z :: "'a::len word"
  shows "(x XOR z) = (y XOR z) \<longleftrightarrow> x = y"
  by (metis xor.assoc xor.right_neutral xor_self_eq)

lemma xor_cancel_left [simp]:
  fixes x y z :: "'a::len word"
  shows "(z XOR x) = (z XOR y) \<longleftrightarrow> x = y"
  by (metis xor.commute xor_cancel_right)

lemma word_255_mask: "(255::u32) = mask 8"
  by (simp add: mask_eq_exp_minus_1)

lemma word_ffffffff: "(0xffffffff::u32) = - 1"
  by simp

lemma unat_and_255: "unat ((w::u32) AND 255) < 256"
proof -
  have "w AND 255 \<le> 255" by (rule word_and_le1)
  then have "unat (w AND 255) \<le> unat (255::u32)" by (simp only: word_le_nat_alt)
  then show ?thesis by simp
qed

lemma nth_update: "(xs[i := v]) ! j = (if j = i \<and> i < length xs then v else xs ! j)"
  by (cases "i < length xs") (auto simp: nth_list_update list_update_beyond)

section \<open>C strings\<close>

text \<open>The C string that starts at the head of a byte array: up to the first NUL.\<close>

definition cstr :: "bytes \<Rightarrow> bytes" where
  "cstr = takeWhile (\<lambda>b. b \<noteq> 0)"

lemma cstr_Nil [simp]: "cstr [] = []"
  by (simp add: cstr_def)

lemma cstr_Cons [simp]: "cstr (b # bs) = (if b = 0 then [] else b # cstr bs)"
  by (simp add: cstr_def)

lemma cstr_append_nul [simp]: "0 \<notin> set s \<Longrightarrow> cstr (s @ 0 # t) = s"
  by (induction s) (auto simp: cstr_def)

section \<open>Transition systems with an invariant\<close>

text \<open>
  A component whose operations are a step function over events: \<open>run\<close> is the state after a
  sequence of events. An invariant that each step keeps, for events that satisfy \<open>ok\<close>, holds
  after every run of such events.
\<close>

fun run :: "('s \<Rightarrow> 'e \<Rightarrow> 's) \<Rightarrow> 's \<Rightarrow> 'e list \<Rightarrow> 's" where
  "run step s [] = s"
| "run step s (e # es) = run step (step s e) es"

lemma run_append: "run step s (es @ fs) = run step (run step s es) fs"
  by (induction es arbitrary: s) auto

locale invariant_system =
  fixes step :: "'s \<Rightarrow> 'e \<Rightarrow> 's"
    and inv :: "'s \<Rightarrow> bool"
    and ok :: "'e \<Rightarrow> bool"
  assumes step_inv: "inv s \<Longrightarrow> ok e \<Longrightarrow> inv (step s e)"
begin

lemma run_inv: "inv s \<Longrightarrow> list_all ok es \<Longrightarrow> inv (run step s es)"
  by (induction es arbitrary: s) (auto intro: step_inv)

end

end
