(* ===== verification/Crc.thy ===== *)
theory Crc
  imports Prelude
begin

text \<open>
  The two checksum routines of the firmware: \<open>crc\<close> of \<open>apps/crc/crc.c\<close> (the image checksum
  printed by the \<open>crc\<close> tool, which reads a file in chunks) and \<open>crc32\<close> of
  \<open>apps/set_env_param/set_env_param.c\<close> (the checksum of the boot-loader environment sector).
  Both are modelled on 32-bit words with the tables of the source. The lemmas show that the
  chunked reader depends on the bytes of the file only, that the 8-way unrolled \<open>crc32\<close> is the
  bit-serial CRC of the reflected polynomial, and that it detects every one-byte corruption.
\<close>

section \<open>apps/crc/crc.c\<close>

definition crctab :: "u32 list" where
  "crctab = [
     0x7fffffff, 0x77073096, 0xee0e612c, 0x990951ba, 0x076dc419, 0x706af48f,
     0xe963a535, 0x9e6495a3, 0x0edb8832, 0x79dcb8a4, 0xe0d5e91e, 0x97d2d988,
     0x09b64c2b, 0x7eb17cbd, 0xe7b82d07, 0x90bf1d91, 0x1db71064, 0x6ab020f2,
     0xf3b97148, 0x84be41de, 0x1adad47d, 0x6ddde4eb, 0xf4d4b551, 0x83d385c7,
     0x136c9856, 0x646ba8c0, 0xfd62f97a, 0x8a65c9ec, 0x14015c4f, 0x63066cd9,
     0xfa0f3d63, 0x8d080df5, 0x3b6e20c8, 0x4c69105e, 0xd56041e4, 0xa2677172,
     0x3c03e4d1, 0x4b04d447, 0xd20d85fd, 0xa50ab56b, 0x35b5a8fa, 0x42b2986c,
     0xdbbbc9d6, 0xacbcf940, 0x32d86ce3, 0x45df5c75, 0xdcd60dcf, 0xabd13d59,
     0x26d930ac, 0x51de003a, 0xc8d75180, 0xbfd06116, 0x21b4f4b5, 0x56b3c423,
     0xcfba9599, 0xb8bda50f, 0x2802b89e, 0x5f058808, 0xc60cd9b2, 0xb10be924,
     0x2f6f7c87, 0x58684c11, 0xc1611dab, 0xb6662d3d, 0x76dc4190, 0x01db7106,
     0x98d220bc, 0xefd5102a, 0x71b18589, 0x06b6b51f, 0x9fbfe4a5, 0xe8b8d433,
     0x7807c9a2, 0x0f00f934, 0x9609a88e, 0xe10e9818, 0x7f6a0dbb, 0x086d3d2d,
     0x91646c97, 0xe6635c01, 0x6b6b51f4, 0x1c6c6162, 0x856530d8, 0xf262004e,
     0x6c0695ed, 0x1b01a57b, 0x8208f4c1, 0xf50fc457, 0x65b0d9c6, 0x12b7e950,
     0x8bbeb8ea, 0xfcb9887c, 0x62dd1ddf, 0x15da2d49, 0x8cd37cf3, 0xfbd44c65,
     0x4db26158, 0x3ab551ce, 0xa3bc0074, 0xd4bb30e2, 0x4adfa541, 0x3dd895d7,
     0xa4d1c46d, 0xd3d6f4fb, 0x4369e96a, 0x346ed9fc, 0xad678846, 0xda60b8d0,
     0x44042d73, 0x33031de5, 0xaa0a4c5f, 0xdd0d7cc9, 0x5005713c, 0x270241aa,
     0xbe0b1010, 0xc90c2086, 0x5768b525, 0x206f85b3, 0xb966d409, 0xce61e49f,
     0x5edef90e, 0x29d9c998, 0xb0d09822, 0xc7d7a8b4, 0x59b33d17, 0x2eb40d81,
     0xb7bd5c3b, 0xc0ba6cad, 0xedb88320, 0x9abfb3b6, 0x03b6e20c, 0x74b1d29a,
     0xead54739, 0x9dd277af, 0x04db2615, 0x73dc1683, 0xe3630b12, 0x94643b84,
     0x0d6d6a3e, 0x7a6a5aa8, 0xe40ecf0b, 0x9309ff9d, 0x0a00ae27, 0x7d079eb1,
     0xf00f9344, 0x8708a3d2, 0x1e01f268, 0x6906c2fe, 0xf762575d, 0x806567cb,
     0x196c3671, 0x6e6b06e7, 0xfed41b76, 0x89d32be0, 0x10da7a5a, 0x67dd4acc,
     0xf9b9df6f, 0x8ebeeff9, 0x17b7be43, 0x60b08ed5, 0xd6d6a3e8, 0xa1d1937e,
     0x38d8c2c4, 0x4fdff252, 0xd1bb67f1, 0xa6bc5767, 0x3fb506dd, 0x48b2364b,
     0xd80d2bda, 0xaf0a1b4c, 0x36034af6, 0x41047a60, 0xdf60efc3, 0xa867df55,
     0x316e8eef, 0x4669be79, 0xcb61b38c, 0xbc66831a, 0x256fd2a0, 0x5268e236,
     0xcc0c7795, 0xbb0b4703, 0x220216b9, 0x5505262f, 0xc5ba3bbe, 0xb2bd0b28,
     0x2bb45a92, 0x5cb36a04, 0xc2d7ffa7, 0xb5d0cf31, 0x2cd99e8b, 0x5bdeae1d,
     0x9b64c2b0, 0xec63f226, 0x756aa39c, 0x026d930a, 0x9c0906a9, 0xeb0e363f,
     0x72076785, 0x05005713, 0x95bf4a82, 0xe2b87a14, 0x7bb12bae, 0x0cb61b38,
     0x92d28e9b, 0xe5d5be0d, 0x7cdcefb7, 0x0bdbdf21, 0x86d3d2d4, 0xf1d4e242,
     0x68ddb3f8, 0x1fda836e, 0x81be16cd, 0xf6b9265b, 0x6fb077e1, 0x18b74777,
     0x88085ae6, 0xff0f6a70, 0x66063bca, 0x11010b5c, 0x8f659eff, 0xf862ae69,
     0x616bffd3, 0x166ccf45, 0xa00ae278, 0xd70dd2ee, 0x4e048354, 0x3903b3c2,
     0xa7672661, 0xd06016f7, 0x4969474d, 0x3e6e77db, 0xaed16a4a, 0xd9d65adc,
     0x40df0b66, 0x37d83bf0, 0xa9bcae53, 0xdebb9ec5, 0x47b2cf7f, 0x30b5ffe9,
     0xbdbdf21c, 0xcabac28a, 0x53b39330, 0x24b4a3a6, 0xbad03605, 0xcdd70693,
     0x54de5729, 0x23d967bf, 0xb3667a2e, 0xc4614ab8, 0x5d681b02, 0x2a6f2b94,
     0xb40bbe37, 0xc30c8ea1, 0x5a05df1b, 0x2d02ef8d]"

text \<open>
  The body of the inner loop. The state is the pair of the running checksum \<open>crcv\<close> and the
  counter \<open>step\<close>: a zero index is replaced by the counter, which cycles through the table.
\<close>

definition crc_index :: "u32 \<times> nat \<Rightarrow> u8 \<Rightarrow> nat" where
  "crc_index s p =
     (let i = unat (drop_bit 24 (fst s) XOR ucast p) in if i = 0 then snd s else i)"

definition crc_step :: "u32 \<times> nat \<Rightarrow> u8 \<Rightarrow> nat" where
  "crc_step s p =
     (if unat (drop_bit 24 (fst s) XOR ucast p) = 0
      then (if snd s + 1 \<ge> length crctab then 0 else snd s + 1)
      else snd s)"

definition crc_byte :: "u32 \<times> nat \<Rightarrow> u8 \<Rightarrow> u32 \<times> nat" where
  "crc_byte s p =
     ((push_bit 8 (fst s) XOR crctab ! crc_index s p) AND 0xffffffff, crc_step s p)"

text \<open>
  What the successive \<open>read\<close> calls of the descriptor return: a chunk of at most 8192 bytes (the
  empty chunk is end of file, as is the end of the sequence) or an error.
\<close>

datatype read_result = Chunk bytes | Read_Error

fun crc_loop :: "read_result list \<Rightarrow> u32 \<times> nat \<Rightarrow> u32 \<Rightarrow> (u32 \<times> u32) option" where
  "crc_loop [] s tot = Some (fst s, tot)"
| "crc_loop (Read_Error # rs) s tot = None"
| "crc_loop (Chunk buf # rs) s tot =
     (if buf = [] then Some (fst s, tot)
      else crc_loop rs (run crc_byte s buf) (tot + of_nat (length buf)))"

text \<open>\<open>crc fd &cval &clen\<close>: the return value and the new contents of \<open>cval\<close> and \<open>clen\<close>.\<close>

definition crc :: "read_result list \<Rightarrow> u32 \<Rightarrow> u32 \<Rightarrow> int \<times> u32 \<times> u32" where
  "crc fd cval clen =
     (case crc_loop fd (cval, 0) 0 of
        None \<Rightarrow> (1, cval, clen)
      | Some (crcv, tot) \<Rightarrow> (0, crcv, tot))"

text \<open>
  The STANDALONE driver: every argument is a file, \<open>None\<close> one that \<open>open\<close> refuses. The result
  is the exit code and the value printed.
\<close>

fun crc_files :: "read_result list option list \<Rightarrow> u32 \<times> u32 \<Rightarrow> u32 \<times> u32" where
  "crc_files [] acc = acc"
| "crc_files (None # fs) acc = crc_files fs acc"
| "crc_files (Some fd # fs) acc =
     (case crc fd (fst acc) (snd acc) of (_, cval, clen) \<Rightarrow> crc_files fs (cval, clen))"

definition crc_main :: "read_result list option list \<Rightarrow> int \<times> u32 option" where
  "crc_main files =
     (if files = [] then (1, None) else (0, Some (fst (crc_files files (0, 0)))))"

section \<open>crc32 of apps/set_env_param/set_env_param.c\<close>

definition crc_table :: "u32 list" where
  "crc_table = [
     0x00000000, 0x77073096, 0xee0e612c, 0x990951ba, 0x076dc419, 0x706af48f,
     0xe963a535, 0x9e6495a3, 0x0edb8832, 0x79dcb8a4, 0xe0d5e91e, 0x97d2d988,
     0x09b64c2b, 0x7eb17cbd, 0xe7b82d07, 0x90bf1d91, 0x1db71064, 0x6ab020f2,
     0xf3b97148, 0x84be41de, 0x1adad47d, 0x6ddde4eb, 0xf4d4b551, 0x83d385c7,
     0x136c9856, 0x646ba8c0, 0xfd62f97a, 0x8a65c9ec, 0x14015c4f, 0x63066cd9,
     0xfa0f3d63, 0x8d080df5, 0x3b6e20c8, 0x4c69105e, 0xd56041e4, 0xa2677172,
     0x3c03e4d1, 0x4b04d447, 0xd20d85fd, 0xa50ab56b, 0x35b5a8fa, 0x42b2986c,
     0xdbbbc9d6, 0xacbcf940, 0x32d86ce3, 0x45df5c75, 0xdcd60dcf, 0xabd13d59,
     0x26d930ac, 0x51de003a, 0xc8d75180, 0xbfd06116, 0x21b4f4b5, 0x56b3c423,
     0xcfba9599, 0xb8bda50f, 0x2802b89e, 0x5f058808, 0xc60cd9b2, 0xb10be924,
     0x2f6f7c87, 0x58684c11, 0xc1611dab, 0xb6662d3d, 0x76dc4190, 0x01db7106,
     0x98d220bc, 0xefd5102a, 0x71b18589, 0x06b6b51f, 0x9fbfe4a5, 0xe8b8d433,
     0x7807c9a2, 0x0f00f934, 0x9609a88e, 0xe10e9818, 0x7f6a0dbb, 0x086d3d2d,
     0x91646c97, 0xe6635c01, 0x6b6b51f4, 0x1c6c6162, 0x856530d8, 0xf262004e,
     0x6c0695ed, 0x1b01a57b, 0x8208f4c1, 0xf50fc457, 0x65b0d9c6, 0x12b7e950,
     0x8bbeb8ea, 0xfcb9887c, 0x62dd1ddf, 0x15da2d49, 0x8cd37cf3, 0xfbd44c65,
     0x4db26158, 0x3ab551ce, 0xa3bc0074, 0xd4bb30e2, 0x4adfa541, 0x3dd895d7,
     0xa4d1c46d, 0xd3d6f4fb, 0x4369e96a, 0x346ed9fc, 0xad678846, 0xda60b8d0,
     0x44042d73, 0x33031de5, 0xaa0a4c5f, 0xdd0d7cc9, 0x5005713c, 0x270241aa,
     0xbe0b1010, 0xc90c2086, 0x5768b525, 0x206f85b3, 0xb966d409, 0xce61e49f,
     0x5edef90e, 0x29d9c998, 0xb0d09822, 0xc7d7a8b4, 0x59b33d17, 0x2eb40d81,
     0xb7bd5c3b, 0xc0ba6cad, 0xedb88320, 0x9abfb3b6, 0x03b6e20c, 0x74b1d29a,
     0xead54739, 0x9dd277af, 0x04db2615, 0x73dc1683, 0xe3630b12, 0x94643b84,
     0x0d6d6a3e, 0x7a6a5aa8, 0xe40ecf0b, 0x9309ff9d, 0x0a00ae27, 0x7d079eb1,
     0xf00f9344, 0x8708a3d2, 0x1e01f268, 0x6906c2fe, 0xf762575d, 0x806567cb,
     0x196c3671, 0x6e6b06e7, 0xfed41b76, 0x89d32be0, 0x10da7a5a, 0x67dd4acc,
     0xf9b9df6f, 0x8ebeeff9, 0x17b7be43, 0x60b08ed5, 0xd6d6a3e8, 0xa1d1937e,
     0x38d8c2c4, 0x4fdff252, 0xd1bb67f1, 0xa6bc5767, 0x3fb506dd, 0x48b2364b,
     0xd80d2bda, 0xaf0a1b4c, 0x36034af6, 0x41047a60, 0xdf60efc3, 0xa867df55,
     0x316e8eef, 0x4669be79, 0xcb61b38c, 0xbc66831a, 0x256fd2a0, 0x5268e236,
     0xcc0c7795, 0xbb0b4703, 0x220216b9, 0x5505262f, 0xc5ba3bbe, 0xb2bd0b28,
     0x2bb45a92, 0x5cb36a04, 0xc2d7ffa7, 0xb5d0cf31, 0x2cd99e8b, 0x5bdeae1d,
     0x9b64c2b0, 0xec63f226, 0x756aa39c, 0x026d930a, 0x9c0906a9, 0xeb0e363f,
     0x72076785, 0x05005713, 0x95bf4a82, 0xe2b87a14, 0x7bb12bae, 0x0cb61b38,
     0x92d28e9b, 0xe5d5be0d, 0x7cdcefb7, 0x0bdbdf21, 0x86d3d2d4, 0xf1d4e242,
     0x68ddb3f8, 0x1fda836e, 0x81be16cd, 0xf6b9265b, 0x6fb077e1, 0x18b74777,
     0x88085ae6, 0xff0f6a70, 0x66063bca, 0x11010b5c, 0x8f659eff, 0xf862ae69,
     0x616bffd3, 0x166ccf45, 0xa00ae278, 0xd70dd2ee, 0x4e048354, 0x3903b3c2,
     0xa7672661, 0xd06016f7, 0x4969474d, 0x3e6e77db, 0xaed16a4a, 0xd9d65adc,
     0x40df0b66, 0x37d83bf0, 0xa9bcae53, 0xdebb9ec5, 0x47b2cf7f, 0x30b5ffe9,
     0xbdbdf21c, 0xcabac28a, 0x53b39330, 0x24b4a3a6, 0xbad03605, 0xcdd70693,
     0x54de5729, 0x23d967bf, 0xb3667a2e, 0xc4614ab8, 0x5d681b02, 0x2a6f2b94,
     0xb40bbe37, 0xc30c8ea1, 0x5a05df1b, 0x2d02ef8d]"

text \<open>\<open>DO1\<close>: one byte of input.\<close>

definition DO1 :: "u32 \<Rightarrow> u8 \<Rightarrow> u32" where
  "DO1 v b = crc_table ! unat ((v XOR ucast b) AND 0xff) XOR drop_bit 8 v"

text \<open>The loop of \<open>crc32\<close>: eight bytes at a time while at least eight remain, then one by one.\<close>

fun crc32_loop :: "u32 \<Rightarrow> bytes \<Rightarrow> u32" where
  "crc32_loop v (a # b # c # d # e # f # g # h # buf) =
     crc32_loop (DO1 (DO1 (DO1 (DO1 (DO1 (DO1 (DO1 (DO1 v a) b) c) d) e) f) g) h) buf"
| "crc32_loop v buf = run DO1 v buf"

definition crc32 :: "u32 \<Rightarrow> bytes \<Rightarrow> u32" where
  "crc32 v buf = crc32_loop (v XOR 0xffffffff) buf XOR 0xffffffff"


section \<open>The bit-serial reference\<close>

text \<open>
  The specification of \<open>crc32\<close>: one shift of the CRC register of the reflected polynomial
  \<open>0xEDB88320\<close>, eight shifts per byte, all-ones preset and final inversion.
\<close>

definition crc32_bit :: "u32 \<Rightarrow> u32" where
  "crc32_bit r = (if bit r 0 then drop_bit 1 r XOR 0xEDB88320 else drop_bit 1 r)"

definition crc32_byte_spec :: "u32 \<Rightarrow> u8 \<Rightarrow> u32" where
  "crc32_byte_spec r b = (crc32_bit ^^ 8) (r XOR ucast b)"

definition crc32_spec :: "u32 \<Rightarrow> bytes \<Rightarrow> u32" where
  "crc32_spec c bs = NOT (run crc32_byte_spec (NOT c) bs)"

fun table_from :: "u32 \<Rightarrow> u32 list \<Rightarrow> bool" where
  "table_from i [] = True"
| "table_from i (t # ts) = ((crc32_bit ^^ 8) i = t \<and> table_from (i + 1) ts)"

section \<open>Digests that fold a step over the bytes\<close>

text \<open>
  What makes a running checksum useful: a step that loses neither the register nor the byte.
  Two inputs of the same length that differ in one byte then have different digests.
\<close>

locale byte_digest =
  fixes step :: "'s \<Rightarrow> u8 \<Rightarrow> 's"
  assumes inj_state: "step s b = step t b \<Longrightarrow> s = t"
    and inj_byte: "step s b = step s c \<Longrightarrow> b = c"
begin

lemma run_inj_state: "run step s bs = run step t bs \<Longrightarrow> s = t"
  by (induction bs arbitrary: s t) (auto dest: inj_state)

lemma one_byte_corruption:
  assumes "b \<noteq> c"
  shows "run step s (xs @ b # ys) \<noteq> run step s (xs @ c # ys)"
proof
  assume "run step s (xs @ b # ys) = run step s (xs @ c # ys)"
  then have "step (run step s xs) b = step (run step s xs) c"
    by (auto simp: run_append dest: run_inj_state)
  with assms show False by (auto dest: inj_byte)
qed

end

section \<open>Lemmas\<close>

lemma length_crctab [simp]: "length crctab = 256"
  by (simp add: crctab_def)

lemma length_crc_table [simp]: "length crc_table = 256"
  by (simp add: crc_table_def)

text \<open>The counter of \<open>crc\<close> stays inside the table.\<close>

interpretation crc_counter: invariant_system crc_byte "\<lambda>s. snd s < length crctab" "\<lambda>_. True"
  by unfold_locales (auto simp: crc_byte_def crc_step_def)

lemma top_byte_lt: "unat (drop_bit 24 (v::u32) XOR ucast (p::u8)) < 256"
proof -
  have "drop_bit 24 v XOR ucast p = (drop_bit 24 v XOR ucast p) AND 255"
    by (rule bit_word_eqI) (auto simp: bit_simps word_255_mask dest: bit_imp_le_length)
  then show ?thesis by (metis unat_and_255)
qed

lemma crc_loop_chunks:
  "[] \<notin> set cs \<Longrightarrow>
   crc_loop (map Chunk cs) s tot
     = Some (fst (run crc_byte s (concat cs)), tot + of_nat (length (concat cs)))"
  by (induction cs arbitrary: s tot) (auto simp: run_append add.assoc)

lemma run_crc_loop: "crc32_loop v bs = run DO1 v bs"
  by (induction v bs rule: crc32_loop.induct) auto

lemma crc32_bit_xor_even:
  assumes "\<not> bit y 0"
  shows "crc32_bit (x XOR y) = crc32_bit x XOR drop_bit 1 y"
  using assms by (auto simp: crc32_bit_def bit_simps drop_bit_xor ac_simps)

lemma crc32_bits_xor_high:
  "(\<And>i. i < n \<Longrightarrow> \<not> bit y i) \<Longrightarrow>
   (crc32_bit ^^ n) (x XOR y) = (crc32_bit ^^ n) x XOR drop_bit n y"
proof (induction n arbitrary: x y)
  case 0
  then show ?case by simp
next
  case (Suc n)
  have "(crc32_bit ^^ Suc n) (x XOR y) = (crc32_bit ^^ n) (crc32_bit (x XOR y))"
    by (simp add: funpow_swap1)
  also have "\<dots> = (crc32_bit ^^ n) (crc32_bit x XOR drop_bit 1 y)"
    using Suc.prems by (simp add: crc32_bit_xor_even)
  also have "\<dots> = (crc32_bit ^^ n) (crc32_bit x) XOR drop_bit n (drop_bit 1 y)"
    using Suc.prems by (intro Suc.IH) (auto simp: bit_simps)
  finally show ?case by (simp add: funpow_swap1)
qed

lemma table_from_nth:
  "table_from i ts \<Longrightarrow> k < length ts \<Longrightarrow> ts ! k = (crc32_bit ^^ 8) (i + of_nat k)"
proof (induction i ts arbitrary: k rule: table_from.induct)
  case (2 i t ts)
  then show ?case by (cases k) (auto simp: add.assoc)
qed simp

lemma crc32_bits8:
  "(crc32_bit ^^ 8) r = crc32_bit (crc32_bit (crc32_bit (crc32_bit
     (crc32_bit (crc32_bit (crc32_bit (crc32_bit r)))))))"
  by (simp add: numeral_eq_Suc)

lemma crc_table_from: "table_from 0 crc_table"
  by (simp add: crc_table_def crc32_bits8 crc32_bit_def)

lemma crc_table_nth: "i < 256 \<Longrightarrow> crc_table ! i = (crc32_bit ^^ 8) (of_nat i)"
  using table_from_nth [OF crc_table_from, of i] by simp


lemma DO1_eq_spec: "DO1 v b = crc32_byte_spec v b"
proof -
  let ?x = "v XOR ucast b :: u32"
  have split: "?x = (?x AND 255) XOR (?x AND NOT 255)"
    by (rule bit_word_eqI) (auto simp: bit_simps)
  have high: "drop_bit 8 (?x AND NOT 255) = drop_bit 8 v"
    by (rule bit_word_eqI) (auto simp: bit_simps word_255_mask dest: bit_imp_le_length)
  have "crc32_byte_spec v b = (crc32_bit ^^ 8) ((?x AND 255) XOR (?x AND NOT 255))"
    unfolding crc32_byte_spec_def by (rule arg_cong [OF split])
  also have "\<dots> = (crc32_bit ^^ 8) (?x AND 255) XOR drop_bit 8 (?x AND NOT 255)"
    by (rule crc32_bits_xor_high) (auto simp: bit_simps word_255_mask)
  also have "(crc32_bit ^^ 8) (?x AND 255) = crc_table ! unat (?x AND 255)"
    using crc_table_nth [OF unat_and_255, of ?x] by simp
  also have "drop_bit 8 (?x AND NOT 255) = drop_bit 8 v" by (rule high)
  finally show ?thesis by (simp add: DO1_def)
qed

lemma crc32_bit_inj: "crc32_bit x = crc32_bit y \<Longrightarrow> x = y"
proof -
  have top: "bit (crc32_bit r) 31 = bit r 0" for r
    by (auto simp: crc32_bit_def bit_simps dest: bit_imp_le_length)
  assume eq: "crc32_bit x = crc32_bit y"
  with top have low: "bit x 0 = bit y 0" by metis
  with eq have "drop_bit 1 x = drop_bit 1 y"
    by (auto simp: crc32_bit_def split: if_splits)
  moreover from low have "x AND mask 1 = y AND mask 1"
    by (auto intro!: bit_word_eqI simp: bit_simps)
  ultimately show "x = y" by (rule drop_bit_eq_imp_and_mask_eq)
qed

lemma crc32_bits_inj: "(crc32_bit ^^ n) x = (crc32_bit ^^ n) y \<Longrightarrow> x = y"
  by (induction n) (auto dest: crc32_bit_inj)

lemma ucast_u8_u32_inj:
  assumes eq: "(ucast (b::u8) :: u32) = ucast c"
  shows "b = c"
proof (rule bit_word_eqI)
  fix n assume n: "n < LENGTH(8)"
  have "bit (ucast b :: u32) n = bit (ucast c :: u32) n" by (simp only: eq)
  with n show "bit b n = bit c n" by (simp add: bit_simps)
qed

interpretation env_digest: byte_digest DO1
proof unfold_locales
  fix s t b assume "DO1 s b = DO1 t b"
  then show "s = t"
    by (auto simp: DO1_eq_spec crc32_byte_spec_def dest!: crc32_bits_inj)
next
  fix s b c assume "DO1 s b = DO1 s c"
  then show "b = c"
    by (auto simp: DO1_eq_spec crc32_byte_spec_def dest!: crc32_bits_inj intro: ucast_u8_u32_inj)
qed

lemma crc32_run: "crc32 c bs = NOT (run DO1 (NOT c) bs)"
  by (simp add: crc32_def run_crc_loop word_ffffffff)

section \<open>Properties\<close>


text \<open>
  C20: \<open>crc32\<close>, which consumes eight table look-ups per loop round, computes the bit-serial CRC-32
  of the reflected polynomial 0xEDB88320 for every starting value and every buffer.
\<close>

theorem crc32_correct: "crc32 c bs = crc32_spec c bs"
proof -
  have "DO1 = crc32_byte_spec" by (intro ext) (rule DO1_eq_spec)
  then show ?thesis by (simp add: crc32_run crc32_spec_def)
qed

text \<open>
  The environment checksum detects every one-byte corruption: two sectors that differ in
  exactly one byte have different \<open>crc32\<close> values.
\<close>

theorem crc32_detects_corruption:
  assumes "b \<noteq> b'"
  shows "crc32 c (xs @ b # ys) \<noteq> crc32 c (xs @ b' # ys)"
  using env_digest.one_byte_corruption [OF assms] by (simp add: crc32_run)

theorem crc32_detects_corruption_witness:
  "(1::u8) \<noteq> 2 \<and> crc32 0 ([65] @ 1 # [66]) \<noteq> crc32 0 ([65] @ 2 # [66])"
proof -
  have h: "(1::u8) \<noteq> 2" by simp
  show ?thesis using h crc32_detects_corruption [OF h, of 0 "[65]" "[66]"] by blast
qed

text \<open>
  The checksum can be computed piecewise: continuing from the value of a first block over a
  second block gives the value of both.
\<close>

theorem crc32_append: "crc32 (crc32 c xs) ys = crc32 c (xs @ ys)"
  by (simp add: crc32_run run_append)

text \<open>
  \<open>crc\<close> depends on the bytes of the file only and not on how \<open>read\<close> cut them into chunks; it
  returns 0, the checksum of the concatenated bytes and their number modulo 2^32.
\<close>

theorem crc_chunking:
  assumes "[] \<notin> set cs"
  shows "crc (map Chunk cs) cval clen =
    (0, fst (run crc_byte (cval, 0) (concat cs)), of_nat (length (concat cs)))"
  using crc_loop_chunks [OF assms, of "(cval, 0)" 0] by (simp add: crc_def)

theorem crc_chunking_witness:
  "[] \<notin> set [[1::u8, 2], [3]] \<and>
   crc (map Chunk [[1, 2], [3]]) 0 9 = (0, fst (run crc_byte (0, 0) [1, 2, 3]), 3)"
proof -
  have h: "[] \<notin> set [[1::u8, 2], [3]]" by simp
  show ?thesis using h crc_chunking [OF h, of 0 9] by simp
qed

text \<open>
  \<open>crc\<close> never reads outside its table: after any input the next index, the substituted
  counter included, is below the 256 entries.
\<close>

theorem crc_index_in_table: "crc_index (run crc_byte (cval, 0) bs) p < length crctab"
proof -
  have "snd (run crc_byte (cval, 0) bs) < length crctab"
    by (rule crc_counter.run_inv) (simp_all add: list_all_iff)
  then show ?thesis using top_byte_lt by (simp add: crc_index_def Let_def)
qed

text \<open>
  A read error makes \<open>crc\<close> return 1 and leaves the caller's checksum and length as they were.
\<close>

theorem crc_read_error:
  assumes "[] \<notin> set cs"
  shows "crc (map Chunk cs @ Read_Error # rs) cval clen = (1, cval, clen)"
proof -
  have "crc_loop (map Chunk cs @ Read_Error # rs) s tot = None" for s tot
    using assms by (induction cs arbitrary: s tot) auto
  then show ?thesis by (simp add: crc_def)
qed

theorem crc_read_error_witness:
  "[] \<notin> set [[7::u8]] \<and> crc (map Chunk [[7]] @ Read_Error # []) 5 6 = (1, 5, 6)"
proof -
  have h: "[] \<notin> set [[7::u8]]" by simp
  show ?thesis using h crc_read_error [OF h, of "[]" 5 6] by simp
qed

end
