(* ===== verification/EnvParam.thy ===== *)
theory EnvParam
  imports Crc "HOL-Library.Sublist"
begin

text \<open>
  The two tools that read and write the boot-loader environment sector \<open>/dev/mtdblock3\<close> from
  Linux: \<open>apps/get_env_param\<close> and \<open>apps/set_env_param\<close>. The sector is four bytes of CRC, then
  \<open>name=value\<close> strings each ended by NUL, then an empty string. The buffers of the programs are
  byte lists of the declared size; a write outside the heap block, outside the stack array or
  through an uninitialised pointer, and a read past the end of an array, are values of the
  result types. The abstract view of a sector is its list of (name, value) pairs.
\<close>

section \<open>get\_env\_param\<close>

abbreviation (input) EQ :: u8 where "EQ \<equiv> 0x3D"

text \<open>
  \<open>strcmp (buf, name) == 0\<close> for an array \<open>buf\<close> and a C string \<open>name\<close> (its bytes before the NUL):
  \<open>None\<close> when the comparison runs past the end of the array.
\<close>

fun c_streq :: "bytes \<Rightarrow> bytes \<Rightarrow> bool option" where
  "c_streq [] name = None"
| "c_streq (b # bs) [] = Some (b = 0)"
| "c_streq (b # bs) (n # ns) = (if b = n then c_streq bs ns else Some False)"

record get_state =
  curr_param :: bytes
  param_value :: bytes
  in_value :: bool   \<comment> \<open>\<open>curr_str\<close> points to \<open>param_value\<close>\<close>
  curr_idx :: nat

datatype get_result =
    Printed bytes    \<comment> \<open>the value is printed, exit code 0\<close>
  | Not_Found        \<comment> \<open>exit code 1\<close>
  | Overread         \<comment> \<open>a read past the end of one of the 256-byte arrays\<close>

definition set_curr_str :: "get_state \<Rightarrow> nat \<Rightarrow> u8 \<Rightarrow> get_state" where
  "set_curr_str s i b =
     (if in_value s then s\<lparr>param_value := (param_value s)[i := b]\<rparr>
      else s\<lparr>curr_param := (curr_param s)[i := b]\<rparr>)"

definition get_store :: "get_state \<Rightarrow> u8 \<Rightarrow> get_state" where
  "get_store s c =
     (if curr_idx s < 255 then (set_curr_str s (curr_idx s) c)\<lparr>curr_idx := curr_idx s + 1\<rparr>
      else s)"

fun get_loop :: "bytes \<Rightarrow> get_state \<Rightarrow> bytes \<Rightarrow> get_result" where
  "get_loop name s [] = Not_Found"
| "get_loop name s (c # cs) =
     (let s = get_store s c in
      if c = EQ then
        get_loop name
          ((set_curr_str s (curr_idx s - 1) 0)\<lparr>curr_idx := 0, in_value := True\<rparr>) cs
      else if c = 0 then
        (let s = s\<lparr>curr_idx := 0, in_value := False\<rparr> in
         case c_streq (curr_param s) name of
           None \<Rightarrow> Overread
         | Some True \<Rightarrow>
             (if 0 \<in> set (param_value s) then Printed (cstr (param_value s)) else Overread)
         | Some False \<Rightarrow>
             get_loop name
               (s\<lparr>curr_param := (curr_param s)[0 := 0], param_value := (param_value s)[0 := 0]\<rparr>) cs)
      else get_loop name s cs)"

text \<open>
  \<open>junk\<close> is what the two 256-byte arrays hold before the program writes to them; \<open>dev\<close> is the
  content of the device, \<open>None\<close> when it cannot be opened.
\<close>

definition get_env_param :: "bytes \<times> bytes \<Rightarrow> bytes list \<Rightarrow> bytes option \<Rightarrow> get_result" where
  "get_env_param junk args dev =
     (case args of
        [param_name] \<Rightarrow>
          (case dev of
             None \<Rightarrow> Not_Found
           | Some f \<Rightarrow>
               if length f < 4 then Not_Found
               else get_loop param_name
                 \<lparr>curr_param = (fst junk)[0 := 0], param_value = (snd junk)[0 := 0],
                  in_value = False, curr_idx = 0\<rparr> (drop 4 f))
      | _ \<Rightarrow> Not_Found)"

section \<open>set\_env\_param\<close>

abbreviation (input) CFG_ENV_SIZE :: nat where "CFG_ENV_SIZE \<equiv> 0x10000"
abbreviation (input) ENV_HEADER_SIZE :: nat where "ENV_HEADER_SIZE \<equiv> 4"
abbreviation (input) ENV_SIZE :: nat where "ENV_SIZE \<equiv> 0xFFFC"
abbreviation (input) MAX_PARAMS :: nat where "MAX_PARAMS \<equiv> 500"

datatype env_fault =
    Heap_Overflow    \<comment> \<open>a write outside the block of \<open>CFG_ENV_SIZE\<close> bytes\<close>
  | Stack_Overflow   \<comment> \<open>a write to \<open>params_arr[500]\<close>\<close>
  | Wild_Pointer     \<comment> \<open>a write through a \<open>value_ptr\<close> that was never set\<close>

text \<open>
  The heap block, \<open>curr_str\<close>, \<open>curr_str_idx\<close>, and of \<open>params_arr\<close> the two pointers of the
  current element (the only ones the program reads, beside \<open>params_arr[0].name_ptr\<close>, which is
  the first byte after the header). Pointers are offsets in the block.
\<close>

record set_state =
  mem :: bytes
  curr_str :: nat
  curr_str_idx :: nat
  name_ptr :: nat
  value_ptr :: "nat option"
  param_found :: bool
  out_of_space :: bool

definition put_bytes :: "nat \<Rightarrow> bytes \<Rightarrow> set_state \<Rightarrow> env_fault + set_state" where
  "put_bytes p w s =
     (if p + length w \<le> CFG_ENV_SIZE
      then Inr (s\<lparr>mem := take p (mem s) @ w @ drop (p + length w) (mem s)\<rparr>)
      else Inl Heap_Overflow)"

definition put_char :: "u8 \<Rightarrow> set_state \<Rightarrow> env_fault + set_state" where
  "put_char c s =
     (case put_bytes (curr_str s) [c] s of
        Inl e \<Rightarrow> Inl e | Inr s \<Rightarrow> Inr (s\<lparr>curr_str := curr_str s + 1\<rparr>))"

text \<open>\<open>strncmp (p, name, strlen (name)) == 0\<close>.\<close>

definition strncmp_eq :: "bytes \<Rightarrow> bytes \<Rightarrow> bool" where
  "strncmp_eq p name \<longleftrightarrow> take (length name) (cstr p) = name"

definition next_param :: "set_state \<Rightarrow> env_fault + set_state" where
  "next_param s =
     (if curr_str_idx s + 1 \<ge> MAX_PARAMS then Inl Stack_Overflow
      else put_bytes (curr_str s) [0]
             (s\<lparr>curr_str_idx := curr_str_idx s + 1, name_ptr := curr_str s, value_ptr := None\<rparr>))"

text \<open>The end of a \<open>name=value\<close> string whose first byte is not NUL: overwrite, delete or keep.\<close>

definition end_of_param :: "bytes \<Rightarrow> bytes option \<Rightarrow> set_state \<Rightarrow> env_fault + set_state" where
  "end_of_param name val s =
     (if strncmp_eq (drop (name_ptr s) (mem s)) name then
        (case val of
           Some v \<Rightarrow>
             (case value_ptr s of
                None \<Rightarrow> Inl Wild_Pointer
              | Some p \<Rightarrow>
                  (case put_bytes p (v @ [0]) (s\<lparr>param_found := True\<rparr>) of
                     Inl e \<Rightarrow> Inl e
                   | Inr s \<Rightarrow> next_param (s\<lparr>curr_str := p + length v + 1\<rparr>)))
         | None \<Rightarrow>
             put_bytes (name_ptr s) [0] (s\<lparr>param_found := True, curr_str := name_ptr s\<rparr>))
      else next_param s)"

text \<open>
  The loop over the characters of the file; the empty list is the call of \<open>fgetc\<close> that returns
  EOF, which is stored as the byte 0xFF before \<open>feof\<close> ends the loop.
\<close>

fun set_loop :: "bytes \<Rightarrow> bytes option \<Rightarrow> set_state \<Rightarrow> bytes \<Rightarrow> env_fault + set_state" where
  "set_loop name val s [] =
     (if curr_str_idx s \<ge> MAX_PARAMS \<or> curr_str s \<ge> ENV_HEADER_SIZE + 0x10000
      then put_char 0 (s\<lparr>out_of_space := True\<rparr>)
      else put_char 0xFF s)"
| "set_loop name val s (c # cs) =
     (if curr_str_idx s \<ge> MAX_PARAMS \<or> curr_str s \<ge> ENV_HEADER_SIZE + 0x10000
      then put_char 0 (s\<lparr>out_of_space := True\<rparr>)
      else
        (case put_char c s of
           Inl e \<Rightarrow> Inl e
         | Inr s \<Rightarrow>
             if c = EQ then set_loop name val (s\<lparr>value_ptr := Some (curr_str s)\<rparr>) cs
             else if c = 0 then
               (if mem s ! name_ptr s \<noteq> 0 then
                  (case end_of_param name val s of
                     Inl e \<Rightarrow> Inl e
                   | Inr s \<Rightarrow> set_loop name val s cs)
                else Inr (s\<lparr>curr_str := curr_str s - 1\<rparr>))
             else set_loop name val s cs))"

definition append_param :: "bytes \<Rightarrow> bytes option \<Rightarrow> set_state \<Rightarrow> env_fault + set_state" where
  "append_param name val s =
     (case val of
        Some v \<Rightarrow>
          (if \<not> param_found s \<and> \<not> out_of_space s then
             (case put_bytes (curr_str s) (name @ EQ # v @ [0]) s of
                Inl e \<Rightarrow> Inl e
              | Inr s \<Rightarrow> Inr (s\<lparr>curr_str := curr_str s + length name + 1 + length v + 1,
                               curr_str_idx := curr_str_idx s + 1\<rparr>))
           else Inr s)
      | None \<Rightarrow> Inr s)"

text \<open>The four bytes of the checksum as the little-endian target stores them.\<close>

definition le_bytes :: "u32 \<Rightarrow> bytes" where
  "le_bytes w = [ucast w, ucast (drop_bit 8 w), ucast (drop_bit 16 w), ucast (drop_bit 24 w)]"

definition seal :: "set_state \<Rightarrow> bytes" where
  "seal s = le_bytes (crc32 0 (take ENV_SIZE (drop ENV_HEADER_SIZE (mem s))))
              @ drop ENV_HEADER_SIZE (mem s)"

definition init_state :: "bytes \<Rightarrow> set_state" where
  "init_state hdr =
     \<lparr>mem = hdr @ replicate (CFG_ENV_SIZE - length hdr) 0, curr_str = ENV_HEADER_SIZE,
      curr_str_idx = 0, name_ptr = ENV_HEADER_SIZE, value_ptr = None,
      param_found = False, out_of_space = False\<rparr>"

text \<open>
  \<open>main\<close>: the arguments after the program name, the content of the device (\<open>None\<close> when it cannot
  be opened for reading), whether \<open>malloc\<close> succeeds and whether the device can be opened for
  writing. The result is a fault, or the exit code and what was written to the device.
\<close>

definition set_env_param ::
    "bytes list \<Rightarrow> bytes option \<Rightarrow> bool \<Rightarrow> bool \<Rightarrow> env_fault + (int \<times> bytes option)" where
  "set_env_param args dev malloc_ok writable =
     (if length args > 2 \<or> length args < 1 then Inr (1, None)
      else
        let name = args ! 0; val = (if length args = 2 then Some (args ! 1) else None) in
        case dev of
          None \<Rightarrow> Inr (1, None)
        | Some f \<Rightarrow>
            if \<not> malloc_ok then Inr (1, None)
            else
              let s0 = init_state (take 4 f) in
              case (if length f < 4 then Inr s0 else set_loop name val s0 (drop 4 f)) of
                Inl e \<Rightarrow> Inl e
              | Inr s \<Rightarrow>
                  (case append_param name val s of
                     Inl e \<Rightarrow> Inl e
                   | Inr s \<Rightarrow> if writable then Inr (0, Some (seal s)) else Inr (1, None)))"


section \<open>The abstract view of a sector\<close>

definition encode_entry :: "bytes \<times> bytes \<Rightarrow> bytes" where
  "encode_entry e = fst e @ EQ # snd e @ [0]"

definition encode :: "(bytes \<times> bytes) list \<Rightarrow> bytes" where
  "encode es = concat (map encode_entry es)"

definition wf_name :: "bytes \<Rightarrow> bool" where
  "wf_name n \<longleftrightarrow> n \<noteq> [] \<and> 0 \<notin> set n \<and> EQ \<notin> set n \<and> length n \<le> 254"

definition wf_value :: "bytes \<Rightarrow> bool" where
  "wf_value v \<longleftrightarrow> 0 \<notin> set v \<and> EQ \<notin> set v \<and> length v \<le> 254"

definition wf_env :: "(bytes \<times> bytes) list \<Rightarrow> bool" where
  "wf_env es \<longleftrightarrow> list_all (\<lambda>e. wf_name (fst e) \<and> wf_value (snd e)) es"

text \<open>What a call with a value does to the entries: every entry whose name starts with the
  given one gets the value, and only when there is none an entry is added.\<close>

definition set_entries :: "bytes \<Rightarrow> bytes \<Rightarrow> (bytes \<times> bytes) list \<Rightarrow> (bytes \<times> bytes) list" where
  "set_entries name v es =
     (if list_ex (\<lambda>e. prefix name (fst e)) es
      then map (\<lambda>e. (fst e, if prefix name (fst e) then v else snd e)) es
      else es @ [(name, v)])"

lemma encode_simps [simp]:
  "encode [] = []"
  "encode (e # es) = fst e @ EQ # snd e @ 0 # encode es"
  "encode (xs @ ys) = encode xs @ encode ys"
  by (auto simp: encode_def encode_entry_def)

section \<open>Lemmas about get\_env\_param\<close>

lemma c_streq_name:
  "0 \<notin> set n \<Longrightarrow> 0 \<notin> set name \<Longrightarrow> c_streq (n @ 0 # r) name = Some (n = name)"
  by (induction n arbitrary: name) (case_tac name; auto)+

lemma list_blit_one:
  "i < length p \<Longrightarrow> p[i := c] = take i p @ c # drop (Suc i) p"
  by (simp add: upd_conv_take_nth_drop)

lemma get_plain_name:
  assumes "0 \<notin> set w" "EQ \<notin> set w" "curr_idx s + length w \<le> 255" "\<not> in_value s"
    and "length (curr_param s) = 256"
  shows "get_loop name s (w @ cs) = get_loop name
    (s\<lparr>curr_param := take (curr_idx s) (curr_param s) @ w @ drop (curr_idx s + length w) (curr_param s),
       curr_idx := curr_idx s + length w\<rparr>) cs"
  using assms
proof (induction w arbitrary: s)
  case (Cons c w)
  have "get_loop name s ((c # w) @ cs) = get_loop name (get_store s c) (w @ cs)"
    using Cons.prems by (simp add: Let_def)
  also have "\<dots> = get_loop name
      (s\<lparr>curr_param := take (curr_idx s) (curr_param s) @ c # w
            @ drop (Suc (curr_idx s + length w)) (curr_param s),
         curr_idx := Suc (curr_idx s + length w)\<rparr>) cs"
    using Cons.prems by (subst Cons.IH) (auto simp: get_store_def set_curr_str_def list_blit_one ac_simps)
  finally show ?case by simp
qed simp

lemma get_plain_value:
  assumes "0 \<notin> set w" "EQ \<notin> set w" "curr_idx s + length w \<le> 255" "in_value s"
    and "length (param_value s) = 256"
  shows "get_loop name s (w @ cs) = get_loop name
    (s\<lparr>param_value := take (curr_idx s) (param_value s) @ w @ drop (curr_idx s + length w) (param_value s),
       curr_idx := curr_idx s + length w\<rparr>) cs"
  using assms
proof (induction w arbitrary: s)
  case (Cons c w)
  have "get_loop name s ((c # w) @ cs) = get_loop name (get_store s c) (w @ cs)"
    using Cons.prems by (simp add: Let_def)
  also have "\<dots> = get_loop name
      (s\<lparr>param_value := take (curr_idx s) (param_value s) @ c # w
            @ drop (Suc (curr_idx s + length w)) (param_value s),
         curr_idx := Suc (curr_idx s + length w)\<rparr>) cs"
    using Cons.prems by (subst Cons.IH) (auto simp: get_store_def set_curr_str_def list_blit_one ac_simps)
  finally show ?case by simp
qed simp

definition get_ready :: "get_state \<Rightarrow> bool" where
  "get_ready s \<longleftrightarrow> length (curr_param s) = 256 \<and> length (param_value s) = 256
     \<and> \<not> in_value s \<and> curr_idx s = 0"

definition get_in_value :: "bytes \<Rightarrow> get_state \<Rightarrow> bool" where
  "get_in_value n s \<longleftrightarrow> length (curr_param s) = 256 \<and> length (param_value s) = 256
     \<and> in_value s \<and> curr_idx s = 0 \<and> (\<exists>r. curr_param s = n @ 0 # r)"

lemma get_name_part:
  assumes "get_ready s" "wf_name n"
  shows "\<exists>s'. get_in_value n s' \<and> get_loop name s (n @ EQ # cs) = get_loop name s' cs"
proof -
  let ?s1 = "s\<lparr>curr_param := n @ drop (length n) (curr_param s), curr_idx := length n\<rparr>"
  let ?s2 = "s\<lparr>curr_param := n @ 0 # drop (Suc (length n)) (curr_param s),
                curr_idx := 0, in_value := True\<rparr>"
  have n: "0 \<notin> set n" "EQ \<notin> set n" "length n \<le> 254"
    and s: "length (curr_param s) = 256" "length (param_value s) = 256" "\<not> in_value s" "curr_idx s = 0"
    using assms by (auto simp: wf_name_def get_ready_def)
  have d: "drop (length n) (curr_param s)
      = curr_param s ! length n # drop (Suc (length n)) (curr_param s)"
    using n s by (auto simp: Cons_nth_drop_Suc)
  have "get_loop name s (n @ EQ # cs) = get_loop name ?s1 (EQ # cs)"
    using n s by (subst get_plain_name) auto
  also have "\<dots> = get_loop name ?s2 cs"
    using n s by (simp add: get_store_def set_curr_str_def Let_def d list_update_append)
  finally show ?thesis using n s by (intro exI [of _ ?s2]) (simp add: get_in_value_def)
qed

lemma get_value_part:
  assumes "get_in_value n s" "wf_value v" "0 \<notin> set n" "0 \<notin> set name"
  shows "\<exists>s'. get_ready s' \<and>
    get_loop name s (v @ 0 # cs) = (if n = name then Printed v else get_loop name s' cs)"
proof -
  let ?s3 = "s\<lparr>param_value := v @ drop (length v) (param_value s), curr_idx := length v\<rparr>"
  let ?s4 = "s\<lparr>curr_idx := 0, in_value := False,
                param_value := v @ 0 # drop (Suc (length v)) (param_value s)\<rparr>"
  let ?s5 = "?s4\<lparr>curr_param := (curr_param ?s4)[0 := 0], param_value := (param_value ?s4)[0 := 0]\<rparr>"
  obtain r where v: "0 \<notin> set v" "EQ \<notin> set v" "length v \<le> 254"
    and s: "length (curr_param s) = 256" "length (param_value s) = 256" "in_value s" "curr_idx s = 0"
      "curr_param s = n @ 0 # r"
    using assms by (auto simp: wf_value_def get_in_value_def)
  have d: "drop (length v) (param_value s)
      = param_value s ! length v # drop (Suc (length v)) (param_value s)"
    using v s by (auto simp: Cons_nth_drop_Suc)
  have "get_loop name s (v @ 0 # cs) = get_loop name ?s3 (0 # cs)"
    using v s by (subst get_plain_value) auto
  also have "\<dots> = (if n = name then Printed v else get_loop name ?s5 cs)"
    using v s assms(3,4)
    by (simp add: get_store_def set_curr_str_def Let_def d list_update_append c_streq_name)
  finally show ?thesis using v s by (intro exI [of _ ?s5]) (simp add: get_ready_def)
qed

lemma get_second_eq:
  assumes "get_in_value n s" "wf_value a"
  shows "\<exists>s'. get_in_value n s' \<and> get_loop name s (a @ EQ # cs) = get_loop name s' cs"
proof -
  let ?s3 = "s\<lparr>param_value := a @ drop (length a) (param_value s), curr_idx := length a\<rparr>"
  let ?s4 = "s\<lparr>param_value := a @ 0 # drop (Suc (length a)) (param_value s), curr_idx := 0,
                in_value := True\<rparr>"
  have a: "0 \<notin> set a" "EQ \<notin> set a" "length a \<le> 254"
    and s: "length (param_value s) = 256" "in_value s" "curr_idx s = 0"
    using assms by (auto simp: wf_value_def get_in_value_def)
  have d: "drop (length a) (param_value s)
      = param_value s ! length a # drop (Suc (length a)) (param_value s)"
    using a s by (auto simp: Cons_nth_drop_Suc)
  have "get_loop name s (a @ EQ # cs) = get_loop name ?s3 (EQ # cs)"
    using a s by (subst get_plain_value) auto
  also have "\<dots> = get_loop name ?s4 cs"
    using a s by (simp add: get_store_def set_curr_str_def Let_def d list_update_append)
  finally show ?thesis using assms a s by (intro exI [of _ ?s4]) (simp add: get_in_value_def)
qed

lemma get_entry:
  assumes "get_ready s" "wf_name n" "wf_value v" "0 \<notin> set name"
  shows "\<exists>s'. get_ready s' \<and>
    get_loop name s (n @ EQ # v @ 0 # cs) = (if n = name then Printed v else get_loop name s' cs)"
proof -
  have "0 \<notin> set n" using assms(2) by (simp add: wf_name_def)
  obtain s1 where s1: "get_in_value n s1"
    "get_loop name s (n @ EQ # v @ 0 # cs) = get_loop name s1 (v @ 0 # cs)"
    using get_name_part [OF assms(1,2)] by blast
  show ?thesis using get_value_part [OF s1(1) assms(3) \<open>0 \<notin> set n\<close> assms(4)] s1(2) by simp
qed

lemma get_entries:
  assumes "wf_env es" "0 \<notin> set name"
  shows "get_ready s \<Longrightarrow> \<exists>s'. get_ready s' \<and>
    get_loop name s (encode es @ cs) =
      (case map_of es name of Some v \<Rightarrow> Printed v | None \<Rightarrow> get_loop name s' cs)"
  using assms(1)
proof (induction es arbitrary: s)
  case Nil
  then show ?case by auto
next
  case (Cons e es)
  then have e: "wf_name (fst e)" "wf_value (snd e)" "wf_env es"
    by (auto simp: wf_env_def)
  obtain s1 where s1: "get_ready s1"
    "get_loop name s (fst e @ EQ # snd e @ 0 # encode es @ cs)
      = (if fst e = name then Printed (snd e) else get_loop name s1 (encode es @ cs))"
    using get_entry [OF Cons.prems(1) e(1,2) assms(2)] by blast
  obtain s2 where "get_ready s2" "get_loop name s1 (encode es @ cs) =
      (case map_of es name of Some v \<Rightarrow> Printed v | None \<Rightarrow> get_loop name s2 cs)"
    using Cons.IH [OF s1(1) e(3)] by blast
  with s1 show ?case by (cases e) (auto intro: exI [of _ s2])
qed

lemma get_padding: "get_ready s \<Longrightarrow> wf_name name \<Longrightarrow> get_loop name s (replicate k 0) = Not_Found"
proof (induction k arbitrary: s)
  case (Suc k)
  then obtain p ps q qs where s: "curr_param s = p # ps" "param_value s = q # qs"
    by (cases "curr_param s"; cases "param_value s") (auto simp: get_ready_def)
  let ?s' = "s\<lparr>curr_idx := 0, in_value := False, curr_param := 0 # ps, param_value := 0 # qs\<rparr>"
  from Suc.prems obtain c name' where c: "name = c # name'" "c \<noteq> 0"
    by (cases name) (auto simp: wf_name_def)
  have "get_ready ?s'" using Suc.prems s by (simp add: get_ready_def)
  moreover have "get_loop name s (replicate (Suc k) 0) = get_loop name ?s' (replicate k 0)"
    using Suc.prems s c by (simp add: get_ready_def get_store_def set_curr_str_def Let_def)
  ultimately show ?case using Suc by simp
qed simp


section \<open>Lemmas about set\_env\_param\<close>

definition env_room :: "(bytes \<times> bytes) list \<Rightarrow> bytes \<Rightarrow> bytes \<Rightarrow> nat" where
  "env_room es name v =
     sum_list (map (\<lambda>e. length (fst e) + max (length (snd e)) (length v) + 2) es)
       + length name + length v + 3"

text \<open>The state between two strings of the sector: \<open>X\<close> is what has been written so far.\<close>

definition set_at :: "bytes \<Rightarrow> nat \<Rightarrow> bool \<Rightarrow> set_state \<Rightarrow> bool" where
  "set_at X k fnd s \<longleftrightarrow>
     (\<exists>D. mem s = X @ 0 # D \<and> (fnd \<or> set D \<subseteq> {0})) \<and> length (mem s) = CFG_ENV_SIZE
     \<and> curr_str s = length X \<and> name_ptr s = length X \<and> curr_str_idx s = k
     \<and> param_found s = fnd \<and> \<not> out_of_space s"

lemma put_bytes_at:
  "mem s = X @ D \<Longrightarrow> p = length X \<Longrightarrow> length X + length w \<le> CFG_ENV_SIZE \<Longrightarrow>
   put_bytes p w s = Inr (s\<lparr>mem := X @ w @ drop (length w) D\<rparr>)"
  by (simp add: put_bytes_def)

lemma put_char_at:
  "mem s = X @ D \<Longrightarrow> curr_str s = length X \<Longrightarrow> length X < CFG_ENV_SIZE \<Longrightarrow>
   put_char c s = Inr (s\<lparr>mem := X @ c # drop 1 D, curr_str := length X + 1\<rparr>)"
  by (simp add: put_char_def put_bytes_at)

lemma set_plain:
  assumes "0 \<notin> set w" "EQ \<notin> set w" "curr_str_idx s < MAX_PARAMS"
    and "mem s = X @ D" "curr_str s = length X" "length X + length w \<le> CFG_ENV_SIZE"
  shows "set_loop name val s (w @ cs) =
    set_loop name val (s\<lparr>mem := X @ w @ drop (length w) D, curr_str := length X + length w\<rparr>) cs"
  using assms
proof (induction w arbitrary: s X D)
  case (Cons c w)
  let ?s = "s\<lparr>mem := X @ c # drop 1 D, curr_str := length X + 1\<rparr>"
  have "set_loop name val s ((c # w) @ cs) = set_loop name val ?s (w @ cs)"
    using Cons.prems by (simp add: put_char_at)
  also have "\<dots> = set_loop name val
      (?s\<lparr>mem := (X @ [c]) @ w @ drop (length w) (drop 1 D),
          curr_str := length (X @ [c]) + length w\<rparr>) cs"
    using Cons.prems by (intro Cons.IH) auto
  finally show ?case by (simp add: ac_simps)
next
  case Nil
  then have "s\<lparr>mem := X @ D, curr_str := length X\<rparr> = s" by (cases s) simp
  then show ?case by simp
qed

lemma strncmp_eq_prefix:
  assumes "0 \<notin> set n" "0 \<notin> set w" "EQ \<notin> set name"
  shows "strncmp_eq (n @ EQ # w @ 0 # r) name \<longleftrightarrow> prefix name n"
proof -
  have "cstr (n @ EQ # w @ 0 # r) = n @ EQ # w"
    using cstr_append_nul [of "n @ EQ # w" r] assms by simp
  moreover have "take (length name) (n @ EQ # w) = name \<longleftrightarrow> prefix name (n @ EQ # w)"
    by (metis append_eq_conv_conj prefix_def append_take_drop_id)
  moreover have "prefix name (n @ EQ # w) \<longleftrightarrow> prefix name n"
    using assms(3) by (auto simp: prefix_append prefix_Cons)
  ultimately show ?thesis by (simp add: strncmp_eq_def)
qed

lemma next_param_at:
  assumes "mem s = X @ D" "curr_str s = length X" "length (mem s) = CFG_ENV_SIZE"
    and "length X < CFG_ENV_SIZE" "curr_str_idx s + 1 < MAX_PARAMS" "\<not> out_of_space s"
    and "param_found s \<or> set D \<subseteq> {0}"
  shows "\<exists>s'. next_param s = Inr s' \<and> set_at X (curr_str_idx s + 1) (param_found s) s'"
proof -
  let ?s = "s\<lparr>curr_str_idx := curr_str_idx s + 1, name_ptr := curr_str s, value_ptr := None\<rparr>"
  have "next_param s = Inr (?s\<lparr>mem := X @ [0] @ drop 1 D\<rparr>)"
    using assms put_bytes_at [of ?s X D "length X" "[0]"] by (simp add: next_param_def)
  moreover have "set_at X (curr_str_idx s + 1) (param_found s) (?s\<lparr>mem := X @ [0] @ drop 1 D\<rparr>)"
    using assms by (auto simp: set_at_def dest: in_set_dropD)
  ultimately show ?thesis by blast
qed

lemma set_string:
  assumes at: "set_at X k fnd s" and k: "k < MAX_PARAMS"
    and n: "0 \<notin> set n" "EQ \<notin> set n" and w: "0 \<notin> set w" "EQ \<notin> set w"
    and room: "length X + length n + length w + 2 \<le> CFG_ENV_SIZE"
  shows "\<exists>s' D. set_loop name val s (n @ EQ # w @ cs) = set_loop name val s' cs
    \<and> mem s' = X @ n @ EQ # w @ D \<and> length (mem s') = CFG_ENV_SIZE
    \<and> curr_str s' = length X + length n + 1 + length w \<and> name_ptr s' = length X
    \<and> value_ptr s' = Some (length X + length n + 1) \<and> curr_str_idx s' = k
    \<and> param_found s' = fnd \<and> \<not> out_of_space s' \<and> (fnd \<or> set D \<subseteq> {0})"
proof -
  from at obtain D where D: "mem s = X @ D" "fnd \<or> set D \<subseteq> {0}" "length (X @ D) = CFG_ENV_SIZE"
    by (auto simp: set_at_def)
  let ?s1 = "s\<lparr>mem := X @ n @ drop (length n) D, curr_str := length X + length n\<rparr>"
  let ?s2 = "?s1\<lparr>mem := (X @ n) @ EQ # drop 1 (drop (length n) D),
      curr_str := length (X @ n) + 1, value_ptr := Some (length (X @ n) + 1)\<rparr>"
  let ?s3 = "?s2\<lparr>mem := (X @ n @ [EQ]) @ w @ drop (length w) (drop 1 (drop (length n) D)),
      curr_str := length (X @ n @ [EQ]) + length w\<rparr>"
  have "set_loop name val s (n @ EQ # w @ cs) = set_loop name val ?s1 (EQ # w @ cs)"
    using at k n room D by (intro set_plain) (auto simp: set_at_def)
  also have "\<dots> = set_loop name val ?s2 (w @ cs)"
    using at k room put_char_at [of ?s1 "X @ n" "drop (length n) D" EQ]
    by (simp add: set_at_def)
  also have "\<dots> = set_loop name val ?s3 cs"
    using at k w room by (intro set_plain) (auto simp: set_at_def)
  finally have "set_loop name val s (n @ EQ # w @ cs) = set_loop name val ?s3 cs" .
  then show ?thesis
    using at D room by (intro exI [of _ ?s3]) (auto simp: set_at_def dest!: in_set_dropD)
qed

lemma set_entry:
  assumes at: "set_at X k fnd s" and k: "k + 1 < MAX_PARAMS"
    and n: "wf_name n" and w: "wf_value w" and name: "EQ \<notin> set name"
    and room: "length X + length n + max (length w) (length v) + 3 \<le> CFG_ENV_SIZE"
  shows "\<exists>s'. set_loop name (Some v) s (n @ EQ # w @ 0 # cs) = set_loop name (Some v) s' cs
    \<and> set_at (X @ n @ EQ # (if prefix name n then v else w) @ [0]) (k + 1)
        (fnd \<or> prefix name n) s'"
proof -
  have nw: "0 \<notin> set n" "EQ \<notin> set n" "0 \<notin> set w" "EQ \<notin> set w" "n \<noteq> []"
    using n w by (auto simp: wf_name_def wf_value_def)
  have k': "k < MAX_PARAMS" and room': "length X + length n + length w + 2 \<le> CFG_ENV_SIZE"
    using k room by simp_all
  obtain s1 D where s1: "set_loop name (Some v) s (n @ EQ # w @ 0 # cs) = set_loop name (Some v) s1 (0 # cs)"
    "mem s1 = X @ n @ EQ # w @ D" "length (mem s1) = CFG_ENV_SIZE"
    "curr_str s1 = length X + length n + 1 + length w" "name_ptr s1 = length X"
    "value_ptr s1 = Some (length X + length n + 1)" "curr_str_idx s1 = k"
    "param_found s1 = fnd" "\<not> out_of_space s1" "fnd \<or> set D \<subseteq> {0}"
    using set_string [OF at k' nw(1,2,3,4) room', of name "Some v" "0 # cs"] by blast
  let ?s2 = "s1\<lparr>mem := (X @ n @ EQ # w) @ 0 # drop 1 D, curr_str := length (X @ n @ EQ # w) + 1\<rparr>"
  have put: "put_char 0 s1 = Inr ?s2"
    using s1 room by (intro put_char_at) auto
  have match: "strncmp_eq (drop (name_ptr ?s2) (mem ?s2)) name \<longleftrightarrow> prefix name n"
    using s1 nw name strncmp_eq_prefix [of n w name "drop 1 D"] by simp
  have first: "mem ?s2 ! name_ptr ?s2 \<noteq> 0"
    using nw s1 by (cases n) (auto simp: nth_append)
  have "\<exists>s3. end_of_param name (Some v) ?s2 = Inr s3
      \<and> set_at (X @ n @ EQ # (if prefix name n then v else w) @ [0]) (k + 1) (fnd \<or> prefix name n) s3"
  proof (cases "prefix name n")
    case True
    let ?s3 = "?s2\<lparr>param_found := True,
        mem := (X @ n @ [EQ]) @ (v @ [0]) @ drop (length v + 1) (w @ 0 # drop 1 D),
        curr_str := length (X @ n @ EQ # v @ [0])\<rparr>"
    have "end_of_param name (Some v) ?s2 = next_param ?s3"
      using True match s1 room
        put_bytes_at [of "?s2\<lparr>param_found := True\<rparr>" "X @ n @ [EQ]" "w @ 0 # drop 1 D"
          "length X + length n + 1" "v @ [0]"]
      by (simp add: end_of_param_def ac_simps)
    moreover have "\<exists>s'. next_param ?s3 = Inr s' \<and>
        set_at (X @ n @ EQ # v @ [0]) (curr_str_idx ?s3 + 1) (param_found ?s3) s'"
      using s1 k room by (intro next_param_at) auto
    ultimately show ?thesis using True s1 by simp
  next
    case False
    have "\<exists>s'. next_param ?s2 = Inr s' \<and>
        set_at (X @ n @ EQ # w @ [0]) (curr_str_idx ?s2 + 1) (param_found ?s2) s'"
      using s1 k room by (intro next_param_at [where D = "drop 1 D"]) (auto dest: in_set_dropD)
    then show ?thesis using False match s1 by (simp add: end_of_param_def)
  qed
  then show ?thesis using s1 k room put first by auto
qed


lemma set_entries_loop:
  assumes "EQ \<notin> set name"
  shows "set_at X k fnd s \<Longrightarrow> wf_env es \<Longrightarrow> k + length es < MAX_PARAMS \<Longrightarrow>
    length X + env_room es name v \<le> CFG_ENV_SIZE \<Longrightarrow>
    \<exists>s'. set_loop name (Some v) s (encode es @ cs) = set_loop name (Some v) s' cs
      \<and> set_at (X @ encode (map (\<lambda>e. (fst e, if prefix name (fst e) then v else snd e)) es))
           (k + length es) (fnd \<or> list_ex (\<lambda>e. prefix name (fst e)) es) s'"
proof (induction es arbitrary: X k fnd s)
  case Nil
  then show ?case by auto
next
  case (Cons e es)
  let ?w = "if prefix name (fst e) then v else snd e"
  have e: "wf_name (fst e)" "wf_value (snd e)" "wf_env es"
    using Cons.prems by (auto simp: wf_env_def)
  obtain s1 where s1:
    "set_loop name (Some v) s (fst e @ EQ # snd e @ 0 # encode es @ cs)
       = set_loop name (Some v) s1 (encode es @ cs)"
    "set_at (X @ fst e @ EQ # ?w @ [0]) (k + 1) (fnd \<or> prefix name (fst e)) s1"
    using set_entry [OF Cons.prems(1) _ e(1,2) assms, of v "encode es @ cs"] Cons.prems
    by (auto simp: env_room_def)
  have room: "length (X @ fst e @ EQ # ?w @ [0]) + env_room es name v \<le> CFG_ENV_SIZE"
    using Cons.prems by (auto simp: env_room_def)
  obtain s2 where
    "set_loop name (Some v) s1 (encode es @ cs) = set_loop name (Some v) s2 cs"
    "set_at ((X @ fst e @ EQ # ?w @ [0]) @ encode (map (\<lambda>e. (fst e, if prefix name (fst e) then v else snd e)) es))
       (k + 1 + length es) ((fnd \<or> prefix name (fst e)) \<or> list_ex (\<lambda>e. prefix name (fst e)) es) s2"
    using Cons.IH [OF s1(2) e(3) _ room] Cons.prems by auto
  with s1 show ?case by (intro exI [of _ s2]) auto
qed

lemma set_loop_end:
  assumes "set_at X k fnd s" "k < MAX_PARAMS" "length X < CFG_ENV_SIZE"
  shows "\<exists>s'. set_loop name val s (0 # rest) = Inr s' \<and> set_at X k fnd s'"
proof -
  from assms(1) obtain D where D: "mem s = X @ 0 # D" by (auto simp: set_at_def)
  have put: "put_char 0 s = Inr (s\<lparr>mem := X @ 0 # drop 1 (0 # D), curr_str := length X + 1\<rparr>)"
    using assms by (intro put_char_at [OF D]) (auto simp: set_at_def)
  then have "set_loop name val s (0 # rest)
      = Inr (s\<lparr>mem := X @ 0 # D, curr_str := length X\<rparr>)"
    using assms D by (simp add: set_at_def)
  then show ?thesis using assms(1) D by (auto simp: set_at_def)
qed

lemma append_param_at:
  assumes "set_at X k fnd s" "length X + length name + length v + 3 \<le> CFG_ENV_SIZE"
  shows "\<exists>s' pad. append_param name (Some v) s = Inr s' \<and> length (mem s') = CFG_ENV_SIZE
    \<and> mem s' = X @ (if fnd then [] else name @ EQ # v @ [0]) @ 0 # pad"
proof (cases fnd)
  case True
  with assms(1) show ?thesis by (auto simp: set_at_def append_param_def)
next
  case False
  with assms(1) obtain D where D: "mem s = X @ 0 # D" "set D \<subseteq> {0}" "length (X @ 0 # D) = CFG_ENV_SIZE"
    by (auto simp: set_at_def)
  let ?w = "name @ EQ # v @ [0]"
  have zeros: "replicate (length D + 1) 0 = 0 # D"
    using replicate_length_same [of D 0] D(2) by auto
  have rest: "drop (length ?w) (0 # D) = 0 # drop (length ?w + 1) (0 # D)"
    using assms(2) D(3) by (simp flip: zeros add: drop_replicate replicate_Suc [symmetric] del: replicate_Suc)
  have "append_param name (Some v) s =
      Inr (s\<lparr>mem := X @ ?w @ drop (length ?w) (0 # D),
             curr_str := curr_str s + length name + 1 + length v + 1,
             curr_str_idx := curr_str_idx s + 1\<rparr>)"
    using assms False put_bytes_at [OF D(1), of "length X" ?w]
    by (simp add: append_param_def set_at_def)
  then show ?thesis using False rest D(3) assms(2)
    by (auto simp: set_at_def intro!: exI [of _ "drop (length ?w + 1) (0 # D)"])
qed

lemma map_no_match:
  "\<not> list_ex (\<lambda>e. P (fst e)) es \<Longrightarrow> map (\<lambda>e. (fst e, if P (fst e) then v else snd e)) es = es"
  by (induction es) auto

text \<open>The sector written by \<open>set_env_param name value\<close>.\<close>

lemma set_env_param_writes:
  assumes es: "wf_env es" "length es < MAX_PARAMS" and name: "wf_name name"
    and hdr: "length hdr = 4" and room: "4 + env_room es name v \<le> CFG_ENV_SIZE"
  shows "\<exists>pad. let body = encode (set_entries name v es) @ 0 # pad in
    length body = ENV_SIZE \<and>
    set_env_param [name, v] (Some (hdr @ encode es @ 0 # rest)) True True
      = Inr (0, Some (le_bytes (crc32 0 body) @ body))"
proof -
  let ?upd = "map (\<lambda>e. (fst e, if prefix name (fst e) then v else snd e)) es"
  let ?fnd = "list_ex (\<lambda>e. prefix name (fst e)) es"
  have eq: "EQ \<notin> set name" using name by (simp add: wf_name_def)
  have "set_at hdr 0 False (init_state hdr)"
    using hdr by (auto simp: set_at_def init_state_def intro!: exI [of _ "replicate (CFG_ENV_SIZE - 5) 0"]
        simp flip: replicate_Suc)
  then obtain s1 where s1:
    "set_loop name (Some v) (init_state hdr) (encode es @ 0 # rest) = set_loop name (Some v) s1 (0 # rest)"
    "set_at (hdr @ encode ?upd) (length es) ?fnd s1"
    using set_entries_loop [OF eq, of hdr 0 False "init_state hdr" es v "0 # rest"] es hdr room by auto
  have len: "length (encode ?upd) + length name + length v + 3 \<le> env_room es name v"
    by (induction es) (auto simp: env_room_def)
  obtain s2 where s2: "set_loop name (Some v) s1 (0 # rest) = Inr s2"
    "set_at (hdr @ encode ?upd) (length es) ?fnd s2"
    using set_loop_end [OF s1(2) es(2), of name "Some v" rest] hdr room len
    by (auto simp del: set_loop.simps)
  obtain s3 pad where s3: "append_param name (Some v) s2 = Inr s3" "length (mem s3) = CFG_ENV_SIZE"
    "mem s3 = (hdr @ encode ?upd) @ (if ?fnd then [] else name @ EQ # v @ [0]) @ 0 # pad"
    using append_param_at [OF s2(2), of name v] hdr room len by auto
  have body: "mem s3 = hdr @ encode (set_entries name v es) @ 0 # pad"
    using s3(3) by (cases ?fnd) (simp_all add: set_entries_def map_no_match)
  show ?thesis
    using s1 s2 s3 body hdr
    by (intro exI [of _ pad]) (auto simp: set_env_param_def seal_def Let_def)
qed


lemma get_env_param_entries:
  assumes "wf_env es" "0 \<notin> set name" "length (fst junk) = 256" "length (snd junk) = 256"
    and "length hdr = 4"
  shows "\<exists>s. get_ready s \<and> get_env_param junk [name] (Some (hdr @ encode es @ cs)) =
    (case map_of es name of Some v \<Rightarrow> Printed v | None \<Rightarrow> get_loop name s cs)"
proof -
  have "get_ready \<lparr>curr_param = (fst junk)[0 := 0], param_value = (snd junk)[0 := 0],
      in_value = False, curr_idx = 0\<rparr>"
    using assms by (simp add: get_ready_def)
  from get_entries [OF assms(1,2) this] show ?thesis
    using assms(5) by (auto simp: get_env_param_def)
qed

lemma wf_env_set_entries:
  "wf_env es \<Longrightarrow> wf_name name \<Longrightarrow> wf_value v \<Longrightarrow> wf_env (set_entries name v es)"
  by (auto simp: wf_env_def set_entries_def list_all_iff)

lemma map_of_set_entries:
  "map_of (set_entries name v es) m =
     (if list_ex (\<lambda>e. prefix name (fst e)) es
      then (case map_of es m of None \<Rightarrow> None | Some w \<Rightarrow> Some (if prefix name m then v else w))
      else (case map_of es m of None \<Rightarrow> if m = name then Some v else None | Some w \<Rightarrow> Some w))"
proof -
  have "map_of (map (\<lambda>e. (fst e, if prefix name (fst e) then v else snd e)) es) m =
      (case map_of es m of None \<Rightarrow> None | Some w \<Rightarrow> Some (if prefix name m then v else w))"
    by (induction es) auto
  then show ?thesis
    by (auto simp: set_entries_def map_add_def split: option.splits)
qed


section \<open>Properties\<close>

text \<open>
  C1: \<open>set_env_param name value\<close> on a well-formed sector with room writes a full sector whose
  checksum is right and whose entries are the old ones with the value stored under every name
  that starts with the given one, or with one entry added when there is none.
\<close>

theorem set_env_param_refines:
  assumes "wf_env es" "length es < MAX_PARAMS" "wf_name name"
    and "length hdr = 4" "4 + env_room es name v \<le> CFG_ENV_SIZE"
  shows "\<exists>pad. let body = encode (set_entries name v es) @ 0 # pad in
    length body = ENV_SIZE \<and>
    set_env_param [name, v] (Some (hdr @ encode es @ 0 # rest)) True True
      = Inr (0, Some (le_bytes (crc32 0 body) @ body))"
  by (rule set_env_param_writes [OF assms])

theorem set_env_param_refines_witness:
  "\<exists>pad. let body = encode (set_entries [0x62] [0x31] [([0x61], [0x30])]) @ 0 # pad in
    length body = ENV_SIZE \<and>
    set_env_param [[0x62], [0x31]] (Some ([1, 2, 3, 4] @ encode [([0x61], [0x30])] @ 0 # [])) True True
      = Inr (0, Some (le_bytes (crc32 0 body) @ body))"
  by (rule set_env_param_refines)
    (simp_all add: wf_env_def wf_name_def wf_value_def env_room_def)



text \<open>
  On a well-formed sector padded with zeros \<open>get_env_param\<close> prints the value of the first
  entry with the given name, and exits with 1 when there is none.
\<close>

theorem get_env_param_correct:
  assumes "wf_env es" "wf_name name" "length (fst junk) = 256" "length (snd junk) = 256"
    and "length hdr = 4"
  shows "get_env_param junk [name] (Some (hdr @ encode es @ replicate k 0)) =
    (case map_of es name of Some v \<Rightarrow> Printed v | None \<Rightarrow> Not_Found)"
proof -
  have "0 \<notin> set name" using assms(2) by (simp add: wf_name_def)
  from get_env_param_entries [OF assms(1) this assms(3-5), of "replicate k 0"]
  show ?thesis using get_padding assms(2) by (auto split: option.splits)
qed

theorem get_env_param_correct_witness:
  "get_env_param (replicate 256 1, replicate 256 1) [[0x61]]
     (Some ([9, 9, 9, 9] @ encode [([0x61], [0x30])] @ replicate 3 0)) = Printed [0x30]"
  using get_env_param_correct [of "[([0x61], [0x30])]" "[0x61]"
      "(replicate 256 1, replicate 256 1)" "[9, 9, 9, 9]" 3]
  by (simp add: wf_env_def wf_name_def wf_value_def)

text \<open>
  Names are compared by prefix. Setting a name that is a proper prefix of another entry's
  name overwrites that entry's value: \<open>get_env_param\<close> of the longer name prints the new value.
\<close>

theorem set_env_param_prefix_overwrites:
  assumes "wf_env es" "length es < MAX_PARAMS" "wf_name name" "wf_value v"
    and "length hdr = 4" "4 + env_room es name v \<le> CFG_ENV_SIZE"
    and "length (fst junk) = 256" "length (snd junk) = 256"
    and "m \<in> fst ` set es" "strict_prefix name m"
  shows "\<exists>dev. set_env_param [name, v] (Some (hdr @ encode es @ 0 # rest)) True True = Inr (0, Some dev)
    \<and> get_env_param junk [m] (Some dev) = Printed v"
proof -
  obtain pad where dev: "set_env_param [name, v] (Some (hdr @ encode es @ 0 # rest)) True True
      = Inr (0, Some (le_bytes (crc32 0 (encode (set_entries name v es) @ 0 # pad))
          @ encode (set_entries name v es) @ 0 # pad))"
    using set_env_param_writes [OF assms(1-3,5,6)] by (auto simp: Let_def)
  obtain w where w: "map_of es m = Some w"
    using assms(9) by (metis map_of_eq_None_iff not_None_eq)
  have "list_ex (\<lambda>e. prefix name (fst e)) es"
    using assms(9,10) by (auto simp: list_ex_iff strict_prefix_def)
  then have "map_of (set_entries name v es) m = Some v"
    using w assms(10) by (simp add: map_of_set_entries strict_prefix_def)
  moreover have "0 \<notin> set m"
    using assms(1,9) by (auto simp: wf_env_def list_all_iff wf_name_def)
  ultimately show ?thesis
    using dev get_env_param_entries [OF wf_env_set_entries [OF assms(1,3,4)] _ assms(7,8), of m
        "le_bytes (crc32 0 (encode (set_entries name v es) @ 0 # pad))" "0 # pad"]
    by (auto simp: le_bytes_def)
qed

theorem set_env_param_prefix_overwrites_witness:
  "\<exists>dev. set_env_param [[0x69, 0x70], [0x32]]
        (Some ([0, 0, 0, 0] @ encode [([0x69, 0x70, 0x36], [0x31])] @ 0 # [])) True True = Inr (0, Some dev)
    \<and> get_env_param (replicate 256 7, replicate 256 7) [[0x69, 0x70, 0x36]] (Some dev) = Printed [0x32]"
  by (rule set_env_param_prefix_overwrites)
    (simp_all add: wf_env_def wf_name_def wf_value_def env_room_def)

text \<open>
  On an unterminated sector, such as an erased one (all 0xFF), \<open>set_env_param\<close> writes past the
  end of its heap block.
\<close>

theorem set_env_param_erased_overflow:
  assumes "length dev = CFG_ENV_SIZE" "0 \<notin> set (drop 4 dev)" "EQ \<notin> set (drop 4 dev)"
  shows "set_env_param [name, v] (Some dev) True True = Inl Heap_Overflow"
proof -
  let ?s0 = "init_state (take 4 dev)"
  let ?s1 = "?s0\<lparr>mem := take 4 dev @ drop 4 dev @ drop (length (drop 4 dev)) (replicate ENV_SIZE 0),
      curr_str := length (take 4 dev) + length (drop 4 dev)\<rparr>"
  have "set_loop name (Some v) ?s0 (drop 4 dev @ []) = set_loop name (Some v) ?s1 []"
    using assms by (intro set_plain) (auto simp: init_state_def)
  also have "\<dots> = Inl Heap_Overflow"
    using assms by (simp add: init_state_def put_char_def put_bytes_def)
  finally show ?thesis using assms(1) by (simp add: set_env_param_def Let_def)
qed

theorem set_env_param_erased_overflow_witness:
  "set_env_param [[0x61], [0x62]] (Some (replicate CFG_ENV_SIZE 0xFF)) True True = Inl Heap_Overflow"
  by (rule set_env_param_erased_overflow) (simp_all add: drop_replicate)

text \<open>
  A value that contains '=' is truncated by \<open>get_env_param\<close>: of \<open>name=a=b\<close> only the part after
  the last '=' is printed.
\<close>

theorem get_env_param_loses_eq:
  assumes "wf_name n" "wf_value a" "wf_value b" "length hdr = 4"
    and "length (fst junk) = 256" "length (snd junk) = 256"
  shows "get_env_param junk [n] (Some (hdr @ n @ EQ # a @ EQ # b @ 0 # rest)) = Printed b"
proof -
  let ?s = "\<lparr>curr_param = (fst junk)[0 := 0], param_value = (snd junk)[0 := 0],
      in_value = False, curr_idx = 0\<rparr>"
  have n: "0 \<notin> set n" using assms(1) by (simp add: wf_name_def)
  have "get_ready ?s" using assms by (simp add: get_ready_def)
  then obtain s1 where s1: "get_in_value n s1"
    "get_loop n ?s (n @ EQ # a @ EQ # b @ 0 # rest) = get_loop n s1 (a @ EQ # b @ 0 # rest)"
    using get_name_part [OF _ assms(1)] by blast
  obtain s2 where s2: "get_in_value n s2"
    "get_loop n s1 (a @ EQ # b @ 0 # rest) = get_loop n s2 (b @ 0 # rest)"
    using get_second_eq [OF s1(1) assms(2)] by blast
  have "get_loop n s2 (b @ 0 # rest) = Printed b"
    using get_value_part [OF s2(1) assms(3) n n, of rest] by simp
  with s1(2) s2(2) show ?thesis using assms(4) by (simp add: get_env_param_def)
qed

theorem get_env_param_loses_eq_witness:
  "get_env_param (replicate 256 1, replicate 256 1) [[0x61]]
     (Some ([0, 0, 0, 0] @ [0x61] @ EQ # [0x62] @ EQ # [0x63] @ 0 # [])) = Printed [0x63]"
  by (rule get_env_param_loses_eq) (simp_all add: wf_name_def wf_value_def)

end
