(* ===== verification/Tools.thy ===== *)
theory Tools
  imports Prelude "HOL-Library.Sublist"
begin

text \<open>
  Two small command-line tools of the firmware: \<open>apps/simpdiff/simpdiff.c\<close> (a binary compare,
  used to check a flashed image against the file it came from) and
  \<open>apps/ipc_api/send_event.c\<close> (posts a request to the web server's System V message queue).
  Files are their contents, the message queue is the list of messages sent.
\<close>

section \<open>simpdiff\<close>

text \<open>
  \<open>read(fd, buf, 1)\<close> on a regular file: the number of bytes read (1 or 0), the byte left in
  \<open>buf\<close> and the rest of the file.
\<close>

definition read1 :: "bytes \<Rightarrow> u8 \<Rightarrow> nat \<times> u8 \<times> bytes" where
  "read1 f buf = (case f of [] \<Rightarrow> (0, buf, []) | b # r \<Rightarrow> (1, b, r))"

datatype diff_out = Different u8 u8 u32 | DifferentSize | Same | Usage | UnableToOpen string

definition rc_of :: "diff_out \<Rightarrow> int" where
  "rc_of d = (case d of Different _ _ _ \<Rightarrow> 1 | DifferentSize \<Rightarrow> 2 | Same \<Rightarrow> 0
     | Usage \<Rightarrow> - 1 | UnableToOpen _ \<Rightarrow> - 1)"

text \<open>
  The \<open>do ... while\<close> loop of \<open>main\<close>. The two buffers keep their last byte; the loop ends with
  the two read counts of its last round, or returns the first difference.
\<close>

function diff_loop :: "bytes \<Rightarrow> bytes \<Rightarrow> u8 \<Rightarrow> u8 \<Rightarrow> u32 \<Rightarrow> diff_out + (nat \<times> nat)" where
  "diff_loop f1 f2 buf1 buf2 off =
     (let (numRead1, buf1', f1') = read1 f1 buf1;
          (numRead2, buf2', f2') = read1 f2 buf2
      in if numRead1 > 0 \<and> numRead2 > 0
         then if buf1' \<noteq> buf2' then Inl (Different buf1' buf2' off)
              else diff_loop f1' f2' buf1' buf2' (off + 1)
         else Inr (numRead1, numRead2))"
  by pat_completeness auto

termination
  by (relation "measure (\<lambda>(f1, _). length f1)") (auto simp: read1_def split: list.splits)

declare diff_loop.simps [simp del]

definition compare_files :: "bool \<Rightarrow> bytes \<Rightarrow> bytes \<Rightarrow> diff_out" where
  "compare_files ignoreSize f1 f2 =
     (case diff_loop f1 f2 0 0 0 of
        Inl d \<Rightarrow> d
      | Inr (numRead1, numRead2) \<Rightarrow>
          if (numRead1 > 0 \<or> numRead2 > 0) \<and> \<not> ignoreSize then DifferentSize else Same)"

text \<open>
  \<open>main\<close>: \<open>args\<close> are \<open>argv[1..]\<close>. \<open>argv[argc]\<close> is the null pointer, on which \<open>open\<close>
  fails, so a missing second file name after \<open>-s\<close> is reported like an absent file.
\<close>

definition open_arg :: "(string \<rightharpoonup> bytes) \<Rightarrow> string list \<Rightarrow> nat \<Rightarrow> bytes option" where
  "open_arg fs args i = (if i < length args then fs (args ! i) else None)"

definition arg_name :: "string list \<Rightarrow> nat \<Rightarrow> string" where
  "arg_name args i = (if i < length args then args ! i else ''(null)'')"

definition simpdiff :: "(string \<rightharpoonup> bytes) \<Rightarrow> string list \<Rightarrow> diff_out" where
  "simpdiff fs args =
     (if length args < 2 then Usage
      else let ignoreSize = (args ! 0 = ''-s'');
               nameParam = (if ignoreSize then 1 else 0)
           in case open_arg fs args nameParam of
                None \<Rightarrow> UnableToOpen (arg_name args nameParam)
              | Some f1 \<Rightarrow>
                  (case open_arg fs args (nameParam + 1) of
                     None \<Rightarrow> UnableToOpen (arg_name args (nameParam + 1))
                   | Some f2 \<Rightarrow> compare_files ignoreSize f1 f2))"

section \<open>send\_event\<close>

definition msgSize :: nat where
  "msgSize = 1024"

record msgbuffer =
  mtype :: int
  mtext :: string

text \<open>
  One \<open>msgsnd\<close> call: the message, and whether \<open>IPC_NOWAIT\<close> is set. The result of \<open>msgsnd\<close> is
  not looked at by the tool, so the calls made are all its effect.
\<close>

type_synonym msgsnd_call = "msgbuffer \<times> bool"

text \<open>\<open>memset(mtext, 0, msgSize)\<close> then \<open>strcpy(mtext, s)\<close> for a literal that fits.\<close>

definition fill_mtext :: "string \<Rightarrow> string" where
  "fill_mtext s = s @ replicate (msgSize - length s) (CHR 0x00)"

text \<open>\<open>snprintf(mtext, msgSize, ...)\<close> over the cleared buffer: at most \<open>msgSize - 1\<close> characters.\<close>

definition snprintf_mtext :: "string \<Rightarrow> string" where
  "snprintf_mtext s = fill_mtext (take (msgSize - 1) s)"

definition join_comma :: "string \<Rightarrow> string \<Rightarrow> string \<Rightarrow> string \<Rightarrow> string" where
  "join_comma a b c d = a @ '','' @ b @ '','' @ c @ '','' @ d"

text \<open>\<open>main\<close>: the exit code and the calls of \<open>msgsnd\<close>; \<open>qid\<close> is what \<open>msgget\<close> returned.\<close>

definition send_event :: "int \<Rightarrow> string list \<Rightarrow> int \<times> msgsnd_call list" where
  "send_event qid args =
     (if qid = - 1 then (1, [])
      else (0,
        if length args = 1 then
          (if args ! 0 = ''firewall_reload'' then
             [(\<lparr>mtype = 1, mtext = fill_mtext ''firewall_reload''\<rparr>, True)]
           else if args ! 0 = ''openDebug'' then
             [(\<lparr>mtype = 1, mtext = fill_mtext ''openDebug''\<rparr>, True)]
           else if args ! 0 = ''closeDebug'' then
             [(\<lparr>mtype = 1, mtext = fill_mtext ''closeDebug''\<rparr>, True)]
           else if args ! 0 = ''stopWPS'' then
             [(\<lparr>mtype = 1, mtext = fill_mtext ''stopWPS''\<rparr>, True)]
           else [])
        else if length args = 2 then
          (if args ! 0 = ''WNLAC'' then
             (if args ! 1 = ''5G'' then
                [(\<lparr>mtype = 1, mtext = fill_mtext ''WNLAC_5G''\<rparr>, True)]
              else if args ! 1 = ''2.4G'' then
                [(\<lparr>mtype = 1, mtext = fill_mtext ''WNLAC_2.4G''\<rparr>, True)]
              else [])
           else [])
        else if length args = 4 then
          (if args ! 0 = ''start'' \<or> args ! 0 = ''stop'' then
             [(\<lparr>mtype = 1, mtext =
                 snprintf_mtext (join_comma (args ! 0) (args ! 1) (args ! 2) (args ! 3))\<rparr>, False)]
           else [])
        else []))"

section \<open>The compare loop\<close>

text \<open>The loop stops at the first offset where both files have a byte and the bytes differ.\<close>

lemma diff_loop_Nil [simp]:
  "diff_loop [] f2 x y off = Inr (0, if f2 = [] then 0 else 1)"
  "diff_loop f1 [] x y off = Inr (if f1 = [] then 0 else 1, 0)"
  by (subst diff_loop.simps, simp add: read1_def split: list.splits)+

lemma diff_loop_Cons [simp]:
  "diff_loop (a # f1) (b # f2) x y off =
     (if a \<noteq> b then Inl (Different a b off) else diff_loop f1 f2 a b (off + 1))"
  by (subst diff_loop.simps) (simp add: read1_def)

lemma diff_loop_append:
  "diff_loop (p @ f1) (p @ f2) x y off =
     diff_loop f1 f2 (if p = [] then x else last p) (if p = [] then y else last p)
       (off + of_nat (length p))"
  by (induction p arbitrary: x y off) (simp_all add: ac_simps)

text \<open>Two files split into their longest common prefix and two rests that do not start alike.\<close>

lemma common_prefix_split:
  obtains p f1' f2' where "f1 = p @ f1'" "f2 = p @ f2'"
    "f1' = [] \<or> f2' = [] \<or> hd f1' \<noteq> hd f2'"
proof (induction f1 f2 arbitrary: thesis rule: list_induct2')
  case (4 x xs y ys)
  show ?case
  proof (cases "x = y")
    case True
    then show ?thesis using 4 by (metis append_Cons)
  qed (rule 4(2) [of "[]"], auto)
next
  case (2 x xs) then show ?case by (metis append_Nil)
next
  case (3 y ys) then show ?case by (metis append_Nil)
qed auto

lemma compare_files_split:
  assumes "f1' = [] \<or> f2' = [] \<or> hd f1' \<noteq> hd f2'"
  shows "compare_files ig (p @ f1') (p @ f2') =
    (if f1' \<noteq> [] \<and> f2' \<noteq> [] then Different (hd f1') (hd f2') (of_nat (length p))
     else if f1' = f2' \<or> ig then Same else DifferentSize)"
  unfolding compare_files_def diff_loop_append
  using assms by (cases f1'; cases f2') auto

lemma simpdiff_two_files:
  assumes "fs a = Some f1" "fs b = Some f2" "a \<noteq> ''-s''"
  shows "simpdiff fs (if ig then [''-s'', a, b] else [a, b]) = compare_files ig f1 f2"
  using assms by (simp add: simpdiff_def open_arg_def)

lemma length_fill_mtext: "length s \<le> msgSize \<Longrightarrow> length (fill_mtext s) = msgSize"
  by (simp add: fill_mtext_def)

text \<open>Cutting the padding off gives back the text, as the receiver's string functions do.\<close>

lemma takeWhile_fill_mtext:
  assumes "CHR 0x00 \<notin> set s"
  shows "takeWhile (\<lambda>c. c \<noteq> CHR 0x00) (fill_mtext s) = s"
proof -
  have "takeWhile (\<lambda>c. c \<noteq> CHR 0x00) (s @ replicate n (CHR 0x00)) = s" for n
    using assms by (cases n) (auto simp: takeWhile_append)
  then show ?thesis by (simp add: fill_mtext_def)
qed

section \<open>Properties\<close>

text \<open>
  Without \<open>-s\<close> the tool exits with 0 exactly when the two files have the same contents;
  with \<open>-s\<close> exactly when one is a prefix of the other (the check stops at the shorter one).
\<close>

theorem simpdiff_correct:
  assumes "fs a = Some f1" "fs b = Some f2" "a \<noteq> ''-s''"
  shows "rc_of (simpdiff fs (if ig then [''-s'', a, b] else [a, b])) = 0 \<longleftrightarrow>
    (if ig then prefix f1 f2 \<or> prefix f2 f1 else f1 = f2)"
proof -
  obtain p f1' f2' where p: "f1 = p @ f1'" "f2 = p @ f2'"
    "f1' = [] \<or> f2' = [] \<or> hd f1' \<noteq> hd f2'" by (rule common_prefix_split)
  then have "compare_files ig f1 f2 = Same \<longleftrightarrow> (if ig then prefix f1 f2 \<or> prefix f2 f1 else f1 = f2)"
    unfolding p(1,2) compare_files_split [OF p(3)] by (cases f1'; cases f2') auto
  moreover have "rc_of d = 0 \<longleftrightarrow> d = Same" for d
    by (simp add: rc_of_def split: diff_out.split)
  ultimately show ?thesis by (simp only: simpdiff_two_files [where fs = fs, OF assms])
qed

theorem simpdiff_correct_witness:
  "rc_of (simpdiff [''a'' \<mapsto> [1, 2], ''b'' \<mapsto> [1, 2, 3]] [''-s'', ''a'', ''b'']) = 0"
  using simpdiff_correct [of "[''a'' \<mapsto> [1, 2], ''b'' \<mapsto> [1, 2, 3]]" "''a''" "[1, 2]" "''b''" "[1, 2, 3]" True]
  by simp

text \<open>
  When the files first differ at an offset where both have a byte, the tool reports those
  two bytes and that offset (modulo the width of the unsigned counter) and exits with 1,
  whether sizes are ignored or not.
\<close>

theorem simpdiff_first_difference:
  assumes "fs a = Some (p @ x # r)" "fs b = Some (p @ y # s)" "a \<noteq> ''-s''" "x \<noteq> y"
  shows "simpdiff fs (if ig then [''-s'', a, b] else [a, b]) = Different x y (of_nat (length p))"
proof -
  have "x # r = [] \<or> y # s = [] \<or> hd (x # r) \<noteq> hd (y # s)" using assms(4) by simp
  from compare_files_split [OF this] show ?thesis
    by (simp add: simpdiff_two_files [where fs = fs, OF assms(1-3)])
qed

theorem simpdiff_first_difference_witness:
  "simpdiff [''a'' \<mapsto> [7, 1], ''b'' \<mapsto> [7, 2, 3]] [''a'', ''b''] = Different 1 2 1"
  using simpdiff_first_difference
    [of "[''a'' \<mapsto> [7, 1], ''b'' \<mapsto> [7, 2, 3]]" "''a''" "[7]" 1 "[]" "''b''" 2 "[3]" False]
  by simp

text \<open>
  Every invocation posts at most one message, of type 1 and of exactly \<open>msgSize\<close> bytes; a
  schedule request whose joined text is shorter than \<open>msgSize\<close> reaches the receiver as the four
  arguments joined by commas, and a longer one is cut to \<open>msgSize - 1\<close> characters.
\<close>

theorem send_event_messages:
  assumes "send_event qid args = (rc, calls)"
  shows "length calls \<le> 1 \<and> (rc = 0 \<longleftrightarrow> qid \<noteq> - 1) \<and>
    (\<forall>(m, nowait) \<in> set calls. mtype m = 1 \<and> length (mtext m) = msgSize \<and>
       (nowait \<longleftrightarrow> length args \<noteq> 4) \<and>
       (list_all (\<lambda>a. CHR 0x00 \<notin> set a) args \<longrightarrow> length args = 4 \<longrightarrow>
          takeWhile (\<lambda>c. c \<noteq> CHR 0x00) (mtext m) =
          take (msgSize - 1) (join_comma (args ! 0) (args ! 1) (args ! 2) (args ! 3))))"
proof -
  have lens: "length (fill_mtext s) = 1024" if "length s \<le> 1024" for s
    using that length_fill_mtext by (simp add: msgSize_def)
  have "CHR 0x00 \<notin> set (take n (join_comma (args ! 0) (args ! 1) (args ! 2) (args ! 3)))"
    if "list_all (\<lambda>a. CHR 0x00 \<notin> set a) args" "length args = 4" for n
  proof -
    have "CHR 0x00 \<notin> set (args ! i)" if "i < 4" for i
      using that \<open>length args = 4\<close> \<open>list_all _ args\<close> by (simp add: list_all_length)
    then show ?thesis by (auto dest!: in_set_takeD simp: join_comma_def)
  qed
  with assms show ?thesis
    by (auto simp: send_event_def snprintf_mtext_def takeWhile_fill_mtext msgSize_def lens
        split: if_splits)
qed

theorem send_event_messages_witness:
  "\<exists>rc calls. send_event 3 [''start'', ''R'', ''n'', ''t''] = (rc, calls) \<and>
    length calls \<le> 1 \<and> (rc = 0 \<longleftrightarrow> (3::int) \<noteq> - 1) \<and>
    (\<forall>(m, nowait) \<in> set calls. takeWhile (\<lambda>c. c \<noteq> CHR 0x00) (mtext m) = ''start,R,n,t'')"
proof -
  obtain rc calls where s: "send_event 3 [''start'', ''R'', ''n'', ''t''] = (rc, calls)"
    by (cases "send_event 3 [''start'', ''R'', ''n'', ''t'']")
  from send_event_messages [OF s] s show ?thesis
    by (auto simp: join_comma_def msgSize_def)
qed

end
