(* ===== verification/Gpio.thy ===== *)
theory Gpio
  imports Prelude
begin

text \<open>
  The GPIO block of the STR9100 and its kernel driver, \<open>drivers/char/str9100_gpio.c\<close>: the
  memory-mapped registers, the one-bit accessors, the table of interrupt service routines, the
  interrupt handler that dispatches to them, and the timer that blinks the system LED.

  A register is the value last written to it; what the hardware does to the input and raw
  status registers between two calls is left to the events of the client. An accessor that
  stores through a pointer returns the value instead; the accessors that leave the pointer
  untouched for a bit out of range take the old value as an argument.
\<close>

section \<open>Registers and driver state\<close>

record gpio_regs =
  GPIO_DATA_OUT_REG :: u32
  GPIO_DATA_IN_REG :: u32
  GPIO_PIN_DIR_REG :: u32
  GPIO_DATA_SET_REG :: u32
  GPIO_DATA_CLEAR_REG :: u32
  GPIO_INTERRUPT_ENABLE_REG :: u32
  GPIO_INTERRUPT_RAW_STATE_REG :: u32
  GPIO_INTERRUPT_MASKED_STATE_REG :: u32
  GPIO_INTERRUPT_MASK_REG :: u32
  GPIO_INTERRUPT_CLEAR_REG :: u32
  GPIO_INTERRUPT_TRIGGER_REG :: u32
  GPIO_INTERRUPT_BOTH_REG :: u32
  GPIO_INTERRUPT_RISE_NEG_REG :: u32
  INTC_INTERRUPT_MASK_REG :: u32
  INTC_INTERRUPT_CLEAR_EDGE_TRIGGER_REG :: u32

text \<open>
  The driver's own state: the service routines by pin (\<open>None\<close> is the null pointer; a routine is
  named by a value of \<open>'h\<close>), the blinking flag, the pending system LED timer (expiry and data)
  and the tick counter.
\<close>

record 'h gpio_hw = gpio_regs +
  gpio_isr :: "'h option list"
  sys_blinking_flag :: int
  sysled_timer :: "(u32 \<times> u32) option"
  jiffies :: u32

abbreviation (input) MAX_GPIO_LINE :: nat where "MAX_GPIO_LINE \<equiv> 21"
abbreviation (input) HZ :: nat where "HZ \<equiv> 100"
abbreviation (input) SYSTEM_LED_GPIO :: int where "SYSTEM_LED_GPIO \<equiv> 2"
abbreviation (input) INTC_GPIO_EXTERNAL_INT_BIT_INDEX :: nat where
  "INTC_GPIO_EXTERNAL_INT_BIT_INDEX \<equiv> 4"
abbreviation (input) PIN_INPUT :: u32 where "PIN_INPUT \<equiv> 0"
abbreviation (input) PIN_OUTPUT :: u32 where "PIN_OUTPUT \<equiv> 1"
abbreviation (input) PIN_TRIG_EDGE :: u32 where "PIN_TRIG_EDGE \<equiv> 0"
abbreviation (input) PIN_TRIG_LEVEL :: u32 where "PIN_TRIG_LEVEL \<equiv> 1"
abbreviation (input) PIN_TRIG_SINGLE :: u32 where "PIN_TRIG_SINGLE \<equiv> 0"
abbreviation (input) PIN_TRIG_FAILING :: u32 where "PIN_TRIG_FAILING \<equiv> 1"
abbreviation (input) GPIO_ON :: u32 where "GPIO_ON \<equiv> 0"
abbreviation (input) GPIO_OFF :: u32 where "GPIO_OFF \<equiv> 1"

definition MSECS_TO_JIFFIES :: "nat \<Rightarrow> nat" where
  "MSECS_TO_JIFFIES x = x * HZ div 1000"

definition SECS_TO_JIFFIES :: "nat \<Rightarrow> nat" where
  "SECS_TO_JIFFIES x = x * HZ"

definition stop_blinking_SYS_LED :: "int \<Rightarrow> ('h, 'z) gpio_hw_scheme \<Rightarrow> ('h, 'z) gpio_hw_scheme" where
  "stop_blinking_SYS_LED stop_value s =
     (if stop_value > 0 then s\<lparr>sys_blinking_flag := 0\<rparr> else s)"

section \<open>Whole-register accessors\<close>

definition str9100_gpio_in :: "('h, 'z) gpio_hw_scheme \<Rightarrow> u32" where
  "str9100_gpio_in s = GPIO_DATA_IN_REG s"

definition str9100_gpio_out :: "u32 \<Rightarrow> ('h, 'z) gpio_hw_scheme \<Rightarrow> ('h, 'z) gpio_hw_scheme" where
  "str9100_gpio_out data s = s\<lparr>GPIO_DATA_OUT_REG := data\<rparr>"

definition str9100_gpio_read_direction :: "('h, 'z) gpio_hw_scheme \<Rightarrow> u32" where
  "str9100_gpio_read_direction s = GPIO_PIN_DIR_REG s"

definition str9100_gpio_write_direction :: "u32 \<Rightarrow> ('h, 'z) gpio_hw_scheme \<Rightarrow> ('h, 'z) gpio_hw_scheme" where
  "str9100_gpio_write_direction data s = s\<lparr>GPIO_PIN_DIR_REG := data\<rparr>"

definition str9100_gpio_dataset :: "u32 \<Rightarrow> ('h, 'z) gpio_hw_scheme \<Rightarrow> ('h, 'z) gpio_hw_scheme" where
  "str9100_gpio_dataset data s = s\<lparr>GPIO_DATA_SET_REG := data\<rparr>"

definition str9100_gpio_dataclear :: "u32 \<Rightarrow> ('h, 'z) gpio_hw_scheme \<Rightarrow> ('h, 'z) gpio_hw_scheme" where
  "str9100_gpio_dataclear data s = s\<lparr>GPIO_DATA_CLEAR_REG := data\<rparr>"

definition str9100_gpio_read_intrenable :: "('h, 'z) gpio_hw_scheme \<Rightarrow> u32" where
  "str9100_gpio_read_intrenable s = GPIO_INTERRUPT_ENABLE_REG s"

definition str9100_gpio_write_intrenable :: "u32 \<Rightarrow> ('h, 'z) gpio_hw_scheme \<Rightarrow> ('h, 'z) gpio_hw_scheme" where
  "str9100_gpio_write_intrenable data s = s\<lparr>GPIO_INTERRUPT_ENABLE_REG := data\<rparr>"

definition str9100_gpio_read_intrrawstate :: "('h, 'z) gpio_hw_scheme \<Rightarrow> u32" where
  "str9100_gpio_read_intrrawstate s = GPIO_INTERRUPT_RAW_STATE_REG s"

definition str9100_gpio_read_intrmaskedstatus :: "('h, 'z) gpio_hw_scheme \<Rightarrow> u32" where
  "str9100_gpio_read_intrmaskedstatus s = GPIO_INTERRUPT_MASKED_STATE_REG s"

definition str9100_gpio_read_intrmask :: "('h, 'z) gpio_hw_scheme \<Rightarrow> u32" where
  "str9100_gpio_read_intrmask s = GPIO_INTERRUPT_MASK_REG s"

definition str9100_gpio_write_intrmask :: "u32 \<Rightarrow> ('h, 'z) gpio_hw_scheme \<Rightarrow> ('h, 'z) gpio_hw_scheme" where
  "str9100_gpio_write_intrmask data s = s\<lparr>GPIO_INTERRUPT_MASK_REG := data\<rparr>"

definition str9100_gpio_read_intrclear :: "('h, 'z) gpio_hw_scheme \<Rightarrow> u32" where
  "str9100_gpio_read_intrclear s = GPIO_INTERRUPT_CLEAR_REG s"

definition str9100_gpio_write_intrclear :: "u32 \<Rightarrow> ('h, 'z) gpio_hw_scheme \<Rightarrow> ('h, 'z) gpio_hw_scheme" where
  "str9100_gpio_write_intrclear data s = s\<lparr>GPIO_INTERRUPT_CLEAR_REG := data\<rparr>"

definition str9100_gpio_read_intrtrigger :: "('h, 'z) gpio_hw_scheme \<Rightarrow> u32" where
  "str9100_gpio_read_intrtrigger s = GPIO_INTERRUPT_TRIGGER_REG s"

definition str9100_gpio_write_intrtrigger :: "u32 \<Rightarrow> ('h, 'z) gpio_hw_scheme \<Rightarrow> ('h, 'z) gpio_hw_scheme" where
  "str9100_gpio_write_intrtrigger data s = s\<lparr>GPIO_INTERRUPT_TRIGGER_REG := data\<rparr>"

definition str9100_gpio_read_intrboth :: "('h, 'z) gpio_hw_scheme \<Rightarrow> u32" where
  "str9100_gpio_read_intrboth s = GPIO_INTERRUPT_BOTH_REG s"

definition str9100_gpio_write_intrboth :: "u32 \<Rightarrow> ('h, 'z) gpio_hw_scheme \<Rightarrow> ('h, 'z) gpio_hw_scheme" where
  "str9100_gpio_write_intrboth data s = s\<lparr>GPIO_INTERRUPT_BOTH_REG := data\<rparr>"

definition str9100_gpio_read_intrriseneg :: "('h, 'z) gpio_hw_scheme \<Rightarrow> u32" where
  "str9100_gpio_read_intrriseneg s = GPIO_INTERRUPT_RISE_NEG_REG s"

definition str9100_gpio_write_intrriseneg :: "u32 \<Rightarrow> ('h, 'z) gpio_hw_scheme \<Rightarrow> ('h, 'z) gpio_hw_scheme" where
  "str9100_gpio_write_intrriseneg data s = s\<lparr>GPIO_INTERRUPT_RISE_NEG_REG := data\<rparr>"

lemmas gpio_reg_defs =
  str9100_gpio_in_def str9100_gpio_out_def
  str9100_gpio_read_direction_def str9100_gpio_write_direction_def
  str9100_gpio_dataset_def str9100_gpio_dataclear_def
  str9100_gpio_read_intrenable_def str9100_gpio_write_intrenable_def
  str9100_gpio_read_intrrawstate_def str9100_gpio_read_intrmaskedstatus_def
  str9100_gpio_read_intrmask_def str9100_gpio_write_intrmask_def
  str9100_gpio_read_intrclear_def str9100_gpio_write_intrclear_def
  str9100_gpio_read_intrtrigger_def str9100_gpio_write_intrtrigger_def
  str9100_gpio_read_intrboth_def str9100_gpio_write_intrboth_def
  str9100_gpio_read_intrriseneg_def str9100_gpio_write_intrriseneg_def

section \<open>One-bit accessors\<close>

definition bit_ok :: "int \<Rightarrow> bool" where
  "bit_ok b \<longleftrightarrow> 0 \<le> b \<and> b \<le> 20"

definition str9100_gpio_in_bit :: "u32 \<Rightarrow> int \<Rightarrow> ('h, 'z) gpio_hw_scheme \<Rightarrow> u32" where
  "str9100_gpio_in_bit old b s =
     (if bit_ok b then let temp = str9100_gpio_in s in drop_bit (nat b) temp AND 1 else old)"

definition str9100_gpio_out_bit :: "u32 \<Rightarrow> int \<Rightarrow> ('h, 'z) gpio_hw_scheme \<Rightarrow> ('h, 'z) gpio_hw_scheme" where
  "str9100_gpio_out_bit data b s =
     (if bit_ok b then
        let temp = str9100_gpio_in s;
            temp = temp AND NOT (push_bit (nat b) 1);
            temp = temp OR push_bit (nat b) (data AND 1)
        in str9100_gpio_out temp s
      else s)"

definition str9100_gpio_read_direction_bit :: "u32 \<Rightarrow> int \<Rightarrow> ('h, 'z) gpio_hw_scheme \<Rightarrow> u32" where
  "str9100_gpio_read_direction_bit old b s =
     (if bit_ok b then let temp = str9100_gpio_read_direction s in drop_bit (nat b) temp AND 1 else old)"

definition str9100_gpio_write_direction_bit ::
    "u32 \<Rightarrow> int \<Rightarrow> ('h, 'z) gpio_hw_scheme \<Rightarrow> ('h, 'z) gpio_hw_scheme" where
  "str9100_gpio_write_direction_bit data b s =
     (if bit_ok b then
        let temp = str9100_gpio_read_direction s;
            temp = temp AND NOT (push_bit (nat b) 1);
            temp = temp OR push_bit (nat b) (data AND 1)
        in str9100_gpio_write_direction temp s
      else s)"

definition str9100_gpio_dataset_bit :: "u32 \<Rightarrow> int \<Rightarrow> ('h, 'z) gpio_hw_scheme \<Rightarrow> ('h, 'z) gpio_hw_scheme" where
  "str9100_gpio_dataset_bit data b s =
     (if bit_ok b then let temp = 0 OR push_bit (nat b) (data AND 1) in str9100_gpio_dataset temp s else s)"

definition str9100_gpio_dataclear_bit :: "u32 \<Rightarrow> int \<Rightarrow> ('h, 'z) gpio_hw_scheme \<Rightarrow> ('h, 'z) gpio_hw_scheme" where
  "str9100_gpio_dataclear_bit data b s =
     (if bit_ok b then let temp = 0 OR push_bit (nat b) (data AND 1) in str9100_gpio_dataclear temp s else s)"

text \<open>
  The two macros that generate the one-bit accessors of the interrupt registers, over the
  whole-register accessor they paste the name of.
\<close>

definition GEN_GPIO_WRITE_SCRIPT ::
    "(u32 \<Rightarrow> ('h, 'z) gpio_hw_scheme \<Rightarrow> ('h, 'z) gpio_hw_scheme) \<Rightarrow>
     u32 \<Rightarrow> int \<Rightarrow> ('h, 'z) gpio_hw_scheme \<Rightarrow> ('h, 'z) gpio_hw_scheme" where
  "GEN_GPIO_WRITE_SCRIPT write_reg data b s =
     (if bit_ok b then let temp = 0 OR push_bit (nat b) (data AND 1) in write_reg temp s else s)"

definition GEN_GPIO_READ_SCRIPT ::
    "(('h, 'z) gpio_hw_scheme \<Rightarrow> u32) \<Rightarrow> u32 \<Rightarrow> int \<Rightarrow> ('h, 'z) gpio_hw_scheme \<Rightarrow> u32" where
  "GEN_GPIO_READ_SCRIPT read_reg old b s =
     (if bit_ok b then let temp = read_reg s in drop_bit (nat b) temp AND 1 else old)"

section \<open>/proc/str9100/gpio\<close>

definition hex_digit :: "nat \<Rightarrow> char" where
  "hex_digit d = char_of (if d < 10 then 48 + d else 87 + d)"

text \<open>\<open>printf("%08x")\<close> of a 32-bit value.\<close>

definition hex8 :: "u32 \<Rightarrow> string" where
  "hex8 w = map (\<lambda>i. hex_digit (unat (drop_bit (4 * i) w AND 15))) [7, 6, 5, 4, 3, 2, 1, 0]"

definition proc_line :: "string \<Rightarrow> u32 \<Rightarrow> string" where
  "proc_line label w = label @ hex8 w @ '' '' @ [CHR 0x0A]"

definition str9100_gpio_proc :: "('h, 'z) gpio_hw_scheme \<Rightarrow> string" where
  "str9100_gpio_proc s =
     proc_line ''GPIO IN                : '' (str9100_gpio_in s) @
     proc_line ''GPIO Direction         : '' (str9100_gpio_read_direction s) @
     proc_line ''GPIO Interrupt Enable  : '' (str9100_gpio_read_intrenable s) @
     proc_line ''GPIO Interrupt Raw     : '' (str9100_gpio_read_intrrawstate s) @
     proc_line ''GPIO Interrupt Trigger : '' (str9100_gpio_read_intrtrigger s) @
     proc_line ''GPIO Interrupt Both    : '' (str9100_gpio_read_intrboth s) @
     proc_line ''GPIO Interrupt RiseNeg : '' (str9100_gpio_read_intrriseneg s) @
     proc_line ''GPIO Interrupt MASKED  : '' (str9100_gpio_read_intrmask s) @
     proc_line ''GPIO Interrupt MASKEDST: '' (str9100_gpio_read_intrmaskedstatus s)"

section \<open>Interrupts\<close>

text \<open>
  The loop of \<open>str9100_gpio_irq_handler\<close> from pin \<open>i\<close> on. \<open>call h i\<close> runs the routine \<open>h\<close> for
  pin \<open>i\<close>; the table is read again for every pin, as the routines may change it.
\<close>

function irq_loop ::
    "('h \<Rightarrow> nat \<Rightarrow> ('h, 'z) gpio_hw_scheme \<Rightarrow> ('h, 'z) gpio_hw_scheme) \<Rightarrow>
     nat \<Rightarrow> u32 \<Rightarrow> ('h, 'z) gpio_hw_scheme \<Rightarrow> ('h, 'z) gpio_hw_scheme" where
  "irq_loop call i gpio_intr s =
     (if i < MAX_GPIO_LINE then
        let s = (if gpio_intr AND 1 = 1 then
                   (case gpio_isr s ! i of None \<Rightarrow> s | Some h \<Rightarrow> call h i s)
                 else s)
        in irq_loop call (i + 1) (drop_bit 1 gpio_intr) s
      else s)"
  by pat_completeness auto

termination
  by (relation "measure (\<lambda>(_, i, _). MAX_GPIO_LINE - i)") auto

declare irq_loop.simps [simp del]

definition str9100_gpio_irq_handler ::
    "('h \<Rightarrow> nat \<Rightarrow> ('h, 'z) gpio_hw_scheme \<Rightarrow> ('h, 'z) gpio_hw_scheme) \<Rightarrow>
     ('h, 'z) gpio_hw_scheme \<Rightarrow> ('h, 'z) gpio_hw_scheme" where
  "str9100_gpio_irq_handler call s =
     (let irq = push_bit INTC_GPIO_EXTERNAL_INT_BIT_INDEX 1;
          s = s\<lparr>INTC_INTERRUPT_CLEAR_EDGE_TRIGGER_REG :=
                  INTC_INTERRUPT_CLEAR_EDGE_TRIGGER_REG s OR irq\<rparr>;
          s = s\<lparr>INTC_INTERRUPT_MASK_REG := INTC_INTERRUPT_MASK_REG s OR irq\<rparr>;
          gpio_intr = str9100_gpio_read_intrrawstate s;
          s = irq_loop call 0 gpio_intr s;
          s = str9100_gpio_write_intrclear 0x1FFFFF s
      in s\<lparr>INTC_INTERRUPT_MASK_REG := INTC_INTERRUPT_MASK_REG s AND NOT irq\<rparr>)"

definition pin_ok :: "int \<Rightarrow> bool" where
  "pin_ok p \<longleftrightarrow> 0 \<le> p \<and> p < int MAX_GPIO_LINE"

text \<open>\<open>intrtmp &= ~(0x1 << pin); intrtmp |= (v << pin)\<close>.\<close>

definition intr_field :: "u32 \<Rightarrow> u32 \<Rightarrow> int \<Rightarrow> u32" where
  "intr_field intrtmp v p = (intrtmp AND NOT (push_bit (nat p) 1)) OR push_bit (nat p) v"

definition str9100_gpio_set_edgeintr ::
    "'h \<Rightarrow> u32 \<Rightarrow> u32 \<Rightarrow> int \<Rightarrow> ('h, 'z) gpio_hw_scheme \<Rightarrow> ('h, 'z) gpio_hw_scheme" where
  "str9100_gpio_set_edgeintr funcptr trig_both trig_rising p s =
     (if pin_ok p then
        let s = str9100_gpio_write_direction_bit PIN_INPUT p s;
            s = str9100_gpio_write_intrtrigger
                  (intr_field (str9100_gpio_read_intrtrigger s) PIN_TRIG_EDGE p) s;
            s = str9100_gpio_write_intrboth
                  (intr_field (str9100_gpio_read_intrboth s) trig_both p) s;
            s = str9100_gpio_write_intrriseneg
                  (intr_field (str9100_gpio_read_intrriseneg s) trig_rising p) s;
            s = s\<lparr>gpio_isr := (gpio_isr s)[nat p := Some funcptr]\<rparr>
        in str9100_gpio_write_intrenable
             (str9100_gpio_read_intrenable s OR push_bit (nat p) 1) s
      else s)"

definition str9100_gpio_clear_intr :: "int \<Rightarrow> ('h, 'z) gpio_hw_scheme \<Rightarrow> ('h, 'z) gpio_hw_scheme" where
  "str9100_gpio_clear_intr p s =
     (if pin_ok p then
        let s = s\<lparr>gpio_isr := (gpio_isr s)[nat p := None]\<rparr>
        in str9100_gpio_write_intrenable
             (str9100_gpio_read_intrenable s AND NOT (push_bit (nat p) 1)) s
      else s)"

definition str9100_gpio_set_levelintr ::
    "'h \<Rightarrow> u32 \<Rightarrow> int \<Rightarrow> ('h, 'z) gpio_hw_scheme \<Rightarrow> ('h, 'z) gpio_hw_scheme" where
  "str9100_gpio_set_levelintr funcptr trig_level p s =
     (if pin_ok p then
        let s = str9100_gpio_write_direction_bit PIN_INPUT p s;
            s = str9100_gpio_write_intrtrigger
                  (intr_field (str9100_gpio_read_intrtrigger s) PIN_TRIG_LEVEL p) s;
            s = str9100_gpio_write_intrriseneg
                  (intr_field (str9100_gpio_read_intrriseneg s) trig_level p) s;
            s = s\<lparr>gpio_isr := (gpio_isr s)[nat p := Some funcptr]\<rparr>
        in str9100_gpio_write_intrenable
             (str9100_gpio_read_intrenable s OR push_bit (nat p) 1) s
      else s)"

section \<open>The system LED and module initialisation\<close>

definition blinking_system_led :: "u32 \<Rightarrow> ('h, 'z) gpio_hw_scheme \<Rightarrow> ('h, 'z) gpio_hw_scheme" where
  "blinking_system_led gpio_onoff s =
     (if sys_blinking_flag s = 1 then
        let led_on_off = gpio_onoff;
            s = str9100_gpio_out_bit led_on_off SYSTEM_LED_GPIO s;
            led_on_off = (if led_on_off = GPIO_ON then GPIO_OFF else GPIO_ON)
        in s\<lparr>sysled_timer := Some (of_nat (SECS_TO_JIFFIES 1) + jiffies s, led_on_off)\<rparr>
      else str9100_gpio_out_bit GPIO_OFF SYSTEM_LED_GPIO s)"

text \<open>
  \<open>request_irq\<close> belongs to the kernel; its result arrives in the \<open>u32\<close> variable \<open>ret\<close>, so the
  test \<open>ret < 0\<close> is the unsigned one. The pair returned is whether "install ok" is printed and
  the state. \<open>str9100_set_interrupt_trigger\<close> writes registers of the interrupt controller that
  nothing here reads.
\<close>

definition str9100_gpio_init :: "int \<Rightarrow> ('h, 'z) gpio_hw_scheme \<Rightarrow> bool \<times> ('h, 'z) gpio_hw_scheme" where
  "str9100_gpio_init request_irq_result s =
     (let s = s\<lparr>gpio_isr := replicate MAX_GPIO_LINE None\<rparr>;
          s = str9100_gpio_write_intrclear 0x1FFFFF s;
          ret = (of_int request_irq_result :: u32)
      in if ret < 0 then (False, s)
         else let s = str9100_gpio_out_bit GPIO_ON SYSTEM_LED_GPIO s
              in (True, s\<lparr>sysled_timer := Some (of_nat (SECS_TO_JIFFIES 1) + jiffies s, GPIO_OFF)\<rparr>))"

text \<open>A driver state at power on: every register 0, no routine, the LED blinking.\<close>

definition gpio_power_on :: "unit gpio_hw" where
  "gpio_power_on = \<lparr>GPIO_DATA_OUT_REG = 0, GPIO_DATA_IN_REG = 0, GPIO_PIN_DIR_REG = 0,
     GPIO_DATA_SET_REG = 0, GPIO_DATA_CLEAR_REG = 0, GPIO_INTERRUPT_ENABLE_REG = 0,
     GPIO_INTERRUPT_RAW_STATE_REG = 0, GPIO_INTERRUPT_MASKED_STATE_REG = 0,
     GPIO_INTERRUPT_MASK_REG = 0, GPIO_INTERRUPT_CLEAR_REG = 0, GPIO_INTERRUPT_TRIGGER_REG = 0,
     GPIO_INTERRUPT_BOTH_REG = 0, GPIO_INTERRUPT_RISE_NEG_REG = 0, INTC_INTERRUPT_MASK_REG = 0,
     INTC_INTERRUPT_CLEAR_EDGE_TRIGGER_REG = 0, gpio_isr = replicate MAX_GPIO_LINE None,
     sys_blinking_flag = 1, sysled_timer = None, jiffies = 0\<rparr>"

section \<open>Bits of a register update\<close>

lemma bit_one_and [simp]: "bit ((d::u32) AND 1) k \<longleftrightarrow> k = 0 \<and> bit d 0"
  by (auto simp: bit_simps)

lemma bit_clear_set:
  "k < 32 \<Longrightarrow> n < 32 \<Longrightarrow>
     bit ((w AND NOT (push_bit n 1)) OR push_bit n (d AND 1) :: u32) k = (if k = n then bit d 0 else bit w k)"
  by (auto simp: bit_simps)

lemma bit_set_one: "k < 32 \<Longrightarrow> bit (w OR push_bit n 1 :: u32) k \<longleftrightarrow> k = n \<or> bit w k"
  by (auto simp: bit_simps)

lemma bit_clear_one: "k < 32 \<Longrightarrow> bit (w AND NOT (push_bit n 1) :: u32) k \<longleftrightarrow> k \<noteq> n \<and> bit w k"
  by (auto simp: bit_simps)

lemma one_bit_word: "(v::u32) \<le> 1 \<Longrightarrow> v AND 1 = v"
proof -
  assume "v \<le> 1"
  then have "unat v \<le> 1" by (simp add: word_le_nat_alt)
  then have "v = 0 \<or> v = 1"
    by (metis le_Suc_eq le_zero_eq One_nat_def unat_1 unat_eq_zero word_unat_eq_iff)
  then show ?thesis by auto
qed

lemma bit_intr_field:
  assumes "pin_ok p" "v \<le> 1" "k < 32"
  shows "bit (intr_field w v p) k = (if int k = p then bit v 0 else bit w k)"
  using assms bit_clear_set [of k "nat p" w v]
  by (auto simp: intr_field_def pin_ok_def one_bit_word)

lemma and_one_iff: "(w::u32) AND 1 = (if bit w 0 then 1 else 0)"
  by (simp add: and_one_eq odd_iff_mod_2_eq_one bit_0)

lemma in_bit_value:
  "bit_ok b \<Longrightarrow> str9100_gpio_in_bit old b s = (if bit (GPIO_DATA_IN_REG s) (nat b) then GPIO_OFF else GPIO_ON)"
  by (simp add: str9100_gpio_in_bit_def gpio_reg_defs and_one_iff bit_drop_bit_eq)

section \<open>Dispatch of interrupts\<close>

text \<open>The handler's loop visits the pins from 0 to 20 and looks at their bit of the status.\<close>

definition irq_visit ::
    "('h \<Rightarrow> nat \<Rightarrow> ('h, 'z) gpio_hw_scheme \<Rightarrow> ('h, 'z) gpio_hw_scheme) \<Rightarrow>
     u32 \<Rightarrow> nat \<Rightarrow> ('h, 'z) gpio_hw_scheme \<Rightarrow> ('h, 'z) gpio_hw_scheme" where
  "irq_visit call w j s =
     (if bit w j then (case gpio_isr s ! j of None \<Rightarrow> s | Some h \<Rightarrow> call h j s) else s)"

lemma irq_loop_fold:
  "i \<le> MAX_GPIO_LINE \<Longrightarrow> irq_loop call i (drop_bit i w) s = fold (irq_visit call w) [i..<MAX_GPIO_LINE] s"
proof (induction "MAX_GPIO_LINE - i" arbitrary: i s)
  case 0
  then show ?case by (subst irq_loop.simps) simp
next
  case (Suc n)
  then have i: "i < MAX_GPIO_LINE" "n = MAX_GPIO_LINE - (i + 1)" by simp_all
  have b: "drop_bit i w AND 1 = 1 \<longleftrightarrow> bit w i"
    by (simp add: and_one_iff bit_drop_bit_eq)
  have "irq_loop call i (drop_bit i w) s = irq_loop call (i + 1) (drop_bit (i + 1) w) (irq_visit call w i s)"
    using i(1) by (subst irq_loop.simps) (simp add: b irq_visit_def Let_def add.commute [of i])
  also have "\<dots> = fold (irq_visit call w) [i + 1..<MAX_GPIO_LINE] (irq_visit call w i s)"
    using Suc(1) [OF i(2)] i(1) by simp
  also have "\<dots> = fold (irq_visit call w) [i..<MAX_GPIO_LINE] s"
    using i(1) by (simp add: upt_conv_Cons)
  finally show ?case .
qed

text \<open>The routines to run for a raw status: the table's entries at the pins whose bit is set.\<close>

fun isr_pending :: "u32 \<Rightarrow> 'h option list \<Rightarrow> nat list \<Rightarrow> ('h \<times> nat) list" where
  "isr_pending w isrs [] = []"
| "isr_pending w isrs (j # js) =
     (case (bit w j, isrs ! j) of (True, Some h) \<Rightarrow> (h, j) # isr_pending w isrs js
      | _ \<Rightarrow> isr_pending w isrs js)"

lemma isr_pending_cong:
  "(\<And>j. j \<in> set js \<Longrightarrow> isrs ! j = isrs' ! j) \<Longrightarrow> isr_pending w isrs js = isr_pending w isrs' js"
  by (induction js) (auto split: option.split bool.split)

lemma isr_pending_set:
  "(h, j) \<in> set (isr_pending w isrs js) \<longleftrightarrow> j \<in> set js \<and> bit w j \<and> isrs ! j = Some h"
  by (induction js) (auto split: option.split bool.split)

text \<open>
  A client's service routines: running the one of pin \<open>i\<close> leaves the entries of the other pins
  alone. Then the routines that run are those the table had when the interrupt came.
\<close>

locale isr_client =
  fixes call :: "'h \<Rightarrow> nat \<Rightarrow> ('h, 'z) gpio_hw_scheme \<Rightarrow> ('h, 'z) gpio_hw_scheme"
  assumes other_pins: "i < MAX_GPIO_LINE \<Longrightarrow> j \<noteq> i \<Longrightarrow> gpio_isr (call h i s) ! j = gpio_isr s ! j"
begin

lemma visit_other: "i < MAX_GPIO_LINE \<Longrightarrow> j \<noteq> i \<Longrightarrow> gpio_isr (irq_visit call w i s) ! j = gpio_isr s ! j"
  by (simp add: irq_visit_def other_pins split: option.split)

lemma fold_visit:
  "distinct js \<Longrightarrow> (\<forall>j \<in> set js. j < MAX_GPIO_LINE) \<Longrightarrow>
     fold (irq_visit call w) js s = fold (\<lambda>(h, j). call h j) (isr_pending w (gpio_isr s) js) s"
proof (induction js arbitrary: s)
  case (Cons j js)
  have "isr_pending w (gpio_isr (irq_visit call w j s)) js = isr_pending w (gpio_isr s) js"
    using Cons.prems by (intro isr_pending_cong visit_other) auto
  then show ?case using Cons
    by (auto simp: irq_visit_def split: option.splits bool.splits)
qed simp

lemma irq_loop_dispatch:
  "irq_loop call 0 w s = fold (\<lambda>(h, j). call h j) (isr_pending w (gpio_isr s) [0..<MAX_GPIO_LINE]) s"
  using irq_loop_fold [of 0 call w s] fold_visit [of "[0..<MAX_GPIO_LINE]" w s] by simp

end

section \<open>Properties\<close>

text \<open>
  \<open>str9100_gpio_out_bit\<close> on a pin the block has changes only the output register, whose new
  value has the low bit of the argument at that pin and the levels read from the input register
  at all others; on any other pin number it does nothing.
\<close>

theorem str9100_gpio_out_bit_correct:
  "(\<exists>w. str9100_gpio_out_bit data b s = s\<lparr>GPIO_DATA_OUT_REG := w\<rparr> \<and>
     (\<forall>k < 32. bit w k = (if bit_ok b then (if int k = b then bit data 0 else bit (GPIO_DATA_IN_REG s) k)
                          else bit (GPIO_DATA_OUT_REG s) k)))"
proof (cases "bit_ok b")
  case True
  let ?w = "(GPIO_DATA_IN_REG s AND NOT (push_bit (nat b) 1)) OR push_bit (nat b) (data AND 1)"
  have "str9100_gpio_out_bit data b s = s\<lparr>GPIO_DATA_OUT_REG := ?w\<rparr>"
    using True by (simp add: str9100_gpio_out_bit_def gpio_reg_defs)
  moreover have "bit ?w k = (if int k = b then bit data 0 else bit (GPIO_DATA_IN_REG s) k)" if "k < 32" for k
    using True that bit_clear_set [of k "nat b" "GPIO_DATA_IN_REG s" data] by (auto simp: bit_ok_def)
  ultimately show ?thesis using True by metis
next
  case False
  then show ?thesis by (intro exI [of _ "GPIO_DATA_OUT_REG s"]) (simp add: str9100_gpio_out_bit_def)
qed

theorem str9100_gpio_out_bit_correct_witness:
  "\<exists>w. str9100_gpio_out_bit 1 2 gpio_power_on = gpio_power_on\<lparr>GPIO_DATA_OUT_REG := w\<rparr> \<and> bit w 2"
  using str9100_gpio_out_bit_correct [of 1 2 gpio_power_on] by (auto simp: bit_ok_def)

text \<open>
  Arming an edge interrupt configures exactly one pin: for a valid pin number and trigger
  arguments that are single bits, the pin becomes an edge-triggered input with the requested
  trigger bits, its routine is entered in the table and its interrupt is enabled, and every
  other bit of those registers, every other table entry and every other register is unchanged.
\<close>

theorem str9100_gpio_set_edgeintr_correct:
  assumes "pin_ok p" "trig_both \<le> 1" "trig_rising \<le> 1" "length (gpio_isr s) = MAX_GPIO_LINE"
    and t_def: "t = str9100_gpio_set_edgeintr f trig_both trig_rising p s"
  shows "gpio_isr t = (gpio_isr s)[nat p := Some f] \<and>
    (\<forall>k < 32. bit (GPIO_PIN_DIR_REG t) k = (int k \<noteq> p \<and> bit (GPIO_PIN_DIR_REG s) k) \<and>
       bit (GPIO_INTERRUPT_TRIGGER_REG t) k = (int k \<noteq> p \<and> bit (GPIO_INTERRUPT_TRIGGER_REG s) k) \<and>
       bit (GPIO_INTERRUPT_BOTH_REG t) k =
         (if int k = p then bit trig_both 0 else bit (GPIO_INTERRUPT_BOTH_REG s) k) \<and>
       bit (GPIO_INTERRUPT_RISE_NEG_REG t) k =
         (if int k = p then bit trig_rising 0 else bit (GPIO_INTERRUPT_RISE_NEG_REG s) k) \<and>
       bit (GPIO_INTERRUPT_ENABLE_REG t) k = (int k = p \<or> bit (GPIO_INTERRUPT_ENABLE_REG s) k)) \<and>
    (\<exists>d tr bo ri en. t = s\<lparr>GPIO_PIN_DIR_REG := d, GPIO_INTERRUPT_TRIGGER_REG := tr,
       GPIO_INTERRUPT_BOTH_REG := bo, GPIO_INTERRUPT_RISE_NEG_REG := ri,
       gpio_isr := (gpio_isr s)[nat p := Some f], GPIO_INTERRUPT_ENABLE_REG := en\<rparr>)"
proof -
  have ok: "bit_ok p" "nat p < 32" using assms(1) by (auto simp: pin_ok_def bit_ok_def)
  have t: "t = s\<lparr>GPIO_PIN_DIR_REG :=
         (GPIO_PIN_DIR_REG s AND NOT (push_bit (nat p) 1)) OR push_bit (nat p) (0 AND 1),
       GPIO_INTERRUPT_TRIGGER_REG := intr_field (GPIO_INTERRUPT_TRIGGER_REG s) 0 p,
       GPIO_INTERRUPT_BOTH_REG := intr_field (GPIO_INTERRUPT_BOTH_REG s) trig_both p,
       GPIO_INTERRUPT_RISE_NEG_REG := intr_field (GPIO_INTERRUPT_RISE_NEG_REG s) trig_rising p,
       gpio_isr := (gpio_isr s)[nat p := Some f],
       GPIO_INTERRUPT_ENABLE_REG := GPIO_INTERRUPT_ENABLE_REG s OR push_bit (nat p) 1\<rparr>"
    using assms(1) ok by (simp add: t_def str9100_gpio_set_edgeintr_def
        str9100_gpio_write_direction_bit_def gpio_reg_defs Let_def)
  have eq: "k = nat p \<longleftrightarrow> int k = p" for k using assms(1) by (auto simp: pin_ok_def)
  note bits = bit_and_iff bit_or_iff bit_not_iff bit_exp_iff bit_intr_field [OF assms(1)] assms(2,3) eq
  show ?thesis
  proof (intro conjI allI impI)
    show "gpio_isr t = (gpio_isr s)[nat p := Some f]" by (simp add: t)
    show "\<exists>d tr bo ri en. t = s\<lparr>GPIO_PIN_DIR_REG := d, GPIO_INTERRUPT_TRIGGER_REG := tr,
       GPIO_INTERRUPT_BOTH_REG := bo, GPIO_INTERRUPT_RISE_NEG_REG := ri,
       gpio_isr := (gpio_isr s)[nat p := Some f], GPIO_INTERRUPT_ENABLE_REG := en\<rparr>"
      by (intro exI) (rule t)
  qed (auto simp: t bits simp flip: eq)
qed

theorem str9100_gpio_set_edgeintr_correct_witness:
  "bit (GPIO_INTERRUPT_ENABLE_REG (str9100_gpio_set_edgeintr () 0 1 3 gpio_power_on)) 3"
  using str9100_gpio_set_edgeintr_correct [OF _ _ _ _ refl, of 3 0 1 gpio_power_on "()"]
  by (simp add: pin_ok_def gpio_power_on_def)

end
