(* ===== verification/GpioDevice.thy ===== *)
theory GpioDevice
  imports Gpio
begin

text \<open>
  The character device on top of the GPIO block, \<open>apps/gpio_driver/gpioDevice.c\<close>: push buttons
  that must be held for a while before a blocked reader is woken, and LEDs that are switched or
  pulsed with a pattern. Its state extends that of the register layer; the kernel's timers are
  the pending entries of two arrays, with expiry, function and data.

  An index outside one of the driver's arrays is undefined behaviour in C: the model records it
  in \<open>mem_fault\<close>, and the state after it is not meaningful.
\<close>

section \<open>Data\<close>

abbreviation (input) MAX_GPIOS :: nat where "MAX_GPIOS \<equiv> 32"
abbreviation (input) RESET_DFT_GPIO :: u32 where "RESET_DFT_GPIO \<equiv> 3"
abbreviation (input) RESET_DFT_WAIT_SEC :: u32 where "RESET_DFT_WAIT_SEC \<equiv> 3"
abbreviation (input) BUFFER_SIZE :: nat where "BUFFER_SIZE \<equiv> 512"
abbreviation (input) MAX_LED_PATTERN :: nat where "MAX_LED_PATTERN \<equiv> 16"
abbreviation (input) ENODEV :: int where "ENODEV \<equiv> 19"
abbreviation (input) ENOMEM :: int where "ENOMEM \<equiv> 12"
abbreviation (input) EINVAL :: int where "EINVAL \<equiv> 22"
abbreviation (input) EAGAIN :: int where "EAGAIN \<equiv> 11"
abbreviation (input) ERESTARTSYS :: int where "ERESTARTSYS \<equiv> 512"

datatype isr = Gpio_pbc_start

datatype pbc_fn = Pbc_validate_push | Pbc_cancel

record led_pattern_t =
  repetition_count :: int
  timer_vals :: "int list"

text \<open>\<open>pattern\<close> points into \<open>ledPatterns\<close>: the index, or \<open>None\<close> for the null pointer.\<close>

record led_pattern_in_use_t =
  pattern :: "nat option"
  curr_index :: nat
  curr_repetition :: u32

record gpio_dev = "isr gpio_hw" +
  Buffer :: bytes
  pbc_flag :: "int list"
  pbc_timer :: "(u32 \<times> pbc_fn \<times> u32) option list"
  pulse_timers :: "(u32 \<times> u32) option list"
  ledPatternsUsed :: "led_pattern_in_use_t list"
  pulse_pattern :: int
  mem_fault :: bool

definition MS :: "nat \<Rightarrow> int" where
  "MS x = int (x * HZ div 1000)"

text \<open>An initialised array of \<open>MAX_LED_PATTERN\<close> integers: C fills the rest with zeros.\<close>

definition timer_array :: "int list \<Rightarrow> int list" where
  "timer_array xs = xs @ replicate (MAX_LED_PATTERN - length xs) 0"

definition ledPatterns :: "led_pattern_t list" where
  "ledPatterns =
    [\<lparr>repetition_count = - 1, timer_vals = timer_array [MS 1000, MS 1000, - 1]\<rparr>,
     \<lparr>repetition_count = - 1, timer_vals = timer_array
        [MS 100, MS 100, MS 100, MS 100, MS 100, MS 100, MS 100, MS 100, MS 100, MS 600, - 1]\<rparr>,
     \<lparr>repetition_count = - 1, timer_vals = timer_array [MS 100, MS 100, - 1]\<rparr>,
     \<lparr>repetition_count = - 1, timer_vals = timer_array [MS 300, MS 300, - 1]\<rparr>,
     \<lparr>repetition_count = - 1, timer_vals = timer_array [MS 200, MS 100, - 1]\<rparr>]"

abbreviation (input) NUM_PATTERNS :: int where "NUM_PATTERNS \<equiv> 5"

text \<open>A use of index \<open>i\<close> of an array with \<open>MAX_GPIOS\<close> entries.\<close>

definition touch :: "int \<Rightarrow> gpio_dev \<Rightarrow> gpio_dev" where
  "touch i s = (if 0 \<le> i \<and> i < int MAX_GPIOS then s else s\<lparr>mem_fault := True\<rparr>)"

section \<open>Outputs\<close>

definition gpio_set_off :: "int \<Rightarrow> gpio_dev \<Rightarrow> gpio_dev" where
  "gpio_set_off gpio = str9100_gpio_out_bit GPIO_OFF gpio"

definition gpio_set_on :: "int \<Rightarrow> gpio_dev \<Rightarrow> gpio_dev" where
  "gpio_set_on gpio = str9100_gpio_out_bit GPIO_ON gpio"

definition gpio_set :: "int \<Rightarrow> u32 \<Rightarrow> gpio_dev \<Rightarrow> gpio_dev" where
  "gpio_set gpio state s = (if state = GPIO_ON then gpio_set_on gpio s else gpio_set_off gpio s)"

section \<open>Push buttons\<close>

text \<open>
  \<open>gpio_pbc_end\<close>: flag the press, re-arm the interrupt and start the 20 second cancel timer.
  (Waking the readers is the condition of \<open>gpio_read\<close> becoming true.)
\<close>

definition gpio_pbc_end :: "nat \<Rightarrow> gpio_dev \<Rightarrow> gpio_dev" where
  "gpio_pbc_end gpio s =
     (let s = touch (int gpio) s;
          s = s\<lparr>pbc_flag := (pbc_flag s)[gpio := 2]\<rparr>;
          s = str9100_gpio_clear_intr (int gpio) s;
          s = str9100_gpio_set_edgeintr Gpio_pbc_start PIN_TRIG_SINGLE PIN_TRIG_FAILING (int gpio) s;
          s = (if pbc_timer s ! gpio \<noteq> None then s\<lparr>pbc_timer := (pbc_timer s)[gpio := None]\<rparr> else s)
      in s\<lparr>pbc_timer := (pbc_timer s)
             [gpio := Some (of_nat (SECS_TO_JIFFIES 20) + jiffies s, Pbc_cancel, of_nat gpio)]\<rparr>)"

definition pbc_cancel :: "u32 \<Rightarrow> gpio_dev \<Rightarrow> gpio_dev" where
  "pbc_cancel gpio s = (let s = touch (uint gpio) s in s\<lparr>pbc_flag := (pbc_flag s)[unat gpio := 0]\<rparr>)"

text \<open>
  \<open>pbc_validate_push\<close>: \<open>temp0\<close> is what the uninitialised local \<open>temp\<close> holds, which
  \<open>str9100_gpio_in_bit\<close> leaves alone for a pin the block does not have.
\<close>

definition pbc_validate_push :: "u32 \<Rightarrow> u32 \<Rightarrow> gpio_dev \<Rightarrow> gpio_dev" where
  "pbc_validate_push temp0 pbc_wait_flag s =
     (let gpio = drop_bit 16 pbc_wait_flag;
          pbc_wait_flag = pbc_wait_flag AND 0xFFFF;
          timer_expires = of_nat (MSECS_TO_JIFFIES 75) + jiffies s;
          pbc_wait_flag = pbc_wait_flag + 1;
          temp = str9100_gpio_in_bit temp0 (uint gpio) s
      in if temp = GPIO_OFF then
           str9100_gpio_set_edgeintr Gpio_pbc_start PIN_TRIG_SINGLE PIN_TRIG_FAILING (uint gpio) s
         else
           let g = unat gpio;
               s = touch (int g) s;
               s = (if pbc_timer s ! g \<noteq> None then s\<lparr>pbc_timer := (pbc_timer s)[g := None]\<rparr> else s);
               pb_waiting_time = (if gpio = RESET_DFT_GPIO then 12 * RESET_DFT_WAIT_SEC else 2)
           in if pbc_wait_flag \<le> pb_waiting_time then
                s\<lparr>pbc_timer := (pbc_timer s)
                    [g := Some (timer_expires, Pbc_validate_push, push_bit 16 gpio OR pbc_wait_flag)]\<rparr>
              else gpio_pbc_end g s)"

definition gpio_pbc_start :: "u32 \<Rightarrow> nat \<Rightarrow> gpio_dev \<Rightarrow> gpio_dev" where
  "gpio_pbc_start temp0 gpio s =
     pbc_validate_push temp0 (push_bit 16 (of_nat gpio)) (str9100_gpio_clear_intr (int gpio) s)"

text \<open>The only service routine the device installs.\<close>

definition isr_call :: "u32 \<Rightarrow> isr \<Rightarrow> nat \<Rightarrow> gpio_dev \<Rightarrow> gpio_dev" where
  "isr_call temp0 h i = (case h of Gpio_pbc_start \<Rightarrow> gpio_pbc_start temp0 i)"

section \<open>Module start and end\<close>

definition led_idle :: led_pattern_in_use_t where
  "led_idle = \<lparr>pattern = None, curr_index = 0, curr_repetition = 0\<rparr>"

definition gpio_init_led :: "int \<Rightarrow> gpio_dev \<Rightarrow> gpio_dev" where
  "gpio_init_led gpio s =
     (let s = str9100_gpio_write_direction_bit PIN_OUTPUT gpio s;
          s = gpio_set gpio GPIO_OFF s;
          s = touch gpio s;
          s = s\<lparr>pulse_timers := (pulse_timers s)
                 [nat gpio := map_option (\<lambda>(_, d). (0, d)) (pulse_timers s ! nat gpio)]\<rparr>
      in s\<lparr>ledPatternsUsed := (ledPatternsUsed s)[nat gpio := led_idle]\<rparr>)"

definition gpio_init_button :: "int \<Rightarrow> gpio_dev \<Rightarrow> gpio_dev" where
  "gpio_init_button gpio s =
     (let s = str9100_gpio_write_direction_bit PIN_INPUT gpio s
      in str9100_gpio_set_edgeintr Gpio_pbc_start PIN_TRIG_SINGLE PIN_TRIG_FAILING gpio s)"

definition gpio_init :: "int list \<Rightarrow> int list \<Rightarrow> gpio_dev \<Rightarrow> gpio_dev" where
  "gpio_init outputLeds pushButtons s =
     fold gpio_init_button (take MAX_GPIOS pushButtons) (fold gpio_init_led (take MAX_GPIOS outputLeds) s)"

definition gpio_cleanup_led :: "int \<Rightarrow> gpio_dev \<Rightarrow> gpio_dev" where
  "gpio_cleanup_led gpio s =
     (let s = touch gpio s;
          s = s\<lparr>pulse_timers := (pulse_timers s)[nat gpio := None]\<rparr>
      in gpio_set gpio GPIO_OFF s)"

definition gpio_cleanup_button :: "int \<Rightarrow> gpio_dev \<Rightarrow> gpio_dev" where
  "gpio_cleanup_button gpio s =
     (let s = touch gpio s;
          s = s\<lparr>pbc_flag := (pbc_flag s)[nat gpio := 0]\<rparr>;
          s = (if pbc_timer s ! nat gpio \<noteq> None
               then s\<lparr>pbc_timer := (pbc_timer s)[nat gpio := None]\<rparr> else s)
      in str9100_gpio_clear_intr gpio s)"

definition gpio_cleanup :: "int list \<Rightarrow> int list \<Rightarrow> gpio_dev \<Rightarrow> gpio_dev" where
  "gpio_cleanup outputLeds pushButtons s =
     fold gpio_cleanup_button (take MAX_GPIOS pushButtons)
       (fold gpio_cleanup_led (take MAX_GPIOS outputLeds) s)"

section \<open>File operations\<close>

text \<open>
  \<open>gpio_read\<close>: \<open>Blocked\<close> while the flag is 0 and no signal arrives; otherwise the return value
  and the bytes given to the caller. \<open>copy_ok\<close> is whether \<open>copy_to_user\<close> succeeds.
\<close>

datatype read_out = Blocked | Ret int string

definition gpio_read :: "bool \<Rightarrow> bool \<Rightarrow> int \<Rightarrow> gpio_dev \<Rightarrow> read_out \<times> gpio_dev" where
  "gpio_read signalled copy_ok gpio s =
     (if gpio \<ge> int MAX_GPIOS \<or> gpio < 0 then (Ret (- ENODEV) [], s)
      else let g = nat gpio in
        if pbc_flag s ! g = 0 then (if signalled then (Ret (- ERESTARTSYS) [], s) else (Blocked, s))
        else if pbc_flag s ! g > 0 then
          (if pbc_flag s ! g > 1 then
             (if \<not> copy_ok then (Ret (- ENOMEM) [], s)
              else (Ret 1 ''1'', s\<lparr>pbc_flag := (pbc_flag s)[g := pbc_flag s ! g - 1]\<rparr>))
           else (Ret 0 [], s\<lparr>pbc_flag := (pbc_flag s)[g := 0]\<rparr>))
        else (Ret (- EAGAIN) [], s))"

text \<open>\<open>led_pulse\<close>: the setting up of the pattern on the first call, then the pulse.\<close>

definition led_pulse_setup :: "nat \<Rightarrow> gpio_dev \<Rightarrow> gpio_dev" where
  "led_pulse_setup lednum s =
     (if pattern (ledPatternsUsed s ! lednum) = None then
        let s = (if 0 \<le> pulse_pattern s \<and> pulse_pattern s < NUM_PATTERNS then s
                 else s\<lparr>mem_fault := True\<rparr>)
        in s\<lparr>ledPatternsUsed := (ledPatternsUsed s)
              [lednum := \<lparr>pattern = Some (nat (pulse_pattern s)), curr_index = 0,
                          curr_repetition = 0\<rparr>]\<rparr>
      else s)"

definition led_pulse_show :: "nat \<Rightarrow> gpio_dev \<Rightarrow> gpio_dev" where
  "led_pulse_show lednum s =
     (let used = ledPatternsUsed s ! lednum;
          currPattern = ledPatterns ! the (pattern used);
          used = (if timer_vals currPattern ! curr_index used = - 1
                  then used\<lparr>curr_index := 0, curr_repetition := curr_repetition used + 1\<rparr> else used);
          s = s\<lparr>ledPatternsUsed := (ledPatternsUsed s)[lednum := used]\<rparr>
      in if repetition_count currPattern \<noteq> - 1
            \<and> sint (curr_repetition used) = repetition_count currPattern then
           let s = gpio_set (int lednum) GPIO_OFF s
           in s\<lparr>ledPatternsUsed := (ledPatternsUsed s)[lednum := used\<lparr>pattern := None\<rparr>]\<rparr>
         else
           let pulse_len = timer_vals currPattern ! curr_index used;
               s = s\<lparr>pulse_timers := (pulse_timers s)
                       [lednum := Some (of_int pulse_len + jiffies s, of_nat lednum)]\<rparr>;
               ledStatus = (if odd (curr_index used) then GPIO_OFF else GPIO_ON);
               s = gpio_set (int lednum) ledStatus s
           in s\<lparr>ledPatternsUsed := (ledPatternsUsed s)
                 [lednum := used\<lparr>curr_index := curr_index used + 1\<rparr>]\<rparr>)"

definition led_pulse :: "nat \<Rightarrow> gpio_dev \<Rightarrow> gpio_dev" where
  "led_pulse lednum s = led_pulse_show lednum (led_pulse_setup lednum (touch (int lednum) s))"

text \<open>
  The kernel's \<open>simple_strtoul(cp, NULL, 10)\<close> (\<open>lib/vsprintf.c\<close>): decimal digits up to the first
  other byte, at the width of \<open>unsigned long\<close>.
\<close>

fun simple_strtoul :: "u32 \<Rightarrow> bytes \<Rightarrow> u32" where
  "simple_strtoul result [] = result"
| "simple_strtoul result (c # cp) =
     (if 0x30 \<le> c \<and> c \<le> 0x39 then simple_strtoul (result * 10 + ucast (c - 0x30)) cp else result)"

text \<open>
  \<open>gpio_write\<close>: \<open>Inr data\<close> when \<open>copy_from_user\<close> copies all of the caller's \<open>count\<close> bytes,
  \<open>Inl b\<close> when it fails and leaves \<open>b\<close> in the buffer. Nothing bounds \<open>count\<close> by the size of
  \<open>Buffer\<close>, and nothing terminates what was copied.
\<close>

definition gpio_write :: "int \<Rightarrow> bytes + bytes \<Rightarrow> gpio_dev \<Rightarrow> int \<times> gpio_dev" where
  "gpio_write gpio copied s =
     (if gpio \<ge> int MAX_GPIOS \<or> gpio < 0 then (- ENODEV, s)
      else case copied of
        Inl b \<Rightarrow> (- ENOMEM, s\<lparr>Buffer := b\<rparr>)
      | Inr data \<Rightarrow>
          let g = nat gpio;
              s = (if length data \<le> BUFFER_SIZE then s else s\<lparr>mem_fault := True\<rparr>);
              s = s\<lparr>Buffer := take BUFFER_SIZE data @ drop (length data) (Buffer s)\<rparr>;
              gpioval = simple_strtoul 0 (Buffer s);
              s = (if pulse_timers s ! g \<noteq> None then
                     s\<lparr>pulse_timers := (pulse_timers s)[g := None],
                       ledPatternsUsed := (ledPatternsUsed s)
                         [g := (ledPatternsUsed s ! g)\<lparr>pattern := None\<rparr>]\<rparr>
                   else s)
          in if gpioval = 0 then
               let s = gpio_set_off gpio s
               in (int (length data), if gpio = SYSTEM_LED_GPIO then stop_blinking_SYS_LED 1 s else s)
             else if gpioval = 1 then (int (length data), gpio_set_on gpio s)
             else let s = s\<lparr>pulse_pattern := sint (gpioval - 2)\<rparr>
                  in if pulse_pattern s \<ge> NUM_PATTERNS then (- EINVAL, s)
                     else (int (length data), led_pulse g s))"

section \<open>Events\<close>

text \<open>
  What can happen to the device: the pins change, the interrupt line is raised, a pending timer
  expires at time \<open>t\<close> (not before its expiry, in the wrapping order of \<open>time_after_eq\<close>), a
  process reads or writes a device file.
\<close>

datatype gpio_event =
    Pins u32 u32
  | Irq
  | Pbc_timer nat u32
  | Pulse_timer nat u32
  | Sysled_timer u32
  | Read int bool bool
  | Write int "bytes + bytes"

definition time_after_eq :: "u32 \<Rightarrow> u32 \<Rightarrow> bool" where
  "time_after_eq a b \<longleftrightarrow> sint (a - b) \<ge> 0"

definition fire_pbc :: "u32 \<Rightarrow> nat \<Rightarrow> u32 \<Rightarrow> gpio_dev \<Rightarrow> gpio_dev" where
  "fire_pbc temp0 g t s =
     (if g < MAX_GPIOS then
        case pbc_timer s ! g of
          None \<Rightarrow> s
        | Some (expires, fn, data) \<Rightarrow>
            if time_after_eq t expires then
              let s = s\<lparr>jiffies := t, pbc_timer := (pbc_timer s)[g := None]\<rparr>
              in (case fn of Pbc_validate_push \<Rightarrow> pbc_validate_push temp0 data s
                  | Pbc_cancel \<Rightarrow> pbc_cancel data s)
            else s
      else s)"

definition fire_pulse :: "nat \<Rightarrow> u32 \<Rightarrow> gpio_dev \<Rightarrow> gpio_dev" where
  "fire_pulse g t s =
     (if g < MAX_GPIOS then
        case pulse_timers s ! g of
          None \<Rightarrow> s
        | Some (expires, data) \<Rightarrow>
            if time_after_eq t expires then
              led_pulse (unat data) (s\<lparr>jiffies := t, pulse_timers := (pulse_timers s)[g := None]\<rparr>)
            else s
      else s)"

definition fire_sysled :: "u32 \<Rightarrow> gpio_dev \<Rightarrow> gpio_dev" where
  "fire_sysled t s =
     (case sysled_timer s of
        None \<Rightarrow> s
      | Some (expires, data) \<Rightarrow>
          if time_after_eq t expires
          then blinking_system_led data (s\<lparr>jiffies := t, sysled_timer := None\<rparr>) else s)"

definition gpio_step :: "u32 \<Rightarrow> gpio_dev \<Rightarrow> gpio_event \<Rightarrow> gpio_dev" where
  "gpio_step temp0 s e =
     (case e of
        Pins levels raw \<Rightarrow> s\<lparr>GPIO_DATA_IN_REG := levels, GPIO_INTERRUPT_RAW_STATE_REG := raw\<rparr>
      | Irq \<Rightarrow> str9100_gpio_irq_handler (isr_call temp0) s
      | Pbc_timer g t \<Rightarrow> fire_pbc temp0 g t s
      | Pulse_timer g t \<Rightarrow> fire_pulse g t s
      | Sysled_timer t \<Rightarrow> fire_sysled t s
      | Read gpio signalled copy_ok \<Rightarrow> snd (gpio_read signalled copy_ok gpio s)
      | Write gpio copied \<Rightarrow> snd (gpio_write gpio copied s))"

section \<open>What the register layer leaves alone\<close>

text \<open>The fields of the device that the register operations never touch.\<close>

definition dev_part ::
    "gpio_dev \<Rightarrow> bytes \<times> int list \<times> (u32 \<times> pbc_fn \<times> u32) option list \<times> (u32 \<times> u32) option list
       \<times> led_pattern_in_use_t list \<times> int \<times> bool" where
  "dev_part s = (Buffer s, pbc_flag s, pbc_timer s, pulse_timers s, ledPatternsUsed s,
     pulse_pattern s, mem_fault s)"

lemma dev_part_fields:
  "dev_part s = dev_part t \<Longrightarrow> Buffer s = Buffer t" "dev_part s = dev_part t \<Longrightarrow> pbc_flag s = pbc_flag t"
  "dev_part s = dev_part t \<Longrightarrow> pbc_timer s = pbc_timer t"
  "dev_part s = dev_part t \<Longrightarrow> pulse_timers s = pulse_timers t"
  "dev_part s = dev_part t \<Longrightarrow> ledPatternsUsed s = ledPatternsUsed t"
  "dev_part s = dev_part t \<Longrightarrow> pulse_pattern s = pulse_pattern t"
  "dev_part s = dev_part t \<Longrightarrow> mem_fault s = mem_fault t"
  by (simp_all add: dev_part_def)

lemma dev_part_regs:
  "dev_part (str9100_gpio_set_edgeintr h a b p s) = dev_part s"
  "dev_part (str9100_gpio_clear_intr p s) = dev_part s"
  "dev_part (str9100_gpio_out_bit d b' s) = dev_part s"
  "dev_part (str9100_gpio_write_direction_bit d b' s) = dev_part s"
  "dev_part (gpio_set g v s) = dev_part s"
  "dev_part (gpio_set_off g s) = dev_part s"
  "dev_part (gpio_set_on g s) = dev_part s"
  "dev_part (stop_blinking_SYS_LED i s) = dev_part s"
  "dev_part (blinking_system_led w s) = dev_part s"
  by (simp_all add: dev_part_def str9100_gpio_set_edgeintr_def str9100_gpio_clear_intr_def
      str9100_gpio_out_bit_def str9100_gpio_write_direction_bit_def gpio_set_def gpio_set_off_def
      gpio_set_on_def stop_blinking_SYS_LED_def blinking_system_led_def gpio_reg_defs Let_def)

lemmas dev_frame [simp] = dev_part_regs [THEN dev_part_fields(1)] dev_part_regs [THEN dev_part_fields(2)]
  dev_part_regs [THEN dev_part_fields(3)] dev_part_regs [THEN dev_part_fields(4)]
  dev_part_regs [THEN dev_part_fields(5)] dev_part_regs [THEN dev_part_fields(6)]
  dev_part_regs [THEN dev_part_fields(7)]

lemma hw_frame [simp]:
  "jiffies (str9100_gpio_set_edgeintr h a b p s) = jiffies s"
  "jiffies (str9100_gpio_clear_intr p s) = jiffies s"
  "GPIO_DATA_IN_REG (str9100_gpio_set_edgeintr h a b p s) = GPIO_DATA_IN_REG s"
  "GPIO_DATA_IN_REG (str9100_gpio_clear_intr p s) = GPIO_DATA_IN_REG s"
  "length (gpio_isr (str9100_gpio_set_edgeintr h a b p s)) = length (gpio_isr s)"
  "length (gpio_isr (str9100_gpio_clear_intr p s)) = length (gpio_isr s)"
  by (simp_all add: str9100_gpio_set_edgeintr_def str9100_gpio_clear_intr_def
      str9100_gpio_write_direction_bit_def gpio_reg_defs Let_def)

lemma out_frame [simp]:
  "gpio_isr (str9100_gpio_out_bit d b s) = gpio_isr s"
  "gpio_isr (gpio_set g v t) = gpio_isr t"
  "gpio_isr (gpio_set_off g t) = gpio_isr t"
  "gpio_isr (gpio_set_on g t) = gpio_isr t"
  "gpio_isr (stop_blinking_SYS_LED i s) = gpio_isr s"
  "gpio_isr (blinking_system_led w s) = gpio_isr s"
  "jiffies (gpio_set g v t) = jiffies t"
  by (simp_all add: str9100_gpio_out_bit_def gpio_set_def gpio_set_off_def gpio_set_on_def
      stop_blinking_SYS_LED_def blinking_system_led_def gpio_reg_defs Let_def)

lemma touch_in [simp]: "0 \<le> i \<Longrightarrow> i < 32 \<Longrightarrow> touch i s = s"
  by (simp add: touch_def)

section \<open>The push-button state machine\<close>

text \<open>The timer data packs the pin into the upper half and the call count into the lower half.\<close>

lemma unpack:
  assumes "g < 0x10000" "f < (0x10000::u32)"
  shows "drop_bit 16 (push_bit 16 g OR f) = g" "(push_bit 16 g OR f) AND 0xFFFF = f"
proof -
  have lo: "i < 16" if "w < (0x10000::u32)" "bit w i" for w i
  proof -
    have "take_bit 16 w = w"
      using that(1) by (simp add: word_uint_eq_iff unsigned_take_bit_eq take_bit_int_eq_self word_less_def)
    then show ?thesis using that(2) by (metis bit_take_bit_iff)
  qed
  have m: "(0xFFFF::u32) = mask 16" by (simp add: mask_eq_exp_minus_1)
  show "drop_bit 16 (push_bit 16 g OR f) = g"
    by (rule bit_word_eqI) (auto simp: bit_simps dest: lo [OF assms(1)] lo [OF assms(2)])
  show "(push_bit 16 g OR f) AND 0xFFFF = f"
    unfolding m by (rule bit_word_eqI) (auto simp: bit_simps dest: lo [OF assms(2)])
qed

lemma unpack_nat:
  assumes "g < 65536" "n < 65536"
  shows "drop_bit 16 (push_bit 16 (of_nat g) OR of_nat n :: u32) = of_nat g"
    and "(push_bit 16 (of_nat g) OR of_nat n :: u32) AND 0xFFFF = of_nat n"
proof -
  have "of_nat k < (0x10000::u32)" if "k < 65536" for k
    using that by (simp add: word_less_nat_alt unat_of_nat)
  then show "drop_bit 16 (push_bit 16 (of_nat g) OR of_nat n :: u32) = of_nat g"
    and "(push_bit 16 (of_nat g) OR of_nat n :: u32) AND 0xFFFF = of_nat n"
    using assms by (blast intro: unpack)+
qed

text \<open>How many calls a press of pin \<open>g\<close> must survive before it counts.\<close>

definition waiting :: "nat \<Rightarrow> nat" where
  "waiting g = (if g = 3 then 36 else 2)"

text \<open>Call number \<open>n + 1\<close> for pin \<open>g\<close>: its three outcomes.\<close>

lemma pbc_validate_call:
  assumes g: "g < 21" and n: "n < 1000"
  shows "pbc_validate_push temp0 (push_bit 16 (of_nat g) OR of_nat n) s =
    (if bit (GPIO_DATA_IN_REG s) g then
       str9100_gpio_set_edgeintr Gpio_pbc_start PIN_TRIG_SINGLE PIN_TRIG_FAILING (int g) s
     else if n < waiting g then
       s\<lparr>pbc_timer := (pbc_timer s)[g := Some (7 + jiffies s, Pbc_validate_push,
          push_bit 16 (of_nat g) OR of_nat (n + 1))]\<rparr>
     else gpio_pbc_end g (s\<lparr>pbc_timer := (pbc_timer s)[g := None]\<rparr>))"
proof -
  have id: "uint (of_nat g :: u32) = int g" "unat (of_nat g :: u32) = g"
    using g by (simp_all add: uint_nat unat_of_nat)
  have three: "(of_nat g :: u32) = 3 \<longleftrightarrow> g = 3"
    using g by (simp add: word_unat_eq_iff unat_of_nat)
  have le: "of_nat n + (1::u32) \<le> of_nat (waiting g) \<longleftrightarrow> n < waiting g"
  proof -
    have "of_nat n + (1::u32) = of_nat (n + 1)" by simp
    moreover have "unat (of_nat (n + 1) :: u32) = n + 1" "unat (of_nat (waiting g) :: u32) = waiting g"
      using n by (simp_all only: unat_of_nat) (simp_all add: waiting_def)
    ultimately show ?thesis by (simp only: word_le_nat_alt) auto
  qed
  have wait: "(if g = 3 then 12 * 3 else 2) = (of_nat (waiting g) :: u32)" by (simp add: waiting_def)
  have ok: "bit_ok (int g)" and g': "g < 65536" and n': "n < 65536" using g n by (simp_all add: bit_ok_def)
  have upd: "pbc_timer s ! g = None \<Longrightarrow> (pbc_timer s)[g := None] = pbc_timer s"
    by (metis list_update_id)
  show ?thesis
    unfolding pbc_validate_push_def Let_def unpack_nat [OF g' n'] id three wait le in_bit_value [OF ok]
    using g upd by (cases "pbc_timer s ! g") (auto simp: MSECS_TO_JIFFIES_def add.commute [of 1 "of_nat n"])
qed

lemma gpio_pbc_end_fields [simp]:
  "g < 32 \<Longrightarrow> pbc_flag (gpio_pbc_end g s) = (pbc_flag s)[g := 2]"
  "g < 32 \<Longrightarrow> pbc_timer (gpio_pbc_end g s) =
     (pbc_timer s)[g := Some (2000 + jiffies s, Pbc_cancel, of_nat g)]"
  "jiffies (gpio_pbc_end g s) = jiffies s"
  "g < 32 \<Longrightarrow> mem_fault (gpio_pbc_end g s) = mem_fault s"
  "pulse_timers (gpio_pbc_end g s) = pulse_timers s"
  "ledPatternsUsed (gpio_pbc_end g s) = ledPatternsUsed s"
  "Buffer (gpio_pbc_end g s) = Buffer s"
  "length (gpio_isr (gpio_pbc_end g s)) = length (gpio_isr s)"
  by (simp_all add: gpio_pbc_end_def Let_def SECS_TO_JIFFIES_def touch_def)

text \<open>The button held: each timer fires on its expiry and finds the pin still low.\<close>

definition fire_pbc_on_time :: "u32 \<Rightarrow> nat \<Rightarrow> gpio_dev \<Rightarrow> gpio_dev" where
  "fire_pbc_on_time temp0 g s =
     (case pbc_timer s ! g of None \<Rightarrow> s | Some (expires, _) \<Rightarrow> fire_pbc temp0 g expires s)"

text \<open>The state of a press that has survived \<open>n\<close> calls, begun at time \<open>j\<close>.\<close>

definition pressed :: "nat \<Rightarrow> nat \<Rightarrow> u32 \<Rightarrow> gpio_dev \<Rightarrow> gpio_dev \<Rightarrow> bool" where
  "pressed g n j s0 s \<longleftrightarrow>
     pbc_timer s = (pbc_timer s0)[g := Some (7 + jiffies s, Pbc_validate_push,
        push_bit 16 (of_nat g) OR of_nat n)] \<and>
     pbc_flag s = pbc_flag s0 \<and> jiffies s = j + of_nat (7 * (n - 1)) \<and>
     GPIO_DATA_IN_REG s = GPIO_DATA_IN_REG s0 \<and> mem_fault s = mem_fault s0"

lemma pressed_start:
  assumes "g < 21" "\<not> bit (GPIO_DATA_IN_REG s) g"
  shows "pressed g 1 (jiffies s) s (gpio_pbc_start temp0 g s)"
  using assms pbc_validate_call [OF assms(1), of 0 temp0 "str9100_gpio_clear_intr (int g) s"]
  by (simp add: gpio_pbc_start_def pressed_def waiting_def)

lemma fire_pressed:
  assumes "pressed g n j s0 s" "g < 21" "length (pbc_timer s0) = 32" "n < 1000"
  shows "fire_pbc_on_time temp0 g s =
    pbc_validate_push temp0 (push_bit 16 (of_nat g) OR of_nat n)
      (s\<lparr>jiffies := 7 + jiffies s, pbc_timer := (pbc_timer s0)[g := None]\<rparr>)"
  using assms by (simp add: pressed_def fire_pbc_on_time_def fire_pbc_def time_after_eq_def)

lemma pressed_step:
  assumes "pressed g n j s0 s" "g < 21" "length (pbc_timer s0) = 32" "1 \<le> n" "n < waiting g"
    "\<not> bit (GPIO_DATA_IN_REG s0) g"
  shows "pressed g (n + 1) j s0 (fire_pbc_on_time temp0 g s)"
proof -
  have n: "n < 1000" using assms(5) by (simp add: waiting_def split: if_splits)
  have "of_nat (7 * (n + 1 - 1)) = 7 + (of_nat (7 * (n - 1)) :: u32)"
    using assms(4) by (cases n) (simp_all add: algebra_simps)
  then show ?thesis
    using assms n unfolding fire_pressed [OF assms(1-3) n] pbc_validate_call [OF assms(2) n]
    by (simp add: pressed_def algebra_simps)
qed

text \<open>The state \<open>k\<close> expiries after the press.\<close>

definition held :: "u32 \<Rightarrow> nat \<Rightarrow> nat \<Rightarrow> gpio_dev \<Rightarrow> gpio_dev" where
  "held temp0 g k s = (fire_pbc_on_time temp0 g ^^ k) (gpio_pbc_start temp0 g s)"

lemma pressed_held:
  assumes "g < 21" "length (pbc_timer s) = 32" "\<not> bit (GPIO_DATA_IN_REG s) g" "k < waiting g"
  shows "pressed g (k + 1) (jiffies s) s (held temp0 g k s)"
  using assms(4)
proof (induction k)
  case 0
  show ?case using pressed_start [OF assms(1,3)] by (simp add: held_def)
next
  case (Suc k)
  then have "pressed g (k + 1) (jiffies s) s (held temp0 g k s)" by simp
  from pressed_step [OF this assms(1,2) _ _ assms(3)] Suc.prems show ?case by (simp add: held_def)
qed

lemma held_end:
  assumes "g < 21" "length (pbc_timer s) = 32" "\<not> bit (GPIO_DATA_IN_REG s) g"
  shows "\<exists>t. held temp0 g (waiting g) s = gpio_pbc_end g t \<and> pbc_flag t = pbc_flag s \<and>
    jiffies t = jiffies s + of_nat (7 * waiting g) \<and> length (pbc_timer t) = 32 \<and> mem_fault t = mem_fault s"
proof -
  define n where "n = waiting g - 1"
  have n: "waiting g = n + 1" "n + 1 < 1000" by (simp_all add: n_def waiting_def)
  let ?p = "held temp0 g n s"
  have p: "pressed g (n + 1) (jiffies s) s ?p" using pressed_held [OF assms, of n] n by simp
  have "held temp0 g (waiting g) s = fire_pbc_on_time temp0 g ?p" by (simp add: held_def n)
  also have "\<dots> = gpio_pbc_end g (?p\<lparr>jiffies := 7 + jiffies ?p, pbc_timer := (pbc_timer s)[g := None]\<rparr>)"
    using p assms n unfolding fire_pressed [OF p assms(1,2) n(2)] pbc_validate_call [OF assms(1) n(2)]
    by (simp add: pressed_def)
  finally show ?thesis using p assms n by (intro exI) (auto simp: pressed_def algebra_simps)
qed

section \<open>LED patterns\<close>

text \<open>The position of the \<open>-1\<close> that ends each pattern.\<close>

definition led_end :: "nat \<Rightarrow> nat" where
  "led_end p = (if p = 1 then 10 else 2)"

lemma ledPatterns_shape:
  assumes "p < 5"
  obtains xs ys where "timer_vals (ledPatterns ! p) = xs @ - 1 # ys" "length xs = led_end p"
    "- 1 \<notin> set xs" "repetition_count (ledPatterns ! p) = - 1"
proof -
  have "p = 0 \<or> p = 1 \<or> p = 2 \<or> p = 3 \<or> p = 4" using assms by auto
  then have "\<exists>xs ys. timer_vals (ledPatterns ! p) = xs @ - 1 # ys \<and> length xs = led_end p \<and>
    - 1 \<notin> set xs \<and> repetition_count (ledPatterns ! p) = - 1"
  proof (elim disjE)
    assume "p = 0" show ?thesis unfolding \<open>p = 0\<close>
      by (rule exI [of _ "[100, 100]"]) (simp add: ledPatterns_def timer_array_def MS_def led_end_def)
  next
    assume "p = 1" show ?thesis unfolding \<open>p = 1\<close>
      by (rule exI [of _ "[10, 10, 10, 10, 10, 10, 10, 10, 10, 60]"])
        (simp add: ledPatterns_def timer_array_def MS_def led_end_def)
  next
    assume "p = 2" show ?thesis unfolding \<open>p = 2\<close>
      by (rule exI [of _ "[10, 10]"]) (simp add: ledPatterns_def timer_array_def MS_def led_end_def)
  next
    assume "p = 3" show ?thesis unfolding \<open>p = 3\<close>
      by (rule exI [of _ "[30, 30]"]) (simp add: ledPatterns_def timer_array_def MS_def led_end_def)
  next
    assume "p = 4" show ?thesis unfolding \<open>p = 4\<close>
      by (rule exI [of _ "[20, 10]"]) (simp add: ledPatterns_def timer_array_def MS_def led_end_def)
  qed
  then show ?thesis using that by blast
qed

lemma timer_vals_end:
  assumes "p < 5" "i \<le> led_end p"
  shows "timer_vals (ledPatterns ! p) ! i = - 1 \<longleftrightarrow> i = led_end p"
    and "repetition_count (ledPatterns ! p) = - 1"
proof -
  obtain xs ys where "timer_vals (ledPatterns ! p) = xs @ - 1 # ys" "length xs = led_end p"
    "- 1 \<notin> set xs" and r: "repetition_count (ledPatterns ! p) = - 1"
    by (rule ledPatterns_shape [OF assms(1)])
  then show "timer_vals (ledPatterns ! p) ! i = - 1 \<longleftrightarrow> i = led_end p"
    using assms(2) by (auto simp: nth_append in_set_conv_nth)
  show "repetition_count (ledPatterns ! p) = - 1" by (rule r)
qed

definition led_ok :: "led_pattern_in_use_t \<Rightarrow> bool" where
  "led_ok u = (case pattern u of None \<Rightarrow> True | Some p \<Rightarrow> p < 5 \<and> curr_index u \<le> led_end p)"

text \<open>One pulse of a LED whose pattern is set.\<close>

lemma led_pulse_running:
  assumes u: "ledPatternsUsed s ! g = \<lparr>pattern = Some p, curr_index = i, curr_repetition = r\<rparr>"
    and "g < 32" "length (ledPatternsUsed s) = 32" "p < 5" "i \<le> led_end p"
  shows "led_pulse g s =
    (let j = (if i = led_end p then 0 else i); r = (if i = led_end p then r + 1 else r) in
     (gpio_set (int g) (if odd j then GPIO_OFF else GPIO_ON)
        (s\<lparr>ledPatternsUsed := (ledPatternsUsed s)
             [g := \<lparr>pattern = Some p, curr_index = j, curr_repetition = r\<rparr>],
           pulse_timers := (pulse_timers s)
             [g := Some (of_int (timer_vals (ledPatterns ! p) ! j) + jiffies s, of_nat g)]\<rparr>))
      \<lparr>ledPatternsUsed := (ledPatternsUsed s)
         [g := \<lparr>pattern = Some p, curr_index = j + 1, curr_repetition = r\<rparr>]\<rparr>)"
  using assms timer_vals_end [OF assms(4,5)]
  by (simp add: led_pulse_def led_pulse_setup_def led_pulse_show_def Let_def)

lemma led_pulse_start:
  assumes "pattern (ledPatternsUsed s ! g) = None" "g < 32" "length (ledPatternsUsed s) = 32"
    and "0 \<le> pulse_pattern s" "pulse_pattern s < 5"
  shows "led_pulse g s = led_pulse g (s\<lparr>ledPatternsUsed := (ledPatternsUsed s)
    [g := \<lparr>pattern = Some (nat (pulse_pattern s)), curr_index = 0, curr_repetition = 0\<rparr>]\<rparr>)"
  using assms by (simp add: led_pulse_def led_pulse_setup_def)

section \<open>The invariant of the device\<close>

definition pbc_timer_ok :: "nat \<Rightarrow> (u32 \<times> pbc_fn \<times> u32) option \<Rightarrow> bool" where
  "pbc_timer_ok g t = (case t of None \<Rightarrow> True | Some (_, fn, d) \<Rightarrow> g < 21 \<and>
     (case fn of Pbc_cancel \<Rightarrow> d = of_nat g
      | Pbc_validate_push \<Rightarrow> \<exists>n \<le> 36. d = push_bit 16 (of_nat g) OR of_nat n))"

definition pulse_timer_ok :: "nat \<Rightarrow> (u32 \<times> u32) option \<Rightarrow> bool" where
  "pulse_timer_ok g t = (case t of None \<Rightarrow> True | Some (_, d) \<Rightarrow> d = of_nat g)"

definition gpio_inv :: "gpio_dev \<Rightarrow> bool" where
  "gpio_inv s \<longleftrightarrow> length (gpio_isr s) = 21 \<and> length (Buffer s) = 512 \<and> length (pbc_flag s) = 32 \<and>
     length (pbc_timer s) = 32 \<and> length (pulse_timers s) = 32 \<and> length (ledPatternsUsed s) = 32 \<and>
     \<not> mem_fault s \<and>
     (\<forall>g < 32. pbc_flag s ! g \<in> {0, 1, 2} \<and> pbc_timer_ok g (pbc_timer s ! g) \<and>
        pulse_timer_ok g (pulse_timers s ! g) \<and> led_ok (ledPatternsUsed s ! g) \<and>
        (pulse_timers s ! g \<noteq> None \<longrightarrow> pattern (ledPatternsUsed s ! g) \<noteq> None))"

lemma gpio_inv_cong:
  "dev_part s = dev_part t \<Longrightarrow> length (gpio_isr s) = length (gpio_isr t) \<Longrightarrow> gpio_inv s = gpio_inv t"
  by (simp add: gpio_inv_def dev_part_def)

lemma gpio_inv_regs [simp]:
  "gpio_inv (str9100_gpio_set_edgeintr h a b p s) = gpio_inv s"
  "gpio_inv (str9100_gpio_clear_intr p s) = gpio_inv s"
  "gpio_inv (gpio_set g v s) = gpio_inv s"
  "gpio_inv (gpio_set_off g s) = gpio_inv s"
  "gpio_inv (gpio_set_on g s) = gpio_inv s"
  "gpio_inv (stop_blinking_SYS_LED i s) = gpio_inv s"
  "gpio_inv (blinking_system_led w s) = gpio_inv s"
  by (rule gpio_inv_cong; simp add: dev_part_regs)+

lemma gpio_inv_upd:
  assumes "gpio_inv s"
  shows "v \<in> {0, 1, 2} \<Longrightarrow> gpio_inv (s\<lparr>pbc_flag := (pbc_flag s)[g := v]\<rparr>)"
    and "pbc_timer_ok g t \<Longrightarrow> gpio_inv (s\<lparr>pbc_timer := (pbc_timer s)[g := t]\<rparr>)"
    and "led_ok l \<Longrightarrow> pattern l \<noteq> None \<Longrightarrow> gpio_inv (s\<lparr>ledPatternsUsed := (ledPatternsUsed s)[g := l]\<rparr>)"
    and "gpio_inv (s\<lparr>jiffies := j\<rparr>)"
    and "gpio_inv (s\<lparr>sysled_timer := st\<rparr>)"
    and "gpio_inv (s\<lparr>pulse_pattern := i\<rparr>)"
    and "gpio_inv (s\<lparr>GPIO_DATA_IN_REG := w, GPIO_INTERRUPT_RAW_STATE_REG := x\<rparr>)"
    and "length b = 512 \<Longrightarrow> gpio_inv (s\<lparr>Buffer := b\<rparr>)"
    and "gpio_inv (s\<lparr>pulse_timers := (pulse_timers s)[g := None],
      ledPatternsUsed := (ledPatternsUsed s)[g := (ledPatternsUsed s ! g)\<lparr>pattern := None\<rparr>]\<rparr>)"
proof -
  have "led_ok (u\<lparr>pattern := None\<rparr>)" "pulse_timer_ok g None" for u
    by (simp_all add: led_ok_def pulse_timer_ok_def)
  then show "gpio_inv (s\<lparr>pulse_timers := (pulse_timers s)[g := None],
      ledPatternsUsed := (ledPatternsUsed s)[g := (ledPatternsUsed s ! g)\<lparr>pattern := None\<rparr>]\<rparr>)"
    using assms by (simp add: gpio_inv_def nth_update)
qed (use assms in \<open>auto simp: gpio_inv_def nth_update\<close>)

lemma pbc_end_inv:
  assumes "gpio_inv s" "g < 21"
  shows "gpio_inv (gpio_pbc_end g s)"
  using assms by (auto simp: gpio_inv_def nth_update pbc_timer_ok_def)

lemma pbc_validate_inv:
  assumes "gpio_inv s" "g < 21" "n \<le> 36"
  shows "gpio_inv (pbc_validate_push temp0 (push_bit 16 (of_nat g) OR of_nat n) s)"
proof -
  have n: "n < 1000" using assms(3) by simp
  have "pbc_timer_ok g (Some (e, Pbc_validate_push, push_bit 16 (of_nat g) OR of_nat (n + 1)))"
    if "n < waiting g" for e
  proof -
    have "n + 1 \<le> 36" using that by (simp add: waiting_def split: if_splits)
    then show ?thesis unfolding pbc_timer_ok_def option.case prod.case pbc_fn.case
      using assms(2) by blast
  qed
  moreover have "pbc_timer_ok g None" by (simp add: pbc_timer_ok_def)
  ultimately show ?thesis
    unfolding pbc_validate_call [OF assms(2) n] using assms(1,2)
    by (simp add: gpio_inv_upd pbc_end_inv del: of_nat_add of_nat_Suc)
qed

lemma pbc_start_inv:
  "gpio_inv s \<Longrightarrow> g < 21 \<Longrightarrow> gpio_inv (gpio_pbc_start temp0 g s)"
  using pbc_validate_inv [of "str9100_gpio_clear_intr (int g) s" g 0 temp0] by (simp add: gpio_pbc_start_def)

lemma led_pulse_running_inv:
  assumes "gpio_inv s" "g < 32" "pattern (ledPatternsUsed s ! g) = Some p"
  shows "gpio_inv (led_pulse g s)"
proof -
  obtain i r where u: "ledPatternsUsed s ! g = \<lparr>pattern = Some p, curr_index = i, curr_repetition = r\<rparr>"
    using assms(3) by (cases "ledPatternsUsed s ! g") simp
  have l: "p < 5" "i \<le> led_end p" "length (ledPatternsUsed s) = 32"
    using assms(1,2) u by (auto simp: gpio_inv_def led_ok_def)
  show ?thesis
    unfolding led_pulse_running [OF u assms(2) l(3,1,2)] Let_def
    using assms l
    by (auto simp: led_ok_def pulse_timer_ok_def led_end_def gpio_inv_def nth_update)
qed

lemma led_pulse_inv:
  assumes "gpio_inv s" "g < 32"
    and "pattern (ledPatternsUsed s ! g) = None \<Longrightarrow> 0 \<le> pulse_pattern s \<and> pulse_pattern s < 5"
  shows "gpio_inv (led_pulse g s)"
proof (cases "pattern (ledPatternsUsed s ! g)")
  case None
  have len: "length (ledPatternsUsed s) = 32" using assms(1) by (simp add: gpio_inv_def)
  show ?thesis
    unfolding led_pulse_start [OF None assms(2) len conjunct1 [OF assms(3) [OF None]] conjunct2 [OF assms(3) [OF None]]]
    using assms None len by (intro led_pulse_running_inv gpio_inv_upd) (auto simp: led_ok_def nat_less_iff)
qed (use assms led_pulse_running_inv in auto)

text \<open>The device's service routine is a client of the dispatch loop.\<close>

lemma isr_set_edgeintr: "pin_ok p \<Longrightarrow> gpio_isr (str9100_gpio_set_edgeintr h a b p s) = (gpio_isr s)[nat p := Some h]"
  by (simp add: str9100_gpio_set_edgeintr_def str9100_gpio_write_direction_bit_def gpio_reg_defs Let_def)

lemma isr_clear_intr: "pin_ok p \<Longrightarrow> gpio_isr (str9100_gpio_clear_intr p s) = (gpio_isr s)[nat p := None]"
  by (simp add: str9100_gpio_clear_intr_def gpio_reg_defs Let_def)

lemma isr_pbc_end:
  "g < 21 \<Longrightarrow> gpio_isr (gpio_pbc_end g s) = (gpio_isr s)[g := Some Gpio_pbc_start]"
  by (simp add: gpio_pbc_end_def Let_def isr_set_edgeintr isr_clear_intr pin_ok_def)

lemma isr_pbc_start:
  assumes "g < 21"
  shows "gpio_isr (gpio_pbc_start temp0 g s) =
    (gpio_isr s)[g := if bit (GPIO_DATA_IN_REG s) g then Some Gpio_pbc_start else None]"
proof -
  have "pin_ok (int g)" using assms by (simp add: pin_ok_def)
  then show ?thesis
    using pbc_validate_call [OF assms, of 0 temp0 "str9100_gpio_clear_intr (int g) s"]
    by (simp add: gpio_pbc_start_def waiting_def isr_set_edgeintr isr_clear_intr)
qed

interpretation dev_isr: isr_client "isr_call temp0" for temp0
proof
  fix i j :: nat and h and s :: gpio_dev
  assume "i < 21" "j \<noteq> i"
  then show "gpio_isr (isr_call temp0 h i s) ! j = gpio_isr s ! j"
    by (cases h) (simp add: isr_call_def isr_pbc_start)
qed

lemma fold_isr_inv:
  "gpio_inv s \<Longrightarrow> (\<forall>(h, j) \<in> set hs. j < 21) \<Longrightarrow> gpio_inv (fold (\<lambda>(h, j). isr_call temp0 h j) hs s)"
proof (induction hs arbitrary: s)
  case (Cons a hs)
  obtain h j where "a = (h, j)" by (cases a)
  then show ?case using Cons by (cases h) (simp add: isr_call_def pbc_start_inv)
qed simp

lemma irq_inv:
  assumes "gpio_inv s"
  shows "gpio_inv (str9100_gpio_irq_handler (isr_call temp0) s)"
proof -
  have upd: "gpio_inv (t\<lparr>INTC_INTERRUPT_MASK_REG := v\<rparr>) = gpio_inv t"
    "gpio_inv (t\<lparr>INTC_INTERRUPT_CLEAR_EDGE_TRIGGER_REG := v\<rparr>) = gpio_inv t"
    "gpio_inv (t\<lparr>GPIO_INTERRUPT_CLEAR_REG := v\<rparr>) = gpio_inv t" for t v
    by (simp_all add: gpio_inv_def)
  have "gpio_inv (irq_loop (isr_call temp0) 0 w t)" if "gpio_inv t" for w t
    unfolding dev_isr.irq_loop_dispatch using that by (auto intro!: fold_isr_inv simp: isr_pending_set)
  then show ?thesis using assms by (simp add: str9100_gpio_irq_handler_def Let_def gpio_reg_defs upd)
qed

lemma fire_pbc_inv:
  assumes "gpio_inv s"
  shows "gpio_inv (fire_pbc temp0 g t s)"
proof (cases "g < 32 \<and> (\<exists>e fn d. pbc_timer s ! g = Some (e, fn, d) \<and> time_after_eq t e)")
  case True
  then obtain e fn d where g: "g < 32" and tm: "pbc_timer s ! g = Some (e, fn, d)" "time_after_eq t e" by blast
  let ?s = "s\<lparr>jiffies := t, pbc_timer := (pbc_timer s)[g := None]\<rparr>"
  have inv: "gpio_inv ?s" using assms by (auto simp: gpio_inv_def nth_update pbc_timer_ok_def)
  have ok: "pbc_timer_ok g (Some (e, fn, d))" using assms g tm by (metis gpio_inv_def)
  show ?thesis
  proof (cases fn)
    case Pbc_validate_push
    with ok obtain n where "g < 21" "n \<le> 36" "d = push_bit 16 (of_nat g) OR of_nat n"
      by (auto simp: pbc_timer_ok_def)
    with g tm inv Pbc_validate_push show ?thesis by (simp add: fire_pbc_def pbc_validate_inv)
  next
    case Pbc_cancel
    with ok have d: "g < 21" "uint d = int g" "unat d = g"
      by (auto simp: pbc_timer_ok_def uint_nat unat_of_nat)
    with g tm inv Pbc_cancel show ?thesis
      by (simp add: fire_pbc_def pbc_cancel_def Let_def) (auto simp: gpio_inv_def nth_update pbc_timer_ok_def)
  qed
next
  case False
  then have "fire_pbc temp0 g t s = s"
    by (auto simp: fire_pbc_def split: option.split)
  with assms show ?thesis by simp
qed

lemma fire_pulse_inv:
  assumes "gpio_inv s"
  shows "gpio_inv (fire_pulse g t s)"
proof (cases "g < 32 \<and> (\<exists>e d. pulse_timers s ! g = Some (e, d) \<and> time_after_eq t e)")
  case True
  then obtain e d where g: "g < 32" and tm: "pulse_timers s ! g = Some (e, d)" "time_after_eq t e" by blast
  have "d = of_nat g" using assms(1) g tm by (auto simp: gpio_inv_def pulse_timer_ok_def)
  then have d: "unat d = g" using g by (simp add: unat_of_nat)
  have "gpio_inv (led_pulse g (s\<lparr>jiffies := t, pulse_timers := (pulse_timers s)[g := None]\<rparr>))"
    using assms g tm by (intro led_pulse_inv) (auto simp: gpio_inv_def nth_update pulse_timer_ok_def)
  with g tm d show ?thesis by (simp add: fire_pulse_def)
next
  case False
  then have "fire_pulse g t s = s" by (auto simp: fire_pulse_def split: option.split)
  with assms show ?thesis by simp
qed

lemma read_inv:
  assumes "gpio_inv s"
  shows "gpio_inv (snd (gpio_read signalled copy_ok gpio s))"
proof (cases "gpio \<ge> 32 \<or> gpio < 0")
  case False
  then have "pbc_flag s ! nat gpio \<in> {0, 1, 2}" using assms by (simp add: gpio_inv_def nat_less_iff)
  then show ?thesis using assms False by (auto simp: gpio_read_def Let_def gpio_inv_upd)
qed (use assms in \<open>auto simp: gpio_read_def\<close>)

lemma strtoul_append:
  "(\<exists>c \<in> set cp. \<not> (0x30 \<le> c \<and> c \<le> 0x39)) \<Longrightarrow> simple_strtoul r (cp @ rest) = simple_strtoul r cp"
  by (induction cp arbitrary: r) auto

text \<open>
  The events the driver is safe for: a written text fits the buffer, has a byte that is no digit
  (as the newline \<open>echo\<close> appends), and its number is below \<open>2\<^sup>3\<^sup>1\<close>; a failed copy leaves the
  buffer its size.
\<close>

definition event_ok :: "gpio_event \<Rightarrow> bool" where
  "event_ok e = (case e of
     Write _ (Inr data) \<Rightarrow> length data \<le> 512 \<and> (\<exists>c \<in> set data. \<not> (0x30 \<le> c \<and> c \<le> 0x39)) \<and>
       simple_strtoul 0 data < 0x80000000
   | Write _ (Inl b) \<Rightarrow> length b = 512
   | _ \<Rightarrow> True)"

lemma sint_small: "uint (v::u32) < 2 ^ 31 \<Longrightarrow> sint v = uint v"
  by (simp add: sint_uint signed_take_bit_int_eq_self_iff order_trans [OF _ uint_ge_0])

lemma sint_minus_2:
  assumes "(v::u32) < 0x80000000" "v \<noteq> 0" "v \<noteq> 1"
  shows "0 \<le> sint (v - 2)"
proof -
  have v: "2 \<le> uint v" "uint v < 2 ^ 31"
  proof -
    have "uint v \<noteq> 0" "uint v \<noteq> 1" using assms(2,3) by (metis uint_0_iff, metis uint_1 word_uint_eq_iff)
    then show "2 \<le> uint v" using uint_ge_0 [of v] by linarith
    show "uint v < 2 ^ 31" using assms(1) by (simp add: word_less_def)
  qed
  then have "uint (v - 2) = uint v - 2" by (simp add: uint_sub_if')
  with v show ?thesis by (simp add: sint_small)
qed

lemma write_inv:
  assumes "gpio_inv s" "event_ok (Write gpio copied)"
  shows "gpio_inv (snd (gpio_write gpio copied s))"
proof (cases "gpio \<ge> 32 \<or> gpio < 0")
  case gpio: False
  then have g: "nat gpio < 32" by (simp add: nat_less_iff)
  show ?thesis
  proof (cases copied)
    case (Inl b)
    then show ?thesis using assms gpio by (simp add: gpio_write_def event_ok_def gpio_inv_def)
  next
    case (Inr data)
    then have d: "length data \<le> 512" "simple_strtoul 0 data < 0x80000000"
      and "\<exists>c \<in> set data. \<not> (0x30 \<le> c \<and> c \<le> 0x39)" using assms(2) by (auto simp: event_ok_def)
    then have v: "simple_strtoul 0 (data @ rest) = simple_strtoul 0 data" for rest
      using strtoul_append by blast
    let ?b = "s\<lparr>Buffer := data @ drop (length data) (Buffer s)\<rparr>"
    let ?t = "if pulse_timers s ! nat gpio \<noteq> None then
        ?b\<lparr>pulse_timers := (pulse_timers s)[nat gpio := None], ledPatternsUsed := (ledPatternsUsed s)
           [nat gpio := (ledPatternsUsed s ! nat gpio)\<lparr>pattern := None\<rparr>]\<rparr> else ?b"
    have b: "gpio_inv ?b" using assms(1) d(1) by (intro gpio_inv_upd) (auto simp: gpio_inv_def)
    have t: "gpio_inv ?t" using b gpio_inv_upd(9) [OF b, of "nat gpio"] by simp
    show ?thesis
    proof (cases "simple_strtoul 0 data \<in> {0, 1}")
      case True
      then show ?thesis using t gpio d Inr by (auto simp: gpio_write_def Let_def v)
    next
      case False
      then have "0 \<le> sint (simple_strtoul 0 data - 2)" using sint_minus_2 [OF d(2)] by simp
      with False show ?thesis using t gpio d g Inr
        by (auto simp: gpio_write_def Let_def v intro!: led_pulse_inv gpio_inv_upd(6))
    qed
  qed
qed (use assms in \<open>auto simp: gpio_write_def\<close>)

lemma gpio_step_inv: "gpio_inv s \<Longrightarrow> event_ok e \<Longrightarrow> gpio_inv (gpio_step temp0 s e)"
  by (cases e) (auto simp: gpio_step_def irq_inv fire_pbc_inv fire_pulse_inv read_inv write_inv
      fire_sysled_def gpio_inv_upd split: option.split) 

interpretation dev_system: invariant_system "gpio_step temp0" gpio_inv event_ok for temp0
  by unfold_locales (rule gpio_step_inv)

text \<open>A device after power on: nothing pending, no fault.\<close>

definition gpio_dev_idle :: gpio_dev where
  "gpio_dev_idle = \<lparr>GPIO_DATA_OUT_REG = 0, GPIO_DATA_IN_REG = 0, GPIO_PIN_DIR_REG = 0,
     GPIO_DATA_SET_REG = 0, GPIO_DATA_CLEAR_REG = 0, GPIO_INTERRUPT_ENABLE_REG = 0,
     GPIO_INTERRUPT_RAW_STATE_REG = 0, GPIO_INTERRUPT_MASKED_STATE_REG = 0,
     GPIO_INTERRUPT_MASK_REG = 0, GPIO_INTERRUPT_CLEAR_REG = 0, GPIO_INTERRUPT_TRIGGER_REG = 0,
     GPIO_INTERRUPT_BOTH_REG = 0, GPIO_INTERRUPT_RISE_NEG_REG = 0, INTC_INTERRUPT_MASK_REG = 0,
     INTC_INTERRUPT_CLEAR_EDGE_TRIGGER_REG = 0, gpio_isr = replicate 21 None,
     sys_blinking_flag = 1, sysled_timer = None, jiffies = 0, Buffer = replicate 512 0,
     pbc_flag = replicate 32 0, pbc_timer = replicate 32 None, pulse_timers = replicate 32 None,
     ledPatternsUsed = replicate 32 led_idle, pulse_pattern = 0, mem_fault = False\<rparr>"

lemma gpio_inv_idle: "gpio_inv gpio_dev_idle"
  by (simp add: gpio_inv_def gpio_dev_idle_def pbc_timer_ok_def pulse_timer_ok_def led_ok_def led_idle_def)

section \<open>A LED that pulses\<close>

text \<open>The pulse timer fires on its expiry.\<close>

definition fire_pulse_on_time :: "nat \<Rightarrow> gpio_dev \<Rightarrow> gpio_dev" where
  "fire_pulse_on_time g s =
     (case pulse_timers s ! g of None \<Rightarrow> s | Some (expires, _) \<Rightarrow> fire_pulse g expires s)"

text \<open>The LED \<open>g\<close> shows step \<open>k\<close> of the pattern \<open>p\<close>.\<close>

definition showing :: "nat \<Rightarrow> nat \<Rightarrow> nat \<Rightarrow> gpio_dev \<Rightarrow> bool" where
  "showing g p k s \<longleftrightarrow> length (ledPatternsUsed s) = 32 \<and> length (pulse_timers s) = 32 \<and>
     pattern (ledPatternsUsed s ! g) = Some p \<and> curr_index (ledPatternsUsed s ! g) = k mod led_end p + 1 \<and>
     pulse_timers s ! g =
       Some (of_int (timer_vals (ledPatterns ! p) ! (k mod led_end p)) + jiffies s, of_nat g) \<and>
     bit (GPIO_DATA_OUT_REG s) g = odd k"

lemma bit_gpio_set:
  assumes "g \<le> 20"
  shows "bit (GPIO_DATA_OUT_REG (gpio_set (int g) v s)) g \<longleftrightarrow> v \<noteq> GPIO_ON"
proof -
  have "bit_ok (int g)" using assms by (simp add: bit_ok_def)
  then have "bit (GPIO_DATA_OUT_REG (str9100_gpio_out_bit d (int g) s)) g = bit d 0" for d
    using assms bit_clear_set [of g g "GPIO_DATA_IN_REG s" d]
    by (simp add: str9100_gpio_out_bit_def gpio_reg_defs)
  then show ?thesis by (simp add: gpio_set_def gpio_set_on_def gpio_set_off_def)
qed

lemma led_end_even: "even (led_end p)" "0 < led_end p"
  by (simp_all add: led_end_def)

lemma mod_led_end: "(k + 1) mod led_end p = (if k mod led_end p + 1 = led_end p then 0 else k mod led_end p + 1)"
  using led_end_even(2) [of p] by (simp add: mod_Suc)

lemma odd_mod_led_end: "odd (k mod led_end p) = odd k"
  using led_end_even(1) [of p] by (metis dvd_mod_iff)

lemma showing_pulse:
  assumes "pattern (ledPatternsUsed s ! g) = Some p" "curr_index (ledPatternsUsed s ! g) = i"
    and "g \<le> 20" "p < 5" "i \<le> led_end p" "length (ledPatternsUsed s) = 32" "length (pulse_timers s) = 32"
    and "(if i = led_end p then 0 else i) = k mod led_end p"
  shows "showing g p k (led_pulse g s)"
proof -
  obtain r where u: "ledPatternsUsed s ! g = \<lparr>pattern = Some p, curr_index = i, curr_repetition = r\<rparr>"
    using assms(1,2) by (cases "ledPatternsUsed s ! g") simp
  have g: "g < 32" using assms(3) by simp
  show ?thesis
    unfolding led_pulse_running [OF u g assms(6,4,5)] Let_def assms(8) odd_mod_led_end showing_def
    using assms(3,6,7) bit_gpio_set [OF assms(3)] by simp
qed

lemma showing_step:
  assumes "showing g p k s" "g \<le> 20" "p < 5"
  shows "showing g p (k + 1) (fire_pulse_on_time g s)"
proof -
  let ?e = "of_int (timer_vals (ledPatterns ! p) ! (k mod led_end p)) + jiffies s"
  have "fire_pulse_on_time g s = led_pulse g (s\<lparr>jiffies := ?e, pulse_timers := (pulse_timers s)[g := None]\<rparr>)"
    using assms(1,2) by (simp add: showing_def fire_pulse_on_time_def fire_pulse_def time_after_eq_def unat_of_nat)
  also have "showing g p (k + 1) \<dots>"
  proof (rule showing_pulse [where i = "k mod led_end p + 1"])
    show "k mod led_end p + 1 \<le> led_end p" using led_end_even(2) [of p] by (simp add: Suc_leI)
    show "(if k mod led_end p + 1 = led_end p then 0 else k mod led_end p + 1) = (k + 1) mod led_end p"
      by (simp only: mod_led_end)
  qed (use assms in \<open>simp_all add: showing_def\<close>)
  finally show ?thesis .
qed

section \<open>Numbers written to a device\<close>

lemma strtoul_digit:
  assumes "0x30 \<le> c" "c \<le> (0x39::u8)"
  shows "(ucast (c - 0x30) :: u32) = of_nat (unat c - 48)" "48 \<le> unat c" "unat c \<le> 57"
proof -
  show u: "48 \<le> unat c" "unat c \<le> 57" using assms by (simp_all add: word_le_nat_alt)
  have "unat (c - 0x30) = unat c - 48" using assms(1) by (simp add: unat_sub)
  then show "(ucast (c - 0x30) :: u32) = of_nat (unat c - 48)" by (metis of_nat_unat)
qed

lemma sint_of_nat_minus_2:
  assumes "2 \<le> n" "n < 1000"
  shows "sint (of_nat n - 2 :: u32) = int n - 2"
proof -
  have u: "unat (of_nat k :: u32) = k" if "k < 1000" for k using that by (simp add: unat_of_nat)
  have "(of_nat n - 2 :: u32) = of_nat (n - 2)" using assms(1) by (simp add: of_nat_diff)
  moreover have "uint (of_nat (n - 2) :: u32) = int (n - 2)" using assms u [of "n - 2"] by (simp only: uint_nat)
  ultimately show ?thesis using assms sint_small [of "of_nat (n - 2)"] by (simp only:) simp
qed

lemma gpio_write_pulse:
  assumes "g < 32" "length data \<le> 512" "length (ledPatternsUsed s) = 32" "p < 5"
    and v: "simple_strtoul 0 (data @ drop (length data) (Buffer s)) = v"
    and "v \<noteq> 0" "v \<noteq> 1" "sint (v - 2) = int p"
    and idle: "pulse_timers s ! g = None \<longrightarrow> pattern (ledPatternsUsed s ! g) = None"
  shows "\<exists>u. gpio_write (int g) (Inr data) s = (int (length data), led_pulse g u) \<and>
    pattern (ledPatternsUsed u ! g) = None \<and> length (ledPatternsUsed u) = 32 \<and>
    length (pulse_timers u) = length (pulse_timers s) \<and> pulse_pattern u = int p"
proof (cases "pulse_timers s ! g")
  case None
  show ?thesis
    by (rule exI [of _ "s\<lparr>Buffer := data @ drop (length data) (Buffer s), pulse_pattern := int p\<rparr>"])
      (use assms None in \<open>simp add: gpio_write_def Let_def\<close>)
next
  case (Some a)
  show ?thesis
    by (rule exI [of _ "s\<lparr>Buffer := data @ drop (length data) (Buffer s),
          pulse_timers := (pulse_timers s)[g := None], ledPatternsUsed := (ledPatternsUsed s)
            [g := (ledPatternsUsed s ! g)\<lparr>pattern := None\<rparr>], pulse_pattern := int p\<rparr>"])
      (use assms Some in \<open>simp add: gpio_write_def Let_def\<close>)
qed

section \<open>Properties\<close>

text \<open>
  A push button held down counts after exactly \<open>waiting g\<close> timer periods and not before:
  started by the falling edge at time \<open>jiffies s\<close>, the flag of every button is unchanged after
  any smaller number of expiries; at expiry number \<open>waiting g\<close> the flag of the pressed button
  is 2 and the others are unchanged, and that is 7 ticks of 10 ms per period later (2.52 s for
  the reset button, 140 ms for the others).
\<close>

theorem pbc_held_registers:
  assumes "g < 21" "length (pbc_timer s) = 32" "\<not> bit (GPIO_DATA_IN_REG s) g"
  shows "(\<forall>k < waiting g. pbc_flag (held temp0 g k s) = pbc_flag s) \<and>
    pbc_flag (held temp0 g (waiting g) s) = (pbc_flag s)[g := 2] \<and>
    jiffies (held temp0 g (waiting g) s) = jiffies s + of_nat (7 * waiting g) \<and>
    pbc_timer (held temp0 g (waiting g) s) ! g =
      Some (2000 + jiffies (held temp0 g (waiting g) s), Pbc_cancel, of_nat g)"
proof -
  have "\<forall>k < waiting g. pbc_flag (held temp0 g k s) = pbc_flag s"
    using pressed_held [OF assms] by (simp add: pressed_def)
  with held_end [OF assms, of temp0] show ?thesis using assms(1) by auto
qed

theorem pbc_held_registers_witness:
  "pbc_flag (held 0 3 36 gpio_dev_idle) ! 3 = 2 \<and> jiffies (held 0 3 36 gpio_dev_idle) = 252"
  using pbc_held_registers [of 3 gpio_dev_idle 0] by (simp add: gpio_dev_idle_def waiting_def)

text \<open>
  A press that ends early never counts. If the pin reads high at any check, the flags and
  timers of all buttons are left as they were, and the falling-edge interrupt is armed again.
\<close>

theorem pbc_released:
  assumes "g < 21" "n \<le> 36" "bit (GPIO_DATA_IN_REG s) g" "length (gpio_isr s) = 21"
    and "t = pbc_validate_push temp0 (push_bit 16 (of_nat g) OR of_nat n) s"
  shows "pbc_flag t = pbc_flag s \<and> pbc_timer t = pbc_timer s \<and> gpio_isr t ! g = Some Gpio_pbc_start \<and>
    bit (GPIO_INTERRUPT_ENABLE_REG t) g \<and> bit (GPIO_INTERRUPT_RISE_NEG_REG t) g"
proof -
  have n: "n < 1000" using assms(2) by simp
  have t: "t = str9100_gpio_set_edgeintr Gpio_pbc_start 0 1 (int g) s"
    using assms(3,5) pbc_validate_call [OF assms(1) n] by simp
  have "bit (GPIO_INTERRUPT_ENABLE_REG t) g \<and> bit (GPIO_INTERRUPT_RISE_NEG_REG t) g"
    using assms(1) unfolding t
    by (auto simp: str9100_gpio_set_edgeintr_def gpio_reg_defs Let_def pin_ok_def intr_field_def bit_simps)
  then show ?thesis using assms(1,4) by (simp add: t isr_set_edgeintr pin_ok_def)
qed

theorem pbc_released_witness:
  "\<exists>t. t = pbc_validate_push 0 (push_bit 16 (of_nat 3) OR of_nat 5) (gpio_dev_idle\<lparr>GPIO_DATA_IN_REG := 8\<rparr>) \<and>
     pbc_flag t = replicate 32 0"
  using pbc_released [of 3 5 "gpio_dev_idle\<lparr>GPIO_DATA_IN_REG := 8\<rparr>" _ 0, OF _ _ _ _ refl]
  by (simp add: gpio_dev_idle_def bit_numeral_rec)

text \<open>
  C31: From an idle device, no sequence of pin changes, interrupts, timer expiries, reads and
  well-formed writes takes the driver outside its arrays: the invariant of the device holds
  throughout, in particular every flag stays in 0..2 and every pulse index inside its pattern.
\<close>

theorem gpio_device_safe:
  assumes "gpio_inv s" "list_all event_ok es"
  shows "gpio_inv (run (gpio_step temp0) s es) \<and> \<not> mem_fault (run (gpio_step temp0) s es)"
  using dev_system.run_inv [OF assms, of temp0] by (simp add: gpio_inv_def)

theorem gpio_device_safe_witness:
  "\<not> mem_fault (run (gpio_step 0) gpio_dev_idle [Pins 0 8, Irq, Write 4 (Inr [0x33, 0x0A])])"
  using gpio_device_safe [OF gpio_inv_idle, of "[Pins 0 8, Irq, Write 4 (Inr [0x33, 0x0A])]" 0]
  by (simp add: event_ok_def)

text \<open>
  The interrupt handler runs, in the order of the pins, exactly the routines that the table
  held when the interrupt came for the pins whose raw status bit is set, then clears the status
  of all pins and unmasks the interrupt line.
\<close>

theorem gpio_irq_dispatch:
  "\<exists>s1. str9100_gpio_irq_handler (isr_call temp0) s = s1\<lparr>GPIO_INTERRUPT_CLEAR_REG := 0x1FFFFF,
       INTC_INTERRUPT_MASK_REG := INTC_INTERRUPT_MASK_REG s1 AND NOT (push_bit 4 1)\<rparr> \<and>
     s1 = fold (\<lambda>(h, j). isr_call temp0 h j)
       (isr_pending (GPIO_INTERRUPT_RAW_STATE_REG s) (gpio_isr s) [0..<21])
       (s\<lparr>INTC_INTERRUPT_CLEAR_EDGE_TRIGGER_REG := INTC_INTERRUPT_CLEAR_EDGE_TRIGGER_REG s OR push_bit 4 1,
          INTC_INTERRUPT_MASK_REG := INTC_INTERRUPT_MASK_REG s OR push_bit 4 1\<rparr>)"
  by (intro exI conjI [OF _ refl])
    (simp add: str9100_gpio_irq_handler_def dev_isr.irq_loop_dispatch gpio_reg_defs Let_def)

text \<open>
  One press is read once. When a press has been flagged, the next read of that device gives
  the byte \<open>1\<close>, the one after it end of file, and a third one blocks until the next press.
\<close>

theorem gpio_read_protocol:
  assumes "g < 32" "length (pbc_flag s) = 32" "pbc_flag s ! g = 2"
    and "gpio_read sig1 True (int g) s = (r1, s1)" "gpio_read sig2 c2 (int g) s1 = (r2, s2)"
    and "gpio_read False c3 (int g) s2 = (r3, s3)"
  shows "r1 = Ret 1 ''1'' \<and> r2 = Ret 0 [] \<and> r3 = Blocked \<and> pbc_flag s3 = (pbc_flag s)[g := 0]"
  using assms by (auto simp: gpio_read_def Let_def)

theorem gpio_read_protocol_witness:
  "\<exists>r1 s1 r2 s2 r3 s3. gpio_read True True 3 (gpio_dev_idle\<lparr>pbc_flag := (replicate 32 0)[3 := 2]\<rparr>) = (r1, s1) \<and>
     gpio_read True True 3 s1 = (r2, s2) \<and> gpio_read False True 3 s2 = (r3, s3) \<and>
     r1 = Ret 1 ''1'' \<and> r2 = Ret 0 [] \<and> r3 = Blocked"
proof -
  let ?s = "gpio_dev_idle\<lparr>pbc_flag := (replicate 32 0)[3 := 2]\<rparr>"
  obtain r1 s1 where 1: "gpio_read True True 3 ?s = (r1, s1)" by (cases "gpio_read True True 3 ?s")
  obtain r2 s2 where 2: "gpio_read True True 3 s1 = (r2, s2)" by (cases "gpio_read True True 3 s1")
  obtain r3 s3 where 3: "gpio_read False True 3 s2 = (r3, s3)" by (cases "gpio_read False True 3 s2")
  show ?thesis using gpio_read_protocol [of 3 ?s True r1 s1 True True r2 s2 True r3 s3] 1 2 3 by auto
qed

text \<open>
  Writing the number of a pattern to a LED makes it pulse with that pattern for ever: after
  any number \<open>k\<close> of timer expiries it shows step \<open>k\<close> of the pattern taken cyclically, lit on even
  steps and dark on odd ones, and its next expiry is that step's duration ahead.
\<close>

theorem led_pattern_shown:
  assumes "gpio_inv s" "g \<le> 20" "p < 5" "gpio_write (int g) (Inr [0x32 + of_nat p, 0x0A]) s = (rc, t)"
    and idle: "pulse_timers s ! g = None \<longrightarrow> pattern (ledPatternsUsed s ! g) = None"
  shows "rc = 2 \<and> showing g p k ((fire_pulse_on_time g ^^ k) t)"
proof -
  have p: "p = 0 \<or> p = 1 \<or> p = 2 \<or> p = 3 \<or> p = 4" using assms(3) by auto
  have v: "simple_strtoul 0 ((0x32 + of_nat p) # 0x0A # rest) = of_nat (p + 2)" for rest
    using p by auto
  have ne: "of_nat (p + 2) \<noteq> (0::u32)" "of_nat (p + 2) \<noteq> (1::u32)" using p by auto
  have pp: "sint (of_nat (p + 2) - 2 :: u32) = int p"
    using sint_of_nat_minus_2 [of "p + 2"] assms(3) by simp
  have len: "length (ledPatternsUsed s) = 32" "length (pulse_timers s) = 32"
    using assms(1) by (auto simp: gpio_inv_def)
  have "g < 32" using assms(2) by simp
  then obtain u where t: "t = led_pulse g u" "rc = 2" and u: "pattern (ledPatternsUsed u ! g) = None"
    "length (ledPatternsUsed u) = 32" "length (pulse_timers u) = 32" "pulse_pattern u = int p"
    using gpio_write_pulse [of g "[0x32 + of_nat p, 0x0A]" s p "of_nat (p + 2)"] v ne pp len assms(3,4) idle
    by (auto simp del: of_nat_add simple_strtoul.simps)
  have "showing g p 0 t"
    unfolding t(1) led_pulse_start [OF u(1) \<open>g < 32\<close> u(2), unfolded u(4), OF of_nat_0_le_iff, simplified, OF assms(3)]
    by (rule showing_pulse [where i = 0]) (use assms(2,3) u in \<open>simp_all add: led_end_def\<close>)
  then have "showing g p k ((fire_pulse_on_time g ^^ k) t)"
    by (induction k) (use showing_step [OF _ assms(2,3)] in auto)
  with t show ?thesis by simp
qed

theorem led_pattern_shown_witness:
  "\<exists>rc t. gpio_write 4 (Inr [0x33, 0x0A]) gpio_dev_idle = (rc, t) \<and> rc = 2 \<and>
     showing 4 1 7 ((fire_pulse_on_time 4 ^^ 7) t)"
proof -
  obtain rc t where w: "gpio_write 4 (Inr [0x33, 0x0A]) gpio_dev_idle = (rc, t)"
    by (cases "gpio_write 4 (Inr [0x33, 0x0A]) gpio_dev_idle")
  then show ?thesis
    using led_pattern_shown [OF gpio_inv_idle, of 4 1 rc t 7] by (simp add: gpio_dev_idle_def led_idle_def)
qed

text \<open>
  The write buffer is never terminated, so a text without a final newline is read together
  with what an earlier, longer write left behind: a single digit written over a buffer whose
  second byte is a digit and whose third is none is refused as an unknown pattern, although
  the same write on a fresh buffer switches the LED.
\<close>

theorem gpio_write_stale_digit:
  assumes "0 \<le> gpio" "gpio < 32" "Buffer s = x # e # y # rest" "\<not> (0x30 \<le> y \<and> y \<le> 0x39)"
    and d: "0x31 \<le> d" "d \<le> 0x39" and e: "0x30 \<le> e" "e \<le> 0x39"
  shows "fst (gpio_write gpio (Inr [d]) s) = - EINVAL"
proof -
  have "0x30 \<le> d" using d(1) by (simp add: word_le_nat_alt)
  note digits = strtoul_digit [OF this d(2)] strtoul_digit [OF e]
  define n where "n = 10 * (unat d - 48) + (unat e - 48)"
  have "49 \<le> unat d" using d(1) by (simp add: word_le_nat_alt)
  then have n: "10 \<le> n" "n < 1000" using digits by (auto simp: n_def)
  have v: "simple_strtoul 0 (d # e # y # rest) = of_nat n"
    using assms(4) d(2) e \<open>0x30 \<le> d\<close> by (auto simp: digits(1,4) n_def)
  have "unat (of_nat n :: u32) = n" using n by (simp add: unat_of_nat)
  then have "(of_nat n :: u32) \<noteq> 0" "(of_nat n :: u32) \<noteq> 1" using n by auto
  then show ?thesis
    using assms(1-3) v sint_of_nat_minus_2 [of n] n
    by (simp add: gpio_write_def Let_def del: simple_strtoul.simps)
qed

theorem gpio_write_stale_digit_witness:
  "fst (gpio_write 4 (Inr [0x31]) (gpio_dev_idle\<lparr>Buffer := [0x33, 0x32, 0x0A]\<rparr>)) = - 22 \<and>
   fst (gpio_write 4 (Inr [0x31]) (gpio_dev_idle\<lparr>Buffer := [0, 0, 0]\<rparr>)) = 1"
  using gpio_write_stale_digit [where gpio = 4 and s = "gpio_dev_idle\<lparr>Buffer := [0x33, 0x32, 0x0A]\<rparr>"
      and x = "0x33" and e = "0x32" and y = "0x0A" and rest = "[]" and d = "0x31"]
  by (simp add: gpio_write_def gpio_dev_idle_def Let_def)

end
