(* ===== verification/Ringq.thy ===== *)
theory Ringq
  imports Prelude
begin

text \<open>
  The ring queue of the web server, \<open>apps/WebServer/ringq.c\<close>: the buffer behind its sockets and
  its dynamic strings. The buffer is a byte list, the pointers \<open>servp\<close> and \<open>endp\<close> are offsets into
  it and \<open>endbuf\<close> is the offset \<open>buflen\<close>; a null \<open>buf\<close> is the empty list. Sizes are natural
  numbers: the \<open>int\<close> arithmetic of the code is exact below 2 GB, far above any buffer of the
  device. \<open>balloc\<close> is a parameter: \<open>balloc n\<close> is the new block, with what it happens to contain,
  or \<open>None\<close> when memory is exhausted.
\<close>

section \<open>State\<close>

record ringq_t =
  buf :: bytes
  servp :: nat
  endp :: nat
  buflen :: nat
  maxsize :: int
  increment :: nat

type_synonym balloc_fun = "nat \<Rightarrow> bytes option"

abbreviation (input) B_SHIFT :: nat where "B_SHIFT \<equiv> 4"

section \<open>Operations\<close>

text \<open>The loop of \<open>getBinBlockSize\<close>: the number of bits of \<open>size\<close>.\<close>

fun bin_block_loop :: "nat \<Rightarrow> nat \<Rightarrow> nat" where
  "bin_block_loop q sz = (if sz = 0 then q else bin_block_loop (q + 1) (sz div 2))"

declare bin_block_loop.simps [simp del]

definition getBinBlockSize :: "nat \<Rightarrow> nat" where
  "getBinBlockSize sz = (let sz = sz div 2 ^ B_SHIFT; q = bin_block_loop 0 sz in 2 ^ (B_SHIFT + q))"

definition RINGQ_LEN :: "ringq_t \<Rightarrow> int" where
  "RINGQ_LEN rq = (if servp rq > endp rq then int (buflen rq) + (int (endp rq) - int (servp rq))
                   else int (endp rq) - int (servp rq))"

definition ringqOpen :: "balloc_fun \<Rightarrow> nat \<Rightarrow> int \<Rightarrow> int \<times> ringq_t option" where
  "ringqOpen balloc initSize maxsz =
     (let incr = getBinBlockSize initSize
      in case balloc incr of
           None \<Rightarrow> (- 1, None)
         | Some b \<Rightarrow> (0, Some \<lparr>buf = b[0 := 0], servp = 0, endp = 0, buflen = incr, maxsize = maxsz,
                            increment = incr\<rparr>))"

definition ringqFlush :: "ringq_t \<Rightarrow> ringq_t" where
  "ringqFlush rq = rq\<lparr>servp := 0, endp := 0, buf := (buf rq)[0 := 0]\<rparr>"

definition ringqClose :: "ringq_t \<Rightarrow> ringq_t" where
  "ringqClose rq = (ringqFlush rq)\<lparr>buf := []\<rparr>"

definition ringqLen :: "ringq_t \<Rightarrow> int" where
  "ringqLen rq = (if servp rq > endp rq then int (buflen rq) + int (endp rq) - int (servp rq)
                  else int (endp rq) - int (servp rq))"

definition ringqPutBlkMax :: "ringq_t \<Rightarrow> int" where
  "ringqPutBlkMax rq =
     (let space = int (buflen rq) - RINGQ_LEN rq - 1;
          in_a_line = int (buflen rq) - int (endp rq)
      in min in_a_line space)"

definition ringqGetBlkMax :: "ringq_t \<Rightarrow> int" where
  "ringqGetBlkMax rq =
     (let len = RINGQ_LEN rq;
          in_a_line = int (buflen rq) - int (servp rq)
      in min in_a_line len)"

definition ringqGetc :: "ringq_t \<Rightarrow> int \<times> ringq_t" where
  "ringqGetc rq =
     (if servp rq = endp rq then (- 1, rq)
      else let c = buf rq ! servp rq;
               rq = rq\<lparr>servp := servp rq + 1\<rparr>;
               rq = (if servp rq \<ge> buflen rq then rq\<lparr>servp := 0\<rparr> else rq)
           in (uint c, rq))"

text \<open>
  \<open>memcpy(p, src, n)\<close> into the buffer at an offset; the copies of this module stay inside the
  buffer, which the invariant below shows.
\<close>

definition memcpy :: "bytes \<Rightarrow> nat \<Rightarrow> bytes \<Rightarrow> bytes" where
  "memcpy dst off src = take off dst @ src @ drop (off + length src) dst"

text \<open>
  \<open>ringqGetBlk\<close>: the bytes copied to the caller (their number is the return value). The loop
  ends when \<open>this\<close> is 0, and otherwise takes at least one byte off \<open>size\<close>.
\<close>

function getBlk_loop :: "bytes \<Rightarrow> ringq_t \<Rightarrow> nat \<Rightarrow> bytes \<times> ringq_t" where
  "getBlk_loop out rq sz =
     (if sz > 0 then
        let this = ringqGetBlkMax rq;
            this = min this (int sz)
        in if this \<le> 0 then (out, rq)
           else
             let n = nat this;
                 out = out @ take n (drop (servp rq) (buf rq));
                 rq = rq\<lparr>servp := servp rq + n\<rparr>;
                 rq = (if servp rq \<ge> buflen rq then rq\<lparr>servp := 0\<rparr> else rq)
             in getBlk_loop out rq (sz - n)
      else (out, rq))"
  by pat_completeness auto

termination
  by (relation "measure (\<lambda>(_, _, sz). sz)") (auto simp: min_def split: if_splits)

declare getBlk_loop.simps [simp del]

definition ringqGetBlk :: "ringq_t \<Rightarrow> nat \<Rightarrow> bytes \<times> ringq_t" where
  "ringqGetBlk rq sz = getBlk_loop [] rq sz"

text \<open>
  \<open>ringqPutBlk\<close> and \<open>ringqGrow\<close> call each other. The first argument is fuel, one unit per round of
  the loop and per call; \<open>None\<close> means it ran out. A result of \<open>ringqPutBlk\<close> is the number of bytes
  put and the queue, of \<open>ringqGrow\<close> whether it succeeded and the queue. In \<open>ringqGrow\<close> the data
  is first copied to the start of the new block, then put into the queue from there.
\<close>

fun putBlk_fuel :: "nat \<Rightarrow> balloc_fun \<Rightarrow> nat \<Rightarrow> ringq_t \<Rightarrow> bytes \<Rightarrow> (nat \<times> ringq_t) option"
and grow_fuel :: "nat \<Rightarrow> balloc_fun \<Rightarrow> ringq_t \<Rightarrow> (bool \<times> ringq_t) option" where
  "putBlk_fuel 0 balloc bytes_put rq data = None"
| "putBlk_fuel (Suc f) balloc bytes_put rq data =
     (if length data > 0 then
        let this = min (ringqPutBlkMax rq) (int (length data));
            copy = (\<lambda>rq this.
              let n = nat this;
                  rq = rq\<lparr>buf := memcpy (buf rq) (endp rq) (take n data)\<rparr>;
                  rq = rq\<lparr>endp := endp rq + n\<rparr>;
                  rq = (if endp rq \<ge> buflen rq then rq\<lparr>endp := 0\<rparr> else rq)
              in putBlk_fuel f balloc (bytes_put + n) rq (drop n data))
        in if this \<le> 0 then
             (case grow_fuel f balloc rq of
                None \<Rightarrow> None
              | Some (ok, rq) \<Rightarrow>
                  if \<not> ok then Some (bytes_put, rq)
                  else copy rq (min (ringqPutBlkMax rq) (int (length data))))
           else copy rq this
      else Some (bytes_put, rq))"
| "grow_fuel 0 balloc rq = None"
| "grow_fuel (Suc f) balloc rq =
     (if maxsize rq \<ge> 0 \<and> int (buflen rq) \<ge> maxsize rq then Some (False, rq)
      else
        let len = ringqLen rq
        in case balloc (buflen rq + increment rq) of
             None \<Rightarrow> Some (False, rq)
           | Some newbuf \<Rightarrow>
               let (data, rq) = ringqGetBlk rq (nat (ringqLen rq));
                   newbuf = memcpy newbuf 0 data;
                   rq = rq\<lparr>buflen := buflen rq + increment rq, endp := 0, servp := 0, buf := newbuf\<rparr>
               in case putBlk_fuel f balloc 0 rq (take (nat len) newbuf) of
                    None \<Rightarrow> None
                  | Some (_, rq) \<Rightarrow> Some (True, rq\<lparr>increment := getBinBlockSize (2 * increment rq)\<rparr>))"

declare putBlk_fuel.simps [simp del] grow_fuel.simps [simp del]

text \<open>Fuel enough for every queue that satisfies the invariant below.\<close>

definition ringqPutBlk :: "balloc_fun \<Rightarrow> ringq_t \<Rightarrow> bytes \<Rightarrow> (nat \<times> ringq_t) option" where
  "ringqPutBlk balloc rq data = putBlk_fuel (length data + 4) balloc 0 rq data"

definition ringqGrow :: "balloc_fun \<Rightarrow> ringq_t \<Rightarrow> (bool \<times> ringq_t) option" where
  "ringqGrow balloc rq = grow_fuel 4 balloc rq"

definition ringqPutc :: "balloc_fun \<Rightarrow> ringq_t \<Rightarrow> u8 \<Rightarrow> (int \<times> ringq_t) option" where
  "ringqPutc balloc rq c =
     (let put = (\<lambda>rq. let rq = rq\<lparr>buf := (buf rq)[endp rq := c], endp := endp rq + 1\<rparr>
                      in (0, if endp rq \<ge> buflen rq then rq\<lparr>endp := 0\<rparr> else rq))
      in if ringqPutBlkMax rq < 1 then
           (case ringqGrow balloc rq of
              None \<Rightarrow> None
            | Some (ok, rq) \<Rightarrow> Some (if \<not> ok then (- 1, rq) else put rq))
         else Some (put rq))"

definition ringqInsertc :: "balloc_fun \<Rightarrow> ringq_t \<Rightarrow> u8 \<Rightarrow> (int \<times> ringq_t) option" where
  "ringqInsertc balloc rq c =
     (let ins = (\<lambda>rq. let rq = (if servp rq \<le> 0 then rq\<lparr>servp := buflen rq\<rparr> else rq);
                          rq = rq\<lparr>buf := (buf rq)[servp rq - 1 := c], servp := servp rq - 1\<rparr>
                      in (0, rq))
      in if ringqPutBlkMax rq < 1 then
           (case ringqGrow balloc rq of
              None \<Rightarrow> None
            | Some (ok, rq) \<Rightarrow> Some (if \<not> ok then (- 1, rq) else ins rq))
         else Some (ins rq))"

definition ringqAddNull :: "ringq_t \<Rightarrow> ringq_t" where
  "ringqAddNull rq = rq\<lparr>buf := (buf rq)[endp rq := 0]\<rparr>"

definition ringqPutStr :: "balloc_fun \<Rightarrow> ringq_t \<Rightarrow> bytes \<Rightarrow> (nat \<times> ringq_t) option" where
  "ringqPutStr balloc rq str =
     (case ringqPutBlk balloc rq (cstr str) of
        None \<Rightarrow> None
      | Some (rc, rq) \<Rightarrow> Some (rc, rq\<lparr>buf := (buf rq)[endp rq := 0]\<rparr>))"

text \<open>
  The two adjusting operations; the flag is whether the "bad pointer" error is logged and the
  queue flushed. The sizes are those the assertions allow.
\<close>

definition ringqPutBlkAdj :: "ringq_t \<Rightarrow> nat \<Rightarrow> bool \<times> ringq_t" where
  "ringqPutBlkAdj rq sz =
     (let rq = rq\<lparr>endp := endp rq + sz\<rparr>;
          rq = (if endp rq \<ge> buflen rq then rq\<lparr>endp := endp rq - buflen rq\<rparr> else rq)
      in if endp rq \<ge> buflen rq then (True, ringqFlush rq) else (False, rq))"

definition ringqGetBlkAdj :: "ringq_t \<Rightarrow> nat \<Rightarrow> bool \<times> ringq_t" where
  "ringqGetBlkAdj rq sz =
     (let rq = rq\<lparr>servp := servp rq + sz\<rparr>;
          rq = (if servp rq \<ge> buflen rq then rq\<lparr>servp := servp rq - buflen rq\<rparr> else rq)
      in if servp rq \<ge> buflen rq then (True, ringqFlush rq) else (False, rq))"

section \<open>Invariant and contents\<close>

definition ringq_inv :: "ringq_t \<Rightarrow> bool" where
  "ringq_inv rq \<longleftrightarrow> length (buf rq) = buflen rq \<and> servp rq < buflen rq \<and> endp rq < buflen rq \<and>
     0 < increment rq"

text \<open>The bytes in the queue, first to be read first.\<close>

definition contents :: "ringq_t \<Rightarrow> bytes" where
  "contents rq = (if servp rq \<le> endp rq then take (endp rq - servp rq) (drop (servp rq) (buf rq))
                  else drop (servp rq) (buf rq) @ take (endp rq) (buf rq))"

lemma length_contents:
  "ringq_inv rq \<Longrightarrow> int (length (contents rq)) = ringqLen rq"
  "ringq_inv rq \<Longrightarrow> int (length (contents rq)) = RINGQ_LEN rq"
  by (auto simp: ringq_inv_def contents_def ringqLen_def RINGQ_LEN_def)

lemma length_memcpy [simp]: "off + length src \<le> length dst \<Longrightarrow> length (memcpy dst off src) = length dst"
  by (simp add: memcpy_def)

text \<open>Room in the queue: one byte less than the buffer minus what it holds.\<close>

definition room :: "ringq_t \<Rightarrow> nat" where
  "room rq = buflen rq - 1 - length (contents rq)"

lemma putBlkMax_room:
  assumes "ringq_inv rq"
  shows "ringqPutBlkMax rq = min (int (buflen rq - endp rq)) (int (room rq))"
    and "length (contents rq) \<le> buflen rq - 1" and "ringqPutBlkMax rq \<le> 0 \<longleftrightarrow> room rq = 0"
proof -
  show le: "length (contents rq) \<le> buflen rq - 1"
    using assms by (auto simp: ringq_inv_def contents_def)
  show eq: "ringqPutBlkMax rq = min (int (buflen rq - endp rq)) (int (room rq))"
  proof -
    have "int (room rq) = int (buflen rq) - RINGQ_LEN rq - 1"
      using assms le length_contents(2) [OF assms] unfolding ringq_inv_def room_def by linarith
    then show ?thesis using assms by (simp add: ringqPutBlkMax_def Let_def ringq_inv_def of_nat_diff)
  qed
  show "ringqPutBlkMax rq \<le> 0 \<longleftrightarrow> room rq = 0"
    using assms unfolding eq by (auto simp: ringq_inv_def)
qed

lemma contents_flush [simp]: "contents (ringqFlush rq) = []"
  by (simp add: contents_def ringqFlush_def)

text \<open>Copying a block that fits in a line appends it.\<close>

definition put_line :: "ringq_t \<Rightarrow> bytes \<Rightarrow> ringq_t" where
  "put_line rq d =
     (let rq = rq\<lparr>buf := memcpy (buf rq) (endp rq) d\<rparr>; rq = rq\<lparr>endp := endp rq + length d\<rparr>
      in if endp rq \<ge> buflen rq then rq\<lparr>endp := 0\<rparr> else rq)"

lemma put_line:
  assumes "ringq_inv rq" "length d \<le> room rq" "length d \<le> buflen rq - endp rq"
  shows "ringq_inv (put_line rq d)" "contents (put_line rq d) = contents rq @ d"
    "buflen (put_line rq d) = buflen rq" "servp (put_line rq d) = servp rq"
    "increment (put_line rq d) = increment rq" "maxsize (put_line rq d) = maxsize rq"
proof -
  have len: "length (buf rq) = buflen rq" "servp rq < buflen rq" "endp rq < buflen rq"
    using assms(1) by (auto simp: ringq_inv_def)
  show "contents (put_line rq d) = contents rq @ d"
  proof (cases "servp rq \<le> endp rq")
    case True
    then have "length d \<le> buflen rq - 1 - (endp rq - servp rq)"
      using assms(2) len by (simp add: room_def contents_def)
    then show ?thesis using True assms(3) len
      by (auto simp: put_line_def contents_def memcpy_def Let_def drop_take)
  next
    case False
    then have "length d \<le> buflen rq - 1 - (buflen rq - servp rq + endp rq)"
      using assms(2) len by (simp add: room_def contents_def)
    then have "endp rq + length d < servp rq" using False len by linarith
    then show ?thesis using False len
      by (auto simp: put_line_def contents_def memcpy_def Let_def)
  qed
qed (use assms in \<open>auto simp: put_line_def ringq_inv_def memcpy_def Let_def\<close>)

text \<open>Reading a block that lies in a line takes it off the front.\<close>

definition get_line :: "ringq_t \<Rightarrow> nat \<Rightarrow> ringq_t" where
  "get_line rq n =
     (let rq = rq\<lparr>servp := servp rq + n\<rparr> in if servp rq \<ge> buflen rq then rq\<lparr>servp := 0\<rparr> else rq)"

lemma get_line_fields [simp]:
  "buf (get_line rq n) = buf rq" "endp (get_line rq n) = endp rq" "buflen (get_line rq n) = buflen rq"
  "increment (get_line rq n) = increment rq" "maxsize (get_line rq n) = maxsize rq"
  by (simp_all add: get_line_def Let_def)

lemma get_line:
  assumes "ringq_inv rq" "n \<le> length (contents rq)" "n \<le> buflen rq - servp rq"
  shows "ringq_inv (get_line rq n)" "contents (get_line rq n) = drop n (contents rq)"
    "take n (drop (servp rq) (buf rq)) = take n (contents rq)"
proof -
  have len: "length (buf rq) = buflen rq" "servp rq < buflen rq" "endp rq < buflen rq"
    using assms(1) by (auto simp: ringq_inv_def)
  show "take n (drop (servp rq) (buf rq)) = take n (contents rq)"
    using assms(2,3) len by (auto simp: contents_def min_def)
  show "contents (get_line rq n) = drop n (contents rq)"
  proof (cases "servp rq \<le> endp rq")
    case True
    then have "n \<le> endp rq - servp rq" using assms(2) len by (simp add: contents_def)
    then have "servp rq + n \<le> endp rq" using True by linarith
    then show ?thesis using True len
      by (simp add: get_line_def contents_def Let_def drop_take) (simp add: add.commute)
  next
    case False
    then show ?thesis using assms(3) len
      by (cases "servp rq + n = buflen rq") (auto simp: get_line_def contents_def Let_def add.commute)
  qed
qed (use assms in \<open>auto simp: get_line_def ringq_inv_def Let_def\<close>)

lemma getBlk_loop_step:
  assumes "ringq_inv rq" "0 < sz" "contents rq \<noteq> []"
  shows "\<exists>n. 0 < n \<and> n \<le> sz \<and> n \<le> length (contents rq) \<and> n \<le> buflen rq - servp rq \<and>
    getBlk_loop out rq sz = getBlk_loop (out @ take n (contents rq)) (get_line rq n) (sz - n)"
proof -
  define n where "n = min (min (buflen rq - servp rq) (length (contents rq))) sz"
  have i: "min (ringqGetBlkMax rq) (int sz) = int n"
    using assms(1) length_contents(2) [OF assms(1)]
    by (simp add: ringqGetBlkMax_def n_def Let_def ringq_inv_def of_nat_diff of_nat_min)
  have n: "0 < n" "n \<le> sz" "n \<le> length (contents rq)" "n \<le> buflen rq - servp rq"
    using assms by (auto simp: n_def ringq_inv_def)
  have "getBlk_loop out rq sz = getBlk_loop (out @ take n (drop (servp rq) (buf rq))) (get_line rq n) (sz - n)"
    using assms(2) n(1) by (subst getBlk_loop.simps) (simp add: i Let_def get_line_def)
  then show ?thesis using n get_line(3) [OF assms(1) n(3,4)] by auto
qed

lemma getBlk_loop_correct:
  assumes "ringq_inv rq"
  shows "\<exists>s. getBlk_loop out rq sz = (out @ take sz (contents rq), rq\<lparr>servp := s\<rparr>) \<and>
    ringq_inv (rq\<lparr>servp := s\<rparr>) \<and> contents (rq\<lparr>servp := s\<rparr>) = drop sz (contents rq)"
  using assms
proof (induction sz arbitrary: out rq rule: less_induct)
  case (less sz)
  show ?case
  proof (cases "0 < sz \<and> contents rq \<noteq> []")
    case False
    then have "getBlk_loop out rq sz = (out, rq)"
      using length_contents(2) [OF less.prems]
      by (subst getBlk_loop.simps) (auto simp: ringqGetBlkMax_def Let_def min_def)
    then show ?thesis using less.prems False by (intro exI [of _ "servp rq"]) auto
  next
    case True
    then obtain n where n: "0 < n" "n \<le> sz" "n \<le> length (contents rq)" "n \<le> buflen rq - servp rq"
      and eq: "getBlk_loop out rq sz = getBlk_loop (out @ take n (contents rq)) (get_line rq n) (sz - n)"
      using getBlk_loop_step [OF less.prems] by blast
    note g = get_line [OF less.prems n(3,4)]
    have "take n (contents rq) @ take (sz - n) (drop n (contents rq)) = take sz (contents rq)"
      using n(2) by (metis le_add_diff_inverse take_add)
    moreover have "drop (sz - n) (drop n (contents rq)) = drop sz (contents rq)" using n(2) by simp
    moreover obtain s where "get_line rq n = rq\<lparr>servp := s\<rparr>"
      by (cases "buflen rq \<le> servp rq + n") (auto simp: get_line_def)
    ultimately show ?thesis
      using less.IH [OF _ g(1), of "sz - n" "out @ take n (contents rq)"] n(1,2) True eq g(2) by auto
  qed
qed

lemma ringqGetBlk_correct:
  assumes "ringq_inv rq"
  shows "\<exists>s. ringqGetBlk rq sz = (take sz (contents rq), rq\<lparr>servp := s\<rparr>) \<and>
    ringq_inv (rq\<lparr>servp := s\<rparr>) \<and> contents (rq\<lparr>servp := s\<rparr>) = drop sz (contents rq)"
  using getBlk_loop_correct [OF assms, of "[]" sz] by (simp add: ringqGetBlk_def)

section \<open>Growing and putting\<close>

text \<open>One round of the loop of \<open>ringqPutBlk\<close> when the queue has room.\<close>

definition line_len :: "ringq_t \<Rightarrow> bytes \<Rightarrow> nat" where
  "line_len rq data = min (min (buflen rq - endp rq) (room rq)) (length data)"

lemma line_len:
  assumes "ringq_inv rq" "0 < room rq" "data \<noteq> []"
  shows "0 < line_len rq data" "line_len rq data \<le> length data"
    "line_len rq data \<le> room rq" "line_len rq data \<le> buflen rq - endp rq"
    "min (ringqPutBlkMax rq) (int (length data)) = int (line_len rq data)"
  using assms by (auto simp: line_len_def putBlkMax_room(1) ringq_inv_def of_nat_min)

lemma putBlk_round:
  assumes "ringq_inv rq" "0 < room rq" "data \<noteq> []"
  shows "putBlk_fuel (Suc f) balloc k rq data =
    putBlk_fuel f balloc (k + line_len rq data) (put_line rq (take (line_len rq data) data))
      (drop (line_len rq data) data)"
  using assms line_len [OF assms] by (simp add: putBlk_fuel.simps Let_def put_line_def)

lemma putBlk_nil [simp]: "putBlk_fuel (Suc f) balloc k rq [] = Some (k, rq)"
  by (simp add: putBlk_fuel.simps)

text \<open>What the allocator promises: a block of the size asked for.\<close>

definition balloc_ok :: "balloc_fun \<Rightarrow> bool" where
  "balloc_ok balloc \<longleftrightarrow> (\<forall>n b. balloc n = Some b \<longrightarrow> length b = n)"

definition can_grow :: "balloc_fun \<Rightarrow> ringq_t \<Rightarrow> bool" where
  "can_grow balloc rq \<longleftrightarrow> \<not> (maxsize rq \<ge> 0 \<and> int (buflen rq) \<ge> maxsize rq) \<and>
     balloc (buflen rq + increment rq) \<noteq> None"

lemma getBinBlockSize_pos: "0 < getBinBlockSize n"
  by (simp add: getBinBlockSize_def Let_def)

lemma put_into_empty:
  assumes "ringq_inv rq" "contents rq = []" "endp rq = 0" "length d < buflen rq"
  shows "putBlk_fuel (Suc (Suc f)) balloc k rq d = Some (k + length d, put_line rq d)"
proof (cases "d = []")
  case True
  have "memcpy b n [] = b" for b :: bytes and n by (simp add: memcpy_def)
  then have "put_line rq [] = rq" using assms(1,3) by (simp add: put_line_def ringq_inv_def)
  with True show ?thesis by simp
next
  case False
  have r: "room rq = buflen rq - 1" using assms(2) by (simp add: room_def)
  then have "0 < room rq" using assms(4) False by (cases d) auto
  moreover have "line_len rq d = length d" using assms(3,4) r by (simp add: line_len_def)
  ultimately show ?thesis using putBlk_round [OF assms(1) _ False] by simp
qed

lemma grow_correct:
  assumes inv: "ringq_inv rq" and "balloc_ok balloc"
  shows "\<exists>rq'. grow_fuel (Suc (Suc (Suc f))) balloc rq = Some (can_grow balloc rq, rq') \<and>
    ringq_inv rq' \<and> contents rq' = contents rq \<and> maxsize rq' = maxsize rq \<and>
    (if can_grow balloc rq then servp rq' = 0 \<and> buflen rq' = buflen rq + increment rq \<and> 0 < room rq'
     else rq' = rq)"
proof (cases "can_grow balloc rq")
  case False
  then show ?thesis using inv by (auto simp: grow_fuel.simps can_grow_def Let_def)
next
  case True
  then obtain b where b: "balloc (buflen rq + increment rq) = Some b" by (auto simp: can_grow_def)
  then have lb: "length b = buflen rq + increment rq" using assms(2) by (auto simp: balloc_ok_def)
  let ?d = "contents rq"
  have ld: "length ?d < buflen rq" using putBlkMax_room(2) [OF inv] inv unfolding ringq_inv_def by linarith
  have lend: "nat (ringqLen rq) = length ?d" using length_contents(1) [OF inv] by linarith
  obtain s where g: "ringqGetBlk rq (length ?d) = (?d, rq\<lparr>servp := s\<rparr>)"
    using ringqGetBlk_correct [OF inv, of "length ?d"] by auto
  define q where "q = rq\<lparr>buflen := buflen rq + increment rq, endp := 0, servp := 0, buf := memcpy b 0 ?d\<rparr>"
  have q: "ringq_inv q" "contents q = []" "endp q = 0" "length ?d < buflen q" "servp q = 0"
    "buflen q = buflen rq + increment rq" "maxsize q = maxsize rq" "increment q = increment rq"
    using inv lb ld by (auto simp: q_def ringq_inv_def contents_def)
  have t: "take (length ?d) (memcpy b 0 ?d) = ?d" by (simp add: memcpy_def)
  let ?r = "(put_line q ?d)\<lparr>increment := getBinBlockSize (2 * increment rq)\<rparr>"
  have room: "room q = buflen q - 1" using q(2) by (simp add: room_def)
  have p: "ringq_inv (put_line q ?d)" "contents (put_line q ?d) = ?d"
    using put_line [OF q(1), of ?d] q room by auto
  have "grow_fuel (Suc (Suc (Suc f))) balloc rq = Some (True, ?r)"
    using True b put_into_empty [OF q(1-4), of f balloc 0] q(8) put_line(5) [OF q(1), of ?d] q(4,3) room
    by (simp add: grow_fuel.simps can_grow_def lend g t q_def [symmetric] Let_def)
  moreover have "ringq_inv ?r" "contents ?r = ?d"
    using p getBinBlockSize_pos by (auto simp: ringq_inv_def contents_def)
  moreover have "servp ?r = 0" "buflen ?r = buflen rq + increment rq" "maxsize ?r = maxsize rq"
    using put_line [OF q(1), of ?d] q room by auto
  moreover have "0 < room ?r"
    using calculation(3,5) ld inv by (simp add: room_def ringq_inv_def)
  ultimately show ?thesis using True by auto
qed

text \<open>A round that has to grow first.\<close>

lemma putBlk_round_full:
  assumes "ringq_inv rq" "balloc_ok balloc" "room rq = 0" "data \<noteq> []"
  shows "\<not> can_grow balloc rq \<Longrightarrow> putBlk_fuel (Suc (Suc (Suc (Suc f)))) balloc k rq data = Some (k, rq)"
    and "can_grow balloc rq \<Longrightarrow> \<exists>rq'. ringq_inv rq' \<and> contents rq' = contents rq \<and> 0 < room rq' \<and>
      servp rq' = 0 \<and> maxsize rq' = maxsize rq \<and>
      putBlk_fuel (Suc (Suc (Suc (Suc f)))) balloc k rq data =
      putBlk_fuel (Suc (Suc (Suc f))) balloc (k + line_len rq' data)
        (put_line rq' (take (line_len rq' data) data)) (drop (line_len rq' data) data)"
proof -
  obtain rq' where g: "grow_fuel (Suc (Suc (Suc f))) balloc rq = Some (can_grow balloc rq, rq')"
    and r: "ringq_inv rq'" "contents rq' = contents rq" "maxsize rq' = maxsize rq"
    "if can_grow balloc rq then servp rq' = 0 \<and> buflen rq' = buflen rq + increment rq \<and> 0 < room rq'
     else rq' = rq"
    using grow_correct [OF assms(1,2)] by blast
  have max: "ringqPutBlkMax rq \<le> 0" using putBlkMax_room(3) [OF assms(1)] assms(3) by simp
  show "putBlk_fuel (Suc (Suc (Suc (Suc f)))) balloc k rq data = Some (k, rq)" if "\<not> can_grow balloc rq"
    using that assms(4) g r max by (subst putBlk_fuel.simps) (simp add: Let_def)
  assume c: "can_grow balloc rq"
  with r have room: "0 < room rq'" by simp
  have "putBlk_fuel (Suc (Suc (Suc (Suc f)))) balloc k rq data =
      putBlk_fuel (Suc (Suc (Suc f))) balloc (k + line_len rq' data)
        (put_line rq' (take (line_len rq' data) data)) (drop (line_len rq' data) data)"
    using c assms(4) g max line_len [OF r(1) room assms(4)]
    by (subst putBlk_fuel.simps) (simp add: Let_def put_line_def)
  with c r room show "\<exists>rq'. ringq_inv rq' \<and> contents rq' = contents rq \<and> 0 < room rq' \<and>
      servp rq' = 0 \<and> maxsize rq' = maxsize rq \<and>
      putBlk_fuel (Suc (Suc (Suc (Suc f)))) balloc k rq data =
      putBlk_fuel (Suc (Suc (Suc f))) balloc (k + line_len rq' data)
        (put_line rq' (take (line_len rq' data) data)) (drop (line_len rq' data) data)"
    by auto
qed

text \<open>What putting \<open>data\<close> promises of its result: the number of bytes taken and the queue.\<close>

definition put_spec :: "balloc_fun \<Rightarrow> ringq_t \<Rightarrow> bytes \<Rightarrow> nat \<Rightarrow> ringq_t \<Rightarrow> bool" where
  "put_spec balloc rq data n rq' \<longleftrightarrow> n \<le> length data \<and> ringq_inv rq' \<and>
     contents rq' = contents rq @ take n data \<and> maxsize rq' = maxsize rq \<and>
     (servp rq = 0 \<longrightarrow> servp rq' = 0) \<and> (n < length data \<longrightarrow> room rq' = 0 \<and> \<not> can_grow balloc rq')"

lemma put_spec_line:
  assumes "ringq_inv q" "0 < room q" "data \<noteq> []" "contents q = contents rq" "maxsize q = maxsize rq"
    and "servp rq = 0 \<longrightarrow> servp q = 0"
    and "put_spec balloc (put_line q (take (line_len q data) data)) (drop (line_len q data) data) n rq'"
  shows "put_spec balloc rq data (line_len q data + n) rq'"
proof -
  note l = line_len [OF assms(1-3)]
  have p: "ringq_inv (put_line q (take (line_len q data) data))"
    "contents (put_line q (take (line_len q data) data)) = contents rq @ take (line_len q data) data"
    "maxsize (put_line q (take (line_len q data) data)) = maxsize rq"
    "servp rq = 0 \<longrightarrow> servp (put_line q (take (line_len q data) data)) = 0"
    using put_line [OF assms(1), of "take (line_len q data) data"] assms(4-6) l by auto
  show ?thesis using assms(7) p l by (auto simp: put_spec_def take_add)
qed

lemma putBlk_fuel_correct:
  assumes "ringq_inv rq" "balloc_ok balloc" "length data + 4 \<le> f"
  shows "\<exists>n rq'. putBlk_fuel f balloc k rq data = Some (k + n, rq') \<and> put_spec balloc rq data n rq'"
  using assms
proof (induction "length data" arbitrary: f k rq data rule: less_induct)
  case less
  define f' where "f' = f - 4"
  have f: "f = Suc (Suc (Suc (Suc f')))" using less.prems(3) by (simp add: f'_def)
  have IH: "\<exists>n rq'. putBlk_fuel (Suc (Suc (Suc f'))) balloc (k + line_len q data)
        (put_line q (take (line_len q data) data)) (drop (line_len q data) data) = Some (k + n, rq') \<and>
      put_spec balloc rq data n rq'"
    if q: "ringq_inv q" "0 < room q" "data \<noteq> []" "contents q = contents rq" "maxsize q = maxsize rq"
      "servp rq = 0 \<longrightarrow> servp q = 0" for q
  proof -
    let ?l = "line_len q data"
    note l = line_len [OF q(1-3)]
    have "ringq_inv (put_line q (take ?l data))" using put_line(1) [OF q(1), of "take ?l data"] l by simp
    moreover have "length (drop ?l data) < length data" using l q(3) by simp
    moreover have "length (drop ?l data) + 4 \<le> Suc (Suc (Suc f'))" using l less.prems(3) f by simp
    ultimately obtain n rq' where "putBlk_fuel (Suc (Suc (Suc f'))) balloc (k + ?l)
        (put_line q (take ?l data)) (drop ?l data) = Some (k + ?l + n, rq')"
      and n: "put_spec balloc (put_line q (take ?l data)) (drop ?l data) n rq'"
      using less.hyps less.prems(2) by blast
    then show ?thesis using put_spec_line [OF q n] by (metis add.assoc)
  qed
  show ?case
  proof (cases "data = [] \<or> room rq = 0 \<and> \<not> can_grow balloc rq")
    case True
    then have "putBlk_fuel f balloc k rq data = Some (k + 0, rq)"
      using putBlk_round_full(1) [OF less.prems(1,2), of data f' k] f by (cases "data = []") auto
    moreover have "put_spec balloc rq data 0 rq" using True less.prems(1) by (auto simp: put_spec_def)
    ultimately show ?thesis by blast
  next
    case False
    show ?thesis
    proof (cases "room rq = 0")
      case True
      then show ?thesis
        using putBlk_round_full(2) [OF less.prems(1,2)] False IH f by metis
    next
      case room: False
      then show ?thesis using putBlk_round [OF less.prems(1)] False IH [OF less.prems(1)] f by auto
    qed
  qed
qed

lemma ringqPutBlk_correct:
  assumes "ringq_inv rq" "balloc_ok balloc"
  shows "\<exists>n rq'. ringqPutBlk balloc rq data = Some (n, rq') \<and> put_spec balloc rq data n rq'"
  using putBlk_fuel_correct [OF assms order_refl, of data 0] by (simp add: ringqPutBlk_def)

section \<open>Single bytes\<close>

lemma ringqGrow_correct:
  assumes "ringq_inv rq" "balloc_ok balloc"
  shows "\<exists>rq'. ringqGrow balloc rq = Some (can_grow balloc rq, rq') \<and>
    ringq_inv rq' \<and> contents rq' = contents rq \<and> maxsize rq' = maxsize rq \<and>
    (if can_grow balloc rq then servp rq' = 0 \<and> buflen rq' = buflen rq + increment rq \<and> 0 < room rq'
     else rq' = rq)"
  using grow_correct [OF assms, of "Suc 0"] by (simp add: ringqGrow_def numeral_eq_Suc)

lemma memcpy_byte: "i < length b \<Longrightarrow> memcpy b i [c] = b[i := c]"
  by (simp add: memcpy_def upd_conv_take_nth_drop)

lemma put_byte:
  assumes "ringq_inv rq" "0 < room rq"
  shows "(let rq = rq\<lparr>buf := (buf rq)[endp rq := c], endp := endp rq + 1\<rparr>
      in if endp rq \<ge> buflen rq then rq\<lparr>endp := 0\<rparr> else rq) = put_line rq [c]"
  using assms by (simp add: put_line_def ringq_inv_def memcpy_byte Let_def)

lemma ringqPutc_correct:
  assumes inv: "ringq_inv rq" and "balloc_ok balloc"
  shows "\<exists>rc rq'. ringqPutc balloc rq c = Some (rc, rq') \<and> ringq_inv rq' \<and>
    (rc = 0 \<and> contents rq' = contents rq @ [c] \<or>
     rc = - 1 \<and> rq' = rq \<and> room rq = 0 \<and> \<not> can_grow balloc rq)"
proof -
  have p: "ringq_inv (put_line q [c])" "contents (put_line q [c]) = contents q @ [c]"
    if "ringq_inv q" "0 < room q" for q
    using put_line [OF that(1), of "[c]"] that by (auto simp: ringq_inv_def)
  show ?thesis
  proof (cases "room rq = 0")
    case False
    then show ?thesis
      using p [OF inv] putBlkMax_room(3) [OF inv] put_byte [OF inv]
      by (simp add: ringqPutc_def Let_def)
  next
    case True
    obtain rq' where g: "ringqGrow balloc rq = Some (can_grow balloc rq, rq')" "ringq_inv rq'"
      "contents rq' = contents rq" "can_grow balloc rq \<longrightarrow> 0 < room rq'" "\<not> can_grow balloc rq \<longrightarrow> rq' = rq"
      using ringqGrow_correct [OF inv assms(2)] by (auto split: if_splits)
    then show ?thesis
      using True p [OF g(2)] putBlkMax_room(3) [OF inv] put_byte [OF g(2)] inv
      by (simp add: ringqPutc_def Let_def)
  qed
qed

lemma insert_byte:
  assumes inv: "ringq_inv rq" and room: "0 < room rq"
  defines "q \<equiv> (if servp rq \<le> 0 then rq\<lparr>servp := buflen rq\<rparr> else rq)"
  shows "ringq_inv (q\<lparr>buf := (buf q)[servp q - 1 := c], servp := servp q - 1\<rparr>)"
    "contents (q\<lparr>buf := (buf q)[servp q - 1 := c], servp := servp q - 1\<rparr>) = c # contents rq"
proof -
  have len: "length (buf rq) = buflen rq" "servp rq < buflen rq" "endp rq < buflen rq" "0 < increment rq"
    using inv by (auto simp: ringq_inv_def)
  show "ringq_inv (q\<lparr>buf := (buf q)[servp q - 1 := c], servp := servp q - 1\<rparr>)"
    using len by (auto simp: q_def ringq_inv_def)
  have r: "length (contents rq) < buflen rq - 1" using room by (simp add: room_def)
  show "contents (q\<lparr>buf := (buf q)[servp q - 1 := c], servp := servp q - 1\<rparr>) = c # contents rq"
  proof (cases "servp rq")
    case 0
    then have "endp rq < buflen rq - 1" using r len by (simp add: contents_def)
    then show ?thesis using 0 len
      by (simp add: q_def contents_def drop_update_cancel Cons_nth_drop_Suc [symmetric])
  next
    case (Suc n)
    have "drop n ((buf rq)[n := c]) = c # drop (Suc n) (buf rq)"
      using Suc len by (simp add: Cons_nth_drop_Suc [symmetric])
    moreover have "endp rq \<noteq> n" using r len Suc by (auto simp: contents_def)
    ultimately show ?thesis using Suc len
      by (auto simp: q_def contents_def take_Cons' Suc_diff_le)
  qed
qed

lemma ringqInsertc_correct:
  assumes inv: "ringq_inv rq" and "balloc_ok balloc"
  shows "\<exists>rc rq'. ringqInsertc balloc rq c = Some (rc, rq') \<and> ringq_inv rq' \<and>
    (rc = 0 \<and> contents rq' = c # contents rq \<or>
     rc = - 1 \<and> rq' = rq \<and> room rq = 0 \<and> \<not> can_grow balloc rq)"
proof (cases "room rq = 0")
  case False
  then show ?thesis
    using insert_byte [OF inv] putBlkMax_room(3) [OF inv] by (simp add: ringqInsertc_def Let_def)
next
  case True
  obtain rq' where g: "ringqGrow balloc rq = Some (can_grow balloc rq, rq')" "ringq_inv rq'"
    "contents rq' = contents rq" "can_grow balloc rq \<longrightarrow> 0 < room rq'" "\<not> can_grow balloc rq \<longrightarrow> rq' = rq"
    using ringqGrow_correct [OF inv assms(2)] by (auto split: if_splits)
  then show ?thesis
    using True insert_byte [OF g(2)] putBlkMax_room(3) [OF inv] inv
    by (simp add: ringqInsertc_def Let_def)
qed

lemma ringqGetc_correct:
  assumes "ringq_inv rq"
  shows "ringqGetc rq = (case contents rq of [] \<Rightarrow> (- 1, rq) | c # cs \<Rightarrow> (uint c, get_line rq 1))"
    and "contents rq = c # cs \<Longrightarrow> ringq_inv (get_line rq 1) \<and> contents (get_line rq 1) = cs"
proof -
  have empty: "contents rq = [] \<longleftrightarrow> servp rq = endp rq" using assms by (auto simp: ringq_inv_def contents_def)
  have hd: "buf rq ! servp rq = c" if "contents rq = c # cs" for c cs
    using get_line(3) [OF assms, of 1] that assms
    by (auto simp: ringq_inv_def take_Suc_conv_app_nth hd_drop_conv_nth [symmetric] take_Suc)
  show "ringqGetc rq = (case contents rq of [] \<Rightarrow> (- 1, rq) | c # cs \<Rightarrow> (uint c, get_line rq 1))"
    using empty hd by (auto simp: ringqGetc_def get_line_def Let_def split: list.split)
  show "ringq_inv (get_line rq 1) \<and> contents (get_line rq 1) = cs" if "contents rq = c # cs"
    using get_line [OF assms, of 1] that assms by (auto simp: ringq_inv_def)
qed

section \<open>First in, first out\<close>

text \<open>
  The interface a socket or a string builder relies on: bytes are put at one end, which may be
  refused, and got from the other. \<open>exec\<close> runs a sequence of operations and collects the bytes
  that were accepted and those that came out.
\<close>

datatype queue_op = Put u8 | Get

fun exec :: "('q \<Rightarrow> u8 \<Rightarrow> bool \<times> 'q) \<Rightarrow> ('q \<Rightarrow> u8 option \<times> 'q) \<Rightarrow> queue_op list \<Rightarrow> 'q \<Rightarrow> bytes \<times> bytes \<times> 'q" where
  "exec put get [] q = ([], [], q)"
| "exec put get (Put c # ops) q =
     (let (ok, q) = put q c; (ins, outs, q) = exec put get ops q in (if ok then c # ins else ins, outs, q))"
| "exec put get (Get # ops) q =
     (let (r, q) = get q; (ins, outs, q) = exec put get ops q
      in (ins, (case r of None \<Rightarrow> outs | Some c \<Rightarrow> c # outs), q))"

locale byte_fifo =
  fixes inv :: "'q \<Rightarrow> bool" and abs :: "'q \<Rightarrow> bytes"
    and put :: "'q \<Rightarrow> u8 \<Rightarrow> bool \<times> 'q" and get :: "'q \<Rightarrow> u8 option \<times> 'q"
  assumes put_law: "inv q \<Longrightarrow> put q c = (ok, q') \<Longrightarrow> inv q' \<and> abs q' = abs q @ (if ok then [c] else [])"
    and get_law: "inv q \<Longrightarrow> get q = (r, q') \<Longrightarrow>
      inv q' \<and> (case r of None \<Rightarrow> abs q = [] \<and> abs q' = [] | Some c \<Rightarrow> abs q = c # abs q')"
begin

lemma fifo:
  "inv q \<Longrightarrow> exec put get ops q = (ins, outs, q') \<Longrightarrow> inv q' \<and> abs q @ ins = outs @ abs q'"
proof (induction ops arbitrary: q q' ins outs)
  case (Cons op ops)
  show ?case
  proof (cases op)
    case (Put c)
    obtain ok q1 where p: "put q c = (ok, q1)" by (cases "put q c")
    obtain i o' q2 where e: "exec put get ops q1 = (i, o', q2)" by (cases "exec put get ops q1")
    from put_law [OF Cons.prems(1) p] Cons.IH [OF _ e] Cons.prems(2) Put p e show ?thesis by auto
  next
    case Get
    obtain r q1 where g: "get q = (r, q1)" by (cases "get q")
    obtain i o' q2 where e: "exec put get ops q1 = (i, o', q2)" by (cases "exec put get ops q1")
    from get_law [OF Cons.prems(1) g] Cons.IH [OF _ e] Cons.prems(2) Get g e show ?thesis
      by (auto split: option.splits)
  qed
qed auto

end

text \<open>The ring queue's byte operations in that shape.\<close>

definition putc_op :: "balloc_fun \<Rightarrow> ringq_t \<Rightarrow> u8 \<Rightarrow> bool \<times> ringq_t" where
  "putc_op balloc rq c = (case ringqPutc balloc rq c of None \<Rightarrow> (False, rq) | Some (rc, rq) \<Rightarrow> (rc = 0, rq))"

definition getc_op :: "ringq_t \<Rightarrow> u8 option \<times> ringq_t" where
  "getc_op rq = (case ringqGetc rq of (r, rq) \<Rightarrow> (if r = - 1 then None else Some (of_int r), rq))"

text \<open>An allocator that always has memory, and the one of the model's queues in general.\<close>

definition plenty :: balloc_fun where
  "plenty n = Some (replicate n 0xCC)"

lemma balloc_ok_plenty: "balloc_ok plenty"
  by (simp add: balloc_ok_def plenty_def)

definition checked :: "balloc_fun \<Rightarrow> balloc_fun" where
  "checked balloc n = (case balloc n of Some b \<Rightarrow> if length b = n then Some b else None | None \<Rightarrow> None)"

lemma balloc_ok_checked: "balloc_ok (checked balloc)"
  by (auto simp: balloc_ok_def checked_def split: option.splits if_splits)

lemma checked_id: "balloc_ok balloc \<Longrightarrow> checked balloc = balloc"
  by (rule ext) (auto simp: checked_def balloc_ok_def split: option.splits)

interpretation rq: byte_fifo ringq_inv contents "putc_op (checked balloc)" getc_op for balloc
proof
  fix q q' c ok
  assume "ringq_inv q" "putc_op (checked balloc) q c = (ok, q')"
  then show "ringq_inv q' \<and> contents q' = contents q @ (if ok then [c] else [])"
    using ringqPutc_correct [OF _ balloc_ok_checked, of q balloc c] by (auto simp: putc_op_def)
next
  fix q q' and r :: "u8 option"
  assume inv: "ringq_inv q" and g: "getc_op q = (r, q')"
  show "ringq_inv q' \<and> (case r of None \<Rightarrow> contents q = [] \<and> contents q' = [] | Some c \<Rightarrow> contents q = c # contents q')"
  proof (cases "contents q")
    case Nil
    then show ?thesis using ringqGetc_correct(1) [OF inv] inv g by (auto simp: getc_op_def)
  next
    case (Cons c cs)
    have "uint c \<noteq> - 1" using uint_ge_0 [of c] by linarith
    with Cons show ?thesis
      using ringqGetc_correct [OF inv] inv g by (auto simp: getc_op_def)
  qed
qed

section \<open>Block sizes\<close>

lemma bin_block_loop_0 [simp]: "bin_block_loop q 0 = q"
  by (subst bin_block_loop.simps) simp

lemma bin_block_loop_rec: "n \<noteq> 0 \<Longrightarrow> bin_block_loop q n = bin_block_loop (Suc q) (n div 2)"
  by (subst bin_block_loop.simps) simp

lemma bin_block_loop_acc: "bin_block_loop q n = q + bin_block_loop 0 n"
proof (induction n arbitrary: q rule: less_induct)
  case (less n)
  show ?case
  proof (cases "n = 0")
    case False
    then have "n div 2 < n" by simp
    then show ?thesis
      using less [of "n div 2" "Suc q"] less [of "n div 2" "Suc 0"] False
      by (simp add: bin_block_loop_rec)
  qed simp
qed

lemma bin_block_bits: "n < 2 ^ bin_block_loop 0 n \<and> (n \<noteq> 0 \<longrightarrow> 2 ^ bin_block_loop 0 n \<le> 2 * n)"
proof (induction n rule: less_induct)
  case (less n)
  show ?case
  proof (cases "n = 0")
    case False
    then have "bin_block_loop 0 n = Suc (bin_block_loop 0 (n div 2))"
      using bin_block_loop_acc [of "Suc 0"] by (simp add: bin_block_loop_rec [of n])
    moreover have "n div 2 < n" using False by simp
    ultimately show ?thesis using less [of "n div 2"] False
      by (cases "n div 2 = 0") auto
  qed simp
qed

lemma getBinBlockSize_bounds: "n < getBinBlockSize n" "getBinBlockSize n \<le> max 16 (2 * n)"
proof -
  define m where "m = n div 16"
  have n: "16 * m \<le> n" "n < 16 * (m + 1)" by (auto simp: m_def)
  define k :: nat where "k = 2 ^ bin_block_loop 0 m"
  have s: "getBinBlockSize n = 16 * k"
    by (simp add: getBinBlockSize_def m_def power_add k_def)
  have b: "m + 1 \<le> k" "m \<noteq> 0 \<longrightarrow> k \<le> 2 * m" "m = 0 \<longrightarrow> k = 1"
    using bin_block_bits [of m] by (auto simp: k_def)
  show "n < getBinBlockSize n" using n b(1) unfolding s by presburger
  show "getBinBlockSize n \<le> max 16 (2 * n)" using n b(2,3) unfolding s by (cases "m = 0") auto
qed

section \<open>Properties\<close>

text \<open>
  C11: The ring queue is a first-in first-out byte queue. For any allocator, any queue that
  satisfies the invariant and any sequence of \<open>ringqPutc\<close> and \<open>ringqGetc\<close> calls, the bytes it
  held followed by those it accepted are the bytes it gave out followed by those it still
  holds, across wrap-around and growth, and the invariant is kept.
\<close>

theorem ringq_fifo:
  assumes "ringq_inv rq" "balloc_ok balloc" "exec (putc_op balloc) getc_op ops rq = (ins, outs, rq')"
  shows "ringq_inv rq' \<and> contents rq @ ins = outs @ contents rq'"
  using rq.fifo [OF assms(1), of balloc ops ins outs rq'] assms(2,3) by (simp add: checked_id)

theorem ringq_fifo_witness:
  "\<exists>ins outs rq'. exec (putc_op plenty) getc_op [Put 7, Put 8, Get]
      \<lparr>buf = [1, 2], servp = 1, endp = 0, buflen = 2, maxsize = - 1, increment = 2\<rparr> = (ins, outs, rq') \<and>
    [2] @ ins = outs @ contents rq'"
proof -
  let ?q = "\<lparr>buf = [1, 2], servp = 1, endp = 0, buflen = 2, maxsize = - 1, increment = 2\<rparr>"
  obtain ins outs rq' where e: "exec (putc_op plenty) getc_op [Put 7, Put 8, Get] ?q = (ins, outs, rq')"
    by (cases "exec (putc_op plenty) getc_op [Put 7, Put 8, Get] ?q") auto
  have "ringq_inv ?q" "contents ?q = [2]" by (simp_all add: ringq_inv_def contents_def)
  then show ?thesis using ringq_fifo [OF _ balloc_ok_plenty e] e by auto
qed

text \<open>
  \<open>ringqPutBlk\<close> always returns, takes a prefix of the block and appends exactly it; it stops
  short only when the queue is full and may not or cannot grow. \<open>ringqGetBlk\<close> of the whole length
  then gives back the old contents followed by that prefix.
\<close>

theorem ringq_put_get_block:
  assumes "ringq_inv rq" "balloc_ok balloc"
  shows "\<exists>n rq' rq''. ringqPutBlk balloc rq data = Some (n, rq') \<and> n \<le> length data \<and> ringq_inv rq' \<and>
    (n < length data \<longrightarrow> room rq' = 0 \<and> \<not> can_grow balloc rq') \<and>
    ringqGetBlk rq' (nat (ringqLen rq')) = (contents rq @ take n data, rq'') \<and> contents rq'' = []"
proof -
  obtain n rq' where p: "ringqPutBlk balloc rq data = Some (n, rq')" "put_spec balloc rq data n rq'"
    using ringqPutBlk_correct [OF assms] by blast
  then have inv: "ringq_inv rq'" by (simp add: put_spec_def)
  have "nat (ringqLen rq') = length (contents rq')" using length_contents(1) [OF inv] by linarith
  then show ?thesis using p ringqGetBlk_correct [OF inv, of "length (contents rq')"]
    by (auto simp: put_spec_def)
qed

theorem ringq_put_get_block_witness:
  "\<exists>n rq'. ringqPutBlk plenty \<lparr>buf = [1, 2], servp = 1, endp = 0, buflen = 2, maxsize = - 1, increment = 2\<rparr> [3, 4]
     = Some (n, rq') \<and> n \<le> 2"
  using ringq_put_get_block [OF _ balloc_ok_plenty,
      of "\<lparr>buf = [1, 2], servp = 1, endp = 0, buflen = 2, maxsize = - 1, increment = 2\<rparr>" "[3, 4]"]
  by (auto simp: ringq_inv_def)

text \<open>
  A queue that is only filled is a dynamic string. If the data starts at the beginning of the
  buffer and \<open>ringqPutStr\<close> takes the whole string, the C string at \<open>servp\<close> afterwards is the old
  contents followed by the string, also when the buffer had to be moved to grow.
\<close>

theorem ringqPutStr_string:
  assumes "ringq_inv rq" "balloc_ok balloc" "servp rq = 0" "0 \<notin> set (contents rq)"
    and "ringqPutStr balloc rq str = Some (n, rq')" "n = length (cstr str)"
  shows "ringq_inv rq' \<and> servp rq' = 0 \<and> contents rq' = contents rq @ cstr str \<and>
    cstr (drop (servp rq') (buf rq')) = contents rq @ cstr str"
proof -
  obtain q where q: "ringqPutBlk balloc rq (cstr str) = Some (n, q)" "rq' = q\<lparr>buf := (buf q)[endp q := 0]\<rparr>"
    using assms(5) by (auto simp: ringqPutStr_def split: option.splits)
  then have s: "put_spec balloc rq (cstr str) n q" using ringqPutBlk_correct [OF assms(1,2), of "cstr str"] by auto
  then have inv: "ringq_inv q" and c: "contents q = contents rq @ cstr str" and z: "servp q = 0"
    using assms(3,6) by (auto simp: put_spec_def)
  have "0 \<notin> set (cstr str)" by (induction str) auto
  then have nz: "0 \<notin> set (contents q)" using c assms(4) by simp
  have t: "contents q = take (endp q) (buf q)" using z by (simp add: contents_def)
  have b: "buf rq' = contents q @ 0 # drop (Suc (endp q)) (buf q)"
    using inv by (simp add: q(2) t upd_conv_take_nth_drop ringq_inv_def)
  have "contents rq' = contents q" using q(2) z by (simp add: contents_def)
  moreover have "ringq_inv rq'" using inv q(2) by (simp add: ringq_inv_def)
  moreover have "cstr (buf rq') = contents q" unfolding b using nz by (rule cstr_append_nul)
  ultimately show ?thesis using c z q(2) by simp
qed

theorem ringqPutStr_string_witness:
  "\<exists>n rq'. ringqPutStr plenty \<lparr>buf = [0, 0], servp = 0, endp = 0, buflen = 2, maxsize = - 1, increment = 2\<rparr>
       [0x61, 0x62, 0x63, 0] = Some (n, rq') \<and>
     (n = 3 \<longrightarrow> cstr (drop (servp rq') (buf rq')) = [0x61, 0x62, 0x63])"
proof -
  let ?q = "\<lparr>buf = [0, 0], servp = 0, endp = 0, buflen = 2, maxsize = - 1, increment = 2\<rparr>"
  have i: "ringq_inv ?q" "contents ?q = []" by (simp_all add: ringq_inv_def contents_def)
  obtain n rq' where p: "ringqPutStr plenty ?q [0x61, 0x62, 0x63, 0] = Some (n, rq')"
    using ringqPutBlk_correct [OF i(1) balloc_ok_plenty, of "cstr [0x61, 0x62, 0x63, 0]"]
    by (auto simp: ringqPutStr_def)
  show ?thesis
    using ringqPutStr_string [OF i(1) balloc_ok_plenty _ _ p] i(2) p by auto
qed

text \<open>
  The block size chosen for a request is larger than the request and at most the larger of
  16 and twice it, so a queue opened for \<open>n\<close> bytes can hold \<open>n\<close> bytes without growing.
\<close>

theorem ringqOpen_room:
  assumes "balloc_ok balloc" "ringqOpen balloc n maxsz = (0, Some rq)"
  shows "ringq_inv rq \<and> contents rq = [] \<and> n \<le> room rq \<and> buflen rq \<le> max 16 (2 * n)"
proof -
  obtain b where b: "balloc (getBinBlockSize n) = Some b"
    "rq = \<lparr>buf = b[0 := 0], servp = 0, endp = 0, buflen = getBinBlockSize n, maxsize = maxsz,
       increment = getBinBlockSize n\<rparr>"
    using assms(2) by (auto simp: ringqOpen_def Let_def split: option.splits)
  have "length b = getBinBlockSize n" using assms(1) b(1) by (auto simp: balloc_ok_def)
  then show ?thesis using getBinBlockSize_bounds [of n] b(2)
    by (auto simp: ringq_inv_def contents_def room_def)
qed

theorem ringqOpen_room_witness:
  "\<exists>rq. ringqOpen plenty 100 (- 1) = (0, Some rq) \<and> 100 \<le> room rq"
proof -
  obtain rq where "ringqOpen plenty 100 (- 1) = (0, Some rq)" by (simp add: ringqOpen_def plenty_def Let_def)
  then show ?thesis using ringqOpen_room [OF balloc_ok_plenty] by blast
qed

text \<open>
  The upper limit given to \<open>ringqOpen\<close> is only compared with the size before growing: a
  successful grow of a queue just below its limit leaves a buffer larger than the limit.
\<close>

theorem ringqGrow_exceeds_maxsize:
  assumes "ringq_inv rq" "balloc_ok balloc" "int (buflen rq) < maxsize rq"
    and "maxsize rq < int (buflen rq + increment rq)" "balloc (buflen rq + increment rq) \<noteq> None"
  shows "\<exists>rq'. ringqGrow balloc rq = Some (True, rq') \<and> int (buflen rq') > maxsize rq'"
proof -
  have "can_grow balloc rq" using assms(3,5) by (auto simp: can_grow_def)
  then show ?thesis using ringqGrow_correct [OF assms(1,2)] assms(4) by auto
qed

theorem ringqGrow_exceeds_maxsize_witness:
  "\<exists>rq'. ringqGrow plenty \<lparr>buf = [1, 2], servp = 1, endp = 0, buflen = 2, maxsize = 3, increment = 2\<rparr>
     = Some (True, rq') \<and> int (buflen rq') > maxsize rq'"
  using ringqGrow_exceeds_maxsize [OF _ balloc_ok_plenty,
      of "\<lparr>buf = [1, 2], servp = 1, endp = 0, buflen = 2, maxsize = 3, increment = 2\<rparr>"]
  by (simp add: ringq_inv_def plenty_def)

end
