(* ===== verification/HAlloc.thy ===== *)
theory HAlloc
  imports Prelude
begin

text \<open>
  The handle allocator of the web server, \<open>apps/WebServer/h.c\<close>: an array of pointers with its
  length and the number in use in front, grown in chunks of \<open>H_INCR\<close>. A null pointer is \<open>None\<close>, a
  null map too. Whether \<open>balloc\<close> and \<open>brealloc\<close> succeed is an argument of each operation.
\<close>

section \<open>Operations\<close>

record 'a hmap =
  H_LEN :: nat
  H_USED :: nat
  slots :: "'a option list"

abbreviation (input) H_INCR :: nat where "H_INCR \<equiv> 16"

text \<open>The loop that looks for the first null slot from \<open>handle\<close> on.\<close>

fun first_null :: "nat \<Rightarrow> 'a option list \<Rightarrow> nat option" where
  "first_null handle [] = None"
| "first_null handle (x # xs) = (if x = None then Some handle else first_null (handle + 1) xs)"

definition hAlloc :: "bool \<Rightarrow> 'a hmap option \<Rightarrow> int \<times> 'a hmap option" where
  "hAlloc mem map0 =
     (let map1 = (case map0 of
                    None \<Rightarrow> if mem then Some \<lparr>H_LEN = H_INCR, H_USED = 0, slots = replicate H_INCR None\<rparr>
                            else None
                  | Some mp \<Rightarrow> Some mp)
      in case map1 of
           None \<Rightarrow> (- 1, None)
         | Some mp \<Rightarrow>
             let len = H_LEN mp;
                 grow = (\<lambda>handle.
                   let len = len + H_INCR
                   in if \<not> mem then (- 1, Some mp)
                      else (int handle, Some (mp\<lparr>H_LEN := len, slots := slots mp @ replicate H_INCR None,
                                                 H_USED := H_USED mp + 1\<rparr>)))
             in if H_USED mp < H_LEN mp then
                  (case first_null 0 (take len (slots mp)) of
                     Some handle \<Rightarrow> (int handle, Some (mp\<lparr>H_USED := H_USED mp + 1\<rparr>))
                   | None \<Rightarrow> grow len)
                else grow len)"

text \<open>The loop that looks for the greatest handle in use, downwards from \<open>handle - 1\<close>.\<close>

fun last_used :: "nat \<Rightarrow> 'a option list \<Rightarrow> int" where
  "last_used 0 xs = - 1"
| "last_used (Suc h) xs = (if xs ! h \<noteq> None then int h else last_used h xs)"

text \<open>
  \<open>hFree\<close>: the new maximum and the map. Calling it on a null map or a handle outside the list is
  excluded by the assertions of the code.
\<close>

definition hFree :: "'a hmap \<Rightarrow> nat \<Rightarrow> int \<times> 'a hmap option" where
  "hFree mp handle =
     (let mp = mp\<lparr>slots := (slots mp)[handle := None], H_USED := H_USED mp - 1\<rparr>
      in if H_USED mp = 0 then (- 1 + 1, None)
         else let len = H_LEN mp;
                  handle = (if H_USED mp < H_LEN mp then last_used len (slots mp) else int len)
              in (handle + 1, Some mp))"

text \<open>
  \<open>hAllocEntry\<close> with a positive size: \<open>mem2\<close> is whether the entry's own block can be allocated,
  and \<open>entry\<close> the zeroed block. \<open>max\<close> is the caller's maximum.
\<close>

definition hAllocEntry :: "bool \<Rightarrow> bool \<Rightarrow> 'a \<Rightarrow> 'a hmap option \<Rightarrow> int \<Rightarrow> int \<times> 'a hmap option \<times> int" where
  "hAllocEntry mem mem2 entry map0 maxp =
     (let (id, map1) = hAlloc mem map0
      in if id < 0 then (- 1, map1, maxp)
         else case map1 of
                None \<Rightarrow> (- 1, None, maxp)
              | Some mp \<Rightarrow>
                  if \<not> mem2 then (- 1, snd (hFree mp (nat id)), maxp)
                  else (id, Some (mp\<lparr>slots := (slots mp)[nat id := Some entry]\<rparr>),
                        if id \<ge> maxp then id + 1 else maxp))"

section \<open>Invariant\<close>

definition used_slots :: "'a option list \<Rightarrow> nat" where
  "used_slots xs = length (filter (\<lambda>x. x \<noteq> None) xs)"

text \<open>
  The list is a whole number of chunks, its header tells its length, and the count is the number
  of entries; it is given back to the allocator as soon as it is empty.
\<close>

definition hmap_inv :: "'a hmap option \<Rightarrow> bool" where
  "hmap_inv map0 = (case map0 of None \<Rightarrow> True
     | Some mp \<Rightarrow> length (slots mp) = H_LEN mp \<and> H_INCR \<le> H_LEN mp \<and> H_USED mp = used_slots (slots mp) \<and>
         0 < H_USED mp)"

text \<open>The entry a handle stands for.\<close>

definition entry_of :: "'a hmap option \<Rightarrow> nat \<Rightarrow> 'a option" where
  "entry_of map0 h = (case map0 of None \<Rightarrow> None | Some mp \<Rightarrow> if h < length (slots mp) then slots mp ! h else None)"

lemma used_slots_simps [simp]:
  "used_slots [] = 0" "used_slots (None # xs) = used_slots xs" "used_slots (Some x # xs) = Suc (used_slots xs)"
  "used_slots (xs @ ys) = used_slots xs + used_slots ys" "used_slots (replicate n None) = 0"
  by (simp_all add: used_slots_def)

lemma used_slots_le: "used_slots xs \<le> length xs"
  by (simp add: used_slots_def)

lemma used_slots_update:
  "i < length xs \<Longrightarrow> xs ! i = None \<Longrightarrow> used_slots (xs[i := Some x]) = Suc (used_slots xs)"
  "i < length xs \<Longrightarrow> xs ! i \<noteq> None \<Longrightarrow> Suc (used_slots (xs[i := None])) = used_slots xs"
proof (induction xs arbitrary: i)
  case (Cons y ys)
  { case 1 with Cons.IH(1) show ?case by (cases i; cases y) auto }
  { case 2 with Cons.IH(2) show ?case by (cases i; cases y) auto }
qed auto

lemma first_null_Some:
  "first_null k xs = Some h \<Longrightarrow> \<exists>i < length xs. h = k + i \<and> xs ! i = None \<and> (\<forall>j < i. xs ! j \<noteq> None)"
proof (induction xs arbitrary: k)
  case (Cons x xs)
  show ?case
  proof (cases x)
    case None
    then show ?thesis using Cons.prems by auto
  next
    case (Some y)
    then obtain i where "i < length xs" "h = k + 1 + i" "xs ! i = None" "\<forall>j < i. xs ! j \<noteq> None"
      using Cons by fastforce
    then show ?thesis using Some by (intro exI [of _ "Suc i"]) (auto simp: nth_Cons split: nat.split)
  qed
qed simp

lemma first_null_None: "first_null k xs = None \<Longrightarrow> used_slots xs = length xs"
proof (induction xs arbitrary: k)
  case (Cons x xs)
  then show ?case by (cases x) auto
qed simp

lemma first_null_fresh [simp]: "0 < n \<Longrightarrow> first_null k (replicate n None) = Some k"
  by (cases n) auto

lemma last_used:
  "last_used h xs = - 1 \<and> (\<forall>j < h. xs ! j = None) \<or>
   (\<exists>k < h. last_used h xs = int k \<and> xs ! k \<noteq> None \<and> (\<forall>j. k < j \<and> j < h \<longrightarrow> xs ! j = None))"
proof (induction h)
  case (Suc h)
  then show ?case by (auto simp: less_Suc_eq)
qed simp

section \<open>What an allocation does\<close>

text \<open>
  On a list that satisfies the invariant, or on none, \<open>hAlloc\<close> with memory gives the lowest free
  handle, with the count already raised and the slot still null.
\<close>

lemma hAlloc_correct:
  assumes "hmap_inv map0" "hAlloc mem map0 = (n, map1)" "n \<ge> 0"
  shows "\<exists>mp. map1 = Some mp \<and> nat n < length (slots mp) \<and> slots mp ! nat n = None \<and>
    length (slots mp) = H_LEN mp \<and> H_INCR \<le> H_LEN mp \<and> H_USED mp = Suc (used_slots (slots mp)) \<and>
    entry_of map1 = entry_of map0 \<and> (\<forall>h < nat n. entry_of map0 h \<noteq> None)"
proof (cases map0)
  case None
  then show ?thesis using assms(2,3)
    by (auto simp: hAlloc_def Let_def entry_of_def fun_eq_iff split: if_splits)
next
  case (Some mp)
  then have inv: "length (slots mp) = H_LEN mp" "16 \<le> H_LEN mp" "H_USED mp = used_slots (slots mp)"
    using assms(1) by (auto simp: hmap_inv_def)
  show ?thesis
  proof (cases "first_null 0 (slots mp)")
    case f: None
    then have full: "used_slots (slots mp) = H_LEN mp" using first_null_None inv by metis
    have all: "slots mp ! h \<noteq> None" if "h < H_LEN mp" for h
      using that inv full used_slots_update(1) [of h "slots mp" undefined]
        used_slots_le [of "(slots mp)[h := Some undefined]"] by auto
    have "mem" "n = int (H_LEN mp)" and map1: "map1 = Some (mp\<lparr>H_LEN := H_LEN mp + 16,
        slots := slots mp @ replicate 16 None, H_USED := H_USED mp + 1\<rparr>)"
      using assms(2,3) Some inv full by (auto simp: hAlloc_def Let_def split: if_splits)
    then show ?thesis using inv all Some
      by (auto simp: entry_of_def fun_eq_iff nth_append)
  next
    case f: (Some h)
    then obtain i where i: "h = i" "i < H_LEN mp" "slots mp ! i = None" "\<forall>j < i. slots mp ! j \<noteq> None"
      using first_null_Some [OF f] inv by auto
    have "used_slots (slots mp) < H_LEN mp"
      using used_slots_update(1) [of i "slots mp" undefined] i inv
        used_slots_le [of "(slots mp)[i := Some undefined]"] by auto
    then have "n = int i" "map1 = Some (mp\<lparr>H_USED := H_USED mp + 1\<rparr>)"
      using assms(2) Some f inv i by (auto simp: hAlloc_def Let_def)
    then show ?thesis using i inv Some by (auto simp: entry_of_def fun_eq_iff)
  qed
qed

lemma hFree_correct:
  assumes "hmap_inv (Some mp)" "entry_of (Some mp) h \<noteq> None" "hFree mp h = (m, map1)"
  shows "hmap_inv map1 \<and> entry_of map1 = (entry_of (Some mp))(h := None) \<and>
    (\<forall>k. entry_of map1 k \<noteq> None \<longrightarrow> int k < m) \<and>
    (m = 0 \<or> m > 0 \<and> entry_of map1 (nat (m - 1)) \<noteq> None)"
proof -
  let ?xs = "(slots mp)[h := None]"
  have h: "h < length (slots mp)" "slots mp ! h \<noteq> None"
    using assms(2) by (auto simp: entry_of_def split: if_splits)
  have inv: "length (slots mp) = H_LEN mp" "16 \<le> H_LEN mp" "H_USED mp = used_slots (slots mp)"
    using assms(1) by (auto simp: hmap_inv_def)
  have u: "Suc (used_slots ?xs) = used_slots (slots mp)" using used_slots_update(2) h by metis
  then have lt: "used_slots ?xs < H_LEN mp" using used_slots_le [of "slots mp"] inv by simp
  have upd: "entry_of (Some (mp\<lparr>slots := ?xs, H_USED := n\<rparr>)) = (entry_of (Some mp))(h := None)" for n
    using h by (auto simp: entry_of_def fun_eq_iff)
  show ?thesis
  proof (cases "used_slots ?xs = 0")
    case True
    have "?xs ! k = None" if "k < length ?xs" for k
      using that True by (simp add: used_slots_def filter_empty_conv)
    then have "(entry_of (Some mp))(h := None) = (\<lambda>_. None)"
      using upd [of 0] by (auto simp: entry_of_def fun_eq_iff split: if_splits)
    moreover have "m = 0" "map1 = None" using assms(3) True inv u by (auto simp: hFree_def Let_def)
    ultimately show ?thesis by (auto simp: hmap_inv_def entry_of_def)
  next
    case False
    then have m: "m = last_used (H_LEN mp) ?xs + 1" "map1 = Some (mp\<lparr>slots := ?xs, H_USED := used_slots ?xs\<rparr>)"
      using assms(3) inv u lt by (auto simp: hFree_def Let_def)
    have "hmap_inv map1" using m False inv by (auto simp: hmap_inv_def)
    moreover have "entry_of map1 = (entry_of (Some mp))(h := None)" using m upd by simp
    moreover have e: "entry_of map1 k = (if k < H_LEN mp then ?xs ! k else None)" for k
      using m inv by (simp add: entry_of_def)
    moreover have "int k < m" if "entry_of map1 k \<noteq> None" for k
    proof -
      have k: "k < H_LEN mp" "?xs ! k \<noteq> None" using that e by (auto split: if_splits)
      with last_used [of "H_LEN mp" ?xs] obtain g where g: "last_used (H_LEN mp) ?xs = int g"
        "\<forall>j. g < j \<and> j < H_LEN mp \<longrightarrow> ?xs ! j = None" by metis
      have "\<not> g < k" using g(2) k by auto
      then show ?thesis using g(1) m(1) by linarith
    qed
    moreover have "m = 0 \<or> m > 0 \<and> entry_of map1 (nat (m - 1)) \<noteq> None"
      using last_used [of "H_LEN mp" ?xs] m(1) e by auto
    ultimately show ?thesis by blast
  qed
qed

lemma hAllocEntry_correct:
  assumes "hmap_inv map0" "hAllocEntry True True entry map0 maxp = (n, map1, maxp')"
  shows "0 \<le> n \<and> hmap_inv map1 \<and> entry_of map0 (nat n) = None \<and>
    entry_of map1 = (entry_of map0)(nat n \<mapsto> entry) \<and>
    (\<forall>h < nat n. entry_of map0 h \<noteq> None) \<and> maxp' = max maxp (n + 1)"
proof -
  obtain h map2 where a: "hAlloc True map0 = (h, map2)" by (cases "hAlloc True map0")
  have h0: "0 \<le> h" using a by (auto simp: hAlloc_def Let_def split: option.splits if_splits)
  obtain mp where mp: "map2 = Some mp" "nat h < length (slots mp)" "slots mp ! nat h = None"
    "length (slots mp) = H_LEN mp" "16 \<le> H_LEN mp" "H_USED mp = Suc (used_slots (slots mp))"
    "entry_of map2 = entry_of map0" "\<forall>k < nat h. entry_of map0 k \<noteq> None"
    using hAlloc_correct [OF assms(1) a h0] by blast
  have r: "n = h" "map1 = Some (mp\<lparr>slots := (slots mp)[nat h := Some entry]\<rparr>)" "maxp' = max maxp (n + 1)"
    using assms(2) a h0 mp(1) by (auto simp: hAllocEntry_def Let_def)
  have "hmap_inv map1" using r(2) mp by (simp add: hmap_inv_def used_slots_update(1))
  moreover have "entry_of map1 = (entry_of map2)(nat h \<mapsto> entry)"
    using r(2) mp(1,2,4) by (auto simp: entry_of_def fun_eq_iff)
  moreover have "entry_of map2 (nat h) = None" using mp(1-4) by (simp add: entry_of_def)
  ultimately show ?thesis using r mp(7,8) h0 by auto
qed

section \<open>Properties\<close>

text \<open>
  With memory available \<open>hAllocEntry\<close> hands out the lowest handle not in use, never one that
  stands for an entry, stores the new entry there and nothing else, raises the caller's maximum
  to cover it and keeps the invariant; the list grows by itself when it is full.
\<close>

theorem hAllocEntry_fresh:
  assumes "hmap_inv map0" "hAllocEntry True True entry map0 maxp = (n, map1, maxp')"
  shows "0 \<le> n \<and> hmap_inv map1 \<and> entry_of map0 (nat n) = None \<and>
    entry_of map1 = (entry_of map0)(nat n \<mapsto> entry) \<and>
    (\<forall>h < nat n. entry_of map0 h \<noteq> None) \<and> maxp' = max maxp (n + 1)"
  by (rule hAllocEntry_correct [OF assms])

theorem hAllocEntry_fresh_witness:
  "\<exists>n map1 maxp'. hAllocEntry True True (7::nat) None 0 = (n, map1, maxp') \<and> entry_of map1 (nat n) = Some 7"
proof -
  obtain n map1 maxp' where a: "hAllocEntry True True (7::nat) None 0 = (n, map1, maxp')"
    by (cases "hAllocEntry True True (7::nat) None 0") auto
  then show ?thesis using hAllocEntry_fresh [OF _ a] by (auto simp: hmap_inv_def)
qed

text \<open>
  Freeing a handle removes exactly its entry and returns one more than the greatest handle
  still in use, 0 when none is; the list itself is given back when it becomes empty.
\<close>

theorem hFree_max:
  assumes "hmap_inv (Some mp)" "entry_of (Some mp) h \<noteq> None" "hFree mp h = (m, map1)"
  shows "hmap_inv map1 \<and> entry_of map1 = (entry_of (Some mp))(h := None) \<and>
    (\<forall>k. entry_of map1 k \<noteq> None \<longrightarrow> int k < m) \<and>
    (m = 0 \<or> m > 0 \<and> entry_of map1 (nat (m - 1)) \<noteq> None)"
  by (rule hFree_correct [OF assms])

theorem hFree_max_witness:
  "\<exists>m map1. hFree \<lparr>H_LEN = 16, H_USED = 2, slots = Some 5 # Some (6::nat) # replicate 14 None\<rparr> 1 = (m, map1) \<and>
     entry_of map1 1 = None \<and> entry_of map1 0 = Some 5"
proof -
  let ?mp = "\<lparr>H_LEN = 16, H_USED = 2, slots = Some 5 # Some (6::nat) # replicate 14 None\<rparr>"
  obtain m map1 where f: "hFree ?mp 1 = (m, map1)" by (cases "hFree ?mp 1")
  have e: "entry_of (Some ?mp) 1 \<noteq> None" "entry_of (Some ?mp) 0 = Some 5" "hmap_inv (Some ?mp)"
    by (simp_all add: entry_of_def hmap_inv_def)
  show ?thesis using hFree_max [OF e(3,1) f] f e(2) by auto
qed

end
