(* ===== verification/Sym.thy ===== *)
theory Sym
  imports HAlloc
begin

text \<open>
  The symbol tables of the web server, \<open>apps/WebServer/sym.c\<close>: a list of open hash tables, each an
  array of daisy chains, over the handle allocator. A chain of \<open>sym_t\<close> nodes is a list, a name is
  the bytes of a C string without its terminator, and the value a symbol holds is of any type
  \<open>'v\<close> (only its copying matters here). Whether \<open>balloc\<close> succeeds is an argument; a violated
  assertion is \<open>None\<close>. The field \<open>inuse\<close> of the table descriptor is never read and is left out.
\<close>

section \<open>State\<close>

record 'v sym_t =
  sname :: bytes
  content :: 'v
  arg :: int

record 'v sym_tabent_t =
  hash_size :: nat
  hash_table :: "'v sym_t list list"

record 'v sym_state =
  sym :: "'v sym_tabent_t hmap option"
  symMax :: int
  symOpenCount :: int
  htIndex :: nat
  next_sym :: "'v sym_t list"

section \<open>Hashing\<close>

text \<open>The loop of \<open>hashIndex\<close>: \<open>BITS(int) - BITSPERBYTE\<close> is 24.\<close>

fun hash_sum :: "nat \<Rightarrow> u32 \<Rightarrow> bytes \<Rightarrow> u32" where
  "hash_sum i acc [] = acc"
| "hash_sum i acc (c # cs) =
     (if c = 0 then acc else hash_sum ((i + 7) mod (32 - 8)) (acc + push_bit i (ucast c)) cs)"

definition hashIndex :: "('v, 'z) sym_tabent_t_scheme \<Rightarrow> bytes \<Rightarrow> nat" where
  "hashIndex tp name = unat (hash_sum 0 0 name) mod hash_size tp"

definition hash :: "'v sym_tabent_t \<Rightarrow> bytes \<Rightarrow> 'v sym_t list" where
  "hash tp name = hash_table tp ! hashIndex tp name"

function isPrime_loop :: "nat \<Rightarrow> nat \<Rightarrow> nat \<Rightarrow> bool" where
  "isPrime_loop i m n = (if i \<le> m then if n mod i = 0 then False else isPrime_loop (i + 1) m n else True)"
  by pat_completeness auto

termination
  by (relation "measure (\<lambda>(i, m, _). Suc m - i)") auto

declare isPrime_loop.simps [simp del]

definition isPrime :: "nat \<Rightarrow> bool" where
  "isPrime n = (let m = n div 2 in isPrime_loop 2 m n)"

fun calcPrime :: "nat \<Rightarrow> nat" where
  "calcPrime 0 = 1"
| "calcPrime (Suc n) = (if isPrime (Suc n) then Suc n else calcPrime n)"

section \<open>Opening and closing\<close>

definition symSubOpen :: "'v sym_state \<Rightarrow> int \<times> 'v sym_state" where
  "symSubOpen st =
     (let st = st\<lparr>symOpenCount := symOpenCount st + 1\<rparr>
      in (0, if symOpenCount st = 1 then st\<lparr>symMax := 0, sym := None\<rparr> else st))"

definition symSubClose :: "'v sym_state \<Rightarrow> 'v sym_state" where
  "symSubClose st =
     (let st = st\<lparr>symOpenCount := symOpenCount st - 1\<rparr>
      in if symOpenCount st \<le> 0 then st\<lparr>symOpenCount := 0\<rparr> else st)"

text \<open>
  \<open>symOpen\<close>: \<open>mem\<close>, \<open>mem2\<close> and \<open>mem3\<close> are whether the handle list, the descriptor and the chain
  array can be allocated. The last is only asserted.
\<close>

definition symOpen :: "bool \<Rightarrow> bool \<Rightarrow> bool \<Rightarrow> nat \<Rightarrow> 'v sym_state \<Rightarrow> (int \<times> 'v sym_state) option" where
  "symOpen mem mem2 mem3 hsize st =
     (if \<not> hsize > 2 then None else
      let (sd, map1) = hAlloc mem (sym st);
          st = st\<lparr>sym := map1\<rparr>
      in if sd < 0 then Some (- 1, st)
         else case map1 of
                None \<Rightarrow> None
              | Some mp \<Rightarrow>
                  if \<not> mem2 then
                    (let (m, map2) = hFree mp (nat sd) in Some (- 1, st\<lparr>symMax := m, sym := map2\<rparr>))
                  else
                    let st = (if sd \<ge> symMax st then st\<lparr>symMax := sd + 1\<rparr> else st);
                        tp = \<lparr>hash_size = calcPrime hsize, hash_table = replicate (calcPrime hsize) []\<rparr>
                    in if \<not> mem3 then None
                       else Some (sd, st\<lparr>sym := Some (mp\<lparr>slots := (slots mp)[nat sd := Some tp]\<rparr>)\<rparr>))"

text \<open>The table behind a descriptor; the assertions require the descriptor to be in range.\<close>

definition sd_ok :: "'v sym_state \<Rightarrow> int \<Rightarrow> bool" where
  "sd_ok st sd \<longleftrightarrow> 0 \<le> sd \<and> sd < symMax st"

definition tab_of :: "'v sym_state \<Rightarrow> int \<Rightarrow> 'v sym_tabent_t option" where
  "tab_of st sd = entry_of (sym st) (nat sd)"

text \<open>Storing a changed table back: the code changes it through the pointer.\<close>

definition put_tab :: "'v sym_state \<Rightarrow> int \<Rightarrow> 'v sym_tabent_t \<Rightarrow> 'v sym_state" where
  "put_tab st sd tp =
     st\<lparr>sym := map_option (\<lambda>mp. mp\<lparr>slots := (slots mp)[nat sd := Some tp]\<rparr>) (sym st)\<rparr>"

definition symClose :: "int \<Rightarrow> 'v sym_state \<Rightarrow> 'v sym_state option" where
  "symClose sd st =
     (if \<not> sd_ok st sd \<or> tab_of st sd = None then None
      else case sym st of
             None \<Rightarrow> None
           | Some mp \<Rightarrow> (let (m, map1) = hFree mp (nat sd) in Some (st\<lparr>symMax := m, sym := map1\<rparr>)))"

section \<open>Traversal\<close>

text \<open>
  The chain at an index of the table. \<open>symFirst\<close> and \<open>symNext\<close> read one entry past the end of the
  array; \<open>oob\<close> is what they find there.
\<close>

definition chain_at :: "'v sym_t list \<Rightarrow> 'v sym_tabent_t \<Rightarrow> nat \<Rightarrow> 'v sym_t list" where
  "chain_at oob tp i = (if i < hash_size tp then hash_table tp ! i else oob)"

function first_loop :: "'v sym_t list \<Rightarrow> 'v sym_tabent_t \<Rightarrow> nat \<Rightarrow> 'v sym_state \<Rightarrow> 'v sym_t option \<times> 'v sym_state" where
  "first_loop oob tp i st =
     (if i < hash_size tp then
        (case hash_table tp ! i of
           [] \<Rightarrow> first_loop oob tp (i + 1) st
         | sp # forw \<Rightarrow>
             (Some sp, if forw = [] then st\<lparr>htIndex := i + 1, next_sym := chain_at oob tp (i + 1)\<rparr>
                       else st\<lparr>htIndex := i, next_sym := forw\<rparr>))
      else (None, st))"
  by pat_completeness auto

termination
  by (relation "measure (\<lambda>(_, tp, i, _). hash_size tp - i)") auto

declare first_loop.simps [simp del]

definition symFirst :: "'v sym_t list \<Rightarrow> int \<Rightarrow> 'v sym_state \<Rightarrow> ('v sym_t option \<times> 'v sym_state) option" where
  "symFirst oob sd st =
     (case (sd_ok st sd, tab_of st sd) of (True, Some tp) \<Rightarrow> Some (first_loop oob tp 0 st) | _ \<Rightarrow> None)"

function next_loop :: "'v sym_t list \<Rightarrow> 'v sym_tabent_t \<Rightarrow> nat \<Rightarrow> 'v sym_state \<Rightarrow> 'v sym_t option \<times> 'v sym_state" where
  "next_loop oob tp i st =
     (if i < hash_size tp then
        (case next_sym st of
           [] \<Rightarrow> next_loop oob tp (i + 1) (st\<lparr>next_sym := chain_at oob tp (i + 1)\<rparr>)
         | sp # forw \<Rightarrow>
             (Some sp, if forw = [] then st\<lparr>htIndex := i + 1, next_sym := chain_at oob tp (i + 1)\<rparr>
                       else st\<lparr>htIndex := i, next_sym := forw\<rparr>))
      else (None, st))"
  by pat_completeness auto

termination
  by (relation "measure (\<lambda>(_, tp, i, _). hash_size tp - i)") auto

declare next_loop.simps [simp del]

definition symNext :: "'v sym_t list \<Rightarrow> int \<Rightarrow> 'v sym_state \<Rightarrow> ('v sym_t option \<times> 'v sym_state) option" where
  "symNext oob sd st =
     (case (sd_ok st sd, tab_of st sd) of (True, Some tp) \<Rightarrow> Some (next_loop oob tp (htIndex st) st) | _ \<Rightarrow> None)"

section \<open>Lookup, enter, delete\<close>

text \<open>
  The scan of a chain for a name: the nodes before the match, and the match with the rest (empty
  if there is none). Comparing the first character and then the whole string is comparing them.
\<close>

fun chain_scan :: "bytes \<Rightarrow> 'v sym_t list \<Rightarrow> 'v sym_t list \<times> 'v sym_t list" where
  "chain_scan name [] = ([], [])"
| "chain_scan name (sp # forw) =
     (if sname sp = name then ([], sp # forw)
      else let (pre, rest) = chain_scan name forw in (sp # pre, rest))"

definition symLookup :: "'v sym_state \<Rightarrow> int \<Rightarrow> bytes \<Rightarrow> 'v sym_t option option" where
  "symLookup st sd name =
     (if \<not> sd_ok st sd then None
      else case tab_of st sd of
             None \<Rightarrow> Some None
           | Some tp \<Rightarrow>
               if name = [] then Some None
               else case chain_scan name (hash tp name) of
                      (_, []) \<Rightarrow> Some None
                    | (_, sp # _) \<Rightarrow> Some (Some sp))"

text \<open>The body of \<open>symEnter\<close> on the table: the symbol returned and the new table.\<close>

definition tab_enter :: "bool \<Rightarrow> 'v sym_tabent_t \<Rightarrow> bytes \<Rightarrow> 'v \<Rightarrow> int \<Rightarrow> 'v sym_t option \<times> 'v sym_tabent_t" where
  "tab_enter mem tp name v a =
     (let hindex = hashIndex tp name;
          chain = hash_table tp ! hindex;
          new = \<lparr>sname = name, content = v, arg = a\<rparr>
      in if chain \<noteq> [] then
           (case chain_scan name chain of
              (pre, sp # forw) \<Rightarrow>
                let sp = sp\<lparr>content := v, arg := a\<rparr>
                in (Some sp, tp\<lparr>hash_table := (hash_table tp)[hindex := pre @ sp # forw]\<rparr>)
            | (pre, []) \<Rightarrow>
                if \<not> mem then (None, tp)
                else (Some new, tp\<lparr>hash_table := (hash_table tp)[hindex := chain @ [new]]\<rparr>))
         else if \<not> mem then (None, tp)
         else (Some new, tp\<lparr>hash_table := (hash_table tp)[hindex := [new]]\<rparr>))"

definition symEnter ::
    "bool \<Rightarrow> 'v sym_state \<Rightarrow> int \<Rightarrow> bytes \<Rightarrow> 'v \<Rightarrow> int \<Rightarrow> ('v sym_t option \<times> 'v sym_state) option" where
  "symEnter mem st sd name v a =
     (case (sd_ok st sd, tab_of st sd) of
        (True, Some tp) \<Rightarrow> (let (r, tp) = tab_enter mem tp name v a in Some (r, put_tab st sd tp))
      | _ \<Rightarrow> None)"

definition tab_delete :: "'v sym_tabent_t \<Rightarrow> bytes \<Rightarrow> int \<times> 'v sym_tabent_t" where
  "tab_delete tp name =
     (let hindex = hashIndex tp name
      in case chain_scan name (hash_table tp ! hindex) of
           (_, []) \<Rightarrow> (- 1, tp)
         | (pre, sp # forw) \<Rightarrow> (0, tp\<lparr>hash_table := (hash_table tp)[hindex := pre @ forw]\<rparr>))"

definition symDelete :: "'v sym_state \<Rightarrow> int \<Rightarrow> bytes \<Rightarrow> (int \<times> 'v sym_state) option" where
  "symDelete st sd name =
     (case (name \<noteq> [] \<and> sd_ok st sd, tab_of st sd) of
        (True, Some tp) \<Rightarrow> (let (r, tp) = tab_delete tp name in Some (r, put_tab st sd tp))
      | _ \<Rightarrow> None)"

section \<open>A table is a finite map\<close>

definition chain_find :: "bytes \<Rightarrow> 'v sym_t list \<Rightarrow> 'v sym_t option" where
  "chain_find name = find (\<lambda>sp. sname sp = name)"

lemma chain_find_simps [simp]:
  "chain_find name [] = None"
  "chain_find name (sp # c) = (if sname sp = name then Some sp else chain_find name c)"
  by (simp_all add: chain_find_def)

lemma chain_find_append:
  "chain_find name (xs @ ys) = (case chain_find name xs of None \<Rightarrow> chain_find name ys | Some sp \<Rightarrow> Some sp)"
  by (induction xs) auto

lemma chain_find_None: "chain_find name c = None \<longleftrightarrow> name \<notin> sname ` set c"
  by (induction c) auto

lemma chain_scan_spec:
  "chain_scan name c = (pre, rest) \<Longrightarrow> c = pre @ rest \<and> name \<notin> sname ` set pre \<and>
     (case rest of [] \<Rightarrow> chain_find name c = None | sp # _ \<Rightarrow> sname sp = name \<and> chain_find name c = Some sp)"
proof (induction c arbitrary: pre)
  case (Cons sp c)
  then show ?case by (cases "chain_scan name c") (auto split: if_splits list.splits)
qed auto

text \<open>What a table maps a name to.\<close>

definition tab_look :: "'v sym_tabent_t \<Rightarrow> bytes \<Rightarrow> ('v \<times> int) option" where
  "tab_look tp name = map_option (\<lambda>sp. (content sp, arg sp)) (chain_find name (hash tp name))"

definition tab_inv :: "'v sym_tabent_t \<Rightarrow> bool" where
  "tab_inv tp \<longleftrightarrow> 0 < hash_size tp \<and> length (hash_table tp) = hash_size tp \<and>
     (\<forall>c \<in> set (hash_table tp). distinct (map sname c))"

lemma hashIndex_less: "tab_inv tp \<Longrightarrow> hashIndex tp name < length (hash_table tp)"
  by (simp add: tab_inv_def hashIndex_def)

lemma tab_inv_upd:
  assumes "tab_inv tp" "distinct (map sname c)"
  shows "tab_inv (tp\<lparr>hash_table := (hash_table tp)[i := c]\<rparr>)"
  using assms set_update_subset_insert [of "hash_table tp" i c] by (auto simp: tab_inv_def)

text \<open>Replacing the chain of \<open>name\<close> changes the lookup of the names with its index only.\<close>

lemma tab_look_upd:
  assumes "tab_inv tp" "\<And>m. m \<noteq> name \<Longrightarrow> chain_find m c = chain_find m (hash_table tp ! hashIndex tp name)"
  shows "tab_look (tp\<lparr>hash_table := (hash_table tp)[hashIndex tp name := c]\<rparr>) m =
    (if m = name then map_option (\<lambda>sp. (content sp, arg sp)) (chain_find name c) else tab_look tp m)"
proof -
  have h: "hashIndex (tp\<lparr>hash_table := t\<rparr>) k = hashIndex tp k" for t k by (simp add: hashIndex_def)
  show ?thesis
    using assms(2) [of m] hashIndex_less [OF assms(1)] by (auto simp: tab_look_def hash_def h nth_update)
qed

lemma distinct_chain: "tab_inv tp \<Longrightarrow> distinct (map sname (hash_table tp ! hashIndex tp name))"
  using hashIndex_less [of tp name] by (auto simp: tab_inv_def)

lemma tab_enter_correct:
  assumes inv: "tab_inv tp" and e: "tab_enter mem tp name v a = (r, tp')"
  shows "tab_inv tp' \<and>
    (case r of None \<Rightarrow> tp' = tp \<and> \<not> mem \<and> tab_look tp name = None
     | Some sp \<Rightarrow> sp = \<lparr>sname = name, content = v, arg = a\<rparr> \<and> tab_look tp' = (tab_look tp)(name \<mapsto> (v, a)))"
proof -
  let ?c = "hash_table tp ! hashIndex tp name" and ?new = "\<lparr>sname = name, content = v, arg = a\<rparr>"
  note d = distinct_chain [OF inv, of name]
  obtain pre rest where s: "chain_scan name ?c = (pre, rest)" by (cases "chain_scan name ?c")
  note sp = chain_scan_spec [OF s]
  show ?thesis
  proof (cases rest)
    case Nil
    then have n: "chain_find name ?c = None" "name \<notin> sname ` set ?c" using sp by (auto simp: chain_find_None)
    have t: "tab_enter mem tp name v a = (if \<not> mem then (None, tp)
        else (Some ?new, tp\<lparr>hash_table := (hash_table tp)[hashIndex tp name := ?c @ [?new]]\<rparr>))"
      using s Nil by (cases "?c = []") (simp_all add: tab_enter_def Let_def)
    have "tab_look (tp\<lparr>hash_table := (hash_table tp)[hashIndex tp name := ?c @ [?new]]\<rparr>) =
      (tab_look tp)(name \<mapsto> (v, a))"
      using tab_look_upd [OF inv, of name "?c @ [?new]"] n(1)
      by (auto simp: fun_eq_iff chain_find_append split: option.split)
    moreover have "tab_inv (tp\<lparr>hash_table := (hash_table tp)[hashIndex tp name := ?c @ [?new]]\<rparr>)"
      using tab_inv_upd [OF inv] d n(2) by auto
    ultimately show ?thesis using t e inv n(1) by (auto simp: tab_look_def hash_def split: if_splits)
  next
    case (Cons x forw)
    let ?c' = "pre @ x\<lparr>content := v, arg := a\<rparr> # forw"
    have c: "?c = pre @ x # forw" "sname x = name" "name \<notin> sname ` set pre" using sp Cons by auto
    then have x: "x\<lparr>content := v, arg := a\<rparr> = ?new" by (cases x) simp
    have t: "tab_enter mem tp name v a =
        (Some ?new, tp\<lparr>hash_table := (hash_table tp)[hashIndex tp name := ?c']\<rparr>)"
      using s Cons c(1) x by (simp add: tab_enter_def Let_def)
    have "tab_look (tp\<lparr>hash_table := (hash_table tp)[hashIndex tp name := ?c']\<rparr>) =
      (tab_look tp)(name \<mapsto> (v, a))"
      using tab_look_upd [OF inv, of name ?c'] c chain_find_None [of name pre]
      by (auto simp: fun_eq_iff chain_find_append split: option.split)
    moreover have "tab_inv (tp\<lparr>hash_table := (hash_table tp)[hashIndex tp name := ?c']\<rparr>)"
      using tab_inv_upd [OF inv, of ?c'] d c by auto
    ultimately show ?thesis using t e by auto
  qed
qed


lemma tab_delete_correct:
  assumes inv: "tab_inv tp" and e: "tab_delete tp name = (r, tp')"
  shows "tab_inv tp' \<and> tab_look tp' = (tab_look tp)(name := None) \<and>
    r = (if tab_look tp name = None then - 1 else 0)"
proof -
  let ?c = "hash_table tp ! hashIndex tp name"
  note d = distinct_chain [OF inv, of name]
  obtain pre rest where s: "chain_scan name ?c = (pre, rest)" by (cases "chain_scan name ?c")
  note sp = chain_scan_spec [OF s]
  show ?thesis
  proof (cases rest)
    case Nil
    then show ?thesis using e s sp inv
      by (auto simp: tab_delete_def Let_def tab_look_def hash_def fun_eq_iff)
  next
    case (Cons x forw)
    have c: "?c = pre @ x # forw" "sname x = name" "name \<notin> sname ` set pre" "chain_find name ?c = Some x"
      using sp Cons by auto
    have f: "name \<notin> sname ` set forw" using d c by auto
    have "tab_look (tp\<lparr>hash_table := (hash_table tp)[hashIndex tp name := pre @ forw]\<rparr>) =
      (tab_look tp)(name := None)"
      using tab_look_upd [OF inv, of name "pre @ forw"] c(1-3) f chain_find_None [of name pre] chain_find_None [of name forw]
      by (auto simp: fun_eq_iff chain_find_append split: option.split)
    moreover have "tab_inv (tp\<lparr>hash_table := (hash_table tp)[hashIndex tp name := pre @ forw]\<rparr>)"
      using tab_inv_upd [OF inv, of "pre @ forw"] d c(1) by auto
    moreover have "tab_look tp name \<noteq> None" using c(4) by (simp add: tab_look_def hash_def)
    ultimately show ?thesis using e s Cons by (auto simp: tab_delete_def Let_def)
  qed
qed

section \<open>All tables\<close>

definition sym_inv :: "'v sym_state \<Rightarrow> bool" where
  "sym_inv st \<longleftrightarrow> hmap_inv (sym st) \<and>
     (\<forall>h tp. entry_of (sym st) h = Some tp \<longrightarrow> tab_inv tp \<and> int h < symMax st)"

text \<open>What a lookup by descriptor and name finds.\<close>

definition sym_view :: "'v sym_state \<Rightarrow> int \<Rightarrow> bytes \<Rightarrow> ('v \<times> int) option" where
  "sym_view st sd name =
     (case symLookup st sd name of Some (Some sp) \<Rightarrow> Some (content sp, arg sp) | _ \<Rightarrow> None)"

lemma sym_view_eq:
  "sym_inv st \<Longrightarrow> sym_view st sd name =
     (if 0 \<le> sd \<and> name \<noteq> [] then (case entry_of (sym st) (nat sd) of None \<Rightarrow> None | Some tp \<Rightarrow> tab_look tp name) else None)"
proof -
  assume inv: "sym_inv st"
  show ?thesis
  proof (cases "0 \<le> sd \<and> name \<noteq> [] \<and> entry_of (sym st) (nat sd) \<noteq> None")
    case True
    then obtain tp where tp: "entry_of (sym st) (nat sd) = Some tp" by auto
    then have "int (nat sd) < symMax st" using inv unfolding sym_inv_def by blast
    then have "sd_ok st sd" using True by (simp add: sd_ok_def)
    moreover obtain pre rest where s: "chain_scan name (hash tp name) = (pre, rest)"
      by (cases "chain_scan name (hash tp name)")
    ultimately show ?thesis using True tp chain_scan_spec [OF s]
      by (auto simp: sym_view_def symLookup_def tab_of_def tab_look_def split: list.splits)
  qed (auto simp: sym_view_def symLookup_def tab_of_def sd_ok_def split: option.split)
qed

lemma entry_of_put:
  assumes "entry_of (sym st) (nat sd) = Some tp0"
  shows "entry_of (sym (put_tab st sd tp)) = (entry_of (sym st))(nat sd \<mapsto> tp)"
    and "hmap_inv (sym st) \<Longrightarrow> hmap_inv (sym (put_tab st sd tp))"
    and "symMax (put_tab st sd tp) = symMax st"
proof -
  obtain mp where mp: "sym st = Some mp" "nat sd < length (slots mp)" "slots mp ! nat sd = Some tp0"
    using assms by (auto simp: entry_of_def split: option.splits if_splits)
  show "entry_of (sym (put_tab st sd tp)) = (entry_of (sym st))(nat sd \<mapsto> tp)"
    using mp by (auto simp: put_tab_def entry_of_def fun_eq_iff nth_update)
  have "used_slots ((slots mp)[nat sd := Some tp]) = used_slots (slots mp)"
    using used_slots_update(2) [of "nat sd" "slots mp"] used_slots_update(1) [of "nat sd" "(slots mp)[nat sd := None]" tp] mp
    by auto
  then show "hmap_inv (sym st) \<Longrightarrow> hmap_inv (sym (put_tab st sd tp))"
    using mp by (simp add: put_tab_def hmap_inv_def)
qed (simp add: put_tab_def)

lemma sym_inv_put:
  assumes "sym_inv st" "entry_of (sym st) (nat sd) = Some tp0" "tab_inv tp"
  shows "sym_inv (put_tab st sd tp)"
proof -
  have "int (nat sd) < symMax st" using assms(1,2) unfolding sym_inv_def by blast
  then show ?thesis
    using assms(1,3) entry_of_put [OF assms(2), of tp] by (simp add: sym_inv_def)
qed

lemma sym_view_put:
  assumes "sym_inv st" "0 \<le> sd" "entry_of (sym st) (nat sd) = Some tp0" "tab_inv tp" "name \<noteq> []"
    and "tab_look tp = (tab_look tp0)(name := x)"
  shows "sym_view (put_tab st sd tp) sd' name' =
    (if sd' = sd \<and> name' = name then x else sym_view st sd' name')"
  using assms sym_view_eq [OF sym_inv_put [OF assms(1,3,4)]] sym_view_eq [OF assms(1)]
    entry_of_put(1) [OF assms(3), of tp]
  by (auto split: option.split)

















lemma calcPrime_pos: "0 < calcPrime n"
  by (induction n) auto

lemma symOpen_correct:
  assumes inv: "sym_inv st" and o: "symOpen True True True n st = Some (sd, st')"
  shows "0 \<le> sd \<and> entry_of (sym st) (nat sd) = None \<and> sym_inv st' \<and>
    entry_of (sym st') = (entry_of (sym st))
      (nat sd \<mapsto> \<lparr>hash_size = calcPrime n, hash_table = replicate (calcPrime n) []\<rparr>)"
proof -
  let ?tp = "\<lparr>hash_size = calcPrime n, hash_table = replicate (calcPrime n) []\<rparr> :: 'a sym_tabent_t"
  obtain h map1 where h: "hAlloc True (sym st) = (h, map1)" by (cases "hAlloc True (sym st)")
  have h0: "0 \<le> h" using h by (auto simp: hAlloc_def Let_def split: option.splits if_splits)
  have hm: "hmap_inv (sym st)" using inv by (simp add: sym_inv_def)
  obtain mp where mp: "map1 = Some mp" "nat h < length (slots mp)" "slots mp ! nat h = None"
    "length (slots mp) = H_LEN mp" "16 \<le> H_LEN mp" "H_USED mp = Suc (used_slots (slots mp))"
    "entry_of map1 = entry_of (sym st)"
    using hAlloc_correct [OF hm h h0] by blast
  have r: "sd = h" "sym st' = Some (mp\<lparr>slots := (slots mp)[nat h := Some ?tp]\<rparr>)"
    "symMax st' = max (symMax st) (h + 1)"
    using o h h0 mp(1) by (auto simp: symOpen_def Let_def split: if_splits)
  have e: "entry_of (sym st') = (entry_of map1)(nat h \<mapsto> ?tp)"
    using r(2) mp(1,2) by (auto simp: entry_of_def fun_eq_iff nth_update)
  have "hmap_inv (sym st')" using r(2) mp by (simp add: hmap_inv_def used_slots_update(1))
  moreover have "tab_inv ?tp" using calcPrime_pos [of n] by (simp add: tab_inv_def)
  moreover have "entry_of map1 (nat h) = None" using mp(1-3) by (simp add: entry_of_def)
  ultimately show ?thesis
    using inv e r(1,3) h0 mp(7) by (fastforce simp: sym_inv_def)
qed

section \<open>Traversal visits every symbol once\<close>

fun collect :: "nat \<Rightarrow> 'v sym_t list \<Rightarrow> int \<Rightarrow> 'v sym_state \<Rightarrow> 'v sym_t list" where
  "collect 0 oob sd st = []"
| "collect (Suc n) oob sd st =
     (case symNext oob sd st of Some (Some sp, st) \<Rightarrow> sp # collect n oob sd st | _ \<Rightarrow> [])"

text \<open>The loop of a caller: \<open>symFirst\<close>, then \<open>symNext\<close> until it returns null, at most \<open>n\<close> times.\<close>

definition traverse :: "nat \<Rightarrow> 'v sym_t list \<Rightarrow> int \<Rightarrow> 'v sym_state \<Rightarrow> 'v sym_t list" where
  "traverse n oob sd st =
     (case symFirst oob sd st of Some (Some sp, st) \<Rightarrow> sp # collect n oob sd st | _ \<Rightarrow> [])"

text \<open>The symbols still to come in a state of the iteration.\<close>

definition rest_from :: "'v sym_tabent_t \<Rightarrow> nat \<Rightarrow> 'v sym_t list \<Rightarrow> 'v sym_t list" where
  "rest_from tp i nxt = (if i < hash_size tp then nxt @ concat (drop (Suc i) (hash_table tp)) else [])"

lemma rest_from_advance:
  assumes "length (hash_table tp) = hash_size tp" "i < hash_size tp"
  shows "concat (drop (Suc i) (hash_table tp)) = rest_from tp (Suc i) (chain_at oob tp (Suc i))"
  using assms by (cases "Suc i < hash_size tp")
    (auto simp: rest_from_def chain_at_def Cons_nth_drop_Suc [symmetric])

lemma next_loop_correct:
  assumes "length (hash_table tp) = hash_size tp"
  shows "\<exists>k nxt. next_loop oob tp i st =
    (case rest_from tp i (next_sym st) of [] \<Rightarrow> (None, st\<lparr>next_sym := nxt\<rparr>)
     | sp # r \<Rightarrow> (Some sp, st\<lparr>htIndex := k, next_sym := nxt\<rparr>)) \<and>
    rest_from tp k nxt = tl (rest_from tp i (next_sym st))"
  using assms
proof (induction "hash_size tp - i" arbitrary: i st)
  case 0
  then show ?case
    by (subst next_loop.simps, intro exI [of _ "hash_size tp"] exI [of _ "next_sym st"])
      (auto simp: rest_from_def)
next
  case (Suc n)
  then have i: "i < hash_size tp" by simp
  note adv = rest_from_advance [OF assms i, of oob]
  show ?case
  proof (cases "next_sym st")
    case Nil
    have e: "next_loop oob tp i st = next_loop oob tp (i + 1) (st\<lparr>next_sym := chain_at oob tp (i + 1)\<rparr>)"
      using i Nil by (subst next_loop.simps) simp
    have r: "rest_from tp i [] = rest_from tp (Suc i) (chain_at oob tp (Suc i))"
      using i adv by (simp add: rest_from_def)
    have "n = hash_size tp - (i + 1)" using Suc(2) by simp
    from Suc(1) [OF this assms, of "st\<lparr>next_sym := chain_at oob tp (i + 1)\<rparr>"]
    show ?thesis unfolding e Nil r
      by (elim exE, intro exI) (cases "rest_from tp (Suc i) (chain_at oob tp (Suc i))"; simp)
  next
    case (Cons sp forw)
    then have e: "next_loop oob tp i st = (Some sp, if forw = [] then
        st\<lparr>htIndex := i + 1, next_sym := chain_at oob tp (i + 1)\<rparr> else st\<lparr>htIndex := i, next_sym := forw\<rparr>)"
      using i by (subst next_loop.simps) simp
    have r: "rest_from tp i (next_sym st) = sp # forw @ rest_from tp (Suc i) (chain_at oob tp (Suc i))"
      using i adv Cons by (simp add: rest_from_def)
    show ?thesis
    proof (cases "forw = []")
      case True
      then show ?thesis unfolding e r by (intro exI [of _ "i + 1"] exI [of _ "chain_at oob tp (i + 1)"]) simp
    next
      case False
      then show ?thesis unfolding e r using i adv
        by (intro exI [of _ i] exI [of _ forw]) (simp add: rest_from_def)
    qed
  qed
qed

lemma first_loop_next_loop:
  "first_loop oob tp i st =
     (case next_loop oob tp i (st\<lparr>next_sym := chain_at oob tp i\<rparr>) of
        (None, _) \<Rightarrow> (None, st) | (Some sp, st') \<Rightarrow> (Some sp, st'))"
proof (induction "hash_size tp - i" arbitrary: i)
  case 0
  then show ?case by (subst first_loop.simps, subst next_loop.simps) simp
next
  case (Suc n)
  then have i: "i < hash_size tp" "n = hash_size tp - (i + 1)" by simp_all
  show ?case
  proof (cases "hash_table tp ! i")
    case Nil
    then show ?thesis using i Suc(1) [OF i(2)]
      by (subst first_loop.simps, subst next_loop.simps) (simp add: chain_at_def)
  next
    case (Cons sp forw)
    then show ?thesis using i
      by (subst first_loop.simps, subst next_loop.simps) (simp add: chain_at_def)
  qed
qed

lemma tab_of_iter [simp]:
  "tab_of (st\<lparr>htIndex := k, next_sym := nxt\<rparr>) sd = tab_of st sd"
  "sd_ok (st\<lparr>htIndex := k, next_sym := nxt\<rparr>) sd = sd_ok st sd"
  by (simp_all add: tab_of_def sd_ok_def)

lemma collect_rest:
  assumes "sd_ok st sd" "tab_of st sd = Some tp" "length (hash_table tp) = hash_size tp"
    and "length (rest_from tp (htIndex st) (next_sym st)) \<le> n"
  shows "collect n oob sd st = rest_from tp (htIndex st) (next_sym st)"
  using assms
proof (induction n arbitrary: st)
  case (Suc n)
  obtain k nxt where e: "next_loop oob tp (htIndex st) st =
      (case rest_from tp (htIndex st) (next_sym st) of [] \<Rightarrow> (None, st\<lparr>next_sym := nxt\<rparr>)
       | sp # r \<Rightarrow> (Some sp, st\<lparr>htIndex := k, next_sym := nxt\<rparr>))"
    and r: "rest_from tp k nxt = tl (rest_from tp (htIndex st) (next_sym st))"
    using next_loop_correct [OF Suc.prems(3), of oob "htIndex st" st] by blast
  show ?case
  proof (cases "rest_from tp (htIndex st) (next_sym st)")
    case Nil
    then show ?thesis using Suc.prems(1,2) e by (simp add: symNext_def)
  next
    case (Cons sp rr)
    have "collect n oob sd (st\<lparr>htIndex := k, next_sym := nxt\<rparr>) = rr"
      using Suc.IH [of "st\<lparr>htIndex := k, next_sym := nxt\<rparr>"] Suc.prems r Cons by simp
    then show ?thesis using Suc.prems(1,2) e Cons by (simp add: symNext_def)
  qed
qed simp

lemma traverse_all:
  assumes "sd_ok st sd" "tab_of st sd = Some tp" "length (hash_table tp) = hash_size tp"
    and "length (concat (hash_table tp)) \<le> n"
  shows "traverse n oob sd st = concat (hash_table tp)"
proof -
  let ?st = "st\<lparr>next_sym := chain_at oob tp 0\<rparr>"
  have r0: "rest_from tp 0 (next_sym ?st) = concat (hash_table tp)"
    using assms(3) by (cases "hash_table tp") (simp_all add: rest_from_def chain_at_def)
  obtain k nxt where e: "next_loop oob tp 0 ?st =
      (case concat (hash_table tp) of [] \<Rightarrow> (None, ?st\<lparr>next_sym := nxt\<rparr>)
       | sp # r \<Rightarrow> (Some sp, ?st\<lparr>htIndex := k, next_sym := nxt\<rparr>))"
    and r: "rest_from tp k nxt = tl (concat (hash_table tp))"
    using next_loop_correct [OF assms(3), of oob 0 ?st] unfolding r0 by blast
  show ?thesis
  proof (cases "concat (hash_table tp)")
    case Nil
    then show ?thesis using assms(1,2) e unfolding Nil
      by (simp add: traverse_def symFirst_def first_loop_next_loop)
  next
    case (Cons sp rr)
    have "collect n oob sd (st\<lparr>htIndex := k, next_sym := nxt\<rparr>) = rr"
      using collect_rest [of "st\<lparr>htIndex := k, next_sym := nxt\<rparr>" sd tp n oob] assms r Cons by simp
    then show ?thesis using assms(1,2) e Cons by (simp add: traverse_def symFirst_def first_loop_next_loop)
  qed
qed

section \<open>The size of a table\<close>

lemma isPrime_loop_iff: "isPrime_loop i m n \<longleftrightarrow> (\<forall>d. i \<le> d \<and> d \<le> m \<longrightarrow> \<not> d dvd n)"
proof (induction i m n rule: isPrime_loop.induct)
  case (1 i m n)
  show ?case
  proof (cases "i \<le> m")
    case True
    have "(\<forall>d. i \<le> d \<and> d \<le> m \<longrightarrow> \<not> d dvd n) \<longleftrightarrow> \<not> i dvd n \<and> (\<forall>d. i + 1 \<le> d \<and> d \<le> m \<longrightarrow> \<not> d dvd n)"
      using True by (metis Suc_eq_plus1 Suc_leI le_neq_implies_less Suc_leD order_refl)
    then show ?thesis using 1 True
      by (subst isPrime_loop.simps) (auto simp: dvd_eq_mod_eq_0)
  qed (subst isPrime_loop.simps, auto)
qed

text \<open>No divisor but 1 and the number itself.\<close>

definition prime_or_one :: "nat \<Rightarrow> bool" where
  "prime_or_one n \<longleftrightarrow> 0 < n \<and> (\<forall>d. d dvd n \<longrightarrow> d = 1 \<or> d = n)"

lemma isPrime_correct:
  assumes "0 < n"
  shows "isPrime n \<longleftrightarrow> prime_or_one n"
proof -
  have "d \<le> n div 2" if d: "d dvd n" "d \<noteq> n" for d
  proof -
    obtain k where k: "n = d * k" using d(1) by (rule dvdE)
    then have "2 \<le> k" using d(2) assms by (cases k) (auto simp: Suc_le_eq)
    then have "d * 2 \<le> n" using k by (metis mult_le_mono2)
    then show ?thesis by linarith
  qed
  moreover have "d \<noteq> n \<and> d \<noteq> 1" if "2 \<le> d" "d \<le> n div 2" for d using that assms by auto
  moreover have "2 \<le> d" if "d dvd n" "d \<noteq> 1" for d using that assms by (cases d) (auto simp: Suc_le_eq)
  ultimately show ?thesis unfolding isPrime_def Let_def isPrime_loop_iff prime_or_one_def using assms by blast
qed

lemma calcPrime_correct:
  "0 < n \<Longrightarrow> prime_or_one (calcPrime n) \<and> calcPrime n \<le> n \<and> (\<forall>p \<le> n. prime_or_one p \<longrightarrow> p \<le> calcPrime n)"
proof (induction n)
  case (Suc n)
  show ?case
  proof (cases "isPrime (Suc n)")
    case True
    then show ?thesis using isPrime_correct [of "Suc n"] by simp
  next
    case False
    have "isPrime 1" by (simp add: isPrime_def isPrime_loop_iff)
    then have "0 < n" using False by (cases n) auto
    then show ?thesis using Suc.IH False isPrime_correct [of "Suc n"] by (auto simp: le_Suc_eq)
  qed
qed simp

section \<open>Properties\<close>


text \<open>
  Opening a table with memory available gives a descriptor no open table has, for a new
  empty table, and changes no lookup in any other.
\<close>

theorem symOpen_fresh:
  assumes "sym_inv st" "symOpen True True True n st = Some (sd, st')"
  shows "sym_inv st' \<and> 0 \<le> sd \<and> tab_of st sd = None \<and> tab_of st' sd \<noteq> None \<and>
    sym_view st' sd' name = sym_view st sd' name"
proof -
  note o = symOpen_correct [OF assms]
  have i: "sym_inv st'" using o by simp
  show ?thesis using o sym_view_eq [OF assms(1), of sd' name] sym_view_eq [OF i, of sd' name]
    by (auto simp: tab_of_def tab_look_def hash_def hashIndex_def calcPrime_pos split: option.split)
qed

theorem symOpen_fresh_witness:
  "\<exists>sd st'. symOpen True True True 59 \<lparr>sym = None, symMax = 0, symOpenCount = 1, htIndex = 0, next_sym = []\<rparr>
       = Some (sd, st') \<and> sym_view (st' :: nat sym_state) sd [1] = None"
proof -
  let ?st = "\<lparr>sym = None, symMax = 0, symOpenCount = 1, htIndex = 0, next_sym = []\<rparr> :: nat sym_state"
  have inv: "sym_inv ?st" by (simp add: sym_inv_def hmap_inv_def entry_of_def)
  obtain sd st' where o: "symOpen True True True 59 ?st = Some (sd, st')"
    by (cases "symOpen True True True 59 ?st") (auto simp: symOpen_def hAlloc_def Let_def split: prod.splits)
  have "sym_view ?st sd [1] = None" by (simp add: sym_view_eq [OF inv] entry_of_def)
  then show ?thesis using symOpen_fresh [OF inv o] o by simp
qed

text \<open>
  The tables are independent and hold what was entered. After a successful \<open>symEnter\<close> of a
  non-empty name into an open table, looking that name up in that table finds the new value and
  argument, and every other lookup, in that table or another, finds what it found before.
\<close>

theorem symEnter_symLookup:
  assumes "sym_inv st" "name \<noteq> []" "symEnter mem st sd name v a = Some (Some sp, st')"
  shows "sym_inv st' \<and> sym_view st' sd' name' =
    (if sd' = sd \<and> name' = name then Some (v, a) else sym_view st sd' name')"
proof -
  obtain tp tp' where tp: "0 \<le> sd" "entry_of (sym st) (nat sd) = Some tp"
    "tab_enter mem tp name v a = (Some sp, tp')" "st' = put_tab st sd tp'"
    using assms(3) by (auto simp: symEnter_def sd_ok_def tab_of_def Let_def split: bool.splits option.splits prod.splits)
  have inv: "tab_inv tp" using assms(1) tp(2) unfolding sym_inv_def by blast
  note e = tab_enter_correct [OF inv tp(3)]
  have t: "tab_inv tp'" "tab_look tp' = (tab_look tp)(name := Some (v, a))" using e by auto
  show ?thesis
    using sym_inv_put [OF assms(1) tp(2) t(1)] sym_view_put [OF assms(1) tp(1,2) t(1) assms(2) t(2)] tp(4) by simp
qed

text \<open>An open table with no symbols, for the witnesses.\<close>

definition sym_sample :: "nat sym_state" where
  "sym_sample = \<lparr>sym = Some \<lparr>H_LEN = 16, H_USED = 1,
       slots = Some \<lparr>hash_size = 2, hash_table = [[], []]\<rparr> # replicate 15 None\<rparr>,
     symMax = 1, symOpenCount = 1, htIndex = 0, next_sym = []\<rparr>"

lemma entry_of_sample:
  "entry_of (sym sym_sample) h = (if h = 0 then Some \<lparr>hash_size = 2, hash_table = [[], []]\<rparr> else None)"
  by (cases h) (auto simp: sym_sample_def entry_of_def)


lemma symMax_sample: "symMax sym_sample = 1"
  by (simp add: sym_sample_def)

lemma sym_inv_sample: "sym_inv sym_sample"
  unfolding sym_inv_def
  by (auto simp: entry_of_sample tab_inv_def split: if_splits) (auto simp: sym_sample_def hmap_inv_def)


theorem symEnter_symLookup_witness:
  "\<exists>sp st'. symEnter True sym_sample 0 [0x61] 7 1 = Some (Some sp, st') \<and> sym_view st' 0 [0x61] = Some (7, 1)"
proof -
  let ?t = "\<lparr>hash_size = 2, hash_table = [[], []]\<rparr> :: nat sym_tabent_t"
  obtain r t' where t: "tab_enter True ?t [0x61] 7 1 = (r, t')" by (cases "tab_enter True ?t [0x61] 7 1")
  have "tab_inv ?t" by (simp add: tab_inv_def)
  from tab_enter_correct [OF this t] obtain sp where "r = Some sp" by (auto split: option.splits)
  then have "symEnter True sym_sample 0 [0x61] 7 1 = Some (Some sp, put_tab sym_sample 0 t')"
    using t by (simp add: symEnter_def sd_ok_def tab_of_def entry_of_sample symMax_sample)
  then show ?thesis using symEnter_symLookup [OF sym_inv_sample] by force
qed

text \<open>
  \<open>symDelete\<close> removes exactly the symbol named and reports -1 when there is none.
\<close>

theorem symDelete_symLookup:
  assumes "sym_inv st" "symDelete st sd name = Some (r, st')"
  shows "sym_inv st' \<and> r = (if sym_view st sd name = None then - 1 else 0) \<and>
    sym_view st' sd' name' = (if sd' = sd \<and> name' = name then None else sym_view st sd' name')"
proof -
  obtain tp tp' where tp: "0 \<le> sd" "entry_of (sym st) (nat sd) = Some tp" "name \<noteq> []"
    "tab_delete tp name = (r, tp')" "st' = put_tab st sd tp'"
    using assms(2) by (auto simp: symDelete_def sd_ok_def tab_of_def Let_def split: bool.splits option.splits prod.splits)
  have inv: "tab_inv tp" using assms(1) tp(2) unfolding sym_inv_def by blast
  note t = tab_delete_correct [OF inv tp(4)]
  show ?thesis
    using sym_inv_put [OF assms(1) tp(2)] sym_view_put [OF assms(1) tp(1,2) _ tp(3)] t tp
      sym_view_eq [OF assms(1), of sd name] by simp
qed

theorem symDelete_symLookup_witness:
  "\<exists>r st'. symDelete sym_sample 0 [0x61] = Some (r, st') \<and> r = - 1"
proof -
  obtain r st' where d: "symDelete sym_sample 0 [0x61] = Some (r, st')"
    by (cases "symDelete sym_sample 0 [0x61]")
      (auto simp: symDelete_def sd_ok_def tab_of_def entry_of_sample symMax_sample split: prod.splits)
  have "sym_view sym_sample 0 [0x61] = None"
    by (simp add: sym_view_eq [OF sym_inv_sample] entry_of_sample tab_look_def hash_def hashIndex_def)
  then show ?thesis using symDelete_symLookup [OF sym_inv_sample d] d by simp
qed

text \<open>
  A caller that steps through a table with \<open>symFirst\<close> and \<open>symNext\<close> until null sees every
  symbol exactly once, chain by chain, whatever lies behind the end of the chain array, which
  the two functions read.
\<close>

theorem sym_traversal:
  assumes "sd_ok st sd" "tab_of st sd = Some tp" "tab_inv tp" "length (concat (hash_table tp)) \<le> n"
  shows "traverse n oob sd st = concat (hash_table tp)"
  by (rule traverse_all [OF assms(1,2) _ assms(4)]) (use assms(3) in \<open>simp add: tab_inv_def\<close>)

theorem sym_traversal_witness:
  "traverse 5 [\<lparr>sname = [9], content = 9, arg = 9\<rparr>] 0 sym_sample = []"
  using sym_traversal [of sym_sample 0 "\<lparr>hash_size = 2, hash_table = [[], []]\<rparr>" 5
      "[\<lparr>sname = [9], content = 9, arg = 9\<rparr>]"]
  by (simp add: tab_of_def entry_of_sample tab_inv_def) (simp add: sd_ok_def sym_sample_def)

text \<open>
  The size chosen for a table is the largest number up to and including the requested size
  that has no proper divisor; a size that is prime is kept (the comment says "smaller than").
\<close>

theorem calcPrime_largest:
  assumes "0 < n"
  shows "prime_or_one (calcPrime n) \<and> calcPrime n \<le> n \<and> (\<forall>p \<le> n. prime_or_one p \<longrightarrow> p \<le> calcPrime n)"
  by (rule calcPrime_correct [OF assms])

theorem calcPrime_largest_witness: "prime_or_one (calcPrime 59) \<and> calcPrime 59 \<le> 59"
  using calcPrime_largest [of 59] by simp

end
