(* ===== verification/Base64.thy ===== *)
theory Base64
  imports Prelude
begin

text \<open>
  Base64 in the web server, \<open>apps/WebServer/base64.c\<close>: the encoder \<open>websEncode64\<close>, the original
  decoder \<open>websDecode64\<close> and the decoder \<open>b64_decode\<close> that replaced it. Strings are byte lists
  that end at the first NUL. An output buffer is the list of bytes stored so far; the
  terminating NUL is not part of it.

  \<open>char\<close> is unsigned on the target, so the entries \<open>-1\<close> of the \<open>char\<close> table \<open>map64\<close> are read
  back as 255, while those of the \<open>int\<close> table \<open>b64_decode_table\<close> stay \<open>-1\<close>.
\<close>

section \<open>Tables\<close>

definition map64 :: bytes where
  "map64 =
    [0xFF, 0xFF, 0xFF, 0xFF, 0xFF, 0xFF, 0xFF, 0xFF, 0xFF, 0xFF, 0xFF, 0xFF, 0xFF, 0xFF, 0xFF, 0xFF,
     0xFF, 0xFF, 0xFF, 0xFF, 0xFF, 0xFF, 0xFF, 0xFF, 0xFF, 0xFF, 0xFF, 62, 0xFF, 0xFF, 0xFF, 63,
     0xFF, 0xFF, 0xFF, 0xFF, 0xFF, 0xFF, 0xFF, 0xFF, 0xFF, 0xFF, 0xFF, 0xFF, 0xFF, 0xFF, 0xFF, 0xFF,
     52, 53, 54, 55, 56, 57, 58, 59, 60, 61, 0xFF, 0xFF, 0xFF, 0xFF, 0xFF, 0xFF,
     0xFF, 0, 1, 2, 3, 4, 5, 6, 7, 8, 9, 10, 11, 12, 13, 14,
     15, 16, 17, 18, 19, 20, 21, 22, 23, 24, 25, 0xFF, 0xFF, 0xFF, 0xFF, 0xFF,
     0xFF, 26, 27, 28, 29, 30, 31, 32, 33, 34, 35, 36, 37, 38, 39, 40,
     41, 42, 43, 44, 45, 46, 47, 48, 49, 50, 51, 0xFF, 0xFF, 0xFF, 0xFF, 0xFF,
     0xFF, 0xFF, 0xFF, 0xFF, 0xFF, 0xFF, 0xFF, 0xFF, 0xFF, 0xFF, 0xFF, 0xFF, 0xFF, 0xFF, 0xFF, 0xFF,
     0xFF, 0xFF, 0xFF, 0xFF, 0xFF, 0xFF, 0xFF, 0xFF, 0xFF, 0xFF, 0xFF, 0xFF, 0xFF, 0xFF, 0xFF, 0xFF,
     0xFF, 0xFF, 0xFF, 0xFF, 0xFF, 0xFF, 0xFF, 0xFF, 0xFF, 0xFF, 0xFF, 0xFF, 0xFF, 0xFF, 0xFF, 0xFF,
     0xFF, 0xFF, 0xFF, 0xFF, 0xFF, 0xFF, 0xFF, 0xFF, 0xFF, 0xFF, 0xFF, 0xFF, 0xFF, 0xFF, 0xFF, 0xFF,
     0xFF, 0xFF, 0xFF, 0xFF, 0xFF, 0xFF, 0xFF, 0xFF, 0xFF, 0xFF, 0xFF, 0xFF, 0xFF, 0xFF, 0xFF, 0xFF,
     0xFF, 0xFF, 0xFF, 0xFF, 0xFF, 0xFF, 0xFF, 0xFF, 0xFF, 0xFF, 0xFF, 0xFF, 0xFF, 0xFF, 0xFF, 0xFF,
     0xFF, 0xFF, 0xFF, 0xFF, 0xFF, 0xFF, 0xFF, 0xFF, 0xFF, 0xFF, 0xFF, 0xFF, 0xFF, 0xFF, 0xFF, 0xFF,
     0xFF, 0xFF, 0xFF, 0xFF, 0xFF, 0xFF, 0xFF, 0xFF, 0xFF, 0xFF, 0xFF, 0xFF, 0xFF, 0xFF, 0xFF, 0xFF,
     0xFF, 0xFF, 0xFF, 0xFF, 0xFF, 0xFF, 0xFF, 0xFF, 0xFF, 0xFF, 0xFF, 0xFF, 0xFF, 0xFF, 0xFF, 0xFF,
     0xFF, 0xFF, 0xFF, 0xFF, 0xFF, 0xFF, 0xFF, 0xFF, 0xFF, 0xFF, 0xFF, 0xFF, 0xFF, 0xFF, 0xFF, 0xFF,
     0xFF, 0xFF, 0xFF, 0xFF, 0xFF, 0xFF, 0xFF, 0xFF, 0xFF, 0xFF, 0xFF, 0xFF, 0xFF, 0xFF, 0xFF, 0xFF,
     0xFF, 0xFF, 0xFF, 0xFF, 0xFF, 0xFF, 0xFF, 0xFF, 0xFF, 0xFF, 0xFF, 0xFF, 0xFF, 0xFF, 0xFF, 0xFF]"

definition alphabet64 :: bytes where
  "alphabet64 =
    [0x41, 0x42, 0x43, 0x44, 0x45, 0x46, 0x47, 0x48,
     0x49, 0x4A, 0x4B, 0x4C, 0x4D, 0x4E, 0x4F, 0x50,
     0x51, 0x52, 0x53, 0x54, 0x55, 0x56, 0x57, 0x58,
     0x59, 0x5A, 0x61, 0x62, 0x63, 0x64, 0x65, 0x66,
     0x67, 0x68, 0x69, 0x6A, 0x6B, 0x6C, 0x6D, 0x6E,
     0x6F, 0x70, 0x71, 0x72, 0x73, 0x74, 0x75, 0x76,
     0x77, 0x78, 0x79, 0x7A, 0x30, 0x31, 0x32, 0x33,
     0x34, 0x35, 0x36, 0x37, 0x38, 0x39, 0x2B, 0x2F]"

definition b64_decode_table :: "int list" where
  "b64_decode_table =
    [- 1, - 1, - 1, - 1, - 1, - 1, - 1, - 1, - 1, - 1, - 1, - 1, - 1, - 1, - 1, - 1,
     - 1, - 1, - 1, - 1, - 1, - 1, - 1, - 1, - 1, - 1, - 1, - 1, - 1, - 1, - 1, - 1,
     - 1, - 1, - 1, - 1, - 1, - 1, - 1, - 1, - 1, - 1, - 1, 62, - 1, - 1, - 1, 63,
     52, 53, 54, 55, 56, 57, 58, 59, 60, 61, - 1, - 1, - 1, - 1, - 1, - 1,
     - 1, 0, 1, 2, 3, 4, 5, 6, 7, 8, 9, 10, 11, 12, 13, 14,
     15, 16, 17, 18, 19, 20, 21, 22, 23, 24, 25, - 1, - 1, - 1, - 1, - 1,
     - 1, 26, 27, 28, 29, 30, 31, 32, 33, 34, 35, 36, 37, 38, 39, 40,
     41, 42, 43, 44, 45, 46, 47, 48, 49, 50, 51, - 1, - 1, - 1, - 1, - 1,
     - 1, - 1, - 1, - 1, - 1, - 1, - 1, - 1, - 1, - 1, - 1, - 1, - 1, - 1, - 1, - 1,
     - 1, - 1, - 1, - 1, - 1, - 1, - 1, - 1, - 1, - 1, - 1, - 1, - 1, - 1, - 1, - 1,
     - 1, - 1, - 1, - 1, - 1, - 1, - 1, - 1, - 1, - 1, - 1, - 1, - 1, - 1, - 1, - 1,
     - 1, - 1, - 1, - 1, - 1, - 1, - 1, - 1, - 1, - 1, - 1, - 1, - 1, - 1, - 1, - 1,
     - 1, - 1, - 1, - 1, - 1, - 1, - 1, - 1, - 1, - 1, - 1, - 1, - 1, - 1, - 1, - 1,
     - 1, - 1, - 1, - 1, - 1, - 1, - 1, - 1, - 1, - 1, - 1, - 1, - 1, - 1, - 1, - 1,
     - 1, - 1, - 1, - 1, - 1, - 1, - 1, - 1, - 1, - 1, - 1, - 1, - 1, - 1, - 1, - 1,
     - 1, - 1, - 1, - 1, - 1, - 1, - 1, - 1, - 1, - 1, - 1, - 1, - 1, - 1, - 1, - 1]"

section \<open>websDecode64\<close>

text \<open>
  The inner \<open>for\<close> loop: up to four letters into \<open>shiftbuf\<close>. \<open>None\<close> is the "Bad string" return;
  otherwise \<open>i\<close>, \<open>shiftbuf\<close> and the rest of the string.
\<close>

fun gather64 :: "nat \<Rightarrow> nat \<Rightarrow> u32 \<Rightarrow> bytes \<Rightarrow> (nat \<times> u32 \<times> bytes) option" where
  "gather64 i shift shiftbuf [] = Some (i, shiftbuf, [])"
| "gather64 i shift shiftbuf (ch # cp) =
     (if i < 4 \<and> ch \<noteq> 0 \<and> ch \<noteq> 0x3D then
        let c = uint (map64 ! unat (ch AND 0xff))
        in if c = - 1 then None
           else gather64 (i + 1) (shift - 6) (shiftbuf OR push_bit shift (of_int c)) cp
      else Some (i, shiftbuf, ch # cp))"

lemma gather64_length:
  "gather64 i shift sb cp = Some (i', sb', cp') \<Longrightarrow> length cp' \<le> length cp"
  by (induction i shift sb cp rule: gather64.induct) (auto simp: Let_def split: if_splits)

lemma gather64_progress:
  "gather64 0 18 0 (ch # cp) = Some (i, sb, cp') \<Longrightarrow> ch \<noteq> 0 \<Longrightarrow> ch \<noteq> 0x3D \<Longrightarrow> length cp' < Suc (length cp)"
  by (auto simp: Let_def dest: gather64_length split: if_splits)

text \<open>
  The outer loop. The result is the return value and the string left in \<open>outbuf\<close>; \<open>Bad string\<close>
  and "String too big" return -1.
\<close>

function decode64_loop :: "nat \<Rightarrow> bytes \<Rightarrow> bytes \<Rightarrow> int \<times> bytes" where
  "decode64_loop outlen op cp =
     (case cp of
        [] \<Rightarrow> (0, op)
      | ch # _ \<Rightarrow>
          if ch = 0 \<or> ch = 0x3D then (0, op)
          else case gather64 0 18 0 cp of
                 None \<Rightarrow> (- 1, op)
               | Some (i, shiftbuf, cp') \<Rightarrow>
                   let i = i - 1
                   in if length op + i \<ge> outlen then (- 1, map (\<lambda>c. of_char c) ''String too big'')
                      else decode64_loop outlen
                             (op @ map (\<lambda>j. ucast (drop_bit (8 * (2 - j)) shiftbuf AND 0xff)) [0..<i]) cp')"
  by pat_completeness auto

termination
  by (relation "measure (\<lambda>(_, _, cp). length cp)") (auto dest: gather64_progress simp del: gather64.simps)

declare decode64_loop.simps [simp del]

definition websDecode64 :: "nat \<Rightarrow> bytes \<Rightarrow> int \<times> bytes" where
  "websDecode64 outlen str = decode64_loop outlen [] str"

section \<open>b64\_decode\<close>

text \<open>One letter with table value \<open>d\<close>: the bytes stored so far, the phase and \<open>prev_d\<close>.\<close>

definition store :: "nat \<Rightarrow> bytes \<Rightarrow> u8 \<Rightarrow> bytes" where
  "store sz space c = (if length space < sz then space @ [c] else space)"

definition b64_letter :: "nat \<Rightarrow> u32 \<Rightarrow> bytes \<times> nat \<times> u32 \<Rightarrow> bytes \<times> nat \<times> u32" where
  "b64_letter sz d st = (case st of (space, phase, prev_d) \<Rightarrow>
     (if phase = 0 then (space, 1, d)
      else if phase = 1 then
        (store sz space (ucast (push_bit 2 prev_d OR drop_bit 4 (d AND 0x30))), 2, d)
      else if phase = 2 then
        (store sz space (ucast (push_bit 4 (prev_d AND 0xf) OR drop_bit 2 (d AND 0x3c))), 3, d)
      else (store sz space (ucast (push_bit 6 (prev_d AND 0x03) OR d)), 0, d)))"

fun b64_loop :: "nat \<Rightarrow> bytes \<times> nat \<times> u32 \<Rightarrow> bytes \<Rightarrow> bytes" where
  "b64_loop sz st [] = fst st"
| "b64_loop sz st (c # cp) =
     (if c = 0 then fst st
      else let d = b64_decode_table ! unat c
           in b64_loop sz (if d \<noteq> - 1 then b64_letter sz (of_int d) st else st) cp)"

definition b64_decode :: "bytes \<Rightarrow> nat \<Rightarrow> bytes" where
  "b64_decode str sz = b64_loop sz ([], 0, 0) str"

section \<open>websEncode64\<close>

text \<open>Up to three characters into \<open>shiftbuf\<close>, from \<open>j = 2\<close> downwards.\<close>

fun gather8 :: "nat \<Rightarrow> u32 \<Rightarrow> bytes \<Rightarrow> u32" where
  "gather8 n shiftbuf [] = shiftbuf"
| "gather8 n shiftbuf (ch # cp) =
     (if n = 0 then shiftbuf
      else gather8 (n - 1) (shiftbuf OR push_bit ((n - 1) * 8) (ucast (ch AND 0xff))) cp)"

text \<open>The letters: \<open>k\<close> of them, while the output is shorter than \<open>outlen\<close>.\<close>

fun letters :: "nat \<Rightarrow> nat \<Rightarrow> nat \<Rightarrow> u32 \<Rightarrow> bytes \<Rightarrow> bytes" where
  "letters outlen 0 shift shiftbuf op = op"
| "letters outlen (Suc k) shift shiftbuf op =
     (if length op < outlen then
        letters outlen k (shift - 6) shiftbuf
          (op @ [alphabet64 ! unat (drop_bit shift shiftbuf AND 0x3f)])
      else op)"

text \<open>
  The outer loop on the characters before the terminator. With \<open>n\<close> characters taken, \<open>j\<close> is
  \<open>3 - n\<close> after the increment, \<open>n + 1\<close> letters follow and \<open>j\<close> pads, which are not bounded.
\<close>

function encode64_loop :: "nat \<Rightarrow> bytes \<Rightarrow> bytes \<Rightarrow> bytes" where
  "encode64_loop outlen op cp =
     (if cp = [] then op
      else let n = min 3 (length cp);
               shiftbuf = gather8 3 0 (take 3 cp);
               j = 3 - n;
               op = letters outlen (4 - j) 18 shiftbuf op;
               op = op @ replicate j 0x3D
           in encode64_loop outlen op (drop n cp))"
  by pat_completeness auto

termination
  by (relation "measure (\<lambda>(_, _, cp). length cp)") auto

declare encode64_loop.simps [simp del]

definition websEncode64 :: "bytes \<Rightarrow> nat \<Rightarrow> bytes" where
  "websEncode64 str outlen = encode64_loop outlen [] (cstr str)"

section \<open>Letters\<close>

lemma decode_alphabet:
  "k < 64 \<Longrightarrow> b64_decode_table ! unat (alphabet64 ! k) = int k \<and> alphabet64 ! k \<noteq> 0"
proof -
  have "\<forall>k \<in> set [0..<64]. b64_decode_table ! unat (alphabet64 ! k) = int k \<and> alphabet64 ! k \<noteq> 0"
    by (simp add: b64_decode_table_def alphabet64_def upt_rec)
  then show "k < 64 \<Longrightarrow> ?thesis" by simp
qed

lemma decode_pad: "b64_decode_table ! unat (0x3D::u8) = - 1"
  by (simp add: b64_decode_table_def)

text \<open>The three bytes of a group and their four 6-bit pieces.\<close>

definition group_word :: "u8 \<Rightarrow> u8 \<Rightarrow> u8 \<Rightarrow> u32" where
  "group_word a b c = push_bit 16 (ucast a) OR push_bit 8 (ucast b) OR ucast c"

definition piece :: "nat \<Rightarrow> u32 \<Rightarrow> u32" where
  "piece k w = drop_bit (18 - 6 * k) w AND 0x3f"

lemma piece_less: "unat (piece k w) < 64"
proof -
  have "piece k w \<le> 0x3f" unfolding piece_def by (rule word_and_le1)
  then have "unat (piece k w) \<le> unat (0x3f::u32)" by (simp only: word_le_nat_alt)
  then show ?thesis by simp
qed

lemma masks:
  "(0x3f::u32) = mask 6" "(0xf::u32) = mask 4" "(3::u32) = mask 2"
  "(0x30::u32) = push_bit 4 (mask 2)" "(0x3c::u32) = push_bit 2 (mask 4)"
  by (simp_all add: mask_eq_exp_minus_1 push_bit_eq_mult)

lemma bit_byte: "bit (w::u8) i \<Longrightarrow> i < 8"
  using bit_imp_le_length [of w i] by simp

lemma bit_group:
  "n < 32 \<Longrightarrow> bit (group_word a b c) n =
     (if n < 8 then bit c n else if n < 16 then bit b (n - 8) else if n < 24 then bit a (n - 16) else False)"
  unfolding group_word_def using bit_byte [of a "n - 16"] bit_byte [of b "n - 8"] bit_byte [of c n]
  by (auto simp: bit_simps)

lemma bit_piece:
  "n < 32 \<Longrightarrow> k \<le> 3 \<Longrightarrow>
     bit (piece k (group_word a b c)) n = (n < 6 \<and> bit (group_word a b c) (n + (18 - 6 * k)))"
  unfolding piece_def masks by (auto simp: bit_simps ac_simps)

lemmas regroup_bits = bit_unsigned_iff bit_or_iff bit_and_iff bit_push_bit_iff bit_drop_bit_eq
  bit_mask_iff bit_piece bit_group

lemma regroup:
  "ucast (push_bit 2 (piece 0 (group_word a b c)) OR drop_bit 4 (piece 1 (group_word a b c) AND 0x30)) = a"
  "ucast (push_bit 4 (piece 1 (group_word a b c) AND 0xf) OR drop_bit 2 (piece 2 (group_word a b c) AND 0x3c)) = b"
  "ucast (push_bit 6 (piece 2 (group_word a b c) AND 3) OR piece 3 (group_word a b c)) = c"
proof -
  show "ucast (push_bit 2 (piece 0 (group_word a b c)) OR drop_bit 4 (piece 1 (group_word a b c) AND 0x30)) = a"
    unfolding masks
  proof (rule bit_word_eqI)
    fix n assume "n < LENGTH(8)"
    then show "bit (ucast (push_bit 2 (piece 0 (group_word a b c)) OR
        drop_bit 4 (piece 1 (group_word a b c) AND push_bit 4 (mask 2))) :: u8) n = bit a n"
      by (cases "n < 2") (auto simp: regroup_bits)
  qed
  show "ucast (push_bit 4 (piece 1 (group_word a b c) AND 0xf) OR drop_bit 2 (piece 2 (group_word a b c) AND 0x3c)) = b"
    unfolding masks
  proof (rule bit_word_eqI)
    fix n assume "n < LENGTH(8)"
    then show "bit (ucast (push_bit 4 (piece 1 (group_word a b c) AND mask 4) OR
        drop_bit 2 (piece 2 (group_word a b c) AND push_bit 2 (mask 4))) :: u8) n = bit b n"
      by (cases "n < 4") (auto simp: regroup_bits)
  qed
  show "ucast (push_bit 6 (piece 2 (group_word a b c) AND 3) OR piece 3 (group_word a b c)) = c"
    unfolding masks
  proof (rule bit_word_eqI)
    fix n assume "n < LENGTH(8)"
    then show "bit (ucast (push_bit 6 (piece 2 (group_word a b c) AND mask 2) OR
        piece 3 (group_word a b c)) :: u8) n = bit c n"
      by (cases "n < 6") (auto simp: regroup_bits)
  qed
qed

section \<open>The encoding as RFC 4648 gives it\<close>

definition letter :: "nat \<Rightarrow> u32 \<Rightarrow> u8" where
  "letter k w = alphabet64 ! unat (piece k w)"

fun rfc_encode :: "bytes \<Rightarrow> bytes" where
  "rfc_encode [] = []"
| "rfc_encode [a] = (let w = group_word a 0 0 in [letter 0 w, letter 1 w, 0x3D, 0x3D])"
| "rfc_encode [a, b] = (let w = group_word a b 0 in [letter 0 w, letter 1 w, letter 2 w, 0x3D])"
| "rfc_encode (a # b # c # cp) =
     (let w = group_word a b c in letter 0 w # letter 1 w # letter 2 w # letter 3 w # rfc_encode cp)"

lemma and_ff: "(ch::u8) AND 0xff = ch"
proof -
  have "(0xff::u8) = mask 8" by (simp add: mask_eq_exp_minus_1)
  then show ?thesis by (simp add: bit_eq_iff bit_simps)
qed

lemma gather8_group:
  "gather8 3 0 [a] = group_word a 0 0" "gather8 3 0 [a, b] = group_word a b 0"
  "gather8 3 0 [a, b, c] = group_word a b c"
  by (simp_all add: group_word_def and_ff or.assoc)

lemma letters_map:
  "length op + k \<le> outlen \<Longrightarrow> letters outlen k shift w op =
     op @ map (\<lambda>i. alphabet64 ! unat (drop_bit (shift - 6 * i) w AND 0x3f)) [0..<k]"
proof (induction k arbitrary: op shift)
  case (Suc k)
  have "map (\<lambda>i. alphabet64 ! unat (drop_bit (shift - 6 * i) w AND 0x3f)) [0..<Suc k] =
    alphabet64 ! unat (drop_bit shift w AND 0x3f) #
    map (\<lambda>i. alphabet64 ! unat (drop_bit (shift - 6 - 6 * i) w AND 0x3f)) [0..<k]"
    by (simp add: map_upt_Suc del: upt_Suc)
  then show ?case using Suc by (simp del: upt_Suc)
qed simp

lemma letters_letter:
  assumes "length op + k \<le> outlen"
  shows "letters outlen k 18 w op = op @ map (\<lambda>i. letter i w) [0..<k]"
  using letters_map [OF assms] by (simp add: letter_def piece_def)

lemma encode64_loop_Nil [simp]: "encode64_loop outlen op [] = op"
  by (simp add: encode64_loop.simps)

lemma encode64_loop_rfc:
  "length op + 4 * ((length cp + 2) div 3) \<le> outlen \<Longrightarrow> encode64_loop outlen op cp = op @ rfc_encode cp"
proof (induction cp arbitrary: op rule: rfc_encode.induct)
  case (2 a)
  then show ?case
    by (subst encode64_loop.simps) (simp add: gather8_group letters_letter upt_rec Let_def numeral_2_eq_2 del: gather8.simps)
next
  case (3 a b)
  then show ?case
    by (subst encode64_loop.simps) (simp add: gather8_group letters_letter upt_rec Let_def numeral_2_eq_2 del: gather8.simps)
next
  case (4 a b c cp)
  have "encode64_loop outlen op (a # b # c # cp) =
    encode64_loop outlen (op @ map (\<lambda>i. letter i (group_word a b c)) [0..<4]) cp"
    using "4.prems" by (subst encode64_loop.simps) (simp add: gather8_group letters_letter del: gather8.simps)
  moreover have "map (\<lambda>i. letter i w) [0..<4] = [letter 0 w, letter 1 w, letter 2 w, letter 3 w]" for w
    by (simp add: upt_rec numeral_2_eq_2 numeral_3_eq_3)
  moreover have "(length (a # b # c # cp) + 2) div 3 = Suc ((length cp + 2) div 3)" by simp
  ultimately show ?case using "4.IH" [OF refl, of "op @ map (\<lambda>i. letter i (group_word a b c)) [0..<4]"] "4.prems"
    by (simp only: rfc_encode.simps Let_def) simp
qed simp

section \<open>Decoding an encoded string\<close>

lemma b64_loop_letter:
  "b64_loop sz st (letter k w # cp) = b64_loop sz (b64_letter sz (piece k w) st) cp"
proof -
  have "b64_decode_table ! unat (letter k w) = int (unat (piece k w))" "letter k w \<noteq> 0"
    using decode_alphabet [OF piece_less, of k w] by (auto simp: letter_def)
  moreover have "uint (piece k w) \<noteq> - 1" using uint_ge_0 [of "piece k w"] by linarith
  ultimately show ?thesis by simp
qed

lemma b64_loop_pad: "b64_loop sz st (0x3D # cp) = b64_loop sz st cp"
  using decode_pad by simp

lemma b64_loop_rfc:
  "length space + length cp \<le> sz \<Longrightarrow> b64_loop sz (space, 0, prev_d) (rfc_encode cp) = space @ cp"
proof (induction cp arbitrary: space prev_d rule: rfc_encode.induct)
  case (2 a)
  then show ?case using regroup(1) [of a 0 0]
    by (simp add: Let_def b64_loop_letter b64_loop_pad b64_letter_def store_def del: b64_loop.simps(2))
next
  case (3 a b)
  then show ?case using regroup(1,2) [of a b 0]
    by (simp add: Let_def b64_loop_letter b64_loop_pad b64_letter_def store_def del: b64_loop.simps(2))
next
  case (4 a b c cp)
  then show ?case using regroup [of a b c]
    by (simp add: Let_def b64_loop_letter b64_letter_def store_def del: b64_loop.simps(2))
qed simp

lemma length_b64_loop:
  "length (fst st) \<le> sz \<Longrightarrow> length (b64_loop sz st cp) \<le> sz"
proof (induction cp arbitrary: st)
  case (Cons c cp)
  have "length (fst (b64_letter sz d st)) \<le> sz" for d
    using Cons.prems by (auto simp: b64_letter_def store_def split: prod.split)
  then show ?case using Cons by (simp add: Let_def)
qed simp

section \<open>Properties\<close>

text \<open>
  Given room, \<open>websEncode64\<close> produces the Base64 encoding of the string with padding, as
  the standard defines it group by group.
\<close>

theorem websEncode64_rfc:
  assumes "4 * ((length (cstr str) + 2) div 3) \<le> outlen"
  shows "websEncode64 str outlen = rfc_encode (cstr str)"
  using encode64_loop_rfc [of "[]" "cstr str" outlen] assms by (simp add: websEncode64_def)

theorem websEncode64_rfc_witness:
  "websEncode64 [0x61, 0x62, 0x63, 0x64, 0] 8 = rfc_encode [0x61, 0x62, 0x63, 0x64]"
  using websEncode64_rfc [of "[0x61, 0x62, 0x63, 0x64, 0]" 8] by simp

text \<open>
  Round trip. Decoding with \<open>b64_decode\<close> what \<open>websEncode64\<close> produced gives back the
  string, for every content and length, when both buffers are large enough.
\<close>

theorem base64_roundtrip:
  assumes "4 * ((length (cstr str) + 2) div 3) \<le> outlen" "length (cstr str) \<le> sz"
  shows "b64_decode (websEncode64 str outlen) sz = cstr str"
  using encode64_loop_rfc [of "[]" "cstr str" outlen] b64_loop_rfc [of "[]" "cstr str" sz 0] assms
  by (simp add: websEncode64_def b64_decode_def)

theorem base64_roundtrip_witness:
  "b64_decode (websEncode64 [0xFB, 0xF0, 0x61, 0x62, 0] 8) 4 = [0xFB, 0xF0, 0x61, 0x62]"
  using base64_roundtrip [of "[0xFB, 0xF0, 0x61, 0x62, 0]" 8 4] by simp

text \<open>
  \<open>b64_decode\<close> never stores more bytes than the size it is given, on any input.
\<close>

theorem b64_decode_bounded: "length (b64_decode str sz) \<le> sz"
  by (simp add: b64_decode_def length_b64_loop)

text \<open>
  \<open>websEncode64\<close> checks \<open>outlen\<close> for the letters only. The pads of the last group, and the
  terminating NUL, are written past the end of a buffer that ends after the letters: with
  \<open>outlen\<close> 2, one character produces 4 bytes and the NUL.
\<close>

theorem websEncode64_overflow: "length (websEncode64 [a, 0] 2) = (if a = 0 then 0 else 4)"
  by (simp add: websEncode64_def) (subst encode64_loop.simps, simp add: numeral_eq_Suc)

text \<open>
  The old decoder does not know the letters for 62 and 63 and does not notice it: the
  encoding of the single byte \<open>0xFB\<close>, which contains a plus sign, is decoded to \<open>0xFF\<close> with
  return value 0.
\<close>

theorem websDecode64_plus: "websDecode64 100 (websEncode64 [0xFB, 0] 100) = (0, [0xFF])"
proof -
  have "websEncode64 [0xFB, 0] 100 = rfc_encode [0xFB]"
    using encode64_loop_rfc [of "[]" "[0xFB]" 100] by (simp add: websEncode64_def)
  also have "\<dots> = [0x2B, 0x77, 0x3D, 0x3D]"
    by (simp add: letter_def piece_def group_word_def alphabet64_def Let_def)
  finally show ?thesis
    by (simp add: websDecode64_def decode64_loop.simps map64_def Let_def)
qed

end
