(* ===== verification/SpiFlash.thy ===== *)
theory SpiFlash
  imports Prelude "HOL-Library.Monad_Syntax"
begin

text \<open>
  The SPI flash driver of the STR8131 kernel, \<open>drivers/mtd/devices/str8131_spiflash.c\<close>: commands
  to the flash chip built from byte transfers, and the erase, read and write operations it
  offers to the MTD layer.

  The chip is a parameter: \<open>rx h\<close> is the byte it shifts out during the last of the transfers \<open>h\<close>
  made so far. The state of the driver is that history. A transfer is the channel, the
  end-of-frame flag and the byte sent. The polling of the bus controller inside one transfer
  is not modelled; the polling of the chip's status is, so an operation on a chip that never
  becomes ready does not return, which is the value \<open>None\<close>.
\<close>

section \<open>Types and constants\<close>

type_synonym transfer = "u32 \<times> u32 \<times> u32"
type_synonym chip = "transfer list \<Rightarrow> u32"

record spi_flash_info =
  sectors :: u32
  sector_size :: u32
  pages :: u32
  page_size :: u32

abbreviation (input) SPI_FLASH_WIP_BIT :: u8 where "SPI_FLASH_WIP_BIT \<equiv> 0x01"
abbreviation (input) SPI_FLASH_WEL_BIT :: u8 where "SPI_FLASH_WEL_BIT \<equiv> 0x02"
abbreviation (input) SPI_FLASH_BP012_BITS :: u8 where "SPI_FLASH_BP012_BITS \<equiv> 0x1C"
abbreviation (input) SPI_FLASH_WREN_OPCODE :: u32 where "SPI_FLASH_WREN_OPCODE \<equiv> 0x06"
abbreviation (input) SPI_FLASH_WRDI_OPCODE :: u32 where "SPI_FLASH_WRDI_OPCODE \<equiv> 0x04"
abbreviation (input) SPI_FLASH_RDID_OPCODE :: u32 where "SPI_FLASH_RDID_OPCODE \<equiv> 0x9F"
abbreviation (input) SPI_FLASH_RDSR_OPCODE :: u32 where "SPI_FLASH_RDSR_OPCODE \<equiv> 0x05"
abbreviation (input) SPI_FLASH_WRSR_OPCODE :: u32 where "SPI_FLASH_WRSR_OPCODE \<equiv> 0x01"
abbreviation (input) SPI_FLASH_FAST_READ_OPCODE :: u32 where "SPI_FLASH_FAST_READ_OPCODE \<equiv> 0x0B"
abbreviation (input) SPI_FLASH_PP_OPCODE :: u32 where "SPI_FLASH_PP_OPCODE \<equiv> 0x02"
abbreviation (input) SPI_FLASH_SE_OPCODE :: u32 where "SPI_FLASH_SE_OPCODE \<equiv> 0xD8"
abbreviation (input) SPI_FLASH_BE_OPCODE :: u32 where "SPI_FLASH_BE_OPCODE \<equiv> 0xC7"
abbreviation (input) EIO :: int where "EIO \<equiv> 5"
abbreviation (input) ENODEV_rc :: int where "ENODEV_rc \<equiv> 19"
abbreviation (input) EINVAL_rc :: int where "EINVAL_rc \<equiv> 22"

section \<open>The bus controller\<close>

record spi_regs =
  MISC_GPIOA_PIN_ENABLE_REG :: u32
  MISC_CHIP_CONFIG_REG :: u32
  SPI_CONFIGURATION_REG :: u32
  SPI_SERVICE_STATUS_REG :: u32
  SPI_BIT_RATE_CONTROL_REG :: u32
  SPI_TRANSMIT_CONTROL_REG :: u32
  SPI_FIFO_TRANSMIT_CONFIG_REG :: u32
  SPI_FIFO_RECEIVE_CONFIG_REG :: u32
  SPI_INTERRUPT_ENABLE_REG :: u32
  SPI_INTERRUPT_STATUS_REG :: u32

abbreviation (input) MISC_SPI_PINS :: u32 where "MISC_SPI_PINS \<equiv> 0xFC000000"

definition Spi_Flash_Initialize :: "u8 \<Rightarrow> spi_regs \<Rightarrow> spi_regs" where
  "Spi_Flash_Initialize spi_flash_channel r =
     (let r = r\<lparr>MISC_GPIOA_PIN_ENABLE_REG := MISC_GPIOA_PIN_ENABLE_REG r OR MISC_SPI_PINS\<rparr>;
          r = r\<lparr>MISC_CHIP_CONFIG_REG := MISC_CHIP_CONFIG_REG r AND NOT (push_bit 4 1)\<rparr>;
          r = r\<lparr>SPI_CONFIGURATION_REG :=
                 push_bit 0 (0 AND 3) OR push_bit 9 0 OR push_bit 10 0 OR push_bit 11 1 OR
                 push_bit 12 0 OR push_bit 13 0 OR push_bit 14 0 OR push_bit 24 0 OR
                 push_bit 30 0 OR push_bit 31 0\<rparr>;
          r = r\<lparr>SPI_BIT_RATE_CONTROL_REG := 1 AND 0x07\<rparr>;
          r = r\<lparr>SPI_TRANSMIT_CONTROL_REG := SPI_TRANSMIT_CONTROL_REG r AND NOT 0x03\<rparr>;
          r = r\<lparr>SPI_TRANSMIT_CONTROL_REG :=
                 SPI_TRANSMIT_CONTROL_REG r OR (ucast spi_flash_channel AND 0x03)\<rparr>;
          r = r\<lparr>SPI_FIFO_TRANSMIT_CONFIG_REG := SPI_FIFO_TRANSMIT_CONFIG_REG r AND NOT (push_bit 4 0x03)\<rparr>;
          r = r\<lparr>SPI_FIFO_TRANSMIT_CONFIG_REG := SPI_FIFO_TRANSMIT_CONFIG_REG r OR push_bit 4 (0 AND 0x03)\<rparr>;
          r = r\<lparr>SPI_FIFO_RECEIVE_CONFIG_REG := SPI_FIFO_RECEIVE_CONFIG_REG r AND NOT (push_bit 4 0x03)\<rparr>;
          r = r\<lparr>SPI_FIFO_RECEIVE_CONFIG_REG := SPI_FIFO_RECEIVE_CONFIG_REG r OR push_bit 4 (1 AND 0x03)\<rparr>;
          r = r\<lparr>SPI_INTERRUPT_ENABLE_REG := 0\<rparr>;
          r = r\<lparr>SPI_INTERRUPT_STATUS_REG := push_bit 4 0xF\<rparr>
      in r\<lparr>SPI_CONFIGURATION_REG := SPI_CONFIGURATION_REG r OR push_bit 31 1\<rparr>)"

definition Spi_Flash_Is_Bus_Idle :: "spi_regs \<Rightarrow> u32" where
  "Spi_Flash_Is_Bus_Idle r = (if SPI_SERVICE_STATUS_REG r AND 1 \<noteq> 0 then 0 else 1)"

definition Spi_Flash_Is_Tx_Buffer_Empty :: "spi_regs \<Rightarrow> u32" where
  "Spi_Flash_Is_Tx_Buffer_Empty r = (if SPI_INTERRUPT_STATUS_REG r AND push_bit 3 1 \<noteq> 0 then 1 else 0)"

definition Spi_Flash_Is_Rx_Buffer_Full :: "spi_regs \<Rightarrow> u32" where
  "Spi_Flash_Is_Rx_Buffer_Full r = (if SPI_INTERRUPT_STATUS_REG r AND push_bit 2 1 \<noteq> 0 then 1 else 0)"

section \<open>Commands to the chip\<close>

text \<open>One transfer: the byte received and the history with it. Callers ignore its return code.\<close>

definition Spi_Flash_Buffer_Transmit_Receive ::
    "chip \<Rightarrow> u32 \<Rightarrow> u32 \<Rightarrow> u32 \<Rightarrow> transfer list \<Rightarrow> u32 \<times> transfer list" where
  "Spi_Flash_Buffer_Transmit_Receive rx tx_channel tx_eof_flag tx_data h =
     (let h = h @ [(tx_channel AND 0x3, tx_eof_flag AND 0x1, tx_data)] in (rx h, h))"

text \<open>A sequence of transfers of which the received bytes are not used.\<close>

fun send :: "chip \<Rightarrow> u32 \<Rightarrow> (u32 \<times> u32) list \<Rightarrow> transfer list \<Rightarrow> transfer list" where
  "send rx ch [] h = h"
| "send rx ch ((eof, b) # bs) h =
     (let (_, h) = Spi_Flash_Buffer_Transmit_Receive rx ch eof b h in send rx ch bs h)"

definition Spi_Flash_Read_Status_Register :: "chip \<Rightarrow> u8 \<Rightarrow> transfer list \<Rightarrow> u8 \<times> transfer list" where
  "Spi_Flash_Read_Status_Register rx ch h =
     (let h = send rx (ucast ch) [(0, SPI_FLASH_RDSR_OPCODE)] h;
          (rx_data, h) = Spi_Flash_Buffer_Transmit_Receive rx (ucast ch) 1 0xFF h
      in (ucast (rx_data AND 0xFF), h))"

definition Spi_Flash_Is_Flash_Ready :: "chip \<Rightarrow> u8 \<Rightarrow> transfer list \<Rightarrow> bool \<times> transfer list" where
  "Spi_Flash_Is_Flash_Ready rx ch h =
     (let (status_reg, h) = Spi_Flash_Read_Status_Register rx ch h
      in (status_reg AND SPI_FLASH_WIP_BIT = 0, h))"

text \<open>\<open>while (!Spi_Flash_Is_Flash_Ready(...)) ;\<close>\<close>

partial_function (option) wait_ready :: "chip \<Rightarrow> u8 \<Rightarrow> transfer list \<Rightarrow> transfer list option" where
  "wait_ready rx ch h =
     (let (ready, h) = Spi_Flash_Is_Flash_Ready rx ch h in if ready then Some h else wait_ready rx ch h)"

definition Spi_Flash_Set_Write_Enable :: "chip \<Rightarrow> u8 \<Rightarrow> transfer list \<Rightarrow> (bool \<times> transfer list) option" where
  "Spi_Flash_Set_Write_Enable rx ch h = do {
     h \<leftarrow> wait_ready rx ch h;
     let h = send rx (ucast ch) [(1, SPI_FLASH_WREN_OPCODE)] h;
     let (status_reg, h) = Spi_Flash_Read_Status_Register rx ch h;
     Some (status_reg AND SPI_FLASH_WEL_BIT \<noteq> 0, h)
   }"

definition Spi_Flash_Set_Write_Disable :: "chip \<Rightarrow> u8 \<Rightarrow> transfer list \<Rightarrow> (bool \<times> transfer list) option" where
  "Spi_Flash_Set_Write_Disable rx ch h = do {
     h \<leftarrow> wait_ready rx ch h;
     let h = send rx (ucast ch) [(1, SPI_FLASH_WRDI_OPCODE)] h;
     let (status_reg, h) = Spi_Flash_Read_Status_Register rx ch h;
     Some (\<not> (status_reg AND SPI_FLASH_WEL_BIT \<noteq> 0), h)
   }"

definition Spi_Flash_Write_Status_Register ::
    "chip \<Rightarrow> u8 \<Rightarrow> u8 \<Rightarrow> transfer list \<Rightarrow> (bool \<times> transfer list) option" where
  "Spi_Flash_Write_Status_Register rx ch status_reg h = do {
     (ok, h) \<leftarrow> Spi_Flash_Set_Write_Enable rx ch h;
     if ok then do {
       h \<leftarrow> wait_ready rx ch
              (send rx (ucast ch) [(0, SPI_FLASH_WRSR_OPCODE), (1, ucast status_reg)] h);
       Some (True, h)
     } else Some (False, h)
   }"

definition Spi_Flash_Read_Identification ::
    "chip \<Rightarrow> u8 \<Rightarrow> transfer list \<Rightarrow> (u8 \<times> u16 \<times> transfer list) option" where
  "Spi_Flash_Read_Identification rx ch h = do {
     h \<leftarrow> wait_ready rx ch h;
     let h = send rx (ucast ch) [(0, SPI_FLASH_RDID_OPCODE)] h;
     let (rx_data1, h) = Spi_Flash_Buffer_Transmit_Receive rx (ucast ch) 0 0xFF h;
     let (rx_data2, h) = Spi_Flash_Buffer_Transmit_Receive rx (ucast ch) 0 0xFF h;
     let (rx_data3, h) = Spi_Flash_Buffer_Transmit_Receive rx (ucast ch) 1 0xFF h;
     Some (ucast (rx_data1 AND 0xFF),
           ucast (push_bit 8 (rx_data2 AND 0xFF)) OR ucast (rx_data3 AND 0xFF), h)
   }"

text \<open>The three address bytes, most significant first; the last carries the flag \<open>eof\<close>.\<close>

definition addr_bytes :: "u32 \<Rightarrow> u32 \<Rightarrow> (u32 \<times> u32) list" where
  "addr_bytes eof a = [(0, drop_bit 16 a AND 0xFF), (0, drop_bit 8 a AND 0xFF), (eof, drop_bit 0 a AND 0xFF)]"

fun read_loop :: "chip \<Rightarrow> u8 \<Rightarrow> nat \<Rightarrow> bytes \<Rightarrow> transfer list \<Rightarrow> bytes \<times> transfer list" where
  "read_loop rx ch 0 out h = (out, h)"
| "read_loop rx ch (Suc n) out h =
     (let (rx_data, h) = Spi_Flash_Buffer_Transmit_Receive rx (ucast ch) 0 0xFF h
      in read_loop rx ch n (out @ [ucast (rx_data AND 0xFF)]) h)"

text \<open>\<open>len - 1\<close> is computed in 32 bits: a length of 0 asks for \<open>2\<^sup>3\<^sup>2\<close> bytes.\<close>

definition Spi_Flash_Read_Data_Bytes ::
    "chip \<Rightarrow> u8 \<Rightarrow> u32 \<Rightarrow> u32 \<Rightarrow> transfer list \<Rightarrow> (bytes \<times> transfer list) option" where
  "Spi_Flash_Read_Data_Bytes rx ch address len h = do {
     h \<leftarrow> wait_ready rx ch h;
     let h = send rx (ucast ch) [(0, SPI_FLASH_FAST_READ_OPCODE)] h;
     let h = send rx (ucast ch) (addr_bytes 0 address) h;
     let h = send rx (ucast ch) [(0, drop_bit 0 address AND 0xFF)] h;
     let (read_buffer, h) = read_loop rx ch (unat (len - 1)) [] h;
     let (rx_data, h) = Spi_Flash_Buffer_Transmit_Receive rx (ucast ch) 1 0xFF h;
     Some (read_buffer @ [ucast (rx_data AND 0xFF)], h)
   }"

definition Spi_Flash_Sector_Erase ::
    "chip \<Rightarrow> spi_flash_info \<Rightarrow> u8 \<Rightarrow> u32 \<Rightarrow> transfer list \<Rightarrow> (bool \<times> transfer list) option" where
  "Spi_Flash_Sector_Erase rx flash_info ch sector_addr h =
     (if sector_addr > sectors flash_info * sector_size flash_info then Some (False, h)
      else do {
        (ok, h) \<leftarrow> Spi_Flash_Set_Write_Enable rx ch h;
        if ok then
          Some (True, send rx (ucast ch) ((0, SPI_FLASH_SE_OPCODE) # addr_bytes 1 sector_addr) h)
        else Some (False, h)
      })"

definition Spi_Flash_Bulk_Erase :: "chip \<Rightarrow> u8 \<Rightarrow> transfer list \<Rightarrow> (bool \<times> transfer list) option" where
  "Spi_Flash_Bulk_Erase rx ch h = do {
     (ok, h) \<leftarrow> Spi_Flash_Set_Write_Enable rx ch h;
     if ok then do {
       let (status_reg, h) = Spi_Flash_Read_Status_Register rx ch h;
       if status_reg AND SPI_FLASH_BP012_BITS \<noteq> 0 then Some (False, h)
       else Some (True, send rx (ucast ch) [(1, SPI_FLASH_BE_OPCODE)] h)
     } else Some (False, h)
   }"

text \<open>
  \<open>Spi_Flash_Page_Program_Data_Bytes\<close> of a non-empty block. The test against the size of the
  chip has a second \<open>if\<close> as its body, so it rejects only what is also beyond the largest chip.
\<close>

definition Spi_Flash_Page_Program_Data_Bytes ::
    "chip \<Rightarrow> spi_flash_info \<Rightarrow> u8 \<Rightarrow> u32 \<Rightarrow> bytes \<Rightarrow> transfer list \<Rightarrow> (bool \<times> transfer list) option" where
  "Spi_Flash_Page_Program_Data_Bytes rx flash_info ch address write_buffer h =
     (let len = of_nat (length write_buffer) in
      if len > page_size flash_info then Some (False, h)
      else if address + len > pages flash_info * page_size flash_info \<and> address + len > 0x800000
      then Some (False, h)
      else if address div page_size flash_info \<noteq> (address + len - 1) div page_size flash_info
      then Some (False, h)
      else do {
        (ok, h) \<leftarrow> Spi_Flash_Set_Write_Enable rx ch h;
        if \<not> ok then Some (False, h)
        else Some (True, send rx (ucast ch)
               (((0, SPI_FLASH_PP_OPCODE) # addr_bytes 0 address) @
                map (\<lambda>b. (0, ucast b)) (butlast write_buffer) @ [(1, ucast (last write_buffer))]) h)
      })"

section \<open>The MTD operations\<close>

text \<open>The two loops of \<open>str8131_spiflash_erase\<close> that look for the first and the last sector.\<close>

function find_start :: "spi_flash_info \<Rightarrow> u32 \<Rightarrow> nat \<Rightarrow> u32" where
  "find_start fi addr i =
     (if i < unat (sectors fi) then
        if addr \<ge> of_nat i * sector_size fi then find_start fi addr (i + 1) else of_nat i - 1
      else 0)"
  by pat_completeness auto

termination
  by (relation "measure (\<lambda>(fi, _, i). unat (sectors fi) - i)") auto

function find_end :: "spi_flash_info \<Rightarrow> u32 \<Rightarrow> u32 \<Rightarrow> nat \<Rightarrow> u32" where
  "find_end fi addr len i =
     (if i < unat (sectors fi) then
        if addr + len > of_nat i * sector_size fi then find_end fi addr len (i + 1) else of_nat i - 1
      else 0)"
  by pat_completeness auto

termination
  by (relation "measure (\<lambda>(fi, _, _, i). unat (sectors fi) - i)") auto

declare find_start.simps [simp del] find_end.simps [simp del]

text \<open>The erasing loop, over 32-bit counters: the flag is whether every sector was erased.\<close>

partial_function (option) erase_loop ::
    "chip \<Rightarrow> spi_flash_info \<Rightarrow> u32 \<Rightarrow> u32 \<Rightarrow> transfer list \<Rightarrow> (bool \<times> transfer list) option" where
  "erase_loop rx fi i end_sector h =
     (if i \<le> end_sector then do {
        (ok, h) \<leftarrow> Spi_Flash_Sector_Erase rx fi 0 (i * sector_size fi) h;
        if \<not> ok then Some (False, h) else erase_loop rx fi (i + 1) end_sector h
      } else Some (True, h))"

text \<open>
  \<open>str8131_spiflash_erase\<close>: the return value, the state reported to the MTD layer (done, or
  failed; none when the arguments are refused) and the history. \<open>mtd->size\<close> and
  \<open>mtd->erasesize\<close> are those \<open>str8131_spiflash_init\<close> sets.
\<close>

datatype erase_state = MTD_ERASE_DONE | MTD_ERASE_FAILED

definition mtd_size :: "spi_flash_info \<Rightarrow> u32" where
  "mtd_size fi = sectors fi * sector_size fi"

definition str8131_spiflash_erase ::
    "chip \<Rightarrow> spi_flash_info \<Rightarrow> u32 \<Rightarrow> u32 \<Rightarrow> transfer list \<Rightarrow> (int \<times> erase_state option \<times> transfer list) option" where
  "str8131_spiflash_erase rx fi addr len h =
     (if addr + len > mtd_size fi then Some (- EINVAL_rc, None, h)
      else if len mod sector_size fi \<noteq> 0 then Some (- EINVAL_rc, None, h)
      else if addr mod sector_size fi \<noteq> 0 then Some (- EINVAL_rc, None, h)
      else do {
        let start_sector = find_start fi addr 0;
        let end_sector = find_end fi addr len (unat start_sector);
        (ok, h) \<leftarrow> erase_loop rx fi start_sector end_sector h;
        Some (if ok then (0, Some MTD_ERASE_DONE, h) else (- EIO, Some MTD_ERASE_FAILED, h))
      })"

text \<open>\<open>str8131_spiflash_read\<close>: the return value, the bytes read (their number is \<open>*retlen\<close>).\<close>

definition str8131_spiflash_read ::
    "chip \<Rightarrow> spi_flash_info \<Rightarrow> nat \<Rightarrow> nat \<Rightarrow> transfer list \<Rightarrow> (int \<times> bytes \<times> transfer list) option" where
  "str8131_spiflash_read rx fi from len h =
     (if len = 0 then Some (0, [], h)
      else if from + len > unat (mtd_size fi) then Some (- EINVAL_rc, [], h)
      else do {
        (buf, h) \<leftarrow> Spi_Flash_Read_Data_Bytes rx 0 (of_nat from) (of_nat len) h;
        Some (0, buf, h)
      })"

text \<open>The programming loop: the flag, \<open>*retlen\<close> and the history.\<close>

partial_function (option) write_loop ::
    "chip \<Rightarrow> spi_flash_info \<Rightarrow> u32 \<Rightarrow> bytes \<Rightarrow> nat \<Rightarrow> transfer list \<Rightarrow> (bool \<times> nat \<times> transfer list) option" where
  "write_loop rx fi addr data done h =
     (if data = [] then Some (True, done, h)
      else do {
        let prog_size = (if length data \<ge> unat (page_size fi) then unat (page_size fi) else length data);
        (ok, h) \<leftarrow> Spi_Flash_Page_Program_Data_Bytes rx fi 0 addr (take prog_size data) h;
        if \<not> ok then Some (False, done, h)
        else write_loop rx fi (addr + of_nat prog_size) (drop prog_size data) (done + prog_size) h
      })"

definition str8131_spiflash_write ::
    "chip \<Rightarrow> spi_flash_info \<Rightarrow> nat \<Rightarrow> bytes \<Rightarrow> transfer list \<Rightarrow> (int \<times> nat \<times> transfer list) option" where
  "str8131_spiflash_write rx fi to buf h =
     (if buf = [] then Some (0, 0, h)
      else if to + length buf > unat (mtd_size fi) then Some (- EINVAL_rc, 0, h)
      else do {
        (ok, retlen, h) \<leftarrow> write_loop rx fi (of_nat to) buf 0 h;
        Some (if ok then 0 else - EIO, retlen, h)
      })"

definition spiflash_probe :: "chip \<Rightarrow> spi_flash_info \<Rightarrow> transfer list \<Rightarrow> (int \<times> spi_flash_info \<times> transfer list) option" where
  "spiflash_probe rx fi h = do {
     (manufacturer_id, device_id, h) \<leftarrow> Spi_Flash_Read_Identification rx 0 h;
     let code = push_bit 16 (ucast manufacturer_id) OR (ucast device_id :: u32);
     if code = push_bit 16 0x20 OR 0x2016 then
       Some (0, \<lparr>sectors = 64, sector_size = 0x10000, pages = 16384, page_size = 256\<rparr>, h)
     else if code = push_bit 16 0x20 OR 0x2017 then
       Some (0, \<lparr>sectors = 128, sector_size = 0x10000, pages = 32768, page_size = 256\<rparr>, h)
     else if code = push_bit 16 0xC2 OR 0x2016 then
       Some (0, \<lparr>sectors = 64, sector_size = 0x10000, pages = 16384, page_size = 256\<rparr>, h)
     else if code = push_bit 16 0xC2 OR 0x2017 then
       Some (0, \<lparr>sectors = 128, sector_size = 0x10000, pages = 32768, page_size = 256\<rparr>, h)
     else Some (- 1, fi, h)
   }"

section \<open>The traffic of each command\<close>

definition poll :: "transfer list" where
  "poll = [(0, 0, SPI_FLASH_RDSR_OPCODE), (0, 1, 0xFF)]"

definition polls :: "nat \<Rightarrow> transfer list" where
  "polls n = concat (replicate n poll)"

text \<open>The last transfer ended a command.\<close>

definition ended :: "transfer list \<Rightarrow> bool" where
  "ended h \<longleftrightarrow> h = [] \<or> fst (snd (last h)) = 1"

text \<open>
  What the driver relies on, of a chip that is between two commands: it may be busy with the last
  one for any number of status reads, \<open>busy h\<close>, and is then ready; and the write enable latch is
  set when it is read after a write enable command to a chip that has shown to be ready.
\<close>

definition chip_ok :: "(transfer list \<Rightarrow> nat) \<Rightarrow> chip \<Rightarrow> bool" where
  "chip_ok busy rx \<longleftrightarrow>
     (\<forall>h. ended h \<longrightarrow> (\<forall>k<busy h. bit (rx (h @ polls (Suc k))) 0) \<and> \<not> bit (rx (h @ polls (Suc (busy h)))) 0) \<and>
     (\<forall>h. ended h \<and> \<not> bit (rx (h @ poll)) 0 \<longrightarrow> bit (rx (h @ poll @ (0, 1, SPI_FLASH_WREN_OPCODE) # poll)) 1)"

text \<open>The history after the wait for the chip, the write enable command and the check of the latch.\<close>

definition enabled :: "(transfer list \<Rightarrow> nat) \<Rightarrow> transfer list \<Rightarrow> transfer list" where
  "enabled busy h = h @ polls (Suc (busy h)) @ (0, 1, SPI_FLASH_WREN_OPCODE) # poll"

lemma polls_Suc: "polls (Suc n) = polls n @ poll"
  by (induction n) (simp_all add: polls_def)

lemma ended_polls [simp]: "ended (h @ polls (Suc n))" "ended h \<Longrightarrow> ended (h @ polls n)"
proof -
  show e: "ended (h @ polls (Suc n))" for n by (simp only: polls_Suc) (simp add: ended_def poll_def)
  show "ended h \<Longrightarrow> ended (h @ polls n)"
  proof (cases n)
    case (Suc k)
    then show ?thesis using e by simp
  qed (simp add: polls_def)
qed

lemma ended_enabled [simp]: "ended (enabled busy h)"
  by (simp add: enabled_def ended_def poll_def)

definition frames :: "(u32 \<times> u32) list \<Rightarrow> transfer list" where
  "frames bs = map (\<lambda>(eof, b). (0, eof AND 1, b)) bs"

lemma send_frames: "send rx 0 bs h = h @ frames bs"
  by (induction bs arbitrary: h) (auto simp: frames_def Spi_Flash_Buffer_Transmit_Receive_def Let_def)

declare send.simps [simp del]

lemma read_status:
  "Spi_Flash_Read_Status_Register rx 0 h = (ucast (rx (h @ poll) AND 0xFF), h @ poll)"
  by (simp add: Spi_Flash_Read_Status_Register_def Spi_Flash_Buffer_Transmit_Receive_def Let_def poll_def
      send_frames frames_def)

lemma status_bits:
  "(ucast ((w::u32) AND 0xFF) :: u8) AND 1 = 0 \<longleftrightarrow> \<not> bit w 0"
  "(ucast ((w::u32) AND 0xFF) :: u8) AND 2 \<noteq> 0 \<longleftrightarrow> bit w 1"
proof -
  have m: "(0xFF::u32) = mask 8" by (simp add: mask_eq_exp_minus_1)
  have b: "bit (ucast (w AND 0xFF) :: u8) k = bit w k" if "k < 8" for k
    unfolding m using that by (auto simp: bit_simps)
  show "(ucast (w AND 0xFF) :: u8) AND 1 = 0 \<longleftrightarrow> \<not> bit w 0"
    using b [of 0] by (simp add: and_one_eq even_iff_mod_2_eq_zero [symmetric] bit_0)
  have "(ucast (w AND 0xFF) :: u8) AND 2 ^ 1 = 0 \<longleftrightarrow> \<not> bit (ucast (w AND 0xFF) :: u8) 1"
    by (rule and_exp_eq_0_iff_not_bit)
  then show "(ucast (w AND 0xFF) :: u8) AND 2 \<noteq> 0 \<longleftrightarrow> bit w 1"
    using b [of 1] by simp
qed

lemma wait_ready_polls:
  assumes "chip_ok busy rx" "ended h" "k \<le> busy h"
  shows "wait_ready rx 0 (h @ polls k) = Some (h @ polls (Suc (busy h)))"
  using assms(3)
proof (induction "busy h - k" arbitrary: k)
  case 0
  then have "k = busy h" by simp
  then have "\<not> bit (rx ((h @ polls k) @ poll)) 0" using assms(1,2) by (simp add: chip_ok_def polls_Suc)
  then show ?case using \<open>k = busy h\<close>
    by (subst wait_ready.simps) (simp add: Spi_Flash_Is_Flash_Ready_def read_status status_bits polls_Suc)
next
  case (Suc n)
  then have k: "k < busy h" "n = busy h - Suc k" by simp_all
  then have "bit (rx ((h @ polls k) @ poll)) 0" using assms(1,2) by (simp add: chip_ok_def polls_Suc)
  moreover have "wait_ready rx 0 (h @ polls k @ poll) = Some (h @ polls (Suc (busy h)))"
    using Suc(1) [OF k(2)] k(1) by (simp add: polls_Suc)
  ultimately show ?case
    by (subst wait_ready.simps) (simp add: Spi_Flash_Is_Flash_Ready_def read_status status_bits)
qed

lemma wait_ready_ok: "chip_ok busy rx \<Longrightarrow> ended h \<Longrightarrow> wait_ready rx 0 h = Some (h @ polls (Suc (busy h)))"
  using wait_ready_polls [of busy rx h 0] by (simp add: polls_def)

lemma write_enable_ok:
  assumes "chip_ok busy rx" "ended h"
  shows "Spi_Flash_Set_Write_Enable rx 0 h = Some (True, enabled busy h)"
proof -
  let ?h = "h @ polls (busy h)"
  have "\<not> bit (rx (?h @ poll)) 0" using assms by (simp add: chip_ok_def polls_Suc)
  then have "bit (rx (?h @ poll @ (0, 1, SPI_FLASH_WREN_OPCODE) # poll)) 1"
    using assms by (simp add: chip_ok_def del: append_assoc)
  then show ?thesis
    by (simp add: Spi_Flash_Set_Write_Enable_def wait_ready_ok [OF assms] send_frames read_status status_bits
        frames_def enabled_def polls_Suc Let_def)
qed

text \<open>The history after the erase command for an address.\<close>

definition erased :: "(transfer list \<Rightarrow> nat) \<Rightarrow> u32 \<Rightarrow> transfer list \<Rightarrow> transfer list" where
  "erased busy a h = enabled busy h @ frames ((0, SPI_FLASH_SE_OPCODE) # addr_bytes 1 a)"

lemma ended_erased [simp]: "ended (erased busy a h)"
  by (simp add: erased_def ended_def frames_def addr_bytes_def)

lemma sector_erase_ok:
  "chip_ok busy rx \<Longrightarrow> ended h \<Longrightarrow> Spi_Flash_Sector_Erase rx fi 0 a h =
     Some (if a > sectors fi * sector_size fi then (False, h) else (True, erased busy a h))"
  by (simp add: Spi_Flash_Sector_Erase_def write_enable_ok send_frames erased_def)

section \<open>Geometry\<close>

text \<open>Sizes as numbers, and a chip whose size and one sector more fits the 32 bits.\<close>

abbreviation N :: "spi_flash_info \<Rightarrow> nat" where "N fi \<equiv> unat (sectors fi)"
abbreviation S :: "spi_flash_info \<Rightarrow> nat" where "S fi \<equiv> unat (sector_size fi)"

definition geometry :: "spi_flash_info \<Rightarrow> bool" where
  "geometry fi \<longleftrightarrow> 0 < S fi \<and> 1 < N fi \<and> (N fi + 1) * S fi < 2 ^ 32 \<and>
     0 < unat (page_size fi) \<and> unat (pages fi) * unat (page_size fi) = N fi * S fi \<and>
     unat (page_size fi) dvd S fi"

lemma geometry_less: "geometry fi \<Longrightarrow> k \<le> N fi + 1 \<Longrightarrow> k * S fi < 2 ^ 32"
  unfolding geometry_def using mult_le_mono1 [of k "N fi + 1" "S fi"] by linarith

lemma unat_sector:
  assumes "geometry fi" "k \<le> N fi + 1"
  shows "unat (of_nat k * sector_size fi) = k * S fi" "unat (of_nat (k * S fi) :: u32) = k * S fi"
proof -
  show u: "unat (of_nat (k * S fi) :: u32) = k * S fi"
    using geometry_less [OF assms] by (simp only: unat_of_nat) (simp add: take_bit_nat_eq_self)
  have "of_nat k * sector_size fi = (of_nat (k * S fi) :: u32)" by simp
  then show "unat (of_nat k * sector_size fi) = k * S fi" using u by metis
qed

lemma sector_le:
  assumes "geometry fi" "j \<le> N fi + 1" "k \<le> N fi + 1"
  shows "of_nat j * sector_size fi \<le> of_nat (k * S fi) \<longleftrightarrow> j \<le> k"
    and "of_nat j * sector_size fi < of_nat (k * S fi) \<longleftrightarrow> j < k"
proof -
  have "0 < S fi" using assms(1) by (simp add: geometry_def)
  then show "of_nat j * sector_size fi \<le> of_nat (k * S fi) \<longleftrightarrow> j \<le> k"
    and "of_nat j * sector_size fi < of_nat (k * S fi) \<longleftrightarrow> j < k"
    by (simp_all only: word_le_nat_alt word_less_nat_alt unat_sector [OF assms(1,2)]
        unat_sector [OF assms(1,3)] mult_le_cancel2 mult_less_cancel2) auto
qed

lemma mtd_size_nat: "geometry fi \<Longrightarrow> mtd_size fi = of_nat (N fi * S fi)"
  by (simp add: mtd_size_def)

section \<open>Erasing\<close>

lemma find_start_eq:
  assumes g: "geometry fi" and s: "s < N fi" and i: "i \<le> s + 1"
  shows "find_start fi (of_nat (s * S fi)) i = (if s + 1 < N fi then of_nat s else 0)"
  using i
proof (induction "s + 1 - i" arbitrary: i)
  case 0
  then have "i = s + 1" by simp
  then show ?case using sector_le(1) [OF g, of "s + 1" s] s
    by (subst find_start.simps) simp
next
  case (Suc n)
  then have "i \<le> s" "n = s + 1 - (i + 1)" "i + 1 \<le> s + 1" by simp_all
  then show ?case using Suc(1) [of "i + 1"] sector_le(1) [OF g, of i s] s
    by (subst find_start.simps) simp
qed

lemma find_end_eq:
  assumes g: "geometry fi" and e: "e \<le> N fi" and i: "i \<le> e"
    and len: "addr + len = of_nat (e * S fi)"
  shows "find_end fi addr len i = (if e < N fi then of_nat e - 1 else 0)"
  using i
proof (induction "e - i" arbitrary: i)
  case 0
  then have "i = e" by simp
  then show ?case using sector_le(2) [OF g, of e e] e
    by (subst find_end.simps) (simp only: len, simp)
next
  case (Suc n)
  then have "i < e" "n = e - (i + 1)" "i + 1 \<le> e" by simp_all
  then show ?case using Suc(1) [of "i + 1"] sector_le(2) [OF g, of i e] e
    by (subst find_end.simps) (simp only: len, simp)
qed

text \<open>The history after the erase commands for the sectors \<open>i\<close> to \<open>j - 1\<close>, in this order.\<close>

definition erase_sectors :: "(transfer list \<Rightarrow> nat) \<Rightarrow> spi_flash_info \<Rightarrow> nat \<Rightarrow> nat \<Rightarrow> transfer list \<Rightarrow> transfer list" where
  "erase_sectors busy fi i j h = fold (\<lambda>k. erased busy (of_nat k * sector_size fi)) [i..<j] h"

lemma erase_sectors_Cons:
  "i < j \<Longrightarrow> erase_sectors busy fi i j h = erase_sectors busy fi (i + 1) j (erased busy (of_nat i * sector_size fi) h)"
  by (simp add: erase_sectors_def upt_conv_Cons)

lemma geometry_small: "geometry fi \<Longrightarrow> N fi + 1 < 2 ^ 32"
proof -
  assume "geometry fi"
  then have "1 \<le> S fi" "(N fi + 1) * S fi < 2 ^ 32" by (auto simp: geometry_def)
  then show ?thesis using mult_le_mono2 [of 1 "S fi" "N fi + 1"] by (metis order_le_less_trans mult.right_neutral)
qed

lemma unat_index: "geometry fi \<Longrightarrow> k \<le> N fi + 1 \<Longrightarrow> unat (of_nat k :: u32) = k"
  using geometry_small [of fi] by (simp add: unat_of_nat take_bit_nat_eq_self)

lemma erase_one:
  assumes "chip_ok busy rx" "geometry fi" "k \<le> N fi + 1" "ended h"
  shows "Spi_Flash_Sector_Erase rx fi 0 (of_nat k * sector_size fi) h =
    Some (if k > N fi then (False, h) else (True, erased busy (of_nat k * sector_size fi) h))"
proof -
  have "of_nat k * sector_size fi > sectors fi * sector_size fi \<longleftrightarrow> k > N fi"
    using sector_le(2) [OF assms(2), of "N fi" k] assms(3) by simp
  then show ?thesis by (simp add: sector_erase_ok [OF assms(1,4)])
qed

lemma erase_loop_ok:
  assumes c: "chip_ok busy rx" and g: "geometry fi" and e: "e < N fi" and i: "i \<le> e + 1" and h: "ended h"
  shows "erase_loop rx fi (of_nat i) (of_nat e) h = Some (True, erase_sectors busy fi i (e + 1) h)"
  using i h
proof (induction "e + 1 - i" arbitrary: i h)
  case 0
  then have "i = e + 1" by simp
  moreover have "\<not> (of_nat (e + 1) :: u32) \<le> of_nat e"
    using unat_index [OF g, of e] unat_index [OF g, of "e + 1"] e by (simp add: word_le_nat_alt del: of_nat_add of_nat_Suc)
  ultimately show ?case by (subst erase_loop.simps) (simp add: erase_sectors_def)
next
  case (Suc n)
  then have ie: "i \<le> e" "n = e + 1 - (i + 1)" "i + 1 \<le> e + 1" by simp_all
  have le: "(of_nat i :: u32) \<le> of_nat e"
    using unat_index [OF g, of e] unat_index [OF g, of i] e ie by (simp add: word_le_nat_alt)
  show ?case
    using Suc(1) [OF ie(2,3)] erase_one [OF c g _ Suc.prems(2), of i] le ie(1) e erase_sectors_Cons [of i "e + 1" busy fi h]
    by (subst erase_loop.simps) (simp add: add.commute)
qed

text \<open>With the end 0 that the search leaves behind, only a start of 0 erases anything.\<close>

lemma erase_loop_end_0:
  assumes "chip_ok busy rx" "geometry fi" "s < N fi" "ended h"
  shows "erase_loop rx fi (of_nat s) 0 h = Some (True, if s = 0 then erased busy 0 h else h)"
proof (cases "s = 0")
  case True
  then show ?thesis
    using erase_loop_ok [OF assms(1,2), of 0 0 h] assms(2,4) by (simp add: geometry_def erase_sectors_def)
next
  case False
  then have "\<not> (of_nat s :: u32) \<le> 0" using unat_index [OF assms(2), of s] assms(3) by (auto simp: word_le_nat_alt)
  then show ?thesis using False by (subst erase_loop.simps) simp
qed

lemma erase_loop_all:
  assumes c: "chip_ok busy rx" and g: "geometry fi" and i: "i \<le> N fi + 1" and h: "ended h"
  shows "erase_loop rx fi (of_nat i) (- 1) h = Some (False, erase_sectors busy fi i (N fi + 1) h)"
  using i h
proof (induction "N fi + 1 - i" arbitrary: i h)
  case 0
  then have "i = N fi + 1" by simp
  then show ?case using erase_one [OF c g _ 0(3), of "N fi + 1"]
    by (subst erase_loop.simps) (simp add: erase_sectors_def)
next
  case (Suc n)
  then have i: "i \<le> N fi" "n = N fi + 1 - (i + 1)" "i + 1 \<le> N fi + 1" by simp_all
  show ?case
    using Suc(1) [OF i(2,3)] erase_one [OF c g _ Suc.prems(2), of i] i(1) erase_sectors_Cons [of i "N fi + 1" busy fi h]
    by (subst erase_loop.simps) (simp add: add.commute)
qed

text \<open>The range from sector \<open>s\<close> to sector \<open>e - 1\<close> passes the checks.\<close>

lemma erase_range:
  assumes g: "geometry fi" and s: "s \<le> e" "e \<le> N fi" and a: "addr = of_nat (s * S fi)" "len = of_nat ((e - s) * S fi)"
  shows "addr + len = of_nat (e * S fi)" "\<not> addr + len > mtd_size fi"
    "len mod sector_size fi = 0" "addr mod sector_size fi = 0"
proof -
  have "s * S fi + (e - s) * S fi = e * S fi" using s(1) by (simp add: add_mult_distrib [symmetric])
  then show al: "addr + len = of_nat (e * S fi)" unfolding a by (metis of_nat_add)
  show "\<not> addr + len > mtd_size fi"
    unfolding al mtd_size_nat [OF g] using sector_le(1) [OF g, of e "N fi"] s by (simp add: not_less)
  have "of_nat (k * S fi) mod sector_size fi = 0" if "k \<le> N fi" for k
    using unat_sector(2) [OF g, of k] that by (simp add: word_unat_eq_iff unat_mod del: of_nat_mult)
  note m = this
  show "len mod sector_size fi = 0" unfolding a by (rule m) (use s in simp)
  show "addr mod sector_size fi = 0" unfolding a by (rule m) (use s in simp)
qed

lemma erase_cases:
  assumes c: "chip_ok busy rx" and g: "geometry fi" and s: "s < e" "e \<le> N fi" and h: "ended h"
  shows "str8131_spiflash_erase rx fi (of_nat (s * S fi)) (of_nat ((e - s) * S fi)) h =
    Some (0, Some MTD_ERASE_DONE,
      if e < N fi then erase_sectors busy fi s e h
      else if s = 0 \<or> s + 1 = N fi then erased busy 0 h else h)"
proof -
  let ?a = "of_nat (s * S fi) :: u32" and ?l = "of_nat ((e - s) * S fi) :: u32"
  note r = erase_range [OF g less_imp_le [OF s(1)] s(2) refl refl]
  define t where "t = (if s + 1 < N fi then s else 0)"
  have st: "find_start fi ?a 0 = of_nat t" using find_start_eq [OF g, of s 0] s by (simp add: t_def)
  have t: "t \<le> s" "t \<le> N fi + 1" "t < N fi" using s by (auto simp: t_def)
  have en: "find_end fi ?a ?l (unat (of_nat t :: u32)) = (if e < N fi then of_nat (e - 1) else 0)"
    using find_end_eq [OF g s(2) _ r(1), of t] t s unat_index [OF g t(2)]
    by (simp add: of_nat_diff del: of_nat_mult)
  have "erase_loop rx fi (of_nat t) (if e < N fi then of_nat (e - 1) else 0) h =
    Some (True, if e < N fi then erase_sectors busy fi s e h else if t = 0 then erased busy 0 h else h)"
  proof (cases "e < N fi")
    case True
    then have "t = s" using s by (simp add: t_def)
    then show ?thesis using True erase_loop_ok [OF c g _ _ h, of "e - 1" s] s by simp
  next
    case False
    then show ?thesis using erase_loop_end_0 [OF c g t(3) h] by simp
  qed
  moreover have "t = 0 \<longleftrightarrow> s = 0 \<or> s + 1 = N fi" using s by (auto simp: t_def)
  ultimately show ?thesis
    unfolding str8131_spiflash_erase_def
    using r(2-4) by (simp add: st en Let_def del: of_nat_mult)
qed

section \<open>Programming and reading\<close>

text \<open>The history after the program command for a page.\<close>

definition programmed :: "(transfer list \<Rightarrow> nat) \<Rightarrow> u32 \<Rightarrow> bytes \<Rightarrow> transfer list \<Rightarrow> transfer list" where
  "programmed busy a d h = enabled busy h @ frames (((0, SPI_FLASH_PP_OPCODE) # addr_bytes 0 a) @
     map (\<lambda>b. (0, ucast b)) (butlast d) @ [(1, ucast (last d))])"

lemma ended_programmed [simp]: "ended (programmed busy a d h)"
  by (simp add: programmed_def ended_def frames_def)

text \<open>The pages of a block, with their addresses.\<close>

function page_chunks :: "nat \<Rightarrow> nat \<Rightarrow> bytes \<Rightarrow> (nat \<times> bytes) list" where
  "page_chunks p a d = (if d = [] \<or> p = 0 then [] else (a, take p d) # page_chunks p (a + p) (drop p d))"
  by pat_completeness auto

termination
  by (relation "measure (\<lambda>(_, _, d). length d)") auto

declare page_chunks.simps [simp del]

definition program_pages :: "(transfer list \<Rightarrow> nat) \<Rightarrow> nat \<Rightarrow> nat \<Rightarrow> bytes \<Rightarrow> transfer list \<Rightarrow> transfer list" where
  "program_pages busy p a d h = fold (\<lambda>(a, d). programmed busy (of_nat a) d) (page_chunks p a d) h"

lemma page_program_ok:
  assumes c: "chip_ok busy rx" and h: "ended h" and d: "d \<noteq> []" "length d \<le> unat (page_size fi)"
    and a: "a mod unat (page_size fi) = 0" "a + length d \<le> unat (pages fi) * unat (page_size fi)"
    and fits: "unat (pages fi) * unat (page_size fi) < 2 ^ 32"
  shows "Spi_Flash_Page_Program_Data_Bytes rx fi 0 (of_nat a) d h = Some (True, programmed busy (of_nat a) d h)"
proof -
  let ?P = "unat (page_size fi)" and ?l = "length d"
  have l0: "0 < ?l" using d(1) by simp
  have u: "unat (of_nat k :: u32) = k" if "k \<le> unat (pages fi) * ?P" for k
    using that fits by (simp add: unat_of_nat take_bit_nat_eq_self)
  have size: "unat (pages fi * page_size fi) = unat (pages fi) * ?P"
    using fits by (simp add: unat_word_ariths)
  have "unat (of_nat ?l :: u32) = ?l" using u a(2) by simp
  then have 1: "\<not> (of_nat ?l :: u32) > page_size fi" using d(2) by (simp add: word_less_nat_alt)
  have sum: "(of_nat a + of_nat ?l :: u32) = of_nat (a + ?l)" by simp
  have 2: "\<not> (of_nat a + of_nat ?l :: u32) > pages fi * page_size fi"
    unfolding sum using u [of "a + ?l"] a(2) size by (simp add: word_less_nat_alt del: of_nat_add)
  have last: "(of_nat a + of_nat ?l - 1 :: u32) = of_nat (a + ?l - 1)"
  proof -
    have "(of_nat (a + ?l) :: u32) = of_nat (a + ?l - 1) + 1" using l0 by (metis Suc_pred' add_gr_0 of_nat_Suc add.commute)
    then show ?thesis by simp
  qed
  have "(a + ?l - 1) div ?P = a div ?P"
  proof -
    obtain q where q: "a = ?P * q" using a(1) by (auto simp: mod_eq_0_iff_dvd elim: dvdE)
    have "?l - 1 < ?P" using d(2) l0 by linarith
    moreover have "a + ?l - 1 = ?l - 1 + ?P * q" using q l0 by linarith
    ultimately show ?thesis using q by (simp only: div_mult_self2 div_less) simp
  qed
  then have 3: "(of_nat a :: u32) div page_size fi = (of_nat a + of_nat ?l - 1) div page_size fi"
    unfolding last using u [of a] u [of "a + ?l - 1"] a(2)
    by (simp add: word_unat_eq_iff unat_div del: of_nat_add of_nat_diff)
  show ?thesis
    unfolding Spi_Flash_Page_Program_Data_Bytes_def Let_def
    using 1 2 3 by (simp add: write_enable_ok [OF c h] send_frames programmed_def)
qed

lemma write_loop_ok:
  assumes c: "chip_ok busy rx" and P: "0 < unat (page_size fi)"
    and fits: "unat (pages fi) * unat (page_size fi) < 2 ^ 32"
    and a: "a mod unat (page_size fi) = 0" "a + length d \<le> unat (pages fi) * unat (page_size fi)" and h: "ended h"
  shows "write_loop rx fi (of_nat a) d k h =
    Some (True, k + length d, program_pages busy (unat (page_size fi)) a d h)"
  using a h
proof (induction "length d" arbitrary: a d k h rule: less_induct)
  case less
  let ?P = "unat (page_size fi)"
  show ?case
  proof (cases "d = []")
    case True
    then show ?thesis by (subst write_loop.simps) (simp add: program_pages_def page_chunks.simps)
  next
    case False
    let ?n = "if length d \<ge> ?P then ?P else length d"
    have n: "take ?n d = take ?P d" "drop ?n d = drop ?P d" "?n \<le> length d" "0 < ?n"
      using P False by auto
    have pg: "program_pages busy ?P a d h = program_pages busy ?P (a + ?P) (drop ?P d) (programmed busy (of_nat a) (take ?P d) h)"
      using False P by (simp add: program_pages_def page_chunks.simps [of ?P a d])
    have prog: "Spi_Flash_Page_Program_Data_Bytes rx fi 0 (of_nat a) (take ?P d) h =
        Some (True, programmed busy (of_nat a) (take ?P d) h)"
      using page_program_ok [OF c less.prems(3) _ _ less.prems(1) _ fits, of "take ?P d"] False P less.prems(2) by simp
    have step: "write_loop rx fi (of_nat a) d k h =
        write_loop rx fi (of_nat (a + ?n)) (drop ?P d) (k + ?n) (programmed busy (of_nat a) (take ?P d) h)"
      using False by (subst write_loop.simps) (simp add: Let_def n(1,2) prog)
    show ?thesis
    proof (cases "length d \<ge> ?P")
      case True
      have "length (drop ?P d) < length d" using P False by simp
      moreover have "(a + ?P) mod ?P = 0" using less.prems(1) by simp
      moreover have "a + ?P + length (drop ?P d) \<le> unat (pages fi) * ?P" using less.prems(2) True by simp
      ultimately show ?thesis
        using less.hyps [of "drop ?P d" "a + ?P"] step pg True by simp
    next
      case short: False
      then show ?thesis
        using step pg by (simp add: program_pages_def page_chunks.simps [of _ _ "[]"])
          (subst write_loop.simps, simp)
    qed
  qed
qed

lemma read_loop_eq:
  "read_loop rx 0 n out h =
     (out @ map (\<lambda>k. ucast (rx (h @ replicate (k + 1) (0, 0, 0xFF)) AND 0xFF)) [0..<n], h @ replicate n (0, 0, 0xFF))"
proof (induction n arbitrary: out h)
  case (Suc n)
  have "map (\<lambda>k. ucast (rx (h @ replicate (k + 1) (0, 0, 0xFF)) AND 0xFF)) [0..<Suc n] =
      ucast (rx (h @ [(0, 0, 0xFF)]) AND 0xFF) #
      map (\<lambda>k. ucast (rx ((h @ [(0, 0, 0xFF)]) @ replicate (k + 1) (0, 0, 0xFF)) AND 0xFF) :: u8) [0..<n]"
    by (subst upt_conv_Cons) (auto simp: map_Suc_upt [symmetric] simp del: upt_Suc)
  then show ?case
    by (simp add: Spi_Flash_Buffer_Transmit_Receive_def Let_def Suc del: upt_Suc)
qed simp

text \<open>The command that starts a read at an address, with its dummy byte.\<close>

definition read_frames :: "u32 \<Rightarrow> transfer list" where
  "read_frames a = frames (((0, SPI_FLASH_FAST_READ_OPCODE) # addr_bytes 0 a) @ [(0, drop_bit 0 a AND 0xFF)])"

text \<open>The bytes the chip shifts out after that command: the last one ends the frame.\<close>

definition shifted :: "chip \<Rightarrow> transfer list \<Rightarrow> nat \<Rightarrow> nat \<Rightarrow> u8" where
  "shifted rx h len k = ucast (rx (h @ (if k + 1 < len then replicate (k + 1) (0, 0, 0xFF)
     else replicate k (0, 0, 0xFF) @ [(0, 1, 0xFF)])) AND 0xFF)"

lemma read_data_ok:
  assumes c: "chip_ok busy rx" and h: "ended h" and l: "0 < len" "len < 2 ^ 32"
  shows "Spi_Flash_Read_Data_Bytes rx 0 a (of_nat len) h =
    (let h = h @ polls (Suc (busy h)) @ read_frames a in
     Some (map (shifted rx h len) [0..<len], h @ replicate (len - 1) (0, 0, 0xFF) @ [(0, 1, 0xFF)]))"
proof -
  obtain n where n: "len = Suc n" using l(1) by (cases len) auto
  have u: "unat (of_nat n :: u32) = n" using l(2) n by (simp add: unat_of_nat take_bit_nat_eq_self)
  have "map (\<lambda>k. ucast (rx (g @ replicate (k + 1) (0, 0, 0xFF)) AND 0xFF)) [0..<n] = map (shifted rx g len) [0..<n]" for g
    by (rule map_cong) (auto simp: shifted_def n)
  then have "read_loop rx 0 n [] g = (map (shifted rx g len) [0..<n], g @ replicate n (0, 0, 0xFF))" for g
    by (simp only: read_loop_eq append_Nil)
  moreover have "ucast (rx (g @ replicate n (0, 0, 0xFF) @ [(0, 1, 0xFF)]) AND 0xFF) = shifted rx g len n" for g
    by (simp add: shifted_def n)
  ultimately show ?thesis
    by (simp add: Spi_Flash_Read_Data_Bytes_def wait_ready_ok [OF c h] send_frames n u Let_def
        read_frames_def frames_def Spi_Flash_Buffer_Transmit_Receive_def)
qed

section \<open>Properties\<close>

text \<open>
  A chip that is busy for three status reads after an erase command, sets its write enable latch
  when asked to, and holds only \<open>0x5A\<close>. The status reads at the end of the history, the last first:
\<close>

fun unpolls :: "transfer list \<Rightarrow> nat \<times> transfer list" where
  "unpolls (x # y # r) =
     (if x = (0, 1, 0xFF) \<and> y = (0, 0, 0x05) then (let (c, r) = unpolls r in (c + 1, r)) else (0, x # y # r))"
| "unpolls r = (0, r)"

definition erasing :: "transfer list \<Rightarrow> bool" where
  "erasing r \<longleftrightarrow> length r > 3 \<and> r ! 3 = (0, 0, 0xD8)"

definition sample_chip :: chip where
  "sample_chip h = (let (c, r) = unpolls (rev h) in
     if c = 0 then 0x5A else if erasing r \<and> c \<le> 3 then 1 else if r \<noteq> [] \<and> hd r = (0, 1, 0x06) then 2 else 0)"

definition sample_busy :: "transfer list \<Rightarrow> nat" where
  "sample_busy h = (let (c, r) = unpolls (rev h) in if erasing r then 3 - c else 0)"

definition sample_info :: spi_flash_info where
  "sample_info = \<lparr>sectors = 64, sector_size = 0x10000, pages = 16384, page_size = 256\<rparr>"

lemma unpolls_polls: "unpolls (rev (polls n) @ rev h) = (fst (unpolls (rev h)) + n, snd (unpolls (rev h)))"
proof (induction n)
  case (Suc n)
  then show ?case by (simp add: polls_Suc poll_def case_prod_unfold)
qed (simp add: polls_def)

lemma sample_chip_ok: "chip_ok sample_busy sample_chip"
proof -
  have "bit (sample_chip (h @ polls (Suc k))) 0" if "k < sample_busy h" for h k
    using that by (auto simp: sample_chip_def sample_busy_def unpolls_polls case_prod_unfold Let_def split: if_splits)
  moreover have "\<not> bit (sample_chip (h @ polls (Suc (sample_busy h)))) 0" for h
    by (auto simp: sample_chip_def sample_busy_def unpolls_polls case_prod_unfold Let_def bit_simps)
  moreover have "bit (sample_chip (h @ poll @ (0, 1, 6) # poll)) 1" if "ended h" for h
  proof -
    have "unpolls (rev (h @ poll @ (0, 1, 6) # poll)) = (1, (0, 1, 6) # (0, 1, 0xFF) # (0, 0, 5) # rev h)"
      by (simp add: poll_def)
    moreover have "\<not> erasing ((0, 1, 6) # (0, 1, 0xFF) # (0, 0, 5) # rev h)"
      using that by (cases "rev h") (auto simp: erasing_def ended_def numeral_eq_Suc dest: arg_cong [of _ _ last])
    ultimately show ?thesis by (simp add: sample_chip_def bit_simps)
  qed
  ultimately show ?thesis by (simp add: chip_ok_def)
qed

lemma sample_geometry: "geometry sample_info"
  by (simp add: geometry_def sample_info_def)

text \<open>
  A chip that the probe accepts has the geometry the driver's arithmetic relies on: its
  size, and one sector more, fits 32 bits, and pages divide sectors.
\<close>

theorem spiflash_probe_geometry:
  "spiflash_probe rx fi h = Some (0, fi', h') \<Longrightarrow> geometry fi'"
  by (auto simp: spiflash_probe_def geometry_def Let_def split: Option.bind_splits prod.splits if_splits)

theorem spiflash_probe_geometry_witness:
  "\<exists>fi' h'. spiflash_probe (\<lambda>h. if length h = 4 then 0x20 else if length h = 5 then 0x20 else if length h = 6 then 0x16 else 0) sample_info [] = Some (0, fi', h') \<and>
     geometry fi'"
proof -
  let ?rx = "\<lambda>h :: transfer list. if length h = 4 then 0x20 else if length h = 5 then 0x20 else if length h = 6 then 0x16 else (0 :: u32)"
  have "wait_ready ?rx 0 [] = Some poll"
    by (subst wait_ready.simps) (simp add: Spi_Flash_Is_Flash_Ready_def read_status poll_def)
  then have "spiflash_probe ?rx sample_info [] = Some (0, sample_info, poll @ [(0, 0, 0x9F), (0, 0, 0xFF), (0, 0, 0xFF), (0, 1, 0xFF)])"
    by (simp add: spiflash_probe_def Spi_Flash_Read_Identification_def send_frames frames_def poll_def
        Spi_Flash_Buffer_Transmit_Receive_def Let_def sample_info_def)
  then show ?thesis using spiflash_probe_geometry by blast
qed

text \<open>
  C30: Erasing the sectors \<open>s\<close> to \<open>e - 1\<close> of a chip, when the range ends before the chip does,
  sends the erase command for exactly these sectors, in order, and reports completion. Before
  each command the driver reads the status until the chip is ready, which may take any number of
  reads, \<open>busy\<close> of the history, sends the write enable command and checks the latch; this is all it
  sends. Conditions: between commands the chip is ready after finitely many status reads, and
  a ready chip sets the latch on a write enable; the last transfer before ended a command; the chip
  has more than one sector, its size and one sector more fit 32 bits, and pages divide sectors.
\<close>

theorem spiflash_erase_exact:
  assumes "chip_ok busy rx" "geometry fi" "s < e" "e < N fi" "ended h"
  shows "str8131_spiflash_erase rx fi (of_nat (s * S fi)) (of_nat ((e - s) * S fi)) h =
    Some (0, Some MTD_ERASE_DONE, erase_sectors busy fi s e h)"
  using erase_cases [OF assms(1-3)] assms(4,5) by simp

theorem spiflash_erase_exact_witness:
  "str8131_spiflash_erase sample_chip sample_info 0x20000 0x20000 [] =
     Some (0, Some MTD_ERASE_DONE,
       poll @ (0, 1, 0x06) # poll @ [(0, 0, 0xD8), (0, 0, 2), (0, 0, 0), (0, 1, 0)] @
       poll @ poll @ poll @ poll @ (0, 1, 0x06) # poll @ [(0, 0, 0xD8), (0, 0, 3), (0, 0, 0), (0, 1, 0)])"
proof -
  have f: "frames ((0, 0xD8) # addr_bytes 1 0x20000) = [(0, 0, 0xD8), (0, 0, 2), (0, 0, 0), (0, 1, 0)]"
    "frames ((0, 0xD8) # addr_bytes 1 0x30000) = [(0, 0, 0xD8), (0, 0, 3), (0, 0, 0), (0, 1, 0)]"
    by (simp_all add: frames_def addr_bytes_def drop_bit_eq_div)
  have b: "sample_busy [] = 0" by (simp add: sample_busy_def erasing_def)
  have b': "sample_busy (h @ [(0, 0, 0xD8), x, y, (0, 1, 0)]) = 3" for h x y
    by (simp add: sample_busy_def erasing_def)
  have "str8131_spiflash_erase sample_chip sample_info 0x20000 0x20000 [] =
      Some (0, Some MTD_ERASE_DONE, erase_sectors sample_busy sample_info 2 4 [])"
    using spiflash_erase_exact [OF sample_chip_ok sample_geometry, of 2 4 "[]"]
    by (simp add: sample_info_def ended_def)
  also have "erase_sectors sample_busy sample_info 2 4 [] = erased sample_busy 0x30000 (erased sample_busy 0x20000 [])"
    by (simp add: erase_sectors_def sample_info_def upt_conv_Cons)
  also have "erased sample_busy 0x20000 [] = (poll @ (0, 1, 0x06) # poll) @ [(0, 0, 0xD8), (0, 0, 2), (0, 0, 0), (0, 1, 0)]"
    by (simp add: erased_def enabled_def f b polls_def)
  finally show ?thesis
    by (simp only: erased_def enabled_def f b' polls_def) (simp add: numeral_eq_Suc)
qed

text \<open>
  A range that ends with the chip is not erased. The search for the last sector runs off the
  table and leaves 0, so no sector of the range is erased (one command is sent, for sector 0,
  when the range starts with sector 0 or is the last sector alone), and the driver still
  reports that the erase is done.
\<close>

theorem spiflash_erase_last_sector:
  assumes "chip_ok busy rx" "geometry fi" "s < N fi" "ended h"
  shows "str8131_spiflash_erase rx fi (of_nat (s * S fi)) (of_nat ((N fi - s) * S fi)) h =
    Some (0, Some MTD_ERASE_DONE, if s = 0 \<or> s + 1 = N fi then erased busy 0 h else h)"
  using erase_cases [OF assms(1-3) order_refl assms(4)] by simp

theorem spiflash_erase_last_sector_witness:
  "str8131_spiflash_erase sample_chip sample_info 0x3F0000 0x10000 [] = Some (0, Some MTD_ERASE_DONE, erased sample_busy 0 []) \<and>
   str8131_spiflash_erase sample_chip sample_info 0x3E0000 0x20000 [] = Some (0, Some MTD_ERASE_DONE, [])"
  using spiflash_erase_last_sector [OF sample_chip_ok sample_geometry, of 63 "[]"]
    spiflash_erase_last_sector [OF sample_chip_ok sample_geometry, of 62 "[]"]
  by (simp add: sample_info_def ended_def)

text \<open>
  An erase of length 0 at address 0 passes the checks, and erases the whole chip: the last
  sector is computed as \<open>0 - 1\<close> and every sector, and one beyond the chip, is erased before the
  driver reports a failure.
\<close>

theorem spiflash_erase_empty_range:
  assumes c: "chip_ok busy rx" and g: "geometry fi" and h: "ended h"
  shows "str8131_spiflash_erase rx fi 0 0 h =
    Some (- 5, Some MTD_ERASE_FAILED, erase_sectors busy fi 0 (N fi + 1) h)"
proof -
  have n: "1 < N fi" using g by (simp add: geometry_def)
  have "find_start fi 0 0 = 0" using find_start_eq [OF g, of 0 0] n by simp
  moreover have "find_end fi 0 0 0 = - 1" using n by (subst find_end.simps) simp
  ultimately show ?thesis
    using erase_loop_all [OF c g _ h, of 0] by (simp add: str8131_spiflash_erase_def)
qed

theorem spiflash_erase_empty_range_witness:
  "\<exists>h. str8131_spiflash_erase sample_chip sample_info 0 0 [] = Some (- 5, Some MTD_ERASE_FAILED, h) \<and>
     h = erase_sectors sample_busy sample_info 0 65 []"
  using spiflash_erase_empty_range [OF sample_chip_ok sample_geometry, of "[]"]
  by (simp add: sample_info_def ended_def)

text \<open>
  Writing a block that starts on a page boundary and lies in the chip programs its pages one
  by one, each with the bytes that belong to it, and returns 0 with the whole length written.
\<close>

theorem spiflash_write_pages:
  assumes c: "chip_ok busy rx" and g: "geometry fi" and h: "ended h"
    and a: "a mod unat (page_size fi) = 0" "a + length d \<le> N fi * S fi" and d: "d \<noteq> []"
  shows "str8131_spiflash_write rx fi a d h =
    Some (0, length d, program_pages busy (unat (page_size fi)) a d h)"
proof -
  have "unat (mtd_size fi) = N fi * S fi"
    using unat_sector(2) [OF g, of "N fi"] by (simp add: mtd_size_nat [OF g])
  moreover have "unat (pages fi) * unat (page_size fi) = N fi * S fi" "0 < unat (page_size fi)"
    using g by (simp_all add: geometry_def)
  moreover have "N fi * S fi < 2 ^ 32" using geometry_less [OF g, of "N fi"] by simp
  ultimately show ?thesis
    using write_loop_ok [OF c, of fi a d h 0] a d h by (simp add: str8131_spiflash_write_def)
qed

theorem spiflash_write_pages_witness:
  "str8131_spiflash_write sample_chip sample_info 512 [1, 2, 3] [] =
     Some (0, 3, poll @ (0, 1, 0x06) # poll @ [(0, 0, 2), (0, 0, 0), (0, 0, 2), (0, 0, 0), (0, 0, 1), (0, 0, 2), (0, 1, 3)])"
  using spiflash_write_pages [OF sample_chip_ok sample_geometry, of "[]" 512 "[1, 2, 3]"]
  by (simp add: sample_info_def program_pages_def page_chunks.simps programmed_def enabled_def frames_def addr_bytes_def
      drop_bit_eq_div ended_def sample_busy_def erasing_def polls_def)

text \<open>
  A read that lies in the chip returns 0 and exactly as many bytes as asked for, the bytes the
  chip shifts out after one fast read command for the address.
\<close>

theorem spiflash_read_bytes:
  assumes c: "chip_ok busy rx" and g: "geometry fi" and h: "ended h" and l: "0 < len" "from + len \<le> N fi * S fi"
  shows "\<exists>buf h'. str8131_spiflash_read rx fi from len h = Some (0, buf, h') \<and> length buf = len \<and>
    (\<forall>k<len. buf ! k = shifted rx (h @ polls (Suc (busy h)) @ read_frames (of_nat from)) len k)"
proof -
  have "unat (mtd_size fi) = N fi * S fi"
    using unat_sector(2) [OF g, of "N fi"] by (simp add: mtd_size_nat [OF g])
  moreover have "N fi * S fi < 2 ^ 32" using geometry_less [OF g, of "N fi"] by simp
  ultimately show ?thesis
    using read_data_ok [OF c h l(1), of "of_nat from"] l by (simp add: str8131_spiflash_read_def Let_def)
qed

theorem spiflash_read_bytes_witness:
  "\<exists>buf h'. str8131_spiflash_read sample_chip sample_info 0x1000 2 [] = Some (0, buf, h') \<and>
     length buf = 2 \<and> buf ! 0 = 0x5A \<and> buf ! 1 = 0x5A"
proof -
  have "shifted sample_chip ([] @ polls (Suc (sample_busy [])) @ read_frames (of_nat 4096)) 2 k = 0x5A" if "k < 2" for k
    using that by (simp add: less_2_cases_iff, elim disjE)
      (simp_all add: shifted_def sample_chip_def read_frames_def frames_def addr_bytes_def poll_def polls_def)
  moreover have "ended []" "0 < (2 :: nat)" "4096 + 2 \<le> N sample_info * S sample_info" by (simp_all add: sample_info_def ended_def)
  ultimately show ?thesis
    using spiflash_read_bytes [OF sample_chip_ok sample_geometry, of "[]" 2 4096] by force
qed

end
