(* ===== verification/Switch.thy ===== *)
theory Switch
  imports Prelude
begin

text \<open>
  The port states of the RTL8306 switch, as the network driver of the kernel handles them
  (\<open>drivers/net/str9100/star_gsw_phy.c\<close>): the transactions on the management bus, the paged
  register file, the 802.1d state of a port as a two-bit field of one register, and the files
  under \<open>/proc/str9100\<close> through which programs block and unblock ports.

  The hardware is the record \<open>gsw\<close>: the address extension register of the bus engine, the page
  select register of the switch (register 16 of PHY 0, reached from every page) and the paged
  registers. The bus engine is the decoder \<open>bus_engine\<close>. It takes its time: the \<open>n\<close>-th transaction
  since the start completes after \<open>latency n\<close> polls of the driver, and one the driver gives up on,
  after 0x1000 polls, is dropped when the next command is written. A read that timed out leaves
  the variable of the caller as it was, and most callers do not look; what such a variable holds
  when it was never written is \<open>leftover\<close>. Where a lemma needs an engine that completes in time,
  \<open>prompt\<close> is its hypothesis.
\<close>

section \<open>The management bus\<close>

record gsw =
  GSW_QUEUE_STATUS_TEST_1 :: u32
  page_select :: u16
  paged :: "u32 \<times> u8 \<times> u8 \<Rightarrow> u16"
  transactions :: nat
  latency :: "nat \<Rightarrow> nat"
  leftover :: "nat \<Rightarrow> u16"

text \<open>The page that bits 15 and 1 of the page select register choose.\<close>

definition page_of :: "u16 \<Rightarrow> u32" where
  "page_of r = (if bit r 15 then (if bit r 1 then 1 else 3) else (if bit r 1 then 0 else 2))"

definition phy_read :: "u8 \<Rightarrow> u8 \<Rightarrow> gsw \<Rightarrow> u16" where
  "phy_read a r g = (if a = 0 \<and> r = 16 then page_select g else paged g (page_of (page_select g), a, r))"

definition phy_write :: "u8 \<Rightarrow> u8 \<Rightarrow> u16 \<Rightarrow> gsw \<Rightarrow> gsw" where
  "phy_write a r v g = (if a = 0 \<and> r = 16 then g\<lparr>page_select := v\<rparr>
     else g\<lparr>paged := (paged g)((page_of (page_select g), a, r) := v)\<rparr>)"

text \<open>
  What the engine does with a command word in \<open>GSW_PHY_CONTROL\<close>: bit 0 is the low bit of the PHY
  address (the others are in \<open>GSW_QUEUE_STATUS_TEST_1\<close>), bits 8 to 12 the register, bit 13 asks
  for a write of the upper half, bit 14 for a read into it; bit 15 reports completion.
\<close>

definition bus_engine :: "u32 \<Rightarrow> gsw \<Rightarrow> u32 \<times> gsw" where
  "bus_engine cmd g =
     (let a = ucast (push_bit 1 (drop_bit 16 (GSW_QUEUE_STATUS_TEST_1 g) AND 0xF) OR (cmd AND 1));
          r = ucast (drop_bit 8 cmd AND 0x1F)
      in if bit cmd 13 then (push_bit 15 1, phy_write a r (ucast (drop_bit 16 cmd)) g)
         else if bit cmd 14 then (push_bit 15 1 OR push_bit 16 (ucast (phy_read a r g)), g)
         else (0, g))"

text \<open>The end of a transaction, and what a variable that was never written holds before it.\<close>

definition tick :: "gsw \<Rightarrow> gsw" where
  "tick g = g\<lparr>transactions := transactions g + 1\<rparr>"

definition junk :: "gsw \<Rightarrow> u16" where
  "junk g = leftover g (transactions g)"

text \<open>The polling loop after a command, with \<open>n\<close> polls left after \<open>i\<close> ones; \<open>None\<close> is the time-out.\<close>

fun poll_rw_ok :: "nat \<Rightarrow> nat \<Rightarrow> u32 \<Rightarrow> gsw \<Rightarrow> u32 option \<times> gsw" where
  "poll_rw_ok 0 i cmd g = (None, tick g)"
| "poll_rw_ok (Suc n) i cmd g =
     (let (status, g') = (if i < latency g (transactions g) then (0, g) else bus_engine cmd g)
      in if status AND push_bit 15 1 \<noteq> 0 then (Some status, tick g') else poll_rw_ok n (i + 1) cmd g')"

abbreviation (input) POLLS :: nat where "POLLS \<equiv> 0x1000"

definition set_phy_addr :: "u8 \<Rightarrow> gsw \<Rightarrow> gsw" where
  "set_phy_addr phy_addr g =
     (let g = g\<lparr>GSW_QUEUE_STATUS_TEST_1 := GSW_QUEUE_STATUS_TEST_1 g AND NOT (push_bit 16 0xF)\<rparr>
      in g\<lparr>GSW_QUEUE_STATUS_TEST_1 := GSW_QUEUE_STATUS_TEST_1 g OR push_bit 16 (ucast (drop_bit 1 phy_addr AND 0xF))\<rparr>)"

definition star_gsw_read_phy :: "u8 \<Rightarrow> u8 \<Rightarrow> u16 \<Rightarrow> gsw \<Rightarrow> bool \<times> u16 \<times> gsw" where
  "star_gsw_read_phy phy_addr phy_reg read_data g =
     (let g = set_phy_addr phy_addr g
      in case poll_rw_ok POLLS 0 (ucast (phy_addr AND 1) OR push_bit 8 (ucast (phy_reg AND 0x1F)) OR push_bit 14 1) g of
           (Some status, g) \<Rightarrow> (True, ucast (drop_bit 16 status AND 0xFFFF), g)
         | (None, g) \<Rightarrow> (False, read_data, g))"

definition star_gsw_write_phy :: "u8 \<Rightarrow> u8 \<Rightarrow> u16 \<Rightarrow> gsw \<Rightarrow> bool \<times> gsw" where
  "star_gsw_write_phy phy_addr phy_reg write_data g =
     (let g = set_phy_addr phy_addr g;
          (status, g) = poll_rw_ok POLLS 0 (ucast (phy_addr AND 1) OR push_bit 8 (ucast (phy_reg AND 0x1F)) OR
             push_bit 13 1 OR push_bit 16 (ucast write_data AND 0xFFFF)) g
      in (status \<noteq> None, g))"

section \<open>The paged registers\<close>

abbreviation (input) RTL8306_PHY_NUMBER :: u32 where "RTL8306_PHY_NUMBER \<equiv> 7"
abbreviation (input) RTL8306_REGSPERPAGE :: u32 where "RTL8306_REGSPERPAGE \<equiv> 32"
abbreviation (input) RTL8306_PAGE_NUMBER :: u32 where "RTL8306_PAGE_NUMBER \<equiv> 4"
abbreviation (input) RTL8306_PORT5 :: u32 where "RTL8306_PORT5 \<equiv> 5"
abbreviation (input) RTL8306_SPAN_BLOCK :: u32 where "RTL8306_SPAN_BLOCK \<equiv> 1"
abbreviation (input) RTL8306_SPAN_FORWARD :: u32 where "RTL8306_SPAN_FORWARD \<equiv> 3"

text \<open>The selection of a page: read-modify-write of the page select register.\<close>

definition select_value :: "u32 \<Rightarrow> u16 \<Rightarrow> u16" where
  "select_value npage rdata =
     (if npage = 0 then (rdata AND 0x7FFF) OR 0x0002
      else if npage = 1 then rdata OR 0x8002
      else if npage = 2 then rdata AND 0x7FFD
      else (rdata AND 0xFFFD) OR 0x8000)"

definition select_page :: "u32 \<Rightarrow> gsw \<Rightarrow> gsw" where
  "select_page npage g =
     (case star_gsw_read_phy 0 16 (junk g) g of (_, rdata, g) \<Rightarrow>
        snd (star_gsw_write_phy 0 16 (select_value npage rdata) g))"

text \<open>The value is stored through a pointer: \<open>pvalue\<close> is what was there before.\<close>

definition rtl8306_getAsicPhyReg :: "u32 \<Rightarrow> u32 \<Rightarrow> u32 \<Rightarrow> u32 \<Rightarrow> gsw \<Rightarrow> bool \<times> u32 \<times> gsw" where
  "rtl8306_getAsicPhyReg phyad regad npage pvalue g =
     (if phyad \<ge> RTL8306_PHY_NUMBER \<or> regad \<ge> RTL8306_REGSPERPAGE \<or> npage \<ge> RTL8306_PAGE_NUMBER
      then (False, pvalue, g)
      else case star_gsw_read_phy (ucast phyad) (ucast regad) (ucast pvalue) (select_page npage g) of
        (_, v, g) \<Rightarrow> (True, ucast v AND 0xFFFF, g))"

definition rtl8306_setAsicPhyReg :: "u32 \<Rightarrow> u32 \<Rightarrow> u32 \<Rightarrow> u32 \<Rightarrow> gsw \<Rightarrow> bool \<times> gsw" where
  "rtl8306_setAsicPhyReg phyad regad npage value g =
     (if phyad \<ge> RTL8306_PHY_NUMBER \<or> regad \<ge> RTL8306_REGSPERPAGE \<or> npage \<ge> RTL8306_PAGE_NUMBER then (False, g)
      else (True, snd (star_gsw_write_phy (ucast phyad) (ucast regad) (ucast (value AND 0xFFFF)) (select_page npage g))))"

definition rtl8306_setAsicPhyRegBit :: "u32 \<Rightarrow> u32 \<Rightarrow> u32 \<Rightarrow> u32 \<Rightarrow> u32 \<Rightarrow> gsw \<Rightarrow> bool \<times> gsw" where
  "rtl8306_setAsicPhyRegBit phyad regad b npage value g =
     (if phyad \<ge> RTL8306_PHY_NUMBER \<or> regad \<ge> RTL8306_REGSPERPAGE \<or> npage \<ge> RTL8306_PAGE_NUMBER \<or>
         b > 15 \<or> value > 1 then (False, g)
      else case rtl8306_getAsicPhyReg phyad regad npage (ucast (junk g)) g of
        (_, rdata, g) \<Rightarrow>
          (True, snd (rtl8306_setAsicPhyReg phyad regad npage
             (if value \<noteq> 0 then rdata OR push_bit (unat b) 1 else rdata AND NOT (push_bit (unat b) 1)) g)))"

definition rtl8306_getAsicPhyRegBit :: "u32 \<Rightarrow> u32 \<Rightarrow> u32 \<Rightarrow> u32 \<Rightarrow> gsw \<Rightarrow> u32 option \<times> gsw" where
  "rtl8306_getAsicPhyRegBit phyad regad b npage g =
     (if phyad \<ge> RTL8306_PHY_NUMBER \<or> regad \<ge> RTL8306_REGSPERPAGE \<or> npage \<ge> RTL8306_PAGE_NUMBER \<or> b > 15
      then (None, g)
      else case rtl8306_getAsicPhyReg phyad regad npage (ucast (junk g)) g of
        (_, rdata, g) \<Rightarrow> (Some (if rdata AND push_bit (unat b) 1 \<noteq> 0 then 1 else 0), g))"

section \<open>Port states\<close>

definition rtl8306_setAsic1dPortState :: "u32 \<Rightarrow> u32 \<Rightarrow> gsw \<Rightarrow> bool \<times> gsw" where
  "rtl8306_setAsic1dPortState port state g =
     (if port > RTL8306_PORT5 \<or> state > RTL8306_SPAN_FORWARD then (False, g)
      else let g = snd (rtl8306_setAsicPhyRegBit 2 21 6 3 1 g);
               (_, regValue, g) = rtl8306_getAsicPhyReg 4 21 3 (ucast (junk g)) g;
               regValue = (regValue AND NOT (push_bit (2 * unat port) 3)) OR push_bit (2 * unat port) state
           in (True, snd (rtl8306_setAsicPhyReg 4 21 3 regValue g)))"

definition rtl8306_getAsic1dPortState :: "u32 \<Rightarrow> gsw \<Rightarrow> u32 option \<times> gsw" where
  "rtl8306_getAsic1dPortState port g =
     (if port > RTL8306_PORT5 then (None, g)
      else case rtl8306_getAsicPhyReg 4 21 3 (ucast (junk g)) g of
        (_, regValue, g) \<Rightarrow> (Some (drop_bit (2 * unat port) (regValue AND push_bit (2 * unat port) 3)), g))"

text \<open>The write and read functions of the files in \<open>/proc/str9100\<close>.\<close>

definition port_char :: "char \<Rightarrow> u32 option" where
  "port_char = map_of [(CHR ''0'', 0), (CHR ''1'', 1), (CHR ''2'', 2), (CHR ''3'', 3), (CHR ''5'', 5)]"

definition set_port_text :: "u32 \<Rightarrow> string \<Rightarrow> gsw \<Rightarrow> gsw" where
  "set_port_text state buffer g =
     (case buffer of [] \<Rightarrow> g
      | c # _ \<Rightarrow> (case port_char c of None \<Rightarrow> g | Some p \<Rightarrow> snd (rtl8306_setAsic1dPortState p state g)))"

definition star_switch_set_port_enable :: "string \<Rightarrow> gsw \<Rightarrow> nat \<times> gsw" where
  "star_switch_set_port_enable buffer g = (length buffer, set_port_text RTL8306_SPAN_FORWARD buffer g)"

definition star_switch_set_port_disable :: "string \<Rightarrow> gsw \<Rightarrow> nat \<times> gsw" where
  "star_switch_set_port_disable buffer g = (length buffer, set_port_text RTL8306_SPAN_BLOCK buffer g)"

text \<open>
  The text of \<open>switch_get_port_link_status\<close>, from the status registers (register 1 of PHY 0 to 3);
  the function reports two bytes more than it formats: a NUL and one left in the page.
\<close>

fun link_chars :: "u8 list \<Rightarrow> u16 \<Rightarrow> gsw \<Rightarrow> string \<times> gsw" where
  "link_chars [] phy_data g = ([], g)"
| "link_chars (p # ps) phy_data g =
     (let (_, phy_data, g) = star_gsw_read_phy p 1 phy_data g;
          c = (if phy_data AND 0x0004 \<noteq> 0 then CHR ''1'' else CHR ''0'');
          (cs, g) = link_chars ps phy_data g
      in (c # CHR '';'' # cs, g))"

definition star_switch_get_port_link_status :: "char \<Rightarrow> gsw \<Rightarrow> string \<times> gsw" where
  "star_switch_get_port_link_status residue g =
     (let (text, g) = link_chars [0, 1, 2, 3] (junk g) g in (text @ [CHR 0x00, residue], g))"

text \<open>The text of \<open>switch_port_enable\<close>: the states of the ports 3, 2, 1 and 0, and a NUL.\<close>

fun state_chars :: "u32 list \<Rightarrow> u32 \<Rightarrow> string \<Rightarrow> gsw \<Rightarrow> string \<times> gsw" where
  "state_chars [] tmp tmpBuf g = (tmpBuf, g)"
| "state_chars (i # is) tmp tmpBuf g =
     (let (v, g) = rtl8306_getAsic1dPortState i g;
          tmp = (case v of Some v \<Rightarrow> v | None \<Rightarrow> tmp)
      in state_chars is tmp (tmpBuf[3 - unat i := char_of (unat tmp + 48)]) g)"

definition star_switch_get_port_enable :: "gsw \<Rightarrow> string \<times> gsw" where
  "star_switch_get_port_enable g = state_chars [0, 1, 2, 3] 0 (replicate 5 (CHR 0x00)) g"

section \<open>The bus and the register file\<close>

lemma mask_constants:
  "(0xF :: u32) = mask 4" "(0xF :: u8) = mask 4" "(0x1F :: u32) = mask 5" "(0x1F :: u8) = mask 5"
  "(0xFFFF :: u32) = mask 16" "(1 :: u32) = mask 1" "(1 :: u8) = mask 1"
  by (simp_all add: mask_eq_exp_minus_1)

lemmas word_bits = bit_or_iff bit_and_iff bit_push_bit_iff bit_drop_bit_eq comp_apply bit_unsigned_iff
  bit_mask_iff bit_not_iff

lemma small_bits: "(a :: u8) < 32 \<Longrightarrow> bit a n \<Longrightarrow> n < 5"
proof (rule ccontr)
  assume a: "a < 32" "bit a n" "\<not> n < 5"
  have "unat a < 2 ^ 5" using a(1) by (simp add: word_less_nat_alt)
  then have "take_bit 5 a = a" by (simp only: word_unat_eq_iff unsigned_take_bit_eq take_bit_nat_eq_self)
  then show False using a(2,3) by (metis bit_take_bit_iff)
qed

lemma decode_addr:
  assumes "(a :: u8) < 32" "bit cmd 0 = bit a 0"
  shows "ucast (push_bit 1 (drop_bit 16 (GSW_QUEUE_STATUS_TEST_1 (set_phy_addr a g)) AND 0xF) OR ((cmd :: u32) AND 1)) = a"
proof (rule bit_word_eqI)
  fix n :: nat assume "n < LENGTH(8)"
  then show "bit (ucast (push_bit 1 (drop_bit 16 (GSW_QUEUE_STATUS_TEST_1 (set_phy_addr a g)) AND 0xF) OR (cmd AND 1)) :: u8) n = bit a n"
    using assms(2) small_bits [OF assms(1), of n] unfolding set_phy_addr_def Let_def mask_constants
    by (cases n) (auto simp only: word_bits gsw.simps, auto simp: bit_simps)
qed

lemma decode_reg:
  assumes "(r :: u8) < 32" "\<And>n. n < 5 \<Longrightarrow> bit cmd (8 + n) = bit r n"
  shows "ucast (drop_bit 8 (cmd :: u32) AND 0x1F) = r"
proof (rule bit_word_eqI)
  fix n :: nat assume "n < LENGTH(8)"
  then show "bit (ucast (drop_bit 8 cmd AND 0x1F) :: u8) n = bit r n"
    using assms(2) [of n] small_bits [OF assms(1), of n] unfolding mask_constants word_bits
    by auto
qed

text \<open>An engine that completes every transaction before the driver gives up.\<close>

definition prompt :: "gsw \<Rightarrow> bool" where
  "prompt g \<longleftrightarrow> (\<forall>n. latency g n < POLLS)"

lemma prompt_keeps [simp]:
  "prompt (tick g) = prompt g" "prompt (set_phy_addr a g) = prompt g"
  "prompt (phy_write a r v g) = prompt g" "prompt (g\<lparr>page_select := v\<rparr>) = prompt g"
  by (simp_all add: prompt_def tick_def set_phy_addr_def phy_write_def Let_def)

lemma poll_waits:
  assumes "bus_engine cmd g = (status, g')" "status AND push_bit 15 1 \<noteq> 0"
    and "i \<le> latency g (transactions g)" "latency g (transactions g) < i + n"
  shows "poll_rw_ok n i cmd g = (Some status, tick g')"
  using assms(3,4)
proof (induction n arbitrary: i)
  case (Suc n)
  show ?case
  proof (cases "i < latency g (transactions g)")
    case True
    then show ?thesis using Suc by simp
  next
    case False
    then show ?thesis using assms(1,2) by simp
  qed
qed simp

lemma poll_prompt:
  assumes "prompt g" "bus_engine cmd g = (status, g')" "status AND push_bit 15 1 \<noteq> 0"
  shows "poll_rw_ok POLLS 0 cmd g = (Some status, tick g')"
  using assms(1) poll_waits [OF assms(2,3), of 0 POLLS] by (simp add: prompt_def)

lemma read_phy:
  assumes "prompt g" "a < 32" "r < 32"
  shows "star_gsw_read_phy a r old g = (True, phy_read a r g, tick (set_phy_addr a g))"
proof -
  let ?cmd = "ucast (a AND 1) OR push_bit 8 (ucast (r AND 0x1F)) OR push_bit 14 1 :: u32"
  have c: "bit ?cmd 0 = bit a 0" "\<And>n. n < 5 \<Longrightarrow> bit ?cmd (8 + n) = bit r n" "\<not> bit ?cmd 13" "bit ?cmd 14"
    unfolding mask_constants word_bits by auto
  have d: "ucast (drop_bit 8 ?cmd AND 0x1F) = r" by (rule decode_reg [OF assms(3) c(2)])
  have v: "phy_read a r (set_phy_addr a g) = phy_read a r g" by (simp add: phy_read_def set_phy_addr_def Let_def)
  have "bus_engine ?cmd (set_phy_addr a g) = (push_bit 15 1 OR push_bit 16 (ucast (phy_read a r g)), set_phy_addr a g)"
    by (simp only: bus_engine_def Let_def decode_addr [OF assms(2) c(1)] d c(3,4) if_True if_False v)
  moreover have st: "(push_bit 15 1 OR push_bit 16 (ucast (w :: u16))) AND push_bit 15 1 \<noteq> (0 :: u32)" for w
  proof
    assume "(push_bit 15 1 OR push_bit 16 (ucast w)) AND push_bit 15 1 = (0 :: u32)"
    then have "bit ((push_bit 15 1 OR push_bit 16 (ucast w)) AND push_bit 15 1 :: u32) 15 = bit (0 :: u32) 15" by simp
    then show False by (simp add: bit_simps)
  qed
  moreover have "ucast (drop_bit 16 (push_bit 15 1 OR push_bit 16 (ucast w) :: u32) AND 0xFFFF) = (w :: u16)" for w
    unfolding mask_constants by (rule bit_word_eqI) (auto simp: bit_simps)
  ultimately show ?thesis
    using poll_prompt [of "set_phy_addr a g" ?cmd, OF _ _ st] assms(1) by (simp add: star_gsw_read_phy_def Let_def)
qed

lemma write_phy:
  assumes "prompt g" "a < 32" "r < 32"
  shows "star_gsw_write_phy a r v g = (True, tick (phy_write a r v (set_phy_addr a g)))"
proof -
  let ?cmd = "ucast (a AND 1) OR push_bit 8 (ucast (r AND 0x1F)) OR push_bit 13 1 OR push_bit 16 (ucast v AND 0xFFFF) :: u32"
  have c: "bit ?cmd 0 = bit a 0" "\<And>n. n < 5 \<Longrightarrow> bit ?cmd (8 + n) = bit r n" "bit ?cmd 13"
    unfolding mask_constants word_bits by auto
  have d: "ucast (drop_bit 8 ?cmd AND 0x1F) = r" by (rule decode_reg [OF assms(3) c(2)])
  have v: "ucast (drop_bit 16 ?cmd) = v"
    unfolding mask_constants by (rule bit_word_eqI) (auto simp: bit_simps)
  have "bus_engine ?cmd (set_phy_addr a g) = (push_bit 15 1, phy_write a r v (set_phy_addr a g))"
    by (simp only: bus_engine_def Let_def decode_addr [OF assms(2) c(1)] d c(3) v if_True)
  moreover have "push_bit 15 1 AND push_bit 15 1 \<noteq> (0 :: u32)" by simp
  ultimately show ?thesis
    using poll_prompt [of "set_phy_addr a g" ?cmd] assms(1) by (simp add: star_gsw_write_phy_def Let_def)
qed


text \<open>Selecting a page selects it, and changes nothing else.\<close>

definition view :: "u32 \<times> u32 \<times> u32 \<Rightarrow> gsw \<Rightarrow> u16" where
  "view = (\<lambda>(phyad, regad, npage) g. paged g (npage, ucast phyad, ucast regad))"

fun reg_ok :: "u32 \<times> u32 \<times> u32 \<Rightarrow> bool" where
  "reg_ok (phyad, regad, npage) \<longleftrightarrow> phyad < 7 \<and> regad < 32 \<and> npage < 4 \<and> \<not> (phyad = 0 \<and> regad = 16)"

lemma page_of_select: "npage < 4 \<Longrightarrow> page_of (select_value npage r) = npage"
proof -
  assume "npage < 4"
  then have "unat npage < 4" by (simp add: word_less_nat_alt)
  then have "unat npage = 0 \<or> unat npage = 1 \<or> unat npage = 2 \<or> unat npage = 3" by linarith
  then have "npage = 0 \<or> npage = 1 \<or> npage = 2 \<or> npage = 3"
    by (auto simp: word_unat_eq_iff)
  then show ?thesis
    by (elim disjE) (simp_all add: select_value_def page_of_def bit_simps)
qed

lemma select_page:
  assumes "prompt g"
  shows "select_page npage g = tick (tick ((set_phy_addr 0 g)\<lparr>page_select := select_value npage (page_select g)\<rparr>))"
  using assms
  by (simp add: select_page_def read_phy write_phy) (simp add: phy_read_def phy_write_def set_phy_addr_def tick_def Let_def)

lemma prompt_select [simp]: "prompt g \<Longrightarrow> prompt (select_page npage g)"
  by (simp add: select_page)

lemma ucast_small:
  assumes "(a :: u32) < 32"
  shows "(ucast a :: u8) < 32" "(ucast a :: u8) = 0 \<longleftrightarrow> a = 0" "(ucast a :: u8) = 16 \<longleftrightarrow> a = 16"
    "b < 32 \<Longrightarrow> (ucast a :: u8) = ucast b \<longleftrightarrow> a = b"
proof -
  have u: "unat (ucast x :: u8) = unat x" if "x < 32" for x :: u32
    using that by (simp add: word_less_nat_alt unsigned_ucast_eq take_bit_nat_eq_self)
  show "(ucast a :: u8) < 32" "(ucast a :: u8) = 0 \<longleftrightarrow> a = 0" "(ucast a :: u8) = 16 \<longleftrightarrow> a = 16"
    using u [OF assms] assms by (simp_all add: word_less_nat_alt word_unat_eq_iff)
  show "b < 32 \<Longrightarrow> (ucast a :: u8) = ucast b \<longleftrightarrow> a = b"
    using u [OF assms] u [of b] by (simp add: word_unat_eq_iff)
qed

lemma less_7_32: "(a :: u32) < 7 \<Longrightarrow> a < 32"
  by (simp add: word_less_nat_alt)

lemma get_reg:
  assumes "prompt g" "reg_ok (phyad, regad, npage)"
  shows "rtl8306_getAsicPhyReg phyad regad npage old g =
    (True, ucast (view (phyad, regad, npage) g), tick (set_phy_addr (ucast phyad) (select_page npage g)))"
proof -
  have a: "phyad < 32" "regad < 32" "npage < 4" "\<not> (phyad = 0 \<and> regad = 16)" "phyad < 7"
    using assms(2) less_7_32 by auto
  have "phy_read (ucast phyad) (ucast regad) (select_page npage g) = view (phyad, regad, npage) g"
    using a assms(1) by (auto simp: phy_read_def select_page ucast_small page_of_select view_def set_phy_addr_def tick_def Let_def)
  moreover have "ucast (v :: u16) AND 0xFFFF = (ucast v :: u32)" for v
    unfolding mask_constants by (rule bit_word_eqI) (auto simp: bit_simps dest: bit_imp_le_length)
  ultimately show ?thesis
    using a(3,5,2) read_phy [OF prompt_select [OF assms(1)] ucast_small(1) [OF a(1)] ucast_small(1) [OF a(2)]]
    by (simp add: rtl8306_getAsicPhyReg_def not_le)
qed

lemma set_reg:
  assumes "prompt g" "reg_ok (phyad, regad, npage)" "reg_ok b"
  shows "view b (snd (rtl8306_setAsicPhyReg phyad regad npage v g)) =
    (if b = (phyad, regad, npage) then ucast v else view b g)"
proof -
  have a: "phyad < 32" "regad < 32" "npage < 4" "\<not> (phyad = 0 \<and> regad = 16)" "phyad < 7"
    using assms(2) less_7_32 by auto
  obtain p r n where b: "b = (p, r, n)" by (cases b)
  have b': "p < 32" "r < 32" using assms(3) b less_7_32 by auto
  have v: "ucast (v AND 0xFFFF) = (ucast v :: u16)"
    unfolding mask_constants by (rule bit_word_eqI) (auto simp: bit_simps)
  have "snd (rtl8306_setAsicPhyReg phyad regad npage v g) =
      tick (phy_write (ucast phyad) (ucast regad) (ucast v) (set_phy_addr (ucast phyad) (select_page npage g)))"
    using a(3,5,2) write_phy [OF prompt_select [OF assms(1)] ucast_small(1) [OF a(1)] ucast_small(1) [OF a(2)]]
    by (simp add: rtl8306_setAsicPhyReg_def not_le v)
  then show ?thesis
    using a assms(1) by (auto simp: phy_write_def select_page ucast_small page_of_select view_def set_phy_addr_def tick_def Let_def b
        ucast_small(4) [OF b'(1) a(1)] ucast_small(4) [OF b'(2) a(2)])
qed

lemma view_select [simp]: "prompt g \<Longrightarrow> view b (tick (set_phy_addr a (select_page n g))) = view b g"
  by (cases b) (simp add: view_def select_page set_phy_addr_def tick_def Let_def)

lemma set_reg_prompt:
  assumes "prompt g"
  shows "prompt (snd (rtl8306_setAsicPhyReg phyad regad npage v g))"
proof -
  have "prompt (snd (poll_rw_ok n i cmd h))" if "prompt h" for n i cmd h
    using that
    by (induction n i cmd h rule: poll_rw_ok.induct)
      (auto simp: bus_engine_def Let_def split: prod.splits if_splits)
  then show ?thesis
    using assms by (simp add: rtl8306_setAsicPhyReg_def star_gsw_write_phy_def Let_def case_prod_unfold)
qed

text \<open>
  The contract of a register file, as long as its bus is sound: reading gives the register, and
  changes none; writing changes the one register; both keep the bus sound. A client that reads a register and writes back a function of it changes it
  by that function.
\<close>

locale register_file =
  fixes get :: "'a \<Rightarrow> 's \<Rightarrow> 'v \<times> 's" and put :: "'a \<Rightarrow> 'v \<Rightarrow> 's \<Rightarrow> 's"
    and reg :: "'a \<Rightarrow> 's \<Rightarrow> 'v" and valid :: "'a \<Rightarrow> bool" and sound :: "'s \<Rightarrow> bool"
  assumes get_sound: "sound s \<Longrightarrow> valid a \<Longrightarrow> sound (snd (get a s))"
    and put_sound: "sound s \<Longrightarrow> valid a \<Longrightarrow> sound (put a v s)"
    and get_value: "sound s \<Longrightarrow> valid a \<Longrightarrow> fst (get a s) = reg a s"
    and get_keeps: "sound s \<Longrightarrow> valid a \<Longrightarrow> valid b \<Longrightarrow> reg b (snd (get a s)) = reg b s"
    and put_reg: "sound s \<Longrightarrow> valid a \<Longrightarrow> valid b \<Longrightarrow> reg b (put a v s) = (if b = a then v else reg b s)"
begin

lemma modify: "sound s \<Longrightarrow> valid a \<Longrightarrow> valid b \<Longrightarrow>
    reg b (put a (f (fst (get a s))) (snd (get a s))) = (if b = a then f (reg a s) else reg b s)"
  by (simp add: get_value get_keeps put_reg get_sound)

lemma modify_sound: "sound s \<Longrightarrow> valid a \<Longrightarrow> sound (put a v (snd (get a s)))"
  by (simp add: get_sound put_sound)

lemma put_get: "sound s \<Longrightarrow> valid a \<Longrightarrow> fst (get a (put a v s)) = v"
  by (simp add: get_value put_reg put_sound)

end

definition get_asic :: "u32 \<times> u32 \<times> u32 \<Rightarrow> gsw \<Rightarrow> u16 \<times> gsw" where
  "get_asic = (\<lambda>(p, r, n) g. case rtl8306_getAsicPhyReg p r n (ucast (junk g)) g of (_, v, g) \<Rightarrow> (ucast v, g))"

definition put_asic :: "u32 \<times> u32 \<times> u32 \<Rightarrow> u16 \<Rightarrow> gsw \<Rightarrow> gsw" where
  "put_asic = (\<lambda>(p, r, n) v g. snd (rtl8306_setAsicPhyReg p r n (ucast v) g))"

lemma ucast_16_32 [simp]: "(ucast (ucast (v :: u16) :: u32) :: u16) = v"
  by (rule bit_word_eqI) (auto simp: bit_simps)

interpretation asic: register_file get_asic put_asic view reg_ok prompt
proof unfold_locales
  fix a b :: "u32 \<times> u32 \<times> u32" and g :: gsw and v :: u16
  assume p: "prompt g" and a: "reg_ok a"
  obtain p r n where e: "a = (p, r, n)" by (cases a)
  note get = get_reg [OF \<open>prompt g\<close>, of p r n "ucast (junk g)"]
  show "prompt (snd (get_asic a g))" "fst (get_asic a g) = view a g"
    using a p get by (simp_all add: get_asic_def e del: reg_ok.simps)
  show "prompt (put_asic a v g)" using p by (simp add: put_asic_def e set_reg_prompt)
  assume b: "reg_ok b"
  show "view b (snd (get_asic a g)) = view b g" using a p get by (simp add: get_asic_def e del: reg_ok.simps)
  show "view b (put_asic a v g) = (if b = a then v else view b g)"
    using set_reg [OF p, of p r n b "ucast v"] a b by (simp add: put_asic_def e del: reg_ok.simps)
qed

section \<open>Port states\<close>

definition port_state :: "nat \<Rightarrow> gsw \<Rightarrow> u32" where
  "port_state p g = drop_bit (2 * p) (ucast (view (4, 21, 3) g) AND push_bit (2 * p) 3)"

lemma bit_3: "bit (3 :: u32) i \<longleftrightarrow> i < 2"
  using bit_mask_iff [of 2 i, where ?'a = u32] by (auto simp: mask_eq_exp_minus_1)

lemma bit_port_state: "p < 8 \<Longrightarrow> bit (port_state p g) i \<longleftrightarrow> i < 2 \<and> bit (view (4, 21, 3) g) (2 * p + i)"
  unfolding port_state_def word_bits bit_3 by auto

lemma le_3_bits: "(s :: u32) \<le> 3 \<Longrightarrow> bit s i \<Longrightarrow> i < 2"
proof (rule ccontr)
  assume s: "s \<le> 3" "bit s i" "\<not> i < 2"
  have "unat s < 2 ^ 2" using s(1) by (simp add: word_le_nat_alt)
  then have "take_bit 2 s = s" by (simp only: word_unat_eq_iff unsigned_take_bit_eq take_bit_nat_eq_self)
  then show False using s(2,3) by (metis bit_take_bit_iff)
qed

lemma get_port:
  assumes "prompt g" "port \<le> 5"
  shows "rtl8306_getAsic1dPortState port g = (Some (port_state (unat port) g), tick (set_phy_addr 4 (select_page 3 g)))"
  using assms get_reg [of g 4 21 3] by (simp add: rtl8306_getAsic1dPortState_def port_state_def not_less)

lemma set_bit_keeps:
  assumes "prompt g"
  shows "view (4, 21, 3) (snd (rtl8306_setAsicPhyRegBit 2 21 6 3 1 g)) = view (4, 21, 3) g"
    "prompt (snd (rtl8306_setAsicPhyRegBit 2 21 6 3 1 g))"
  using assms get_reg [of g 2 21 3] set_reg [of _ 2 21 3 "(4, 21, 3)"]
  by (simp_all add: rtl8306_setAsicPhyRegBit_def set_reg_prompt)

lemma set_port_view:
  assumes "prompt g" "port \<le> 5" "state \<le> 3"
  shows "view (4, 21, 3) (snd (rtl8306_setAsic1dPortState port state g)) =
    ucast ((ucast (view (4, 21, 3) g) AND NOT (push_bit (2 * unat port) 3)) OR push_bit (2 * unat port) state)"
    "prompt (snd (rtl8306_setAsic1dPortState port state g))"
  using assms set_reg [of _ 4 21 3 "(4, 21, 3)"] get_reg [of _ 4 21 3] set_bit_keeps
  by (simp_all add: rtl8306_setAsic1dPortState_def not_less Let_def set_reg_prompt)

lemma set_port:
  assumes "prompt g" "port \<le> 5" "state \<le> 3" "q \<le> 5"
  shows "port_state q (snd (rtl8306_setAsic1dPortState port state g)) =
    (if q = unat port then state else port_state q g)"
proof (rule bit_word_eqI)
  fix i :: nat assume "i < LENGTH(32)"
  have p: "unat port < 8" "q < 8" using assms(2,4) by (auto simp: word_le_nat_alt)
  have s: "bit state i \<Longrightarrow> i < 2" for i by (rule le_3_bits [OF assms(3)])
  show "bit (port_state q (snd (rtl8306_setAsic1dPortState port state g))) i =
      bit (if q = unat port then state else port_state q g) i"
    unfolding bit_port_state [OF p(2)] set_port_view(1) [OF assms(1-3)] word_bits bit_3
    using p s [of i] s [of "2 * q + i - 2 * unat port"]
    by (auto simp: bit_port_state)
qed

lemma port_state_select [simp]: "prompt g \<Longrightarrow> port_state p (tick (set_phy_addr a (select_page n g))) = port_state p g"
  by (simp add: port_state_def)

lemma set_port_text:
  assumes "prompt g" "port_char c = Some p" "state \<le> 3"
  shows "q \<le> 5 \<Longrightarrow> port_state q (set_port_text state (c # cs) g) = (if q = unat p then state else port_state q g)"
    "prompt (set_port_text state (c # cs) g)"
proof -
  have "p \<le> 5" using assms(2) by (auto simp: port_char_def split: if_splits)
  then show "q \<le> 5 \<Longrightarrow> port_state q (set_port_text state (c # cs) g) = (if q = unat p then state else port_state q g)"
    "prompt (set_port_text state (c # cs) g)"
    using assms by (simp_all add: set_port_text_def set_port set_port_view)
qed

definition state_char :: "nat \<Rightarrow> gsw \<Rightarrow> char" where
  "state_char p g = char_of (unat (port_state p g) + 48)"

lemma empty_text: "replicate 5 (CHR 0x00) = [CHR 0x00, CHR 0x00, CHR 0x00, CHR 0x00, CHR 0x00]"
  by (simp add: numeral_eq_Suc)

lemma get_port_enable:
  assumes "prompt g"
  shows "fst (star_switch_get_port_enable g) = [state_char 3 g, state_char 2 g, state_char 1 g, state_char 0 g, CHR 0x00]"
  "port_state p (snd (star_switch_get_port_enable g)) = port_state p g"
  "prompt (snd (star_switch_get_port_enable g))"
  using assms by (simp_all add: star_switch_get_port_enable_def get_port state_char_def empty_text)

lemma state_char_3: "p < 8 \<Longrightarrow> state_char p g = CHR ''3'' \<longleftrightarrow> port_state p g = 3"
proof -
  assume p: "p < 8"
  have "port_state p g = take_bit 2 (port_state p g)"
    by (rule bit_word_eqI) (auto simp: bit_port_state [OF p] bit_take_bit_iff)
  then have "unat (port_state p g) = take_bit 2 (unat (port_state p g))" by (metis unsigned_take_bit_eq)
  then have u: "unat (port_state p g) < 4" by (metis take_bit_nat_less_exp power2_eq_square numeral_Bit0 mult_2 mult_numeral_1_right numeral_One num_double numeral_times_numeral)
  have "state_char p g = CHR ''3'' \<longleftrightarrow> of_char (char_of (unat (port_state p g) + 48)) = (of_char CHR ''3'' :: nat)"
    unfolding state_char_def by (metis of_char_eq_iff)
  also have "\<dots> \<longleftrightarrow> unat (port_state p g) + 48 = 51" using u by simp
  also have "\<dots> \<longleftrightarrow> port_state p g = 3" by (simp add: word_unat_eq_iff)
  finally show ?thesis .
qed

lemma get_link_status:
  assumes "prompt g"
  shows "fst (star_switch_get_port_link_status c g) =
     concat (map (\<lambda>p. [if phy_read p 1 g AND 4 \<noteq> 0 then CHR ''1'' else CHR ''0'', CHR '';'']) [0, 1, 2, 3]) @ [CHR 0x00, c]"
  "port_state p (snd (star_switch_get_port_link_status c g)) = port_state p g"
  using assms
  by (simp_all add: star_switch_get_port_link_status_def read_phy Let_def)
    (simp_all add: set_phy_addr_def phy_read_def tick_def port_state_def view_def Let_def)

section \<open>Properties\<close>

text \<open>
  C36: The six port states are independent: after a port is put into a state, reading it back
  gives that state, and every other port has the state it had. This is under the condition that
  the bus engine completes every transaction within the 0x1000 polls the driver grants it, however
  long it takes within them: the driver does not look at time-outs.
\<close>

theorem rtl8306_port_states:
  assumes "prompt g" "port \<le> 5" "state \<le> 3" "q \<le> 5"
  shows "fst (rtl8306_getAsic1dPortState q (snd (rtl8306_setAsic1dPortState port state g))) =
    (if q = port then Some state else fst (rtl8306_getAsic1dPortState q g))"
proof -
  have "unat q \<le> 5" using assms(4) by (simp add: word_le_nat_alt)
  then show ?thesis using assms by (simp add: get_port set_port set_port_view word_unat_eq_iff)
qed

text \<open>A switch whose transactions take from 0 to 4095 polls.\<close>

definition slow_switch :: gsw where
  "slow_switch = \<lparr>GSW_QUEUE_STATUS_TEST_1 = 0, page_select = 0, paged = \<lambda>_. 0xFFFF,
     transactions = 0, latency = \<lambda>n. n mod 0x1000, leftover = \<lambda>_. 0\<rparr>"

lemma slow_switch_prompt: "prompt slow_switch"
  by (simp add: prompt_def slow_switch_def)

theorem rtl8306_port_states_witness:
  "prompt slow_switch \<and> fst (rtl8306_getAsic1dPortState 2 (snd (rtl8306_setAsic1dPortState 2 1 slow_switch))) = Some 1"
  using rtl8306_port_states [of slow_switch 2 1 2] slow_switch_prompt by simp

text \<open>
  When a transaction is not completed in time, the driver reports success all the same: if none is,
  a port state is read from a variable that was never written, and setting one changes nothing.
\<close>

lemma poll_timeout:
  assumes "i + n \<le> latency g (transactions g)"
  shows "poll_rw_ok n i cmd g = (None, tick g)"
  using assms by (induction n arbitrary: i) simp_all

theorem timeout_unnoticed:
  assumes "\<forall>n. POLLS \<le> latency g n" "port \<le> 5" "state \<le> 3"
  shows "fst (rtl8306_getAsic1dPortState port g) = Some (drop_bit (2 * unat port) (ucast (junk g) AND push_bit (2 * unat port) 3))"
    and "fst (rtl8306_setAsic1dPortState port state g)"
    and "paged (snd (rtl8306_setAsic1dPortState port state g)) = paged g"
proof -
  have l: "latency (set_phy_addr a h) = latency h" "latency (tick h) = latency h"
    "transactions (set_phy_addr a h) = transactions h"
    "paged (set_phy_addr a h) = paged h" "paged (tick h) = paged h" for a h
    by (simp_all add: set_phy_addr_def tick_def Let_def)
  have p: "poll_rw_ok POLLS 0 cmd h = (None, tick h)" if "latency h = latency g" for cmd h
    using assms(1) that by (simp add: poll_timeout)
  have rd: "star_gsw_read_phy a r old h = (False, old, tick (set_phy_addr a h))"
    and wr: "star_gsw_write_phy a r v h = (False, tick (set_phy_addr a h))" if "latency h = latency g" for a r old v h
    using that by (simp_all add: star_gsw_read_phy_def star_gsw_write_phy_def p l Let_def)
  have m: "ucast (v :: u16) AND 0xFFFF = (ucast v :: u32)" for v
    unfolding mask_constants by (rule bit_word_eqI) (auto simp: bit_simps dest: bit_imp_le_length)
  have sel: "latency (select_page n h) = latency g" "paged (select_page n h) = paged h" if "latency h = latency g" for n h
    using that by (simp_all add: select_page_def rd wr l)
  show "fst (rtl8306_getAsic1dPortState port g) = Some (drop_bit (2 * unat port) (ucast (junk g) AND push_bit (2 * unat port) 3))"
    using assms(2) by (simp add: rtl8306_getAsic1dPortState_def rtl8306_getAsicPhyReg_def rd wr l sel m not_less not_le)
  show "fst (rtl8306_setAsic1dPortState port state g)"
    using assms(2,3) by (simp add: rtl8306_setAsic1dPortState_def Let_def not_less case_prod_unfold)
  show "paged (snd (rtl8306_setAsic1dPortState port state g)) = paged g"
    using assms(2,3)
    by (simp add: rtl8306_setAsic1dPortState_def rtl8306_setAsicPhyRegBit_def rtl8306_getAsicPhyReg_def
        rtl8306_setAsicPhyReg_def rd wr l sel Let_def not_less not_le case_prod_unfold)
qed

end
