(* ===== verification/LinkUtil.thy ===== *)
theory LinkUtil
  imports Prelude
begin

text \<open>
  The link status of the wireless station, as two daemons determine it
  (\<open>apps/detected_BrLoop/linkUtil.c\<close>, and the copy of it in
  \<open>apps/force_ethpc_renew_ip/force_ethpc_renew_ip.c\<close> together with that daemon's loop).

  What the programs read (the output of the commands they start, the contents of files) is the
  record \<open>link_env\<close>: \<open>None\<close> is a command or file that cannot be opened. The pieces of C's library
  they use, \<open>fgets\<close>, \<open>sscanf\<close> with \<open>%s\<close> and \<open>%d\<close>, \<open>atoi\<close> and \<open>strstr\<close>, come first. A text holds
  no NUL byte, and numbers are taken to fit an \<open>int\<close>.
\<close>

section \<open>Pieces of C's library\<close>

abbreviation (input) NL :: char where "NL \<equiv> CHR 0x0A"

fun fgets_take :: "nat \<Rightarrow> string \<Rightarrow> string \<times> string" where
  "fgets_take 0 s = ([], s)"
| "fgets_take (Suc n) [] = ([], [])"
| "fgets_take (Suc n) (c # cs) =
     (if c = NL then ([c], cs) else let (l, r) = fgets_take n cs in (c # l, r))"

definition fgets :: "nat \<Rightarrow> string \<Rightarrow> (string \<times> string) option" where
  "fgets n s = (if s = [] then None else Some (fgets_take (n - 1) s))"

definition isspace :: "char \<Rightarrow> bool" where
  "isspace c \<longleftrightarrow> c \<in> {CHR 0x20, CHR 0x09, CHR 0x0A, CHR 0x0B, CHR 0x0C, CHR 0x0D}"

definition isdigit :: "char \<Rightarrow> bool" where
  "isdigit c \<longleftrightarrow> 48 \<le> (of_char c :: nat) \<and> (of_char c :: nat) \<le> 57"

fun digits :: "int \<Rightarrow> string \<Rightarrow> int" where
  "digits n [] = n"
| "digits n (c # cs) = (if isdigit c then digits (10 * n + (of_char c - 48)) cs else n)"

text \<open>A number with its sign: its value and the rest of the text, if there is a number.\<close>

definition scan_int :: "string \<Rightarrow> (int \<times> string) option" where
  "scan_int s =
     (let s = dropWhile isspace s;
          neg = (s \<noteq> [] \<and> hd s = CHR ''-'');
          s = (if s \<noteq> [] \<and> (hd s = CHR ''-'' \<or> hd s = CHR ''+'') then tl s else s)
      in if s \<noteq> [] \<and> isdigit (hd s)
         then Some (if neg then - digits 0 s else digits 0 s, dropWhile isdigit s) else None)"

definition atoi :: "string \<Rightarrow> int" where
  "atoi s = (case scan_int s of None \<Rightarrow> 0 | Some (n, _) \<Rightarrow> n)"

definition scan_str :: "string \<Rightarrow> (string \<times> string) option" where
  "scan_str s = (let s = dropWhile isspace s in
     if s = [] then None else Some (takeWhile (\<lambda>c. \<not> isspace c) s, dropWhile (\<lambda>c. \<not> isspace c) s))"

datatype conv = CStr | CInt
datatype scanned = SStr string | SInt int

text \<open>The values assigned, in order; the scan stops at the first conversion that fails.\<close>

fun sscanf :: "conv list \<Rightarrow> string \<Rightarrow> scanned list" where
  "sscanf [] s = []"
| "sscanf (CStr # cs) s = (case scan_str s of None \<Rightarrow> [] | Some (v, s) \<Rightarrow> SStr v # sscanf cs s)"
| "sscanf (CInt # cs) s = (case scan_int s of None \<Rightarrow> [] | Some (n, s) \<Rightarrow> SInt n # sscanf cs s)"

fun is_prefix :: "string \<Rightarrow> string \<Rightarrow> bool" where
  "is_prefix [] s = True"
| "is_prefix (p # ps) [] = False"
| "is_prefix (p # ps) (c # cs) = (p = c \<and> is_prefix ps cs)"

fun strstr :: "string \<Rightarrow> string \<Rightarrow> bool" where
  "strstr [] pat = (pat = [])"
| "strstr (c # cs) pat = (is_prefix pat (c # cs) \<or> strstr cs pat)"

lemma fgets_take_le: "length (snd (fgets_take n s)) \<le> length s"
  by (induction n s rule: fgets_take.induct) (auto split: prod.splits)

lemma fgets_less:
  assumes "fgets n s = Some (l, r)" "1 < n"
  shows "length r < length s"
proof -
  obtain c cs m where s: "s = c # cs" "n - 1 = Suc m"
    using assms by (cases s; cases "n - 1") (auto simp: fgets_def)
  then have "r = snd (fgets_take (Suc m) (c # cs))" using assms by (simp add: fgets_def)
  then show ?thesis using fgets_take_le [of m cs] s by (auto split: prod.splits)
qed

section \<open>The environment and the settings\<close>

record link_env =
  config_out :: "string \<Rightarrow> string \<Rightarrow> string option"
  ping_out :: "string \<Rightarrow> string option"
  arp_out :: "string option"
  lease_file :: "string option"
  retry_file :: "string option"
  wireless_out :: "string option"
  wpa_state_out :: "string option"

record link_cfg =
  securityMode :: int
  authMode :: int
  ipConfigMethod :: int

abbreviation (input) SYS_CONFIG_PATH :: string where "SYS_CONFIG_PATH \<equiv> ''/tmp/sys.conf''"
abbreviation (input) WLAN_CONFIG_PATH :: string where "WLAN_CONFIG_PATH \<equiv> ''/mnt/jffs2/wlan0.conf''"

section \<open>Detection\<close>

text \<open>The return code and the buffer \<open>config_value\<close>; \<open>config_out\<close> is what \<open>awk\<close> prints.\<close>

definition get_config :: "link_env \<Rightarrow> string \<Rightarrow> string \<Rightarrow> string \<Rightarrow> int \<times> string" where
  "get_config env config_value config_name config_file =
     (case config_out env config_name config_file of
        None \<Rightarrow> (- 1, config_value)
      | Some out \<Rightarrow> (case fgets 512 out of None \<Rightarrow> (- 1, []) | Some (l, _) \<Rightarrow> (0, l)))"

text \<open>\<open>getClientGateway(gateway, 0)\<close>, the only call there is; \<open>None\<close> is the return value -1.\<close>

definition getClientGateway :: "link_env \<Rightarrow> string option" where
  "getClientGateway env =
     (let (_, configValue) = get_config env [] ''default_gw'' SYS_CONFIG_PATH
      in if length configValue \<ge> 16 then None
         else Some (if length configValue \<noteq> 0 then configValue else ''0.0.0.0''))"

definition detect_layer3_link_with_ping :: "link_env \<Rightarrow> string \<Rightarrow> int" where
  "detect_layer3_link_with_ping env gateway =
     (case ping_out env gateway of
        None \<Rightarrow> - 1
      | Some out \<Rightarrow> (case fgets 128 out of
            None \<Rightarrow> - 1
          | Some (pingResult, _) \<Rightarrow>
              if takeWhile (\<lambda>c. c \<noteq> NL) pingResult = gateway @ '' is alive!'' then 1 else 0))"

definition arp_line_matches :: "string \<Rightarrow> string \<Rightarrow> bool" where
  "arp_line_matches gateway buf =
     (let fields = sscanf [CStr, CStr, CStr, CStr, CStr, CStr] buf in
      length fields = 6 \<and> fields ! 0 = SStr gateway \<and>
      fields ! 3 \<noteq> SStr ''00:00:00:00:00:00'' \<and> fields ! 2 \<noteq> SStr ''0x0'')"

function arp_loop :: "string \<Rightarrow> string \<Rightarrow> int" where
  "arp_loop gateway s =
     (case fgets 512 s of
        None \<Rightarrow> 0
      | Some (buf, s) \<Rightarrow> if arp_line_matches gateway buf then 1 else arp_loop gateway s)"
  by pat_completeness auto

termination
  by (relation "measure (\<lambda>(_, s). length s)") (auto dest: fgets_less)

definition check_gateway_in_arptable :: "link_env \<Rightarrow> string \<Rightarrow> int" where
  "check_gateway_in_arptable env gateway =
     (case arp_out env of
        None \<Rightarrow> 0
      | Some s \<Rightarrow> (case fgets 512 s of None \<Rightarrow> 0 | Some (_, s) \<Rightarrow> arp_loop gateway s))"

definition detect_layer3_link_by_packets :: "link_env \<Rightarrow> int" where
  "detect_layer3_link_by_packets env =
     (case getClientGateway env of
        None \<Rightarrow> - 1
      | Some gateway \<Rightarrow> if gateway = ''0.0.0.0'' then - 1
          else let _ = detect_layer3_link_with_ping env gateway in check_gateway_in_arptable env gateway)"

definition detect_layer3_link_by_dhcp :: "link_env \<Rightarrow> int" where
  "detect_layer3_link_by_dhcp env =
     (case lease_file env of
        None \<Rightarrow> 0
      | Some s \<Rightarrow>
          let lease_status = (case fgets 16 s of None \<Rightarrow> [] | Some (l, _) \<Rightarrow> l);
              lease_status = takeWhile (\<lambda>c. c \<noteq> NL) lease_status
          in if lease_status = ''bind'' then 1 else 0)"

definition detect_station_layer3_link_status :: "link_cfg \<Rightarrow> link_env \<Rightarrow> int" where
  "detect_station_layer3_link_status cfg env =
     (if ipConfigMethod cfg = 1 then detect_layer3_link_by_packets env else detect_layer3_link_by_dhcp env)"

definition detect_layer3_link_by_dhcp_retry :: "link_env \<Rightarrow> int" where
  "detect_layer3_link_by_dhcp_retry env =
     (case retry_file env of
        None \<Rightarrow> - 1
      | Some s \<Rightarrow> if atoi (case fgets 16 s of None \<Rightarrow> [] | Some (l, _) \<Rightarrow> l) \<ge> 2 then 0 else 1)"

text \<open>The loop over \<open>/proc/net/wireless\<close>: a line assigns \<open>link_status\<close> when two fields scan.\<close>

definition wireless_line :: "string \<Rightarrow> int \<Rightarrow> int" where
  "wireless_line buf link_status =
     (if strstr buf ''Inter-'' \<or> strstr buf ''face'' then link_status
      else case sscanf [CStr, CInt, CStr, CStr, CStr, CInt, CInt, CInt, CInt, CInt, CInt] buf of
        _ # SInt n # _ \<Rightarrow> n
      | _ \<Rightarrow> link_status)"

function wireless_loop :: "int \<Rightarrow> string \<Rightarrow> int" where
  "wireless_loop link_status s =
     (case fgets 512 s of
        None \<Rightarrow> link_status
      | Some (buf, s) \<Rightarrow> wireless_loop (wireless_line buf link_status) s)"
  by pat_completeness auto

termination
  by (relation "measure (\<lambda>(_, s). length s)") (auto dest: fgets_less)

declare arp_loop.simps [simp del] wireless_loop.simps [simp del]

text \<open>
  The detection by layer 3 when the driver reports an association: \<open>None\<close> when it has no answer
  and the driver's report counts. The two programs have this part in common.
\<close>

definition layer3_answer :: "link_cfg \<Rightarrow> link_env \<Rightarrow> int option" where
  "layer3_answer cfg env =
     (let detectedLinkStatus = detect_station_layer3_link_status cfg env in
      if detectedLinkStatus \<noteq> - 1 then
        if detectedLinkStatus = 0 \<and> ipConfigMethod cfg = 0 then
          if detect_layer3_link_by_dhcp_retry env \<noteq> 0 then Some detectedLinkStatus
          else Some 0
        else Some detectedLinkStatus
      else None)"

definition wpa_completed :: "string \<Rightarrow> bool" where
  "wpa_completed out = strstr (case fgets 512 out of None \<Rightarrow> [] | Some (l, _) \<Rightarrow> l) ''COMPLETED''"

text \<open>\<open>get_station_layer3_link_status\<close> of \<open>linkUtil.c\<close>; \<open>None\<close> is the use of a null stream.\<close>

definition get_station_layer3_link_status :: "link_cfg \<Rightarrow> link_env \<Rightarrow> int option" where
  "get_station_layer3_link_status cfg env =
     (case wireless_out env of
        None \<Rightarrow> None
      | Some s \<Rightarrow>
          let link_status = wireless_loop 0 s;
              end_status = (if link_status = 3 then 1 else 0)
          in Some (
            if link_status = 3 \<and> securityMode cfg = 2 \<and> authMode cfg \<noteq> 2 then
              (case layer3_answer cfg env of Some r \<Rightarrow> r | None \<Rightarrow> end_status)
            else if link_status = 3 \<and> (securityMode cfg = 3 \<or> securityMode cfg = 4) then
              (case wpa_state_out env of
                 Some out \<Rightarrow> if wpa_completed out then 1 else 0
               | None \<Rightarrow> end_status)
            else end_status))"

text \<open>The three settings, from the wireless configuration at \<open>path\<close> and the system's.\<close>

definition read_settings :: "string \<Rightarrow> link_env \<Rightarrow> link_cfg \<Rightarrow> link_cfg" where
  "read_settings path env cfg =
     (let (rc, v) = get_config env [] ''NonProcSecurityMode'' path;
          cfg = (if rc = - 1 then cfg else cfg\<lparr>securityMode := atoi v\<rparr>);
          (rc, v) = get_config env v ''NonProc_Authentication'' path;
          cfg = (if rc = - 1 then cfg else cfg\<lparr>authMode := atoi v\<rparr>);
          (rc, v) = get_config env v ''ip_config_method'' SYS_CONFIG_PATH
      in if rc = - 1 then cfg else cfg\<lparr>ipConfigMethod := atoi v\<rparr>)"

definition initLinkUtil :: "link_env \<Rightarrow> link_cfg \<Rightarrow> link_cfg" where
  "initLinkUtil env cfg = read_settings WLAN_CONFIG_PATH env cfg"

section \<open>The daemon that renews the address of a wired computer\<close>

text \<open>
  \<open>force_ethpc_renew_ip.c\<close>: its copy of the detection returns 0 when the first command fails, and
  asks layer 3 also after the supplicant has completed.
\<close>

definition renew_link_status :: "link_cfg \<Rightarrow> link_env \<Rightarrow> int" where
  "renew_link_status cfg env =
     (case wireless_out env of
        None \<Rightarrow> 0
      | Some s \<Rightarrow>
          let link_status = wireless_loop 0 s;
              end_status = (if link_status = 3 then 1 else 0)
          in if link_status = 3 \<and> securityMode cfg = 2 \<and> authMode cfg \<noteq> 2 then
               (case layer3_answer cfg env of Some r \<Rightarrow> r | None \<Rightarrow> end_status)
             else if link_status = 3 \<and> (securityMode cfg = 3 \<or> securityMode cfg = 4) then
               (case wpa_state_out env of
                  Some out \<Rightarrow> if wpa_completed out then
                      (case layer3_answer cfg env of Some r \<Rightarrow> r | None \<Rightarrow> 1) else 0
                | None \<Rightarrow> end_status)
             else end_status)"

datatype renew_act = Eth0_Down | Rm_IPInfo | Eth0_Up | Rm_Pid

text \<open>What one iteration of the loop sees: the link, three files and whether the signal came.\<close>

record renew_obs =
  obs_env :: link_env
  gui_wps_waiting :: bool
  assign_get_ip :: bool
  webCommit :: bool
  gotSIGUSR1 :: bool

text \<open>The actions until the end of the program; \<open>None\<close> when it is still running.\<close>

fun renew_loop :: "link_cfg \<Rightarrow> int \<Rightarrow> renew_obs list \<Rightarrow> renew_act list option" where
  "renew_loop cfg tempCount [] = None"
| "renew_loop cfg tempCount (ob # obs) =
     (let up = (renew_link_status cfg (obs_env ob) = 1 \<and> \<not> gui_wps_waiting ob) in
      if up \<and> (assign_get_ip ob \<or> \<not> webCommit ob \<or> tempCount > 20) then
        Some [Eth0_Down, Rm_IPInfo, Eth0_Up, Rm_Pid]
      else let tempCount = (if up then tempCount + 1 else tempCount) in
        if gotSIGUSR1 ob then Some [Rm_Pid] else renew_loop cfg tempCount obs)"

definition force_ethpc_renew_ip :: "link_env \<Rightarrow> renew_obs list \<Rightarrow> renew_act list option" where
  "force_ethpc_renew_ip env obs =
     (let cfg = read_settings ''/tmp/wlan0.conf'' env \<lparr>securityMode = 0, authMode = 0, ipConfigMethod = 0\<rparr>
      in renew_loop cfg 0 obs)"

section \<open>Lemmas\<close>

lemma fgets_line:
  assumes "NL \<notin> set v" "length v + 1 < n"
  shows "fgets n (v @ NL # rest) = Some (v @ [NL], rest)"
proof -
  have "fgets_take m (v @ NL # rest) = (v @ [NL], rest)" if "length v < m" for m
    using assms(1) that
  proof (induction v arbitrary: m)
    case Nil
    then show ?case by (cases m) auto
  next
    case (Cons c v)
    then show ?case by (cases m) auto
  qed
  then show ?thesis using assms(2) by (simp add: fgets_def)
qed

lemma scan_str_no_space: "scan_str s = Some (v, r) \<Longrightarrow> isspace c \<Longrightarrow> c \<notin> set v"
  by (auto simp: scan_str_def Let_def split: if_splits dest: set_takeWhileD)

text \<open>A name with a newline in it matches no field of the table.\<close>

lemma arp_line_ip: "arp_line_matches gateway buf \<Longrightarrow> \<exists>r. scan_str buf = Some (gateway, r)"
  by (cases "scan_str buf") (auto simp: arp_line_matches_def Let_def)

lemma arp_line_nl: "NL \<in> set gateway \<Longrightarrow> \<not> arp_line_matches gateway buf"
  using arp_line_ip scan_str_no_space [of _ _ _ NL] by (fastforce simp: isspace_def)

lemma arp_loop_nl: "NL \<in> set gateway \<Longrightarrow> arp_loop gateway s = 0"
  by (induction gateway s rule: arp_loop.induct)
    (subst arp_loop.simps, auto simp: arp_line_nl split: option.splits)

lemma arp_loop_range: "arp_loop gateway s \<in> {0, 1}"
  by (induction gateway s rule: arp_loop.induct)
    (subst arp_loop.simps, auto split: option.splits)

lemma gateway_line:
  assumes "config_out env ''default_gw'' SYS_CONFIG_PATH = Some (v @ NL # rest)" "NL \<notin> set v" "length v < 511"
  shows "getClientGateway env = (if length v \<ge> 15 then None else Some (v @ [NL]))"
  using assms by (simp add: getClientGateway_def get_config_def fgets_line)

lemma packets_static:
  assumes "config_out env ''default_gw'' SYS_CONFIG_PATH = Some (v @ NL # rest)" "NL \<notin> set v" "length v < 511"
  shows "detect_layer3_link_by_packets env = (if length v \<ge> 15 then - 1 else 0)"
proof -
  have "v @ [NL] \<noteq> ''0.0.0.0''"
  proof
    assume "v @ [NL] = ''0.0.0.0''"
    then have "last (v @ [NL]) = last ''0.0.0.0''" by simp
    then show False by simp
  qed
  then show ?thesis
    by (simp add: detect_layer3_link_by_packets_def gateway_line [OF assms] check_gateway_in_arptable_def
        arp_loop_nl split: option.split)
qed

lemma detect_range: "detect_station_layer3_link_status cfg env \<in> {- 1, 0, 1}"
  using arp_loop_range
  by (simp add: detect_station_layer3_link_status_def detect_layer3_link_by_packets_def check_gateway_in_arptable_def
      detect_layer3_link_by_dhcp_def Let_def split: option.split)

lemma layer3_range: "layer3_answer cfg env \<in> {None, Some 0, Some 1}"
  using detect_range [of cfg env] by (auto simp: layer3_answer_def Let_def)

lemma renew_loop_stops:
  assumes "\<forall>ob\<in>set obs. renew_link_status cfg (obs_env ob) = 1 \<and> \<not> gui_wps_waiting ob \<and> \<not> gotSIGUSR1 ob"
    "n \<le> 21" "22 \<le> int (length obs) + n"
  shows "renew_loop cfg n obs = Some [Eth0_Down, Rm_IPInfo, Eth0_Up, Rm_Pid]"
  using assms by (induction obs arbitrary: n) auto

section \<open>Properties\<close>

definition sample_env :: link_env where
  "sample_env = \<lparr>config_out = \<lambda>_ _. Some (''192.168.1.1'' @ [NL]), ping_out = \<lambda>_. None,
     arp_out = Some (''IP address HW type Flags HW address Mask Device'' @ NL #
       ''192.168.1.1 0x1 0x2 00:11:22:33:44:55 * br0'' @ [NL]),
     lease_file = Some (''bind'' @ [NL]), retry_file = None,
     wireless_out = Some (''wlan0: 3 10. 20. 30. 0 0 0 0 0 0'' @ [NL]), wpa_state_out = Some (''COMPLETED'' @ [NL])\<rparr>"

lemma sample_wireless: "wireless_loop 0 (''wlan0: 3 10. 20. 30. 0 0 0 0 0 0'' @ [NL]) = 3"
  by code_simp

text \<open>
  A station with WEP and a static address is never reported as connected on the strength of
  the ARP table. The setting that \<open>awk\<close> prints ends with a newline, which \<open>get_config\<close> keeps, so
  the gateway equals no address of the table: the answer is 0 whatever the table holds.
\<close>

theorem static_gateway_never_found:
  assumes "securityMode cfg = 2" "authMode cfg \<noteq> 2" "ipConfigMethod cfg = 1"
    and "config_out env ''default_gw'' ''/tmp/sys.conf'' = Some (v @ CHR 0x0A # rest)"
    and "CHR 0x0A \<notin> set v" "length v < 15"
    and "wireless_out env = Some s" "wireless_loop 0 s = 3"
  shows "get_station_layer3_link_status cfg env = Some 0"
  using assms packets_static [OF assms(4,5)]
  by (simp add: get_station_layer3_link_status_def layer3_answer_def detect_station_layer3_link_status_def)

theorem static_gateway_never_found_witness:
  "get_station_layer3_link_status \<lparr>securityMode = 2, authMode = 1, ipConfigMethod = 1\<rparr> sample_env = Some 0"
  by (rule static_gateway_never_found [where v = "''192.168.1.1''" and rest = "[]" and s = "''wlan0: 3 10. 20. 30. 0 0 0 0 0 0'' @ [NL]"])
    (simp_all add: sample_env_def sample_wireless [simplified])

text \<open>
  The link is reported up only when the driver reports an association, and, with WPA, only
  when the supplicant has completed its negotiation or cannot be asked; the answer is always 0
  or 1, once the first command has started.
\<close>

theorem link_status_sound:
  assumes "wireless_out env = Some s"
  shows "\<exists>r. get_station_layer3_link_status cfg env = Some r \<and> (r = 0 \<or> r = 1) \<and>
    (r = 1 \<longrightarrow> wireless_loop 0 s = 3) \<and>
    (r = 1 \<and> securityMode cfg = 3 \<longrightarrow> (\<forall>out. wpa_state_out env = Some out \<longrightarrow> wpa_completed out))"
  using assms layer3_range [of cfg env]
  by (auto simp: get_station_layer3_link_status_def Let_def split: option.split)

theorem link_status_sound_witness:
  "\<exists>r. get_station_layer3_link_status \<lparr>securityMode = 3, authMode = 0, ipConfigMethod = 0\<rparr> sample_env = Some r \<and> (r = 0 \<or> r = 1)"
  using link_status_sound [of sample_env "''wlan0: 3 10. 20. 30. 0 0 0 0 0 0'' @ [NL]"
      "\<lparr>securityMode = 3, authMode = 0, ipConfigMethod = 0\<rparr>"]
  by (auto simp: sample_env_def)

text \<open>
  When the wireless link stays up, with no signal and no page of the interface waiting, the
  renewing daemon cycles the power of the Ethernet interface within 22 rounds, and ends.
\<close>

theorem renew_power_cycle:
  assumes "\<forall>ob\<in>set obs. renew_link_status cfg (obs_env ob) = 1 \<and> \<not> gui_wps_waiting ob \<and> \<not> gotSIGUSR1 ob"
    and "22 \<le> length obs"
  shows "renew_loop cfg 0 obs = Some [Eth0_Down, Rm_IPInfo, Eth0_Up, Rm_Pid]"
  using renew_loop_stops [OF assms(1), of 0] assms(2) by simp

theorem renew_power_cycle_witness:
  "renew_loop \<lparr>securityMode = 0, authMode = 0, ipConfigMethod = 0\<rparr> 0
     (replicate 22 \<lparr>obs_env = sample_env, gui_wps_waiting = False, assign_get_ip = False, webCommit = True, gotSIGUSR1 = False\<rparr>) =
     Some [Eth0_Down, Rm_IPInfo, Eth0_Up, Rm_Pid]"
  by (rule renew_power_cycle)
    (simp_all add: renew_link_status_def sample_env_def sample_wireless [simplified])

text \<open>
  The renewing daemon cycles the power at most once, as its last action but the removal of its
  lock, and only after it saw the wireless link up.
\<close>

theorem renew_only_when_up:
  assumes "renew_loop cfg n obs = Some acts" "Eth0_Down \<in> set acts"
  shows "acts = [Eth0_Down, Rm_IPInfo, Eth0_Up, Rm_Pid] \<and>
    (\<exists>ob\<in>set obs. renew_link_status cfg (obs_env ob) = 1 \<and> \<not> gui_wps_waiting ob)"
  using assms by (induction cfg n obs rule: renew_loop.induct) (auto simp: Let_def split: if_splits)

end
