(* ===== verification/BrLoop.thy ===== *)
theory BrLoop
  imports Switch LinkUtil
begin

text \<open>
  The daemon that breaks loops of the bridge (\<open>apps/detected_BrLoop/Detected_BrLoop.c\<close>): when the
  bridge reports a loop it blocks one port of the switch after the other, and it unblocks them
  when the link of the blocked port or of the wireless station changes.

  The state has the switch of \<open>Switch\<close>, reached through the files of \<open>/proc/str9100\<close>, the settings
  of \<open>LinkUtil\<close>, and a log of the other commands the daemon gives. What one round of its loop
  sees is an observation. Whether \<open>switch_port_enable\<close> can be opened is one flag for the round.
\<close>

section \<open>State\<close>

record TPState =
  br_loop :: int
  tp_change :: bool
  disablePort :: int
  portLink :: string
  ifw_state :: int
  prePortLink :: string
  initialized :: bool

datatype sys_cmd = Local_Topology_Change int | Clear_Bridge_Loop | Arping | Device_Is_Wes610n

record brloop =
  tp :: TPState
  cur_dis_port :: nat
  checkTime :: nat
  tp_time_out :: nat
  sw :: gsw
  cfg :: link_cfg
  log :: "sys_cmd list"

text \<open>One reading of the bridge's flag: the command fails, prints no number, or prints one.\<close>

datatype loop_read = Read_Fail | Read_None | Read int

record brloop_obs =
  link_text :: "string option"
  enable_open :: bool
  station :: link_env
  wpsLoopDetect :: bool
  loop_reads :: "nat \<Rightarrow> loop_read"

section \<open>Operations\<close>

definition fgetc_at :: "string \<Rightarrow> nat \<Rightarrow> char" where
  "fgetc_at s k = (if k < length s then s ! k else CHR 0xFF)"

definition port_status :: "string option \<Rightarrow> TPState \<Rightarrow> TPState" where
  "port_status out t =
     (case out of None \<Rightarrow> t
      | Some s \<Rightarrow> t\<lparr>portLink := map (\<lambda>i. fgetc_at s (2 * i)) [0..<4]\<rparr>)"

definition port_digit :: "nat \<Rightarrow> char" where
  "port_digit i = char_of (i + 48)"

text \<open>The loop of \<open>reEnableDisPort\<close>: one character is a port's state, the next is skipped.\<close>

fun reenable_loop :: "nat \<Rightarrow> string \<Rightarrow> gsw \<Rightarrow> gsw" where
  "reenable_loop i [] g = g"
| "reenable_loop i (c # cs) g =
     (if i < 4 then
        let g = (if c \<noteq> CHR ''3'' then snd (star_switch_set_port_enable [port_digit i, CHR 0x0A] g) else g)
        in case cs of [] \<Rightarrow> g | _ # cs \<Rightarrow> reenable_loop (i + 1) cs g
      else g)"

definition reEnableDisPort :: "bool \<Rightarrow> gsw \<Rightarrow> gsw" where
  "reEnableDisPort opens g =
     (if opens then let (text, g) = star_switch_get_port_enable g in reenable_loop 0 text g else g)"

definition reset_Portmap :: "bool \<Rightarrow> brloop \<Rightarrow> brloop" where
  "reset_Portmap opens d =
     d\<lparr>sw := reEnableDisPort opens (sw d),
       tp := (tp d)\<lparr>disablePort := - 1, initialized := False, tp_change := True\<rparr>,
       log := log d @ [Local_Topology_Change 1]\<rparr>"

definition init_status :: "bool \<Rightarrow> brloop \<Rightarrow> brloop" where
  "init_status opens d =
     (let d = reset_Portmap opens d
      in d\<lparr>tp := (tp d)\<lparr>portLink := replicate 4 (CHR 0x00), prePortLink := replicate 4 (CHR 0x00),
                        ifw_state := 0, initialized := False, tp_change := False\<rparr>,
           log := log d @ [Local_Topology_Change 0]\<rparr>)"

definition ifw_status :: "link_cfg \<Rightarrow> link_env \<Rightarrow> int option" where
  "ifw_status c env = get_station_layer3_link_status c env"

definition getPreDisPort :: "brloop \<Rightarrow> nat" where
  "getPreDisPort d = (if cur_dis_port d = 0 then 3 else cur_dis_port d - 1)"

section \<open>The loop of the daemon\<close>

text \<open>The local topology change is taken back after more than 15 rounds.\<close>

definition age_topology :: "brloop \<Rightarrow> brloop" where
  "age_topology d =
     (if tp_change (tp d) then
        let d = d\<lparr>tp_time_out := tp_time_out d + 1\<rparr>
        in if tp_time_out d > 15 then
             d\<lparr>log := log d @ [Local_Topology_Change 0], tp := (tp d)\<lparr>tp_change := False\<rparr>, tp_time_out := 0\<rparr>
           else d
      else d)"

definition port_changed :: "TPState \<Rightarrow> bool" where
  "port_changed t \<longleftrightarrow> disablePort t \<ge> 0 \<and> portLink t ! nat (disablePort t) \<noteq> prePortLink t ! nat (disablePort t)"

text \<open>The check of the links, every second round; \<open>None\<close> when the daemon dies on a null stream.\<close>

definition check_links :: "brloop_obs \<Rightarrow> brloop \<Rightarrow> brloop option" where
  "check_links ob d =
     (if checkTime d \<ge> 2 then
        let d = d\<lparr>tp := port_status (link_text ob) (tp d)\<rparr>;
            d = (if port_changed (tp d) then reset_Portmap (enable_open ob) d else d);
            d = d\<lparr>tp := (tp d)\<lparr>prePortLink := portLink (tp d)\<rparr>\<rparr>
        in (case ifw_status (cfg d) (station ob) of
              None \<Rightarrow> None
            | Some cur_ifw_status \<Rightarrow>
                let d = (if disablePort (tp d) \<ge> 0 \<and> cur_ifw_status \<noteq> ifw_state (tp d)
                         then reset_Portmap (enable_open ob) d else d)
                in Some (d\<lparr>tp := (tp d)\<lparr>ifw_state := cur_ifw_status\<rparr>, checkTime := 0\<rparr>))
      else Some d)"

text \<open>A loop: the next port is blocked, in place of the one blocked before.\<close>

definition block_port :: "bool \<Rightarrow> brloop \<Rightarrow> brloop" where
  "block_port opens d =
     (let p = cur_dis_port d mod 4;
          g = (if initialized (tp d) then reEnableDisPort opens (sw d) else sw d);
          g = snd (star_switch_set_port_disable [port_digit p, CHR 0x0A] g)
      in d\<lparr>tp := (tp d)\<lparr>disablePort := int p, initialized := True, tp_change := True\<rparr>,
           sw := g, cur_dis_port := (cur_dis_port d + 1) mod 4, tp_time_out := 0,
           log := log d @ [Clear_Bridge_Loop, Arping]\<rparr>)"

text \<open>Up to \<open>n\<close> readings of the flag, from the \<open>i\<close>-th; \<open>None\<close> when the daemon exits.\<close>

fun loop_check :: "bool \<Rightarrow> (nat \<Rightarrow> loop_read) \<Rightarrow> nat \<Rightarrow> nat \<Rightarrow> brloop \<Rightarrow> brloop option" where
  "loop_check opens rd i 0 d = Some d"
| "loop_check opens rd i (Suc n) d =
     (if rd i = Read_Fail then None
      else let d = (case rd i of Read v \<Rightarrow> d\<lparr>tp := (tp d)\<lparr>br_loop := v\<rparr>\<rparr> | _ \<Rightarrow> d)
           in if br_loop (tp d) \<noteq> 0 then loop_check opens rd (i + 1) n (block_port opens d) else Some d)"

definition brloop_step :: "brloop_obs \<Rightarrow> brloop \<Rightarrow> brloop option" where
  "brloop_step ob d =
     (case check_links ob (age_topology d) of
        None \<Rightarrow> None
      | Some d \<Rightarrow>
          let d = d\<lparr>checkTime := checkTime d + 1\<rparr>
          in if \<not> wpsLoopDetect ob then loop_check (enable_open ob) (loop_reads ob) 0 4 d
             else Some (d\<lparr>log := log d @ [Clear_Bridge_Loop]\<rparr>))"

definition brloop_start :: "bool \<Rightarrow> link_env \<Rightarrow> gsw \<Rightarrow> brloop" where
  "brloop_start opens env g =
     (let d = init_status opens
            \<lparr>tp = \<lparr>br_loop = 0, tp_change = False, disablePort = 0, portLink = replicate 4 (CHR 0x00),
                   ifw_state = 0, prePortLink = replicate 4 (CHR 0x00), initialized = False\<rparr>,
             cur_dis_port = 0, checkTime = 0, tp_time_out = 0, sw = g,
             cfg = \<lparr>securityMode = 0, authMode = 0, ipConfigMethod = 0\<rparr>, log = []\<rparr>
      in d\<lparr>cfg := initLinkUtil env (cfg d), log := log d @ [Device_Is_Wes610n]\<rparr>)"

text \<open>The daemon over a sequence of rounds; it stays dead once it has exited.\<close>

definition brloop_run :: "brloop option \<Rightarrow> brloop_obs \<Rightarrow> brloop option" where
  "brloop_run d ob = Option.bind d (brloop_step ob)"

section \<open>Unblocking\<close>

lemma digits_of_ports:
  "port_digit 0 = CHR ''0''" "port_digit 1 = CHR ''1''" "port_digit 2 = CHR ''2''" "port_digit 3 = CHR ''3''"
  by code_simp+

lemmas digits_of_ports' = digits_of_ports digits_of_ports(2) [unfolded One_nat_def]

lemma less_4_cases: "i < 4 \<longleftrightarrow> i = 0 \<or> i = 1 \<or> i = 2 \<or> i = (3 :: nat)"
  by linarith

lemma port_char_digit: "i < 4 \<Longrightarrow> port_char (port_digit i) = Some (of_nat i)"
  by (auto simp: less_4_cases digits_of_ports' port_char_def)

lemma unat_port: "i < 4 \<Longrightarrow> unat (of_nat i :: u32) = i"
  by (simp add: unat_of_nat take_bit_nat_eq_self)

lemma enable_port:
  assumes "prompt g" "i < 4"
  shows "q \<le> 5 \<Longrightarrow> port_state q (snd (star_switch_set_port_enable [port_digit i, CHR 0x0A] g)) = (if q = i then 3 else port_state q g)"
    "prompt (snd (star_switch_set_port_enable [port_digit i, CHR 0x0A] g))"
  using set_port_text [OF assms(1) port_char_digit [OF assms(2)]] assms(2)
  by (simp_all add: star_switch_set_port_enable_def unat_port)

lemma disable_port:
  assumes "prompt g" "i < 4"
  shows "q \<le> 5 \<Longrightarrow> port_state q (snd (star_switch_set_port_disable [port_digit i, CHR 0x0A] g)) = (if q = i then 1 else port_state q g)"
    "prompt (snd (star_switch_set_port_disable [port_digit i, CHR 0x0A] g))"
  using set_port_text [OF assms(1) port_char_digit [OF assms(2)]] assms(2)
  by (simp_all add: star_switch_set_port_disable_def unat_port)

text \<open>
  What \<open>reEnableDisPort\<close> does: the file lists the states of the ports 3 to 0 with no separators,
  so the loop sees those of the ports 3 and 1, and the terminating NUL.
\<close>

lemma reenable_effect:
  assumes "prompt g" "q \<le> 5"
  shows "port_state q (reEnableDisPort True g) =
    (if q = 1 \<or> q = 2 \<or> q = 0 \<and> port_state 3 g \<noteq> 3 then 3 else port_state q g)"
proof -
  let ?t = "fst (star_switch_get_port_enable g)" and ?g = "snd (star_switch_get_port_enable g)"
  have "reEnableDisPort True g = reenable_loop 0 ?t ?g"
    by (simp add: reEnableDisPort_def case_prod_unfold Let_def)
  then show ?thesis
    using assms
    by (auto simp: get_port_enable enable_port state_char_3 Let_def eval_nat_numeral less_Suc_eq)
qed

lemma reenable_loop_prompt: "prompt g \<Longrightarrow> prompt (reenable_loop i cs g)"
  by (induction i cs g rule: reenable_loop.induct) (auto simp: Let_def enable_port split: list.split)

lemma reenable_prompt: "prompt g \<Longrightarrow> prompt (reEnableDisPort opens g)"
  by (simp add: reEnableDisPort_def case_prod_unfold Let_def reenable_loop_prompt get_port_enable(3) del: reenable_loop.simps)

section \<open>Blocking\<close>

lemma block_port_effect:
  assumes "prompt (sw d)" "cur_dis_port d < 4"
  shows "port_state (cur_dis_port d) (sw (block_port opens d)) = 1"
    "prompt (sw (block_port opens d))"
    "disablePort (tp (block_port opens d)) = int (cur_dis_port d)"
    "cur_dis_port (block_port opens d) = (cur_dis_port d + 1) mod 4"
    "tp_change (tp (block_port opens d))" "tp_time_out (block_port opens d) = 0"
    "br_loop (tp (block_port opens d)) = br_loop (tp d)"
  using assms by (simp_all add: block_port_def Let_def disable_port reenable_prompt)

text \<open>The daemon after \<open>k\<close> detections in one round, the last of which stopped the loop.\<close>

definition blocked_last :: "nat \<Rightarrow> nat \<Rightarrow> brloop \<Rightarrow> bool" where
  "blocked_last c k d \<longleftrightarrow> disablePort (tp d) = int ((c + k - 1) mod 4) \<and>
     port_state ((c + k - 1) mod 4) (sw d) = 1 \<and> cur_dis_port d = (c + k) mod 4 \<and>
     tp_change (tp d) \<and> tp_time_out d = 0"

lemma mod_4_shift:
  fixes c k :: nat
  assumes "0 < k"
  shows "((c + 1) mod 4 + k - 1) mod 4 = (c + k) mod 4" "((c + 1) mod 4 + k) mod 4 = Suc (c + k) mod 4"
proof -
  obtain j where j: "k = Suc j" using assms by (cases k) auto
  have e: "((c + 1) mod 4 + i) mod 4 = (c + 1 + i) mod 4" for i by (rule mod_add_left_eq)
  show "((c + 1) mod 4 + k - 1) mod 4 = (c + k) mod 4" using e [of j] unfolding j by simp
  show "((c + 1) mod 4 + k) mod 4 = Suc (c + k) mod 4" using e [of k] by simp
qed

lemma loop_check_blocks:
  assumes "prompt (sw d)" "cur_dis_port d < 4" "0 < k" "k \<le> n"
    and "\<forall>j<k. \<exists>v. rd (i + j) = Read v \<and> v \<noteq> 0" "k < n \<longrightarrow> rd (i + k) = Read 0"
  shows "\<exists>d'. loop_check opens rd i n d = Some d' \<and> blocked_last (cur_dis_port d) k d'"
  using assms
proof (induction k arbitrary: i n d)
  case (Suc k)
  obtain m where n: "n = Suc m" using Suc.prems(4) by (cases n) auto
  obtain v where v: "rd i = Read v" "v \<noteq> 0" using Suc.prems(5) by force
  let ?d = "d\<lparr>tp := (tp d)\<lparr>br_loop := v\<rparr>\<rparr>"
  let ?b = "block_port opens ?d"
  have step: "loop_check opens rd i n d = loop_check opens rd (i + 1) m ?b" using n v by simp
  have c: "cur_dis_port ?b = (cur_dis_port d + 1) mod 4" using Suc.prems(1,2) by (simp add: block_port_effect)
  show ?case
  proof (cases "k = 0")
    case True
    have "loop_check opens rd (i + 1) m ?b = Some ?b \<or>
        loop_check opens rd (i + 1) m ?b = Some (?b\<lparr>tp := (tp ?b)\<lparr>br_loop := 0\<rparr>\<rparr>)"
      using Suc.prems(6) True n by (cases m) auto
    moreover have "blocked_last (cur_dis_port d) 1 ?b"
      using Suc.prems(1,2) block_port_effect [of ?d opens] by (simp add: blocked_last_def)
    ultimately show ?thesis using True step by (auto simp: blocked_last_def)
  next
    case False
    have "\<exists>v. rd (i + 1 + j) = Read v \<and> v \<noteq> 0" if "j < k" for j
      using Suc.prems(5) [rule_format, of "Suc j"] that by simp
    moreover have "k < m \<longrightarrow> rd (i + 1 + k) = Read 0" using Suc.prems(6) n by simp
    ultimately obtain d' where d': "loop_check opens rd (i + 1) m ?b = Some d'" "blocked_last (cur_dis_port ?b) k d'"
      using Suc.IH [of ?b m "i + 1"] Suc.prems(1,2,4) False n c block_port_effect(2) [of ?d opens] by auto
    have "((cur_dis_port d + 1) mod 4 + k - 1) mod 4 = (cur_dis_port d + Suc k - 1) mod 4"
      "((cur_dis_port d + 1) mod 4 + k) mod 4 = (cur_dis_port d + Suc k) mod 4"
      using mod_4_shift [of k "cur_dis_port d"] False by (simp_all only: add_Suc_right diff_Suc_1 neq0_conv)
    then have "blocked_last (cur_dis_port d) (Suc k) d'" using d'(2) unfolding blocked_last_def c by simp
    then show ?thesis using d'(1) step by simp
  qed
qed simp

section \<open>The invariant of the daemon\<close>

definition brloop_inv :: "brloop \<Rightarrow> bool" where
  "brloop_inv d \<longleftrightarrow> - 1 \<le> disablePort (tp d) \<and> disablePort (tp d) < 4 \<and> cur_dis_port d < 4 \<and>
     length (portLink (tp d)) = 4 \<and> length (prePortLink (tp d)) = 4 \<and> tp_time_out d \<le> 15 \<and> checkTime d \<le> 2"

lemma reset_Portmap_inv: "brloop_inv d \<Longrightarrow> brloop_inv (reset_Portmap opens d)"
  by (simp add: brloop_inv_def reset_Portmap_def)

lemma age_topology_inv: "brloop_inv d \<Longrightarrow> brloop_inv (age_topology d)"
  by (auto simp: brloop_inv_def age_topology_def Let_def)

lemma port_status_inv: "brloop_inv d \<Longrightarrow> brloop_inv (d\<lparr>tp := port_status out (tp d)\<rparr>)"
  by (auto simp: brloop_inv_def port_status_def split: option.split)

lemma prePortLink_inv: "brloop_inv d \<Longrightarrow> brloop_inv (d\<lparr>tp := (tp d)\<lparr>prePortLink := portLink (tp d)\<rparr>\<rparr>)"
  by (auto simp: brloop_inv_def)

lemma check_links_inv:
  assumes "brloop_inv d" "check_links ob d = Some d'"
  shows "brloop_inv (d'\<lparr>checkTime := checkTime d' + 1\<rparr>)"
proof (cases "checkTime d \<ge> 2")
  case True
  define d1 where "d1 = d\<lparr>tp := port_status (link_text ob) (tp d)\<rparr>"
  define d2 where "d2 = (if port_changed (tp d1) then reset_Portmap (enable_open ob) d1 else d1)"
  define d3 where "d3 = d2\<lparr>tp := (tp d2)\<lparr>prePortLink := portLink (tp d2)\<rparr>\<rparr>"
  have "brloop_inv d3"
    unfolding d3_def d2_def d1_def using assms(1) by (simp add: port_status_inv reset_Portmap_inv prePortLink_inv)
  moreover have "check_links ob d = (case ifw_status (cfg d3) (station ob) of None \<Rightarrow> None
      | Some s \<Rightarrow> let d = (if disablePort (tp d3) \<ge> 0 \<and> s \<noteq> ifw_state (tp d3)
          then reset_Portmap (enable_open ob) d3 else d3) in Some (d\<lparr>tp := (tp d)\<lparr>ifw_state := s\<rparr>, checkTime := 0\<rparr>))"
    unfolding check_links_def d3_def d2_def d1_def using True by (simp only: Let_def if_True)
  ultimately show ?thesis
    using reset_Portmap_inv [of d3 "enable_open ob"] assms(2)
    by (auto simp: brloop_inv_def Let_def split: option.splits if_splits)
next
  case False
  then show ?thesis using assms by (simp add: check_links_def brloop_inv_def)
qed

lemma loop_check_inv: "brloop_inv d \<Longrightarrow> loop_check opens rd i n d = Some d' \<Longrightarrow> brloop_inv d'"
proof (induction n arbitrary: i d)
  case (Suc n)
  let ?d = "case rd i of Read v \<Rightarrow> d\<lparr>tp := (tp d)\<lparr>br_loop := v\<rparr>\<rparr> | _ \<Rightarrow> d"
  have "brloop_inv ?d" using Suc.prems(1) by (simp add: brloop_inv_def split: loop_read.split)
  moreover have "brloop_inv e \<Longrightarrow> brloop_inv (block_port opens e)" for e
    by (simp add: brloop_inv_def block_port_def Let_def)
  ultimately show ?case
    using Suc.prems(2) Suc.IH [of "block_port opens ?d" "i + 1"] by (auto simp: Let_def split: if_splits)
qed simp

lemma brloop_step_inv:
  assumes "brloop_inv d" "brloop_step ob d = Some d'"
  shows "brloop_inv d'"
proof -
  obtain e where e: "check_links ob (age_topology d) = Some e"
    using assms(2) by (auto simp: brloop_step_def split: option.splits)
  have i: "brloop_inv (e\<lparr>checkTime := checkTime e + 1\<rparr>)"
    by (rule check_links_inv [OF age_topology_inv [OF assms(1)] e])
  show ?thesis
  proof (cases "wpsLoopDetect ob")
    case True
    then have "d' = e\<lparr>checkTime := checkTime e + 1, log := log e @ [Clear_Bridge_Loop]\<rparr>"
      using assms(2) e by (simp add: brloop_step_def Let_def)
    then show ?thesis using i by (simp add: brloop_inv_def)
  next
    case False
    then have "loop_check (enable_open ob) (loop_reads ob) 0 4 (e\<lparr>checkTime := checkTime e + 1\<rparr>) = Some d'"
      using assms(2) e by (simp add: brloop_step_def Let_def)
    then show ?thesis by (rule loop_check_inv [OF i])
  qed
qed

interpretation brloop_system: invariant_system brloop_run "\<lambda>d. case d of None \<Rightarrow> True | Some d \<Rightarrow> brloop_inv d" "\<lambda>_. True"
  by unfold_locales (auto simp: brloop_run_def Option.bind_eq_Some_conv split: option.splits intro: brloop_step_inv)

section \<open>Ageing of the topology change\<close>

text \<open>A round that detects no loop, with the command for the wireless status working.\<close>

definition quiet :: "brloop_obs \<Rightarrow> bool" where
  "quiet ob \<longleftrightarrow> wireless_out (station ob) \<noteq> None \<and> (wpsLoopDetect ob \<or> loop_reads ob 0 = Read 0)"

lemma check_links_quiet:
  assumes "disablePort (tp d) = - 1" "wireless_out (station ob) \<noteq> None"
  shows "\<exists>d'. check_links ob d = Some d' \<and> disablePort (tp d') = - 1 \<and>
    tp_change (tp d') = tp_change (tp d) \<and> tp_time_out d' = tp_time_out d"
proof -
  obtain r where "ifw_status c (station ob) = Some (r c)" for c
    using assms(2) by (auto simp: ifw_status_def get_station_layer3_link_status_def Let_def)
  moreover have "disablePort (port_status out (tp d)) = - 1" "tp_change (port_status out (tp d)) = tp_change (tp d)" for out
    using assms(1) by (auto simp: port_status_def split: option.split)
  ultimately show ?thesis using assms(1) by (auto simp: check_links_def port_changed_def Let_def)
qed

lemma loop_check_quiet:
  assumes "rd 0 = Read 0"
  shows "loop_check opens rd 0 4 d = Some (d\<lparr>tp := (tp d)\<lparr>br_loop := 0\<rparr>\<rparr>)"
proof -
  have "(4 :: nat) = Suc 3" by simp
  then show ?thesis using assms by (simp only: loop_check.simps) simp
qed

lemma quiet_step:
  assumes d: "disablePort (tp d) = - 1" "tp_change (tp d)" and q: "quiet ob"
  shows "\<exists>d'. brloop_step ob d = Some d' \<and> disablePort (tp d') = - 1 \<and>
    (if tp_time_out d < 15 then tp_change (tp d') \<and> tp_time_out d' = tp_time_out d + 1 else \<not> tp_change (tp d'))"
proof -
  let ?a = "age_topology d"
  have a: "disablePort (tp ?a) = - 1"
    "if tp_time_out d < 15 then tp_change (tp ?a) \<and> tp_time_out ?a = tp_time_out d + 1 else \<not> tp_change (tp ?a)"
    using d by (auto simp: age_topology_def Let_def)
  obtain e where e: "check_links ob ?a = Some e" "disablePort (tp e) = - 1"
    "tp_change (tp e) = tp_change (tp ?a)" "tp_time_out e = tp_time_out ?a"
    using check_links_quiet [OF a(1), of ob] q by (auto simp: quiet_def)
  have "\<exists>d'. brloop_step ob d = Some d' \<and> disablePort (tp d') = disablePort (tp e) \<and>
      tp_change (tp d') = tp_change (tp e) \<and> tp_time_out d' = tp_time_out e"
    using q e(1) by (auto simp: brloop_step_def quiet_def Let_def loop_check_quiet simp del: loop_check.simps)
  then show ?thesis using e a(2) by auto
qed

lemma ageing:
  assumes "disablePort (tp d) = - 1" "tp_change (tp d)" "tp_time_out d \<le> 15"
    "list_all quiet obs" "length obs = 16 - tp_time_out d"
  shows "\<exists>d'. run brloop_run (Some d) obs = Some d' \<and> \<not> tp_change (tp d')"
  using assms
proof (induction obs arbitrary: d)
  case (Cons ob obs)
  obtain d' where d': "brloop_step ob d = Some d'" "disablePort (tp d') = - 1"
    "if tp_time_out d < 15 then tp_change (tp d') \<and> tp_time_out d' = tp_time_out d + 1 else \<not> tp_change (tp d')"
    using quiet_step [OF Cons.prems(1,2), of ob] Cons.prems(4) by auto
  show ?case
  proof (cases "tp_time_out d < 15")
    case True
    then show ?thesis using Cons.IH [of d'] Cons.prems(4,5) d' by (simp add: brloop_run_def)
  next
    case False
    then have "obs = []" using Cons.prems(3,5) by simp
    then show ?thesis using d' False by (simp add: brloop_run_def)
  qed
qed simp

section \<open>Properties\<close>

definition sample_obs :: brloop_obs where
  "sample_obs = \<lparr>link_text = None, enable_open = True, station = sample_env, wpsLoopDetect = False, loop_reads = \<lambda>i. Read (if i = 0 then 1 else 0)\<rparr>"

text \<open>
  C23: Whatever the daemon sees, as long as it runs it indexes the four ports within their bounds:
  the blocked port is none or 0 to 3, the next port to block is 0 to 3, the link tables have four
  entries, and its counters stay within 15 and 2.
\<close>

theorem brloop_safe:
  assumes "run brloop_run (Some (brloop_start opens env g)) obs = Some d"
  shows "brloop_inv d"
proof -
  have "brloop_inv (brloop_start opens env g)"
    by (simp add: brloop_start_def brloop_inv_def init_status_def reset_Portmap_def Let_def)
  then show ?thesis using brloop_system.run_inv [of "Some (brloop_start opens env g)" obs] assms by (simp add: list_all_iff)
qed

lemma sample_round:
  "\<exists>d. run brloop_run (Some (brloop_start True sample_env slow_switch)) [sample_obs] = Some d \<and> blocked_last 0 1 d"
proof -
  let ?d = "(brloop_start True sample_env slow_switch)\<lparr>checkTime := 1\<rparr>"
  have "brloop_step sample_obs (brloop_start True sample_env slow_switch) = loop_check True (loop_reads sample_obs) 0 4 ?d"
    by (simp add: brloop_step_def check_links_def age_topology_def brloop_start_def init_status_def reset_Portmap_def
        sample_obs_def Let_def del: loop_check.simps)
  moreover have "\<exists>d. loop_check True (loop_reads sample_obs) 0 4 ?d = Some d \<and> blocked_last (cur_dis_port ?d) 1 d"
    by (rule loop_check_blocks)
      (simp_all add: brloop_start_def init_status_def reset_Portmap_def Let_def sample_obs_def reenable_prompt slow_switch_prompt)
  moreover have "cur_dis_port ?d = 0" by (simp add: brloop_start_def init_status_def reset_Portmap_def Let_def)
  ultimately show ?thesis by (simp add: brloop_run_def)
qed

theorem brloop_safe_witness:
  "\<exists>d. run brloop_run (Some (brloop_start True sample_env slow_switch)) [sample_obs] = Some d \<and>
     disablePort (tp d) = 0 \<and> brloop_inv d"
  using sample_round brloop_safe [of True sample_env slow_switch "[sample_obs]"] by (auto simp: blocked_last_def)

text \<open>
  C35: When the bridge reports a loop \<open>k\<close> times in a round (\<open>k\<close> from 1 to 4, and after fewer than
  4 then no more), the daemon blocks \<open>k\<close> ports one after the other, round robin from the next port
  to block. It ends with the last of them blocked in the switch and recorded as the blocked port,
  the port after it as the next to block, and the flag of a topology change set with its timer
  at zero. The switch completes its transactions within the polls of the driver. Nothing is said
  of the ports blocked before the last one, some of which stay blocked, and no announcement of
  the topology change is written here.
\<close>

theorem brloop_blocks_next_port:
  assumes "prompt (sw d)" "cur_dis_port d < 4" "0 < k" "k \<le> 4"
    and "\<forall>j<k. \<exists>v. rd j = Read v \<and> v \<noteq> 0" "k < 4 \<longrightarrow> rd k = Read 0"
  shows "\<exists>d'. loop_check opens rd 0 4 d = Some d' \<and> blocked_last (cur_dis_port d) k d'"
  using loop_check_blocks [OF assms(1-4), of rd 0 opens] assms(5,6) by simp

theorem brloop_blocks_next_port_witness:
  "\<exists>d'. loop_check True (\<lambda>i. Read (if i < 2 then 1 else 0)) 0 4 (brloop_start True sample_env slow_switch) = Some d' \<and>
     blocked_last 0 2 d'"
  using brloop_blocks_next_port [of "brloop_start True sample_env slow_switch" 2 "\<lambda>i. Read (if i < 2 then 1 else 0)" True]
  by (simp add: brloop_start_def init_status_def reset_Portmap_def Let_def reenable_prompt slow_switch_prompt)

text \<open>
  \<open>reEnableDisPort\<close> does not unblock the ports it is meant to. The driver lists the states of
  the ports from 3 down to 0 without separators, and the daemon reads every second character as
  the state of port 0, 1, 2: whatever is blocked, the ports 1 and 2 are set to forwarding, port 0
  only when port 3 is not, and port 3 never. So a port 0 or 3 that was blocked alone, or port 3
  with any other, stays blocked although the daemon records that none is.
\<close>

theorem reEnableDisPort_misreads:
  assumes "prompt (sw d)"
  shows "port_state 3 (sw (reset_Portmap True d)) = port_state 3 (sw d) \<and>
   port_state 0 (sw (reset_Portmap True d)) = (if port_state 3 (sw d) \<noteq> 3 then 3 else port_state 0 (sw d)) \<and>
   port_state 1 (sw (reset_Portmap True d)) = 3 \<and> port_state 2 (sw (reset_Portmap True d)) = 3 \<and>
   disablePort (tp (reset_Portmap True d)) = - 1"
  using assms by (simp add: reset_Portmap_def reenable_effect)

theorem reEnableDisPort_misreads_witness:
  "disablePort (tp (reset_Portmap True (brloop_start True sample_env slow_switch))) = - 1"
  using reEnableDisPort_misreads [of "brloop_start True sample_env slow_switch"]
  by (simp add: brloop_start_def init_status_def reset_Portmap_def Let_def reenable_prompt slow_switch_prompt)

text \<open>
  A topology change that the daemon announced is taken back after as many quiet rounds as are
  missing to 16, when no port is blocked any more.
\<close>

theorem topology_change_ages:
  assumes "disablePort (tp d) = - 1" "tp_change (tp d)" "tp_time_out d \<le> 15"
    "list_all quiet obs" "length obs = 16 - tp_time_out d"
  shows "\<exists>d'. run brloop_run (Some d) obs = Some d' \<and> \<not> tp_change (tp d')"
  by (rule ageing [OF assms])

theorem topology_change_ages_witness:
  "\<exists>d'. run brloop_run (Some (reset_Portmap True (brloop_start True sample_env slow_switch)))
     (replicate 16 (sample_obs\<lparr>wpsLoopDetect := True\<rparr>)) = Some d' \<and> \<not> tp_change (tp d')"
  by (rule topology_change_ages)
    (simp_all add: reset_Portmap_def brloop_start_def init_status_def Let_def quiet_def sample_obs_def sample_env_def list_all_iff)

end
