(* ===== verification/Md5.thy ===== *)
theory Md5
  imports Prelude
begin

text \<open>
  The message digest of the web server, \<open>apps/WebServer/md5c.c\<close>: the transformation of a block,
  the incremental interface \<open>MD5Init\<close>, \<open>MD5Update\<close>, \<open>MD5Final\<close>, and its correctness: whatever
  the pieces a message is fed in, the digest is that of the padded message cut into blocks.

  The counters \<open>i\<close> and \<open>inputLen\<close> of \<open>MD5Update\<close> are words of 32 bits, as in the code. For inputs of
  4294967233 bytes (63 less than a word can count) and more \<open>i + 63\<close> wraps around and the code reads behind the input; the
  model ends the loop there, and the theorems are about shorter inputs.
\<close>

section \<open>The transformation of a block\<close>

type_synonym md5_state = "u32 \<times> u32 \<times> u32 \<times> u32"

abbreviation (input) S11 :: nat where "S11 \<equiv> 7"
abbreviation (input) S12 :: nat where "S12 \<equiv> 12"
abbreviation (input) S13 :: nat where "S13 \<equiv> 17"
abbreviation (input) S14 :: nat where "S14 \<equiv> 22"
abbreviation (input) S21 :: nat where "S21 \<equiv> 5"
abbreviation (input) S22 :: nat where "S22 \<equiv> 9"
abbreviation (input) S23 :: nat where "S23 \<equiv> 14"
abbreviation (input) S24 :: nat where "S24 \<equiv> 20"
abbreviation (input) S31 :: nat where "S31 \<equiv> 4"
abbreviation (input) S32 :: nat where "S32 \<equiv> 11"
abbreviation (input) S33 :: nat where "S33 \<equiv> 16"
abbreviation (input) S34 :: nat where "S34 \<equiv> 23"
abbreviation (input) S41 :: nat where "S41 \<equiv> 6"
abbreviation (input) S42 :: nat where "S42 \<equiv> 10"
abbreviation (input) S43 :: nat where "S43 \<equiv> 15"
abbreviation (input) S44 :: nat where "S44 \<equiv> 21"

definition F :: "u32 \<Rightarrow> u32 \<Rightarrow> u32 \<Rightarrow> u32" where
  "F x y z = (x AND y) OR (NOT x AND z)"

definition G :: "u32 \<Rightarrow> u32 \<Rightarrow> u32 \<Rightarrow> u32" where
  "G x y z = (x AND z) OR (y AND NOT z)"

definition H :: "u32 \<Rightarrow> u32 \<Rightarrow> u32 \<Rightarrow> u32" where
  "H x y z = x XOR y XOR z"

definition I :: "u32 \<Rightarrow> u32 \<Rightarrow> u32 \<Rightarrow> u32" where
  "I x y z = y XOR (x OR NOT z)"

definition ROTATE_LEFT :: "u32 \<Rightarrow> nat \<Rightarrow> u32" where
  "ROTATE_LEFT x n = push_bit n x OR drop_bit (32 - n) x"

text \<open>The new value of the first argument of each macro.\<close>

definition FF :: "u32 \<Rightarrow> u32 \<Rightarrow> u32 \<Rightarrow> u32 \<Rightarrow> u32 \<Rightarrow> nat \<Rightarrow> u32 \<Rightarrow> u32" where
  "FF a b c d x s ac = ROTATE_LEFT (a + (F b c d + x + ac)) s + b"

definition GG :: "u32 \<Rightarrow> u32 \<Rightarrow> u32 \<Rightarrow> u32 \<Rightarrow> u32 \<Rightarrow> nat \<Rightarrow> u32 \<Rightarrow> u32" where
  "GG a b c d x s ac = ROTATE_LEFT (a + (G b c d + x + ac)) s + b"

definition HH :: "u32 \<Rightarrow> u32 \<Rightarrow> u32 \<Rightarrow> u32 \<Rightarrow> u32 \<Rightarrow> nat \<Rightarrow> u32 \<Rightarrow> u32" where
  "HH a b c d x s ac = ROTATE_LEFT (a + (H b c d + x + ac)) s + b"

definition II :: "u32 \<Rightarrow> u32 \<Rightarrow> u32 \<Rightarrow> u32 \<Rightarrow> u32 \<Rightarrow> nat \<Rightarrow> u32 \<Rightarrow> u32" where
  "II a b c d x s ac = ROTATE_LEFT (a + (I b c d + x + ac)) s + b"

definition md5_round1 :: "u32 list \<Rightarrow> md5_state \<Rightarrow> md5_state" where
  "md5_round1 x = (\<lambda>(a, b, c, d).
     (let a = FF a b c d (x ! 0) S11 0xd76aa478;
          d = FF d a b c (x ! 1) S12 0xe8c7b756;
          c = FF c d a b (x ! 2) S13 0x242070db;
          b = FF b c d a (x ! 3) S14 0xc1bdceee;
          a = FF a b c d (x ! 4) S11 0xf57c0faf;
          d = FF d a b c (x ! 5) S12 0x4787c62a;
          c = FF c d a b (x ! 6) S13 0xa8304613;
          b = FF b c d a (x ! 7) S14 0xfd469501;
          a = FF a b c d (x ! 8) S11 0x698098d8;
          d = FF d a b c (x ! 9) S12 0x8b44f7af;
          c = FF c d a b (x ! 10) S13 0xffff5bb1;
          b = FF b c d a (x ! 11) S14 0x895cd7be;
          a = FF a b c d (x ! 12) S11 0x6b901122;
          d = FF d a b c (x ! 13) S12 0xfd987193;
          c = FF c d a b (x ! 14) S13 0xa679438e;
          b = FF b c d a (x ! 15) S14 0x49b40821
      in (a, b, c, d)))"

definition md5_round2 :: "u32 list \<Rightarrow> md5_state \<Rightarrow> md5_state" where
  "md5_round2 x = (\<lambda>(a, b, c, d).
     (let a = GG a b c d (x ! 1) S21 0xf61e2562;
          d = GG d a b c (x ! 6) S22 0xc040b340;
          c = GG c d a b (x ! 11) S23 0x265e5a51;
          b = GG b c d a (x ! 0) S24 0xe9b6c7aa;
          a = GG a b c d (x ! 5) S21 0xd62f105d;
          d = GG d a b c (x ! 10) S22 0x2441453;
          c = GG c d a b (x ! 15) S23 0xd8a1e681;
          b = GG b c d a (x ! 4) S24 0xe7d3fbc8;
          a = GG a b c d (x ! 9) S21 0x21e1cde6;
          d = GG d a b c (x ! 14) S22 0xc33707d6;
          c = GG c d a b (x ! 3) S23 0xf4d50d87;
          b = GG b c d a (x ! 8) S24 0x455a14ed;
          a = GG a b c d (x ! 13) S21 0xa9e3e905;
          d = GG d a b c (x ! 2) S22 0xfcefa3f8;
          c = GG c d a b (x ! 7) S23 0x676f02d9;
          b = GG b c d a (x ! 12) S24 0x8d2a4c8a
      in (a, b, c, d)))"

definition md5_round3 :: "u32 list \<Rightarrow> md5_state \<Rightarrow> md5_state" where
  "md5_round3 x = (\<lambda>(a, b, c, d).
     (let a = HH a b c d (x ! 5) S31 0xfffa3942;
          d = HH d a b c (x ! 8) S32 0x8771f681;
          c = HH c d a b (x ! 11) S33 0x6d9d6122;
          b = HH b c d a (x ! 14) S34 0xfde5380c;
          a = HH a b c d (x ! 1) S31 0xa4beea44;
          d = HH d a b c (x ! 4) S32 0x4bdecfa9;
          c = HH c d a b (x ! 7) S33 0xf6bb4b60;
          b = HH b c d a (x ! 10) S34 0xbebfbc70;
          a = HH a b c d (x ! 13) S31 0x289b7ec6;
          d = HH d a b c (x ! 0) S32 0xeaa127fa;
          c = HH c d a b (x ! 3) S33 0xd4ef3085;
          b = HH b c d a (x ! 6) S34 0x4881d05;
          a = HH a b c d (x ! 9) S31 0xd9d4d039;
          d = HH d a b c (x ! 12) S32 0xe6db99e5;
          c = HH c d a b (x ! 15) S33 0x1fa27cf8;
          b = HH b c d a (x ! 2) S34 0xc4ac5665
      in (a, b, c, d)))"

definition md5_round4 :: "u32 list \<Rightarrow> md5_state \<Rightarrow> md5_state" where
  "md5_round4 x = (\<lambda>(a, b, c, d).
     (let a = II a b c d (x ! 0) S41 0xf4292244;
          d = II d a b c (x ! 7) S42 0x432aff97;
          c = II c d a b (x ! 14) S43 0xab9423a7;
          b = II b c d a (x ! 5) S44 0xfc93a039;
          a = II a b c d (x ! 12) S41 0x655b59c3;
          d = II d a b c (x ! 3) S42 0x8f0ccc92;
          c = II c d a b (x ! 10) S43 0xffeff47d;
          b = II b c d a (x ! 1) S44 0x85845dd1;
          a = II a b c d (x ! 8) S41 0x6fa87e4f;
          d = II d a b c (x ! 15) S42 0xfe2ce6e0;
          c = II c d a b (x ! 6) S43 0xa3014314;
          b = II b c d a (x ! 13) S44 0x4e0811a1;
          a = II a b c d (x ! 4) S41 0xf7537e82;
          d = II d a b c (x ! 11) S42 0xbd3af235;
          c = II c d a b (x ! 2) S43 0x2ad7d2bb;
          b = II b c d a (x ! 9) S44 0xeb86d391
      in (a, b, c, d)))"

text \<open>\<open>Encode\<close> and \<open>Decode\<close>: words to bytes and back, least significant byte first.\<close>

fun Encode :: "u32 list \<Rightarrow> bytes" where
  "Encode [] = []"
| "Encode (w # ws) = [ucast (w AND 0xff), ucast (drop_bit 8 w AND 0xff), ucast (drop_bit 16 w AND 0xff),
     ucast (drop_bit 24 w AND 0xff)] @ Encode ws"

fun Decode :: "bytes \<Rightarrow> u32 list" where
  "Decode (b0 # b1 # b2 # b3 # bs) =
     (ucast b0 OR push_bit 8 (ucast b1) OR push_bit 16 (ucast b2) OR push_bit 24 (ucast b3)) # Decode bs"
| "Decode _ = []"

definition MD5Transform :: "md5_state \<Rightarrow> bytes \<Rightarrow> md5_state" where
  "MD5Transform s block =
     (let x = Decode block;
          (a, b, c, d) = md5_round4 x (md5_round3 x (md5_round2 x (md5_round1 x s)));
          (s0, s1, s2, s3) = s
      in (s0 + a, s1 + b, s2 + c, s3 + d))"

section \<open>The incremental interface\<close>

record MD5_CONTEXT =
  state :: md5_state
  count :: "u32 \<times> u32"
  buffer :: bytes

definition PADDING :: bytes where
  "PADDING = 0x80 # replicate 63 0"

definition md5_magic :: md5_state where
  "md5_magic = (0x67452301, 0xefcdab89, 0x98badcfe, 0x10325476)"

definition MD5Init :: "MD5_CONTEXT \<Rightarrow> MD5_CONTEXT" where
  "MD5Init context = context\<lparr>count := (0, 0), state := md5_magic\<rparr>"

definition MD5_memcpy :: "bytes \<Rightarrow> nat \<Rightarrow> bytes \<Rightarrow> bytes" where
  "MD5_memcpy output i input = take i output @ input @ drop (i + length input) output"

text \<open>
  The loop of \<open>MD5Update\<close> over whole blocks: the state, and the index it ends with. The second
  condition says that the block lies in the input; the code has only the first.
\<close>

function md5_loop :: "u32 \<Rightarrow> bytes \<Rightarrow> u32 \<Rightarrow> md5_state \<Rightarrow> md5_state \<times> u32" where
  "md5_loop inputLen input i s =
     (if i + 63 < inputLen \<and> unat i + 64 \<le> unat inputLen
      then md5_loop inputLen input (i + 64) (MD5Transform s (take 64 (drop (unat i) input))) else (s, i))"
  by pat_completeness auto

termination
proof (relation "measure (\<lambda>(inputLen, _, i, _). unat inputLen - unat i)", goal_cases)
  case (2 inputLen input i s)
  then have "unat i + 64 < 2 ^ 32" using unsigned_less [of inputLen, where ?'a = nat] by simp
  then have "unat (i + 64) = unat i + 64" by (simp add: unat_word_ariths)
  then show ?case using 2 by auto
qed simp

declare md5_loop.simps [simp del]

text \<open>The blocks of a message: the state after them, and what is left.\<close>

function md5_blocks :: "md5_state \<Rightarrow> bytes \<Rightarrow> md5_state \<times> bytes" where
  "md5_blocks s input =
     (if length input \<ge> 64 then md5_blocks (MD5Transform s (take 64 input)) (drop 64 input) else (s, input))"
  by pat_completeness auto

termination
  by (relation "measure (\<lambda>(_, input). length input)") auto

declare md5_blocks.simps [simp del]

definition MD5Update :: "MD5_CONTEXT \<Rightarrow> bytes \<Rightarrow> MD5_CONTEXT" where
  "MD5Update context input =
     (let inputLen = of_nat (length input) :: u32;
          (c0, c1) = count context;
          index = unat (drop_bit 3 c0 AND 0x3F);
          c0 = c0 + push_bit 3 inputLen;
          c1 = (if c0 < push_bit 3 inputLen then c1 + 1 else c1);
          c1 = c1 + drop_bit 29 inputLen;
          partLen = 64 - index;
          context = context\<lparr>count := (c0, c1)\<rparr>
      in if inputLen \<ge> of_nat partLen then
           let buf = MD5_memcpy (buffer context) index (take partLen input);
               (s, i) = md5_loop inputLen input (of_nat partLen) (MD5Transform (state context) buf)
           in context\<lparr>state := s, buffer := MD5_memcpy buf 0 (drop (unat i) input)\<rparr>
         else context\<lparr>buffer := MD5_memcpy (buffer context) index input\<rparr>)"

definition MD5Final :: "MD5_CONTEXT \<Rightarrow> bytes \<times> MD5_CONTEXT" where
  "MD5Final context =
     (let (c0, c1) = count context;
          bits = Encode [c0, c1];
          index = unat (drop_bit 3 c0 AND 0x3f);
          padLen = (if index < 56 then 56 - index else 120 - index);
          context = MD5Update context (take padLen PADDING);
          context = MD5Update context bits;
          (s0, s1, s2, s3) = state context
      in (Encode [s0, s1, s2, s3], \<lparr>state = (0, 0, 0, 0), count = (0, 0), buffer = replicate 64 0\<rparr>))"

section \<open>Blocks\<close>

lemma md5_blocks_short: "length m < 64 \<Longrightarrow> md5_blocks s m = (s, m)"
  by (subst md5_blocks.simps) simp

lemma md5_blocks_long:
  "64 \<le> length m \<Longrightarrow> md5_blocks s m = md5_blocks (MD5Transform s (take 64 m)) (drop 64 m)"
  by (subst md5_blocks.simps) simp

lemma md5_blocks_append:
  "md5_blocks s (m @ n) = (case md5_blocks s m of (s, r) \<Rightarrow> md5_blocks s (r @ n))"
proof (induction s m rule: md5_blocks.induct)
  case (1 s m)
  show ?case
  proof (cases "64 \<le> length m")
    case True
    then show ?thesis using 1 [OF True] by (simp add: md5_blocks_long)
  next
    case False
    then show ?thesis by (simp add: md5_blocks_short)
  qed
qed

lemma md5_blocks_rest: "length (snd (md5_blocks s m)) = length m mod 64"
proof (induction s m rule: md5_blocks.induct)
  case (1 s m)
  show ?case
  proof (cases "64 \<le> length m")
    case True
    then show ?thesis using 1 [OF True] by (simp add: md5_blocks_long le_mod_geq)
  next
    case False
    then show ?thesis by (simp add: md5_blocks_short)
  qed
qed

section \<open>The context of a message\<close>

text \<open>
  The context after the message \<open>m\<close>: the state after its whole blocks, the rest at the start of
  the buffer, and the number of bits modulo \<open>2\<^sup>6\<^sup>4\<close>.
\<close>

definition bit_count :: "nat \<Rightarrow> u32 \<times> u32" where
  "bit_count n = (of_nat (8 * n), of_nat (8 * n div 2 ^ 32))"

definition absorbed :: "MD5_CONTEXT \<Rightarrow> bytes \<Rightarrow> bool" where
  "absorbed c m \<longleftrightarrow> length (buffer c) = 64 \<and> count c = bit_count (length m) \<and>
     md5_blocks md5_magic m = (state c, take (length m mod 64) (buffer c))"

lemma bit_count_index: "unat (drop_bit 3 (fst (bit_count n)) AND 0x3F) = n mod 64"
proof -
  have "(0x3F :: u32) = mask 6" by (simp add: mask_eq_exp_minus_1)
  then have "unat (drop_bit 3 (of_nat (8 * n) :: u32) AND 0x3F) = take_bit 6 (drop_bit 3 (take_bit 32 (8 * n)))"
    by (simp only: take_bit_eq_mask [symmetric] unsigned_take_bit_eq unat_drop_bit_eq unat_of_nat) (simp add: take_bit_eq_mod)
  also have "\<dots> = n mod 64"
    by (simp add: take_bit_eq_mod drop_bit_eq_div mod_mult_mult1 [of 8 n 536870912, simplified] mod_mod_cancel)
  finally show ?thesis by (simp only: bit_count_def fst_conv)
qed

lemma carry_nat:
  fixes x y M :: nat
  assumes "x < M" "y < M"
  shows "(x + y) mod M < y \<longleftrightarrow> M \<le> x + y" "(x + y) div M = (if M \<le> x + y then 1 else 0)"
proof -
  show "(x + y) mod M < y \<longleftrightarrow> M \<le> x + y"
  proof (cases "M \<le> x + y")
    case True
    then show ?thesis using assms by (simp add: le_mod_geq)
  qed simp
  show "(x + y) div M = (if M \<le> x + y then 1 else 0)"
  proof (cases "M \<le> x + y")
    case True
    then show ?thesis using assms by (simp add: le_div_geq)
  qed simp
qed

lemma add_carry:
  fixes a b :: nat
  defines "M \<equiv> 2 ^ 32 :: nat"
  shows "(of_nat a + of_nat b :: u32) < of_nat b \<longleftrightarrow> M \<le> a mod M + b mod M"
    and "(a + b) div M = a div M + b div M + (if M \<le> a mod M + b mod M then 1 else 0)"
proof -
  have l: "a mod M < M" "b mod M < M" unfolding M_def by simp_all
  have "(of_nat a + of_nat b :: u32) < of_nat b \<longleftrightarrow> (a mod M + b mod M) mod M < b mod M"
    unfolding M_def by (simp add: word_less_nat_alt unat_of_nat take_bit_eq_mod unat_word_ariths mod_add_eq)
  then show "(of_nat a + of_nat b :: u32) < of_nat b \<longleftrightarrow> M \<le> a mod M + b mod M"
    using carry_nat(1) [OF l] by simp
  show "(a + b) div M = a div M + b div M + (if M \<le> a mod M + b mod M then 1 else 0)"
    using div_add1_eq [of a b M] carry_nat(2) [OF l] by simp
qed

text \<open>The counter of \<open>MD5Update\<close>: a 64-bit addition on two words.\<close>

lemma bit_count_add:
  assumes "n < 2 ^ 32"
  shows "(let len = of_nat n :: u32; (c0, c1) = bit_count m; c0 = c0 + push_bit 3 len;
      c1 = (if c0 < push_bit 3 len then c1 + 1 else c1); c1 = c1 + drop_bit 29 len in (c0, c1)) = bit_count (m + n)"
proof -
  have p: "push_bit 3 (of_nat n :: u32) = of_nat (8 * n)" by (simp add: push_bit_eq_mult)
  have "unat (of_nat n :: u32) = n" using assms by (simp add: unat_of_nat take_bit_nat_eq_self)
  then have "unat (drop_bit 29 (of_nat n :: u32)) = 8 * n div 2 ^ 32"
    by (simp only: unat_drop_bit_eq) (simp add: drop_bit_eq_div div_mult_mult1 [of 8 n 536870912, simplified])
  moreover have "of_nat (unat w) = (w :: u32)" for w by simp
  ultimately have d: "drop_bit 29 (of_nat n :: u32) = of_nat (8 * n div 2 ^ 32)" by metis
  have s: "8 * (m + n) = 8 * m + 8 * n" by simp
  show ?thesis
    unfolding bit_count_def p d s Let_def prod.case add_carry(2) add_carry(1) by (simp only: of_nat_add) simp
qed

lemma memcpy_take: "i + length n \<le> length b \<Longrightarrow> take (i + length n) (MD5_memcpy b i n) = take i b @ n"
  by (simp add: MD5_memcpy_def)

lemma memcpy_length: "i + length n \<le> length b \<Longrightarrow> length (MD5_memcpy b i n) = length b"
  by (simp add: MD5_memcpy_def)

lemma memcpy_fill: "i + length n = length b \<Longrightarrow> MD5_memcpy b i n = take i b @ n"
  by (simp add: MD5_memcpy_def)

lemma MD5Update_count:
  "length n < 2 ^ 32 \<Longrightarrow> count c = bit_count m \<Longrightarrow> count (MD5Update c n) = bit_count (m + length n)"
  using bit_count_add [of "length n" m]
  by (cases "bit_count m") (auto simp: MD5Update_def Let_def split: prod.splits)

lemma md5_loop_blocks:
  assumes "length input + 63 < 2 ^ 32" "unat i \<le> length input" "md5_loop (of_nat (length input)) input i s = (s', i')"
  shows "md5_blocks s (drop (unat i) input) = (s', drop (unat i') input)"
  using assms(2,3)
proof (induction "length input - unat i" arbitrary: i s rule: less_induct)
  case less
  have len: "unat (of_nat (length input) :: u32) = length input" using assms(1) by (simp add: unat_of_nat take_bit_nat_eq_self)
  have "unat i + 63 < 2 ^ 32" using less.prems(1) assms(1) by linarith
  then have "unat (i + 63) = unat i + 63" by (simp add: unat_word_ariths)
  then have cond: "i + 63 < of_nat (length input) \<longleftrightarrow> unat i + 64 \<le> length input" by (auto simp add: word_less_nat_alt len)
  show ?case
  proof (cases "unat i + 64 \<le> length input")
    case True
    then have "unat i + 64 < 2 ^ 32" using assms(1) by linarith
    then have a: "unat (i + 64) = unat i + 64" by (simp add: unat_word_ariths)
    have "md5_loop (of_nat (length input)) input (i + 64) (MD5Transform s (take 64 (drop (unat i) input))) = (s', i')"
      using less.prems(2) True cond len by (simp add: md5_loop.simps [of _ _ i])
    from less.hyps [OF _ _ this] show ?thesis using True a by (subst md5_blocks_long) (simp_all add: add.commute)
  next
    case False
    then have "s' = s" "i' = i" using less.prems(2) cond len by (simp_all add: md5_loop.simps [of _ _ i])
    then show ?thesis using False by (simp add: md5_blocks_short)
  qed
qed

lemma MD5Update_body:
  assumes "count c = bit_count (length m)" "length n + 63 < 2 ^ 32"
  defines "k \<equiv> length m mod 64"
  shows "(state (MD5Update c n), buffer (MD5Update c n)) =
    (if length n \<ge> 64 - k then
       let buf = MD5_memcpy (buffer c) k (take (64 - k) n);
           (s, rest) = md5_blocks (MD5Transform (state c) buf) (drop (64 - k) n)
       in (s, MD5_memcpy buf 0 rest)
     else (state c, MD5_memcpy (buffer c) k n))"
proof -
  obtain c0 c1 where b: "bit_count (length m) = (c0, c1)" by fastforce
  then have k: "unat (drop_bit 3 c0 AND 0x3F) = k" using bit_count_index [of "length m"] by (simp add: k_def)
  have "k < 64" by (simp add: k_def)
  then have "64 - k < 2 ^ 32" by simp
  then have p: "unat (of_nat (64 - k) :: u32) = 64 - k" by (simp only: unat_of_nat) (simp add: take_bit_nat_eq_self)
  have "unat (of_nat (length n) :: u32) = length n" using assms(2) by (simp add: unat_of_nat take_bit_nat_eq_self)
  then have le: "of_nat (64 - k) \<le> (of_nat (length n) :: u32) \<longleftrightarrow> 64 - k \<le> length n" using p by (simp only: word_le_nat_alt)
  define buf where "buf = MD5_memcpy (buffer c) k (take (64 - k) n)"
  obtain s i where l: "md5_loop (of_nat (length n)) n (of_nat (64 - k)) (MD5Transform (state c) buf) = (s, i)" by fastforce
  have "md5_blocks (MD5Transform (state c) buf) (drop (64 - k) n) = (s, drop (unat i) n)" if "64 - k \<le> length n"
    using md5_loop_blocks [OF assms(2) _ l] p that by simp
  then show ?thesis
    unfolding MD5Update_def assms(1) b Let_def prod.case k le using l by (simp add: buf_def)
qed

lemma absorb:
  assumes a: "absorbed c m" and n: "length n < 2 ^ 32 - 63"
  shows "absorbed (MD5Update c n) (m @ n)"
proof -
  let ?k = "length m mod 64"
  have k: "?k < 64" by simp
  have b: "length (buffer c) = 64" and cnt: "count c = bit_count (length m)"
    and blk: "md5_blocks md5_magic m = (state c, take ?k (buffer c))" using a by (auto simp: absorbed_def)
  have n': "length n < 2 ^ 32" "length n + 63 < 2 ^ 32" using n by simp_all
  note body = MD5Update_body [OF cnt n'(2)]
  have cat: "md5_blocks md5_magic (m @ n) = md5_blocks (state c) (take ?k (buffer c) @ n)"
    by (subst md5_blocks_append) (simp add: blk)
  have "length (buffer (MD5Update c n)) = 64 \<and>
    md5_blocks md5_magic (m @ n) = (state (MD5Update c n), take (length (m @ n) mod 64) (buffer (MD5Update c n)))"
  proof (cases "length n \<ge> 64 - ?k")
    case True
    define buf where "buf = MD5_memcpy (buffer c) ?k (take (64 - ?k) n)"
    have buf: "buf = take ?k (buffer c) @ take (64 - ?k) n" "length buf = 64"
      unfolding buf_def using b k True by (simp_all add: memcpy_fill memcpy_length)
    obtain s r where sr: "md5_blocks (MD5Transform (state c) buf) (drop (64 - ?k) n) = (s, r)" by fastforce
    have upd: "state (MD5Update c n) = s" "buffer (MD5Update c n) = MD5_memcpy buf 0 r"
      using body True sr by (simp_all add: buf_def Let_def)
    have long: "md5_blocks (state c) (take ?k (buffer c) @ n) = (s, r)"
      using b k True sr by (subst md5_blocks_long) (simp_all add: buf(1))
    have r: "length r = length (m @ n) mod 64"
      using md5_blocks_rest [of md5_magic "m @ n"] by (simp only: cat long snd_conv)
    then have "length r \<le> 64" using mod_less_divisor [of 64 "length (m @ n)"] by simp
    then show ?thesis
      using upd buf(2) r memcpy_take [of 0 r buf] memcpy_length [of 0 r buf] long cat by simp
  next
    case False
    then have l: "?k + length n < 64" by simp
    have upd: "state (MD5Update c n) = state c" "buffer (MD5Update c n) = MD5_memcpy (buffer c) ?k n"
      using body False by simp_all
    have "length (m @ n) mod 64 = ?k + length n" using l by (metis length_append mod_add_left_eq mod_less)
    then show ?thesis
      using upd l b cat memcpy_take [of ?k n "buffer c"] memcpy_length [of ?k n "buffer c"]
      by (simp add: md5_blocks_short)
  qed
  then show ?thesis using MD5Update_count [OF n'(1) cnt] by (simp add: absorbed_def)
qed

section \<open>Messages in pieces\<close>

text \<open>
  The contract of an incremental digest: the context represents the bytes absorbed so far. Then
  the pieces a message arrives in do not matter.
\<close>

locale incremental =
  fixes rep :: "'c \<Rightarrow> bytes \<Rightarrow> bool" and update :: "'c \<Rightarrow> bytes \<Rightarrow> 'c" and ok :: "bytes \<Rightarrow> bool"
  assumes update_rep: "rep c m \<Longrightarrow> ok n \<Longrightarrow> rep (update c n) (m @ n)"
begin

lemma pieces: "rep c m \<Longrightarrow> list_all ok ns \<Longrightarrow> rep (run update c ns) (m @ concat ns)"
proof (induction ns arbitrary: c m)
  case (Cons n ns)
  then show ?case using update_rep [of c m n] Cons.IH [of "update c n" "m @ n"] by simp
qed simp

end

interpretation md5: incremental absorbed MD5Update "\<lambda>n. length n < 2 ^ 32 - 63"
  by unfold_locales (rule absorb)

section \<open>The digest of a message\<close>

text \<open>
  The definition the code is measured against: the message is padded with a 1 bit and zeros to 56
  bytes modulo 64, its length in bits modulo \<open>2\<^sup>6\<^sup>4\<close> is appended, least significant byte first,
  and the blocks are transformed one after the other.
\<close>

definition md5_pad :: "bytes \<Rightarrow> bytes" where
  "md5_pad m = m @ 0x80 # replicate ((119 - length m mod 64) mod 64) 0 @
     map (\<lambda>i. of_nat (8 * length m div 2 ^ (8 * i))) [0..<8]"

definition md5_digest :: "bytes \<Rightarrow> bytes" where
  "md5_digest m = (case fst (md5_blocks md5_magic (md5_pad m)) of (a, b, c, d) \<Rightarrow> Encode [a, b, c, d])"

lemma encode_two_words:
  "Encode [of_nat a, of_nat (a div 2 ^ 32)] = map (\<lambda>i. of_nat (a div 2 ^ (8 * i))) [0..<8]"
proof -
  have m: "(0xff :: u32) = mask 8" by (simp add: mask_eq_exp_minus_1)
  have u: "ucast (drop_bit k (of_nat a :: u32) AND 0xff) = (of_nat (a div 2 ^ k) :: u8)" if "k \<le> 24" for k a
    unfolding m by (rule bit_word_eqI) (use that in \<open>auto simp: bit_simps bit_of_nat_iff drop_bit_eq_div [symmetric]\<close>)
  have d: "a div 2 ^ 32 div 2 ^ k = a div 2 ^ (32 + k)" for k
    by (simp add: div_mult2_eq power_add)
  show ?thesis
    using u [of 0] u [of 8] u [of 16] u [of 24] d [of 8] d [of 16] d [of 24] by (simp add: upt_rec)
qed

lemma encode_bits:
  "bit_count n = (c0, c1) \<Longrightarrow> Encode [c0, c1] = map (\<lambda>i. of_nat (8 * n div 2 ^ (8 * i))) [0..<8]"
  using encode_two_words [of "8 * n"] by (auto simp only: bit_count_def prod.inject)

lemma pad_length:
  fixes n :: nat
  defines "k \<equiv> n mod 64"
  shows "take (if k < 56 then 56 - k else 120 - k) PADDING = 0x80 # replicate ((119 - k) mod 64) 0"
    and "(n + (if k < 56 then 56 - k else 120 - k)) mod 64 = 56"
proof -
  have k: "k < 64" by (simp add: k_def)
  show "take (if k < 56 then 56 - k else 120 - k) PADDING = 0x80 # replicate ((119 - k) mod 64) 0"
  proof (cases "k < 56")
    case True
    then have "56 - k = Suc (55 - k)" "(119 - k) mod 64 = 55 - k" by (auto simp: le_mod_geq)
    then show ?thesis using True by (simp add: PADDING_def)
  next
    case False
    then have "120 - k = Suc (119 - k)" "(119 - k) mod 64 = 119 - k" using k by auto
    then show ?thesis using False by (simp add: PADDING_def)
  qed
  have "(n + p) mod 64 = (k + p) mod 64" for p unfolding k_def by (simp add: mod_add_left_eq)
  then show "(n + (if k < 56 then 56 - k else 120 - k)) mod 64 = 56" using k by (simp add: le_mod_geq)
qed

lemma MD5Final_digest:
  assumes "absorbed c m"
  shows "fst (MD5Final c) = md5_digest m"
proof -
  obtain c0 c1 where cnt: "count c = (c0, c1)" and b: "bit_count (length m) = (c0, c1)"
    using assms by (cases "count c") (auto simp: absorbed_def)
  define pad where "pad = 0x80 # replicate ((119 - length m mod 64) mod 64) (0 :: u8)"
  have idx: "unat (drop_bit 3 c0 AND 0x3f) = length m mod 64" using bit_count_index [of "length m"] b by simp
  have bits: "Encode [c0, c1] = map (\<lambda>i. of_nat (8 * length m div 2 ^ (8 * i))) [0..<8]"
    by (rule encode_bits [OF b])
  have pad: "take (if length m mod 64 < 56 then 56 - length m mod 64 else 120 - length m mod 64) PADDING = pad"
    using pad_length(1) [of "length m"] by (simp add: pad_def)
  have "length pad < 2 ^ 32 - 63" by (simp add: pad_def less_trans [OF mod_less_divisor])
  then have "absorbed (MD5Update (MD5Update c pad) (Encode [c0, c1])) (md5_pad m)"
    using absorb [OF absorb [OF assms, of pad], of "Encode [c0, c1]"] unfolding md5_pad_def bits [symmetric] pad_def by simp
  then have "fst (md5_blocks md5_magic (md5_pad m)) = state (MD5Update (MD5Update c pad) (Encode [c0, c1]))"
    by (simp add: absorbed_def)
  then show ?thesis
    unfolding MD5Final_def cnt Let_def prod.case idx pad md5_digest_def
    by (simp split: prod.split del: Encode.simps)
qed

section \<open>The schedule of the transformation\<close>

text \<open>
  The transformation as 64 equal steps on a rotating state: the function changes every 16 steps,
  the word used and the rotation follow from the number of the step.
\<close>

definition md5_T :: "u32 list" where
  "md5_T = [
    0xd76aa478, 0xe8c7b756, 0x242070db, 0xc1bdceee, 0xf57c0faf, 0x4787c62a,
    0xa8304613, 0xfd469501, 0x698098d8, 0x8b44f7af, 0xffff5bb1, 0x895cd7be,
    0x6b901122, 0xfd987193, 0xa679438e, 0x49b40821, 0xf61e2562, 0xc040b340,
    0x265e5a51, 0xe9b6c7aa, 0xd62f105d, 0x2441453, 0xd8a1e681, 0xe7d3fbc8,
    0x21e1cde6, 0xc33707d6, 0xf4d50d87, 0x455a14ed, 0xa9e3e905, 0xfcefa3f8,
    0x676f02d9, 0x8d2a4c8a, 0xfffa3942, 0x8771f681, 0x6d9d6122, 0xfde5380c,
    0xa4beea44, 0x4bdecfa9, 0xf6bb4b60, 0xbebfbc70, 0x289b7ec6, 0xeaa127fa,
    0xd4ef3085, 0x4881d05, 0xd9d4d039, 0xe6db99e5, 0x1fa27cf8, 0xc4ac5665,
    0xf4292244, 0x432aff97, 0xab9423a7, 0xfc93a039, 0x655b59c3, 0x8f0ccc92,
    0xffeff47d, 0x85845dd1, 0x6fa87e4f, 0xfe2ce6e0, 0xa3014314, 0x4e0811a1,
    0xf7537e82, 0xbd3af235, 0x2ad7d2bb, 0xeb86d391]"

definition md5_fn :: "nat \<Rightarrow> u32 \<Rightarrow> u32 \<Rightarrow> u32 \<Rightarrow> u32" where
  "md5_fn i = [F, G, H, I] ! (i div 16)"

definition md5_word :: "nat \<Rightarrow> nat" where
  "md5_word i = [i, 5 * i + 1, 3 * i + 5, 7 * i] ! (i div 16) mod 16"

definition md5_shift :: "nat \<Rightarrow> nat" where
  "md5_shift i = [[7, 12, 17, 22], [5, 9, 14, 20], [4, 11, 16, 23], [6, 10, 15, 21]] ! (i div 16) ! (i mod 4)"

definition md5_step :: "u32 list \<Rightarrow> md5_state \<Rightarrow> nat \<Rightarrow> md5_state" where
  "md5_step x = (\<lambda>(a, b, c, d) i.
     (d, ROTATE_LEFT (a + (md5_fn i b c d + x ! md5_word i + md5_T ! i)) (md5_shift i) + b, b, c))"

lemma step_let:
  assumes "md5_step x (a, b, c, d) i = (d, E, b, c)"
    and "\<And>v. body v = run (md5_step x) (d, v, b, c) is"
  shows "(let v = E in body v) = run (md5_step x) (a, b, c, d) (i # is)"
  using assms by simp

lemmas md5_step_defs = md5_step_def md5_fn_def md5_word_def md5_shift_def md5_T_def FF_def GG_def HH_def II_def

lemma rounds_schedule:
  "md5_round1 x q = run (md5_step x) q [0, 1, 2, 3, 4, 5, 6, 7, 8, 9, 10, 11, 12, 13, 14, 15]"
  "md5_round2 x q = run (md5_step x) q [16, 17, 18, 19, 20, 21, 22, 23, 24, 25, 26, 27, 28, 29, 30, 31]"
  "md5_round3 x q = run (md5_step x) q [32, 33, 34, 35, 36, 37, 38, 39, 40, 41, 42, 43, 44, 45, 46, 47]"
  "md5_round4 x q = run (md5_step x) q [48, 49, 50, 51, 52, 53, 54, 55, 56, 57, 58, 59, 60, 61, 62, 63]"
proof -
  obtain a b c d where q: "q = (a, b, c, d)" by (cases q) auto
  show "md5_round1 x q = run (md5_step x) q [0, 1, 2, 3, 4, 5, 6, 7, 8, 9, 10, 11, 12, 13, 14, 15]"
    unfolding md5_round1_def q prod.case
    by (rule step_let, simp add: md5_step_defs, rule step_let, simp add: md5_step_defs)+ simp
  show "md5_round2 x q = run (md5_step x) q [16, 17, 18, 19, 20, 21, 22, 23, 24, 25, 26, 27, 28, 29, 30, 31]"
    unfolding md5_round2_def q prod.case
    by (rule step_let, simp add: md5_step_defs, rule step_let, simp add: md5_step_defs)+ simp
  show "md5_round3 x q = run (md5_step x) q [32, 33, 34, 35, 36, 37, 38, 39, 40, 41, 42, 43, 44, 45, 46, 47]"
    unfolding md5_round3_def q prod.case
    by (rule step_let, simp add: md5_step_defs, rule step_let, simp add: md5_step_defs)+ simp
  show "md5_round4 x q = run (md5_step x) q [48, 49, 50, 51, 52, 53, 54, 55, 56, 57, 58, 59, 60, 61, 62, 63]"
    unfolding md5_round4_def q prod.case
    by (rule step_let, simp add: md5_step_defs, rule step_let, simp add: md5_step_defs)+ simp
qed

lemma upto_64: "[0..<64] = [0, 1, 2, 3, 4, 5, 6, 7, 8, 9, 10, 11, 12, 13, 14, 15] @
    [16, 17, 18, 19, 20, 21, 22, 23, 24, 25, 26, 27, 28, 29, 30, 31] @
    [32, 33, 34, 35, 36, 37, 38, 39, 40, 41, 42, 43, 44, 45, 46, 47] @
    [48, 49, 50, 51, 52, 53, 54, 55, 56, 57, 58, 59, 60, 61, 62, 63]"
  by (simp add: upt_rec)

section \<open>Properties\<close>

text \<open>
  The unrolled rounds of \<open>MD5Transform\<close> follow the schedule of the algorithm: they are 64 equal
  steps, in each of which the function, the word of the block and the rotation are those given
  by the number of the step, and the result is added to the state.
\<close>

theorem md5_transform_schedule:
  "MD5Transform (s0, s1, s2, s3) block =
     (case run (md5_step (Decode block)) (s0, s1, s2, s3) [0..<64] of
        (a, b, c, d) \<Rightarrow> (s0 + a, s1 + b, s2 + c, s3 + d))"
  unfolding upto_64 run_append MD5Transform_def Let_def prod.case rounds_schedule by (simp only: prod.case)

text \<open>
  C21: The digest is that of the message, however it was cut into pieces: feeding any pieces of
  less than 4294967233 bytes each (two to the power of 32, less 63) through \<open>MD5Update\<close> and finishing with \<open>MD5Final\<close> gives the digest of
  their concatenation, padded and transformed block by block.
\<close>

theorem md5_streaming:
  assumes "length (buffer c) = 64" "list_all (\<lambda>n. length n < 2 ^ 32 - 63) ns"
  shows "fst (MD5Final (run MD5Update (MD5Init c) ns)) = md5_digest (concat ns)"
proof -
  have "absorbed (MD5Init c) []"
    using assms(1) by (simp add: absorbed_def MD5Init_def bit_count_def md5_blocks_short)
  then have "absorbed (run MD5Update (MD5Init c) ns) (concat ns)" using md5.pieces [of "MD5Init c" "[]" ns] assms(2) by simp
  then show ?thesis by (rule MD5Final_digest)
qed

theorem md5_streaming_witness:
  "fst (MD5Final (run MD5Update (MD5Init \<lparr>state = (0, 0, 0, 0), count = (0, 0), buffer = replicate 64 7\<rparr>) [[0x61], [0x62, 0x63]])) =
     md5_digest [0x61, 0x62, 0x63]"
  using md5_streaming [of "\<lparr>state = (0, 0, 0, 0), count = (0, 0), buffer = replicate 64 7\<rparr>" "[[0x61], [0x62, 0x63]]"] by simp

end
