(* ===== verification/Balloc.thy ===== *)
theory Balloc
  imports Prelude
begin

text \<open>
  The block allocator of the web server, \<open>apps/WebServer/balloc.c\<close>: blocks of 13 size classes cut
  from one arena, a queue of free blocks per class linked through their headers, and \<open>malloc\<close>
  for what does not fit.

  Addresses are numbers. Headers (\<open>bType\<close>, 8 bytes) and data bytes are two maps of the state. The
  result of the call of \<open>malloc\<close> an operation may make is an argument of it. Sizes are taken to be
  at most \<open>2\<^sup>3\<^sup>0\<close>, beyond which the code shifts into the sign bit.
\<close>

section \<open>State\<close>

abbreviation (input) B_SHIFT :: nat where "B_SHIFT \<equiv> 4"
abbreviation (input) B_MAX_CLASS :: nat where "B_MAX_CLASS \<equiv> 13"
abbreviation (input) B_MALLOCED :: u32 where "B_MALLOCED \<equiv> 0x80000000"
abbreviation (input) B_DEFAULT_MEM :: nat where "B_DEFAULT_MEM \<equiv> 65536"
abbreviation (input) B_FILL_WORD :: u32 where "B_FILL_WORD \<equiv> 0x77777777"
abbreviation (input) B_INTEGRITY :: u32 where "B_INTEGRITY \<equiv> 0x8124000"
abbreviation (input) B_INTEGRITY_MASK :: u32 where "B_INTEGRITY_MASK \<equiv> 0xFFFF000"
abbreviation (input) B_USE_MALLOC :: u32 where "B_USE_MALLOC \<equiv> 1"
abbreviation (input) B_USER_BUF :: u32 where "B_USER_BUF \<equiv> 2"
abbreviation (input) sizeof_bType :: nat where "sizeof_bType \<equiv> 8"

text \<open>The union of a header: the next free block, or the size of the data.\<close>

datatype bUnion = Next "nat option" | Size nat

record bType =
  u :: bUnion
  flags :: u32

record balloc_state =
  bQhead :: "nat option list"
  bFreeBuf :: "nat option"
  bFreeNext :: nat
  bFreeSize :: nat
  bFreeLeft :: nat
  bFlags :: u32
  bopenCount :: int
  hdr :: "nat \<Rightarrow> bType option"
  mem :: "nat \<Rightarrow> u8"

section \<open>Operations\<close>

fun class_loop :: "nat \<Rightarrow> nat" where
  "class_loop m = (if m = 0 then 0 else class_loop (m div 2) + 1)"

declare class_loop.simps [simp del]

text \<open>\<open>ballocGetSize\<close>: the class, and the size of the block with its header.\<close>

definition ballocGetSize :: "nat \<Rightarrow> nat \<times> nat" where
  "ballocGetSize sz =
     (let q = class_loop (if sz = 0 then 0 else (sz - 1) div 2 ^ B_SHIFT)
      in (q, 2 ^ (B_SHIFT + q) + sizeof_bType))"

definition bopen :: "nat option \<Rightarrow> nat option \<Rightarrow> nat \<Rightarrow> u32 \<Rightarrow> balloc_state \<Rightarrow> int \<times> balloc_state" where
  "bopen mal buf bufsize fl st =
     (let st = st\<lparr>bFlags := fl, bopenCount := bopenCount st + 1\<rparr> in
      if bopenCount st > 1 then (0, st)
      else
        let bufsize = (if buf = None \<and> bufsize = 0 then B_DEFAULT_MEM else bufsize);
            st = (if buf = None then st else st\<lparr>bFlags := bFlags st OR B_USER_BUF\<rparr>)
        in case (if buf = None then mal else buf) of
             None \<Rightarrow> (- 1, st\<lparr>bopenCount := bopenCount st - 1\<rparr>)
           | Some b \<Rightarrow> (0, st\<lparr>bFreeSize := bufsize, bFreeLeft := bufsize, bFreeBuf := Some b, bFreeNext := b,
                               bQhead := replicate B_MAX_CLASS None\<rparr>))"

definition bclose :: "balloc_state \<Rightarrow> balloc_state" where
  "bclose st =
     (let st = st\<lparr>bopenCount := bopenCount st - 1\<rparr>
      in if bopenCount st \<le> 0 \<and> bFlags st AND B_USER_BUF = 0 then st\<lparr>bopenCount := 0\<rparr> else st)"

text \<open>A block handed out: its header, and the address behind it.\<close>

definition hand_out :: "nat \<Rightarrow> nat \<Rightarrow> u32 \<Rightarrow> balloc_state \<Rightarrow> nat option \<times> balloc_state" where
  "hand_out bp memSize fl st =
     (Some (bp + sizeof_bType),
      st\<lparr>hdr := (hdr st)(bp \<mapsto> \<lparr>u = Size (memSize - sizeof_bType), flags = fl OR B_INTEGRITY\<rparr>)\<rparr>)"

definition next_of :: "balloc_state \<Rightarrow> nat \<Rightarrow> nat option" where
  "next_of st bp = (case hdr st bp of Some h \<Rightarrow> (case u h of Next n \<Rightarrow> n | Size _ \<Rightarrow> None) | None \<Rightarrow> None)"

text \<open>\<open>balloc\<close>: \<open>mo\<close> and \<open>mal\<close> are what \<open>malloc\<close> gives to \<open>bopen\<close> and to \<open>balloc\<close> itself.\<close>

definition balloc :: "nat option \<Rightarrow> nat option \<Rightarrow> int \<Rightarrow> balloc_state \<Rightarrow> nat option \<times> balloc_state" where
  "balloc mo mal sz st =
     (let (rc, st) = (if bFreeBuf st = None then bopen mo None B_DEFAULT_MEM 0 st else (0, st)) in
      if rc < 0 then (None, st)
      else if sz < 0 then (None, st)
      else
        let (q, memSize) = ballocGetSize (nat sz);
            by_malloc = (if bFlags st AND B_USE_MALLOC \<noteq> 0 then
                           (case mal of None \<Rightarrow> (None, st) | Some bp \<Rightarrow> hand_out bp memSize B_MALLOCED st)
                         else (None, st))
        in if q \<ge> B_MAX_CLASS then by_malloc
           else (case bQhead st ! q of
                   Some bp \<Rightarrow> hand_out bp memSize 0 (st\<lparr>bQhead := (bQhead st)[q := next_of st bp]\<rparr>)
                 | None \<Rightarrow>
                     if bFreeLeft st > memSize then
                       hand_out (bFreeNext st) memSize 0
                         (st\<lparr>bFreeNext := bFreeNext st + memSize, bFreeLeft := bFreeLeft st - memSize\<rparr>)
                     else by_malloc))"

definition integrity :: "bType \<Rightarrow> bool" where
  "integrity h \<longleftrightarrow> flags h AND B_INTEGRITY_MASK = B_INTEGRITY"

definition size_of :: "bType \<Rightarrow> nat" where
  "size_of h = (case u h of Size n \<Rightarrow> n | Next _ \<Rightarrow> 0)"

text \<open>\<open>bfree\<close> of a pointer into no block does nothing here; \<open>free\<close> removes a block.\<close>

definition bfree :: "nat \<Rightarrow> balloc_state \<Rightarrow> balloc_state" where
  "bfree mp st =
     (let bp = mp - sizeof_bType in
      case hdr st bp of
        None \<Rightarrow> st
      | Some h \<Rightarrow>
          if \<not> integrity h then st
          else let (q, memSize) = ballocGetSize (size_of h) in
            if flags h AND B_MALLOCED \<noteq> 0 then st\<lparr>hdr := (hdr st)(bp := None)\<rparr>
            else st\<lparr>hdr := (hdr st)(bp \<mapsto> \<lparr>u = Next (bQhead st ! q), flags = B_FILL_WORD\<rparr>),
                    bQhead := (bQhead st)[q := Some bp]\<rparr>)"

definition bfreeSafe :: "nat option \<Rightarrow> balloc_state \<Rightarrow> balloc_state" where
  "bfreeSafe mp st = (case mp of None \<Rightarrow> st | Some mp \<Rightarrow> bfree mp st)"

text \<open>Copying between data blocks, and the C string at an address.\<close>

definition mem_copy :: "nat \<Rightarrow> nat \<Rightarrow> nat \<Rightarrow> (nat \<Rightarrow> u8) \<Rightarrow> nat \<Rightarrow> u8" where
  "mem_copy to from n m = (\<lambda>a. if to \<le> a \<and> a < to + n then m (from + (a - to)) else m a)"

definition mem_store :: "nat \<Rightarrow> bytes \<Rightarrow> (nat \<Rightarrow> u8) \<Rightarrow> nat \<Rightarrow> u8" where
  "mem_store to bs m = (\<lambda>a. if to \<le> a \<and> a < to + length bs then bs ! (a - to) else m a)"

definition bstrdup :: "nat option \<Rightarrow> nat option \<Rightarrow> bytes option \<Rightarrow> balloc_state \<Rightarrow> nat option \<times> balloc_state" where
  "bstrdup mo mal s st =
     (let s = (case s of None \<Rightarrow> [] | Some s \<Rightarrow> s);
          (cp, st) = balloc mo mal (int (length s + 1)) st
      in case cp of None \<Rightarrow> (None, st) | Some a \<Rightarrow> (Some a, st\<lparr>mem := mem_store a (s @ [0]) (mem st)\<rparr>))"

definition bmemdup :: "nat option \<Rightarrow> nat option \<Rightarrow> nat option \<Rightarrow> nat \<Rightarrow> balloc_state \<Rightarrow> nat option \<times> balloc_state" where
  "bmemdup mo mal s n st =
     (let (cp, st) = balloc mo mal (int n) st
      in case cp of
           None \<Rightarrow> (None, st)
         | Some a \<Rightarrow> (Some a, st\<lparr>mem := (case s of None \<Rightarrow> mem_store a (replicate n 0) (mem st)
                                            | Some from \<Rightarrow> mem_copy a from n (mem st))\<rparr>))"

definition brealloc :: "nat option \<Rightarrow> nat option \<Rightarrow> nat option \<Rightarrow> nat \<Rightarrow> balloc_state \<Rightarrow> nat option \<times> balloc_state" where
  "brealloc mo mal mp newsize st =
     (case mp of
        None \<Rightarrow> balloc mo mal (int newsize) st
      | Some mp \<Rightarrow>
          let old = (case hdr st (mp - sizeof_bType) of None \<Rightarrow> 0 | Some h \<Rightarrow> size_of h) in
          if old \<ge> newsize then (Some mp, st)
          else let (newbuf, st) = balloc mo mal (int newsize) st
               in case newbuf of
                    None \<Rightarrow> (None, st)
                  | Some a \<Rightarrow> (Some a, bfree mp (st\<lparr>mem := mem_copy a mp old (mem st)\<rparr>)))"

section \<open>Size classes\<close>

abbreviation block_size :: "nat \<Rightarrow> nat" where "block_size q \<equiv> 2 ^ (4 + q) + 8"

lemma class_loop_bound: "m < 2 ^ class_loop m"
proof (induction m rule: class_loop.induct)
  case (1 m)
  show ?case
  proof (cases "m = 0")
    case False
    then show ?thesis using 1 [OF False] by (subst class_loop.simps) simp
  qed simp
qed

lemma class_loop_exact: "class_loop (2 ^ q - 1) = q"
proof (induction q)
  case (Suc q)
  have "(2 ^ Suc q - 1) div 2 = (2 ^ q - 1 :: nat)" by simp
  moreover have "\<not> 2 * 2 ^ q \<le> (1 :: nat)" using one_le_power [of "2 :: nat" q] by linarith
  ultimately show ?case using Suc by (subst class_loop.simps) simp
qed (simp add: class_loop.simps)

lemma ballocGetSize_fits: "ballocGetSize n = (q, s) \<Longrightarrow> s = block_size q \<and> n \<le> 2 ^ (4 + q)"
proof -
  assume a: "ballocGetSize n = (q, s)"
  define m where "m = (if n = 0 then 0 else (n - 1) div 16)"
  have q: "q = class_loop m" "s = block_size q" using a by (auto simp: ballocGetSize_def m_def Let_def)
  have "n \<le> 16 * (m + 1)" by (auto simp: m_def)
  moreover have "m + 1 \<le> 2 ^ q" using class_loop_bound [of m] q(1) by simp
  ultimately have "n \<le> 16 * 2 ^ q" by (meson mult_le_mono2 le_trans)
  then show ?thesis using q(2) by (simp add: power_add)
qed

lemma ballocGetSize_exact: "ballocGetSize (2 ^ (4 + q)) = (q, block_size q)"
proof -
  define r :: nat where "r = 2 ^ q - 1"
  have r: "(2 :: nat) ^ q = r + 1" using one_le_power [of "2 :: nat" q] by (simp add: r_def)
  have "(2 ^ (4 + q) - 1) div 16 = (2 ^ q - 1 :: nat)" by (simp add: power_add r)
  then show ?thesis using class_loop_exact [of q] by (simp add: ballocGetSize_def Let_def)
qed

section \<open>Queues\<close>

text \<open>The blocks of a queue, followed through their headers.\<close>

fun chain :: "(nat \<Rightarrow> bType option) \<Rightarrow> nat option \<Rightarrow> nat list \<Rightarrow> bool" where
  "chain h p [] \<longleftrightarrow> p = None"
| "chain h p (a # xs) \<longleftrightarrow> p = Some a \<and> (\<exists>n. h a = Some \<lparr>u = Next n, flags = B_FILL_WORD\<rparr> \<and> chain h n xs)"

lemma chain_unique: "chain h p xs \<Longrightarrow> chain h p ys \<Longrightarrow> xs = ys"
proof (induction xs arbitrary: p ys)
  case Nil
  then show ?case by (cases ys) auto
next
  case (Cons a xs)
  then show ?case by (cases ys) auto
qed

lemma chain_suffix: "chain h p (xs @ a # ys) \<Longrightarrow> chain h (Some a) (a # ys)"
  by (induction xs arbitrary: p) auto

lemma chain_distinct: "chain h p xs \<Longrightarrow> distinct xs"
proof (induction xs arbitrary: p)
  case (Cons a xs)
  have "a \<notin> set xs"
  proof
    assume "a \<in> set xs"
    then obtain us vs where "xs = us @ a # vs" by (meson split_list)
    then have "chain h (Some a) (a # vs)" "chain h (Some a) (a # us @ a # vs)"
      using Cons.prems chain_suffix [of h p "a # us" a vs] by auto
    then have "a # vs = a # us @ a # vs" by (rule chain_unique)
    then have "length (a # vs) = length (a # us @ a # vs)" by (rule arg_cong)
    then show False by simp
  qed
  then show ?case using Cons by auto
qed simp

lemma chain_upd [simp]: "a \<notin> set xs \<Longrightarrow> chain (h(a := x)) p xs = chain h p xs"
  by (induction xs arbitrary: p) auto

lemma chain_flags: "chain h p xs \<Longrightarrow> a \<in> set xs \<Longrightarrow> \<exists>n. h a = Some \<lparr>u = Next n, flags = B_FILL_WORD\<rparr>"
  by (induction xs arbitrary: p) auto

section \<open>The invariant\<close>

text \<open>
  \<open>lay\<close> gives the class of every block and \<open>qs\<close> the contents of the queues. Blocks do not overlap,
  lie in the used part of the arena or outside it, and each of them is free and in the queue of
  its class, or in use with the size of its class in its header.
\<close>

definition apart :: "nat \<Rightarrow> nat \<Rightarrow> nat \<Rightarrow> nat \<Rightarrow> bool" where
  "apart a m b n \<longleftrightarrow> a + m \<le> b \<or> b + n \<le> a"

definition in_use :: "nat \<Rightarrow> bType \<Rightarrow> bool" where
  "in_use q h \<longleftrightarrow> integrity h \<and> u h = Size (2 ^ (4 + q)) \<and> (flags h AND B_MALLOCED = 0 \<longrightarrow> q < 13)"

definition arena :: "balloc_state \<Rightarrow> nat" where
  "arena st = (case bFreeBuf st of Some b \<Rightarrow> b | None \<Rightarrow> 0)"

lemma arena_upd [simp]:
  "arena (st\<lparr>hdr := x\<rparr>) = arena st" "arena (st\<lparr>bQhead := y\<rparr>) = arena st"
  "arena (st\<lparr>bFreeNext := n\<rparr>) = arena st" "arena (st\<lparr>bFreeLeft := l\<rparr>) = arena st"
  by (simp_all add: arena_def)

definition placed :: "(nat \<Rightarrow> nat) \<Rightarrow> balloc_state \<Rightarrow> nat \<Rightarrow> bType \<Rightarrow> bool" where
  "placed lay st a h \<longleftrightarrow>
     (if flags h AND B_MALLOCED = 0 then arena st \<le> a \<and> a + block_size (lay a) \<le> bFreeNext st
      else apart a (block_size (lay a)) (arena st) (bFreeSize st))"

definition queues_ok :: "(nat \<Rightarrow> nat) \<Rightarrow> nat list list \<Rightarrow> balloc_state \<Rightarrow> bool" where
  "queues_ok lay qs st \<longleftrightarrow> length qs = 13 \<and> length (bQhead st) = 13 \<and>
     (\<forall>q<13. chain (hdr st) (bQhead st ! q) (qs ! q) \<and> (\<forall>a\<in>set (qs ! q). lay a = q))"

definition binv :: "(nat \<Rightarrow> nat) \<Rightarrow> nat list list \<Rightarrow> balloc_state \<Rightarrow> bool" where
  "binv lay qs st \<longleftrightarrow>
     bFreeBuf st \<noteq> None \<and> arena st \<le> bFreeNext st \<and> bFreeNext st + bFreeLeft st = arena st + bFreeSize st \<and>
     (\<forall>a\<in>dom (hdr st). \<forall>b\<in>dom (hdr st). a \<noteq> b \<longrightarrow> apart a (block_size (lay a)) b (block_size (lay b))) \<and>
     (\<forall>a h. hdr st a = Some h \<longrightarrow> placed lay st a h) \<and>
     queues_ok lay qs st \<and>
     (\<forall>a h. hdr st a = Some h \<longrightarrow> (\<exists>q<13. a \<in> set (qs ! q)) \<or> in_use (lay a) h)"

definition used :: "balloc_state \<Rightarrow> nat \<Rightarrow> bool" where
  "used st a \<longleftrightarrow> (\<exists>h. hdr st a = Some h \<and> integrity h)"

lemma fill_not_integrity [simp]: "\<not> integrity \<lparr>u = x, flags = B_FILL_WORD\<rparr>"
  by (simp add: integrity_def)

lemma queued_not_used:
  assumes "binv lay qs st" "q < 13" "a \<in> set (qs ! q)"
  shows "\<not> used st a"
  using assms chain_flags [of "hdr st" "bQhead st ! q" "qs ! q" a]
  by (auto simp: binv_def queues_ok_def used_def)

lemma used_in_use:
  assumes "binv lay qs st" "used st a"
  shows "\<exists>h. hdr st a = Some h \<and> in_use (lay a) h"
  using assms queued_not_used [OF assms(1)] unfolding used_def binv_def by metis

section \<open>Operations keep the invariant\<close>

text \<open>A new block, from the arena or from \<open>malloc\<close>, disjoint from all others.\<close>

lemma hand_out_new:
  assumes inv: "binv lay qs st" and new: "hdr st bp = None"
    and dis: "\<forall>a\<in>dom (hdr st). apart a (block_size (lay a)) bp (block_size q)"
    and mal: "fl AND B_MALLOCED = 0 \<longrightarrow> q < 13" "integrity \<lparr>u = Size 0, flags = fl OR B_INTEGRITY\<rparr>"
      "(fl OR B_INTEGRITY) AND B_MALLOCED = fl AND B_MALLOCED"
    and st': "bFreeBuf st' = bFreeBuf st" "bFreeSize st' = bFreeSize st" "bQhead st' = bQhead st"
      "bFreeNext st \<le> bFreeNext st'" "bFreeNext st' + bFreeLeft st' = bFreeNext st + bFreeLeft st" "hdr st' = hdr st"
    and pl: "placed (\<lambda>_. q) st' bp \<lparr>u = Size 0, flags = fl\<rparr>"
  shows "binv (lay(bp := q)) qs (snd (hand_out bp (block_size q) fl st'))"
proof -
  have nq: "bp \<notin> set (qs ! k)" if "k < 13" for k
    using that inv new chain_flags [of "hdr st" "bQhead st ! k" "qs ! k" bp] by (auto simp: binv_def queues_ok_def)
  have ar: "arena st' = arena st" using st'(1) by (simp add: arena_def)
  have old: "placed lay st' a h" if "placed lay st a h" for a h
    using that st'(2,4) ar by (auto simp: placed_def split: if_splits)
  have q: "queues_ok (lay(bp := q)) qs (st'\<lparr>hdr := (hdr st')(bp := x)\<rparr>)" for x
    using inv nq st'(3,6) by (auto simp: binv_def queues_ok_def)
  have use: "in_use q \<lparr>u = Size (2 ^ (4 + q)), flags = fl OR B_INTEGRITY\<rparr>"
    using mal by (simp add: in_use_def integrity_def)
  have dis': "apart bp (block_size q) a (block_size (lay a))" if "a \<in> dom (hdr st)" for a
    using dis that by (auto simp: apart_def)
  show ?thesis
    unfolding binv_def hand_out_def snd_conv
  proof (intro conjI, goal_cases)
    case 4
    show ?case using inv dis dis' new st'(6) unfolding binv_def by (auto simp: domIff)
  next
    case 5
    have "hdr st a = Some h \<longrightarrow> placed lay st' a h" for a h using inv old by (simp add: binv_def)
    then show ?case using pl st'(6) mal(3) new by (simp add: placed_def)
  next
    case 6
    show ?case by (simp add: q)
  next
    case 7
    show ?case using inv use new st'(6) unfolding binv_def by auto
  qed (use inv st' ar in \<open>auto simp: binv_def arena_def\<close>)
qed

text \<open>A block of the arena that changes between free and in use.\<close>

definition queued :: "nat list list \<Rightarrow> nat \<Rightarrow> bool" where
  "queued qs a \<longleftrightarrow> (\<exists>k<13. a \<in> set (qs ! k))"

lemma queued_update:
  assumes "length qs = 13" "queued qs a" "a \<in> set (qs ! q) \<Longrightarrow> a \<in> set xs"
  shows "queued (qs[q := xs]) a"
proof -
  obtain k where k: "k < 13" "a \<in> set (qs ! k)" using assms(2) by (auto simp: queued_def)
  then have "a \<in> set (qs[q := xs] ! k)" using assms(1,3) by (cases "k = q") auto
  then show ?thesis using k(1) by (auto simp: queued_def)
qed

lemma binv_relink:
  assumes inv: "binv lay qs st" and old: "hdr st bp = Some h" "flags h AND B_MALLOCED = 0"
    and qs: "queues_ok lay qs' (st\<lparr>bQhead := Q, hdr := (hdr st)(bp \<mapsto> h')\<rparr>)"
    and new: "flags h' AND B_MALLOCED = 0" "queued qs' bp \<or> in_use (lay bp) h'"
    and mv: "\<And>a. a \<noteq> bp \<Longrightarrow> queued qs a \<Longrightarrow> queued qs' a"
  shows "binv lay qs' (st\<lparr>bQhead := Q, hdr := (hdr st)(bp \<mapsto> h')\<rparr>)"
proof -
  have dom: "dom ((hdr st)(bp \<mapsto> h')) = dom (hdr st)" using old by auto
  show ?thesis
    unfolding binv_def queued_def [symmetric]
  proof (intro conjI, goal_cases)
    case 4
    show ?case using inv unfolding binv_def by (simp add: dom del: dom_fun_upd)
  next
    case 5
    have "placed lay st bp h" "\<forall>a h. hdr st a = Some h \<longrightarrow> placed lay st a h" using inv old by (simp_all add: binv_def)
    then show ?case using new old by (simp add: placed_def)
  next
    case 6
    show ?case by (rule qs)
  next
    case 7
    have "\<forall>a h. hdr st a = Some h \<longrightarrow> queued qs a \<or> in_use (lay a) h"
      using inv by (simp add: binv_def queued_def)
    then show ?case using new(2) mv by auto
  qed (use inv in \<open>simp_all add: binv_def\<close>)
qed

text \<open>A block from its queue.\<close>

lemma queue_head:
  assumes inv: "binv lay qs st" and q: "q < 13" and bp: "bQhead st ! q = Some bp"
  obtains xs n where "qs ! q = bp # xs" "bp \<notin> set xs" "chain (hdr st) n xs" "lay bp = q"
    "hdr st bp = Some \<lparr>u = Next n, flags = B_FILL_WORD\<rparr>"
proof -
  have ch: "chain (hdr st) (bQhead st ! q) (qs ! q)" "\<forall>a\<in>set (qs ! q). lay a = q"
    using inv q by (simp_all add: binv_def queues_ok_def)
  obtain xs where xs: "qs ! q = bp # xs" using ch(1) bp by (cases "qs ! q") auto
  moreover have "bp \<notin> set xs" using chain_distinct [OF ch(1)] xs by simp
  ultimately show ?thesis using that ch by auto
qed

lemma hand_out_queued:
  assumes inv: "binv lay qs st" and q: "q < 13" and bp: "bQhead st ! q = Some bp"
  shows "binv lay (qs[q := tl (qs ! q)]) (snd (hand_out bp (block_size q) 0 (st\<lparr>bQhead := (bQhead st)[q := next_of st bp]\<rparr>)))"
proof -
  obtain xs n where x: "qs ! q = bp # xs" "bp \<notin> set xs" "chain (hdr st) n xs" "lay bp = q"
      "hdr st bp = Some \<lparr>u = Next n, flags = B_FILL_WORD\<rparr>"
    using queue_head [OF assms] .
  have q_ok: "queues_ok lay qs st" using inv by (simp add: binv_def)
  have other: "bp \<notin> set (qs ! k)" if "k < 13" "k \<noteq> q" for k
    using q_ok that x(4) unfolding queues_ok_def by auto
  have qs: "queues_ok lay (qs[q := tl (qs ! q)]) (st\<lparr>bQhead := (bQhead st)[q := n], hdr := (hdr st)(bp := y)\<rparr>)" for y
    using q_ok other x q by (auto simp: queues_ok_def nth_list_update)
  have len: "length qs = 13" using q_ok by (simp add: queues_ok_def)
  have mv: "queued (qs[q := tl (qs ! q)]) a" if "a \<noteq> bp" "queued qs a" for a
    by (rule queued_update [OF len that(2)]) (use that(1) x(1) in auto)
  have use: "in_use (lay bp) \<lparr>u = Size (2 ^ (4 + q)), flags = B_INTEGRITY\<rparr>"
    using q x(4) by (simp add: in_use_def integrity_def)
  show ?thesis
    using binv_relink [OF inv x(5) _ qs _ disjI2 [OF use]] mv by (simp add: hand_out_def next_of_def x(5))
qed

text \<open>
  The bytes of a block with its header, and what \<open>malloc\<close> promises: a block outside the arena and
  outside every block it has given before and that was not given back.
\<close>

definition extent :: "balloc_state \<Rightarrow> nat \<Rightarrow> nat" where
  "extent st a = (case hdr st a of None \<Rightarrow> 0 | Some h \<Rightarrow> 8 + size_of h)"

definition malloc_ok :: "balloc_state \<Rightarrow> nat \<Rightarrow> nat \<Rightarrow> bool" where
  "malloc_ok st n bp \<longleftrightarrow> apart bp n (arena st) (bFreeSize st) \<and>
     (\<forall>a h. hdr st a = Some h \<and> flags h AND B_MALLOCED \<noteq> 0 \<longrightarrow> apart a (8 + size_of h) bp n)"

lemma binvD:
  assumes "binv lay qs st"
  shows binvD_space: "bFreeNext st + bFreeLeft st = arena st + bFreeSize st" "arena st \<le> bFreeNext st"
    and binvD_placed: "hdr st a = Some h \<Longrightarrow> placed lay st a h"
    and binvD_class: "hdr st a = Some h \<Longrightarrow> queued qs a \<or> in_use (lay a) h"
    and binvD_queues: "queues_ok lay qs st"
  using assms by (simp_all add: binv_def queued_def)

lemma used_extent:
  assumes "binv lay qs st" "used st a"
  shows "extent st a = block_size (lay a)"
  using used_in_use [OF assms] by (auto simp: extent_def size_of_def in_use_def)

lemma used_apart:
  assumes "binv lay qs st" "used st a" "used st b" "a \<noteq> b"
  shows "apart a (extent st a) b (extent st b)"
  using assms(1,4) used_extent [OF assms(1,2)] used_extent [OF assms(1,3)] used_in_use [OF assms(1,2)]
    used_in_use [OF assms(1,3)]
  by (auto simp: binv_def)

lemma malloced_used:
  assumes "binv lay qs st" "hdr st a = Some h" "flags h AND B_MALLOCED \<noteq> 0"
  shows "in_use (lay a) h"
proof -
  have "\<not> queued qs a"
    using assms chain_flags [of "hdr st" _ _ a] binvD_queues [OF assms(1)] by (force simp: queues_ok_def queued_def)
  then show ?thesis using binvD_class [OF assms(1,2)] by simp
qed

lemma malloc_ok_apart:
  assumes inv: "binv lay qs st" and ok: "malloc_ok st n bp" and a: "hdr st a = Some h"
  shows "apart a (block_size (lay a)) bp n"
proof (cases "flags h AND B_MALLOCED = 0")
  case True
  then have "arena st \<le> a" "a + block_size (lay a) \<le> bFreeNext st"
    using binvD_placed [OF inv a] by (simp_all add: placed_def)
  moreover have "bp + n \<le> arena st \<or> arena st + bFreeSize st \<le> bp" using ok by (simp add: malloc_ok_def apart_def)
  ultimately show ?thesis using binvD_space [OF inv] unfolding apart_def by linarith
next
  case False
  then have "in_use (lay a) h" using malloced_used [OF inv a] by simp
  then have "8 + size_of h = block_size (lay a)" by (simp add: in_use_def size_of_def)
  moreover have "apart a (8 + size_of h) bp n" using ok a False by (simp add: malloc_ok_def)
  ultimately show ?thesis by (simp only:)
qed

lemma arena_apart:
  assumes inv: "binv lay qs st" and left: "n \<le> bFreeLeft st" and a: "hdr st a = Some h"
  shows "apart a (block_size (lay a)) (bFreeNext st) n"
proof (cases "flags h AND B_MALLOCED = 0")
  case True
  then show ?thesis using binvD_placed [OF inv a] by (simp add: placed_def apart_def)
next
  case False
  then have "a + block_size (lay a) \<le> arena st \<or> arena st + bFreeSize st \<le> a"
    using binvD_placed [OF inv a] by (simp add: placed_def apart_def)
  then show ?thesis using binvD_space [OF inv] left unfolding apart_def by linarith
qed

lemma not_apart_self: "0 < m \<Longrightarrow> 0 < n \<Longrightarrow> \<not> apart a m a n"
  by (simp add: apart_def)

text \<open>Where \<open>balloc\<close> takes its block from.\<close>

datatype origin = Queued | Arena | Malloced

definition origin_of :: "balloc_state \<Rightarrow> nat \<Rightarrow> nat \<Rightarrow> origin" where
  "origin_of st q memSize =
     (if q \<ge> 13 then Malloced
      else if bQhead st ! q \<noteq> None then Queued
      else if bFreeLeft st > memSize then Arena
      else Malloced)"

lemma balloc_cases:
  assumes open': "bFreeBuf st \<noteq> None" and sz: "ballocGetSize (nat sz) = (q, memSize)"
  shows "balloc mo mal sz st =
    (if sz < 0 then (None, st)
     else case origin_of st q memSize of
       Queued \<Rightarrow> hand_out (the (bQhead st ! q)) memSize 0 (st\<lparr>bQhead := (bQhead st)[q := next_of st (the (bQhead st ! q))]\<rparr>)
     | Arena \<Rightarrow> hand_out (bFreeNext st) memSize 0
         (st\<lparr>bFreeNext := bFreeNext st + memSize, bFreeLeft := bFreeLeft st - memSize\<rparr>)
     | Malloced \<Rightarrow> (if bFlags st AND B_USE_MALLOC = 0 then (None, st)
         else case mal of None \<Rightarrow> (None, st) | Some bp \<Rightarrow> hand_out bp memSize B_MALLOCED st))"
  using open' by (auto simp: balloc_def sz origin_of_def split: option.splits)

lemma integrity_new [simp]:
  "integrity \<lparr>u = x, flags = B_INTEGRITY\<rparr>" "integrity \<lparr>u = x, flags = B_MALLOCED OR B_INTEGRITY\<rparr>"
  by (simp_all add: integrity_def)

lemma balloc_binv:
  assumes inv: "binv lay qs st" and r: "balloc mo mal sz st = (Some p, st')"
    and mal: "\<And>bp. mal = Some bp \<Longrightarrow> malloc_ok st (snd (ballocGetSize (nat sz))) bp"
  obtains lay' qs' q bp fl where "binv lay' qs' st'" "p = bp + 8" "\<not> used st bp" "0 \<le> sz" "nat sz \<le> 2 ^ (4 + q)"
    "hdr st' = (hdr st)(bp \<mapsto> \<lparr>u = Size (2 ^ (4 + q)), flags = fl\<rparr>)" "integrity \<lparr>u = Size (2 ^ (4 + q)), flags = fl\<rparr>"
    "mem st' = mem st"
proof -
  obtain q memSize where sz: "ballocGetSize (nat sz) = (q, memSize)" by (cases "ballocGetSize (nat sz)")
  have ms: "memSize = block_size q" and fit: "nat sz \<le> 2 ^ (4 + q)" using ballocGetSize_fits [OF sz] by auto
  have open': "bFreeBuf st \<noteq> None" using inv by (simp add: binv_def)
  note c = r [unfolded balloc_cases [OF open' sz]]
  have pos: "0 \<le> sz" using c by (auto split: if_splits)
  show ?thesis
  proof (cases "origin_of st q memSize")
    case Queued
    then obtain bp where q: "q < 13" and bp: "bQhead st ! q = Some bp" by (auto simp: origin_of_def split: if_splits)
    obtain n where n: "hdr st bp = Some \<lparr>u = Next n, flags = B_FILL_WORD\<rparr>" using queue_head [OF inv q bp] .
    show ?thesis
      using hand_out_queued [OF inv q bp] c Queued bp pos fit n
      by (intro that [of lay "qs[q := tl (qs ! q)]" bp q "0 OR B_INTEGRITY"]) (auto simp: hand_out_def ms used_def)
  next
    case Arena
    then have q: "q < 13" and left: "memSize < bFreeLeft st" by (auto simp: origin_of_def split: if_splits)
    let ?st = "st\<lparr>bFreeNext := bFreeNext st + memSize, bFreeLeft := bFreeLeft st - memSize\<rparr>"
    have ap: "apart a (block_size (lay a)) (bFreeNext st) (block_size q)" if "hdr st a = Some h" for a h
      using arena_apart [OF inv _ that, of memSize] left ms by simp
    have new: "hdr st (bFreeNext st) = None"
      using ap [of "bFreeNext st"] not_apart_self [of "block_size _" "block_size q"] by (cases "hdr st (bFreeNext st)") auto
    have "binv (lay(bFreeNext st := q)) qs (snd (hand_out (bFreeNext st) (block_size q) 0 ?st))"
      by (rule hand_out_new [OF inv new]) (use ap q left ms binvD_space [OF inv] in \<open>auto simp: placed_def integrity_def\<close>)
    then show ?thesis using c Arena pos fit new
      by (intro that [of "lay(bFreeNext st := q)" qs "bFreeNext st" q "0 OR B_INTEGRITY"]) (auto simp: hand_out_def ms used_def)
  next
    case Malloced
    then obtain bp where bp: "mal = Some bp" using c by (auto split: if_splits option.splits)
    have ok: "malloc_ok st (block_size q) bp" using mal [OF bp] sz ms by simp
    have ap: "apart a (block_size (lay a)) bp (block_size q)" if "hdr st a = Some h" for a h
      using malloc_ok_apart [OF inv ok that] .
    have new: "hdr st bp = None"
      using ap [of bp] not_apart_self [of "block_size _" "block_size q"] by (cases "hdr st bp") auto
    have "binv (lay(bp := q)) qs (snd (hand_out bp (block_size q) B_MALLOCED st))"
      by (rule hand_out_new [OF inv new]) (use ap ok in \<open>auto simp: placed_def integrity_def malloc_ok_def\<close>)
    then show ?thesis using c Malloced bp pos fit new
      by (intro that [of "lay(bp := q)" qs bp q "B_MALLOCED OR B_INTEGRITY"])
        (auto simp: hand_out_def ms used_def integrity_def split: if_splits)
  qed
qed

lemma used_not_queued:
  assumes "binv lay qs st" "used st a"
  shows "\<not> queued qs a"
  using assms queued_not_used by (auto simp: queued_def)

lemma binv_drop:
  assumes inv: "binv lay qs st" and bp: "\<not> queued qs bp"
  shows "binv lay qs (st\<lparr>hdr := (hdr st)(bp := None)\<rparr>)"
  unfolding binv_def
proof (intro conjI, goal_cases)
  case 4
  show ?case using inv unfolding binv_def by auto
next
  case 5
  show ?case using binvD_placed [OF inv] by (auto simp: placed_def split: if_splits)
next
  case 6
  show ?case using binvD_queues [OF inv] bp by (auto simp: queues_ok_def queued_def)
next
  case 7
  show ?case using binvD_class [OF inv] by (auto simp: queued_def)
qed (use inv in \<open>simp_all add: binv_def\<close>)

lemma bfree_eq:
  assumes inv: "binv lay qs st" and us: "used st bp"
  shows "bfree (bp + 8) st =
    (if flags (the (hdr st bp)) AND B_MALLOCED \<noteq> 0 then st\<lparr>hdr := (hdr st)(bp := None)\<rparr>
     else st\<lparr>bQhead := (bQhead st)[lay bp := Some bp],
             hdr := (hdr st)(bp \<mapsto> \<lparr>u = Next (bQhead st ! lay bp), flags = B_FILL_WORD\<rparr>)\<rparr>)"
proof -
  obtain h where h: "hdr st bp = Some h" "in_use (lay bp) h" using used_in_use [OF assms] by auto
  then have "size_of h = 2 ^ (4 + lay bp)" "integrity h" by (simp_all add: in_use_def size_of_def)
  then show ?thesis using h by (simp add: bfree_def ballocGetSize_exact)
qed

lemma bfree_binv:
  assumes inv: "binv lay qs st" and us: "used st bp"
  shows "\<exists>qs'. binv lay qs' (bfree (bp + 8) st)"
proof -
  obtain h where h: "hdr st bp = Some h" "in_use (lay bp) h" using used_in_use [OF assms] by auto
  have nq: "\<not> queued qs bp" using used_not_queued [OF assms] .
  show ?thesis
  proof (cases "flags h AND B_MALLOCED = 0")
    case True
    define q where "q = lay bp"
    have q: "q < 13" using True h by (simp add: in_use_def q_def)
    have len: "length qs = 13" "length (bQhead st) = 13" using binvD_queues [OF inv] by (simp_all add: queues_ok_def)
    let ?st = "st\<lparr>bQhead := (bQhead st)[q := Some bp], hdr := (hdr st)(bp \<mapsto> \<lparr>u = Next (bQhead st ! q), flags = B_FILL_WORD\<rparr>)\<rparr>"
    have ch: "chain (hdr st) (bQhead st ! k) (qs ! k)" "\<forall>a\<in>set (qs ! k). lay a = k" "bp \<notin> set (qs ! k)" if "k < 13" for k
      using binvD_queues [OF inv] nq that by (auto simp: queues_ok_def queued_def)
    have "queues_ok lay (qs[q := bp # qs ! q]) ?st"
      unfolding queues_ok_def
    proof (intro conjI allI impI, goal_cases)
      case (3 k)
      then show ?case using ch [of k] len q by (cases "k = q") simp_all
    next
      case (4 k)
      then show ?case using ch(2) [of k] len q by (cases "k = q") (simp_all add: q_def)
    qed (simp_all add: len)
    moreover have "queued (qs[q := bp # qs ! q]) bp" 
      unfolding queued_def by (rule exI [of _ q]) (use q len in simp)
    moreover have "queued (qs[q := bp # qs ! q]) a" if "queued qs a" for a
      by (rule queued_update [OF len(1) that]) simp
    ultimately have "binv lay (qs[q := bp # qs ! q]) ?st"
      using binv_relink [OF inv h(1) True, of "qs[q := bp # qs ! q]"] by simp
    then show ?thesis using bfree_eq [OF assms] h True by (auto simp: q_def)
  next
    case False
    then show ?thesis using bfree_eq [OF assms] h binv_drop [OF inv nq] by auto
  qed
qed

section \<open>Properties\<close>

definition well_formed :: "balloc_state \<Rightarrow> bool" where
  "well_formed st \<longleftrightarrow> (\<exists>lay qs. binv lay qs st)"

lemma balloc_block:
  assumes wf: "well_formed st" and r: "balloc mo mal sz st = (Some p, st')"
    and mal: "\<forall>bp. mal = Some bp \<longrightarrow> malloc_ok st (snd (ballocGetSize (nat sz))) bp"
  shows "well_formed st' \<and> 8 \<le> p \<and> \<not> used st (p - 8) \<and> used st' (p - 8) \<and> nat sz + 8 \<le> extent st' (p - 8) \<and>
    (\<forall>a. used st a \<longrightarrow> hdr st' a = hdr st a \<and> apart a (extent st' a) (p - 8) (extent st' (p - 8)))"
proof -
  obtain lay qs where inv: "binv lay qs st" using wf by (auto simp: well_formed_def)
  obtain lay' qs' q bp fl where inv': "binv lay' qs' st'" and p: "p = bp + 8" and fresh: "\<not> used st bp"
    and fit: "0 \<le> sz" "nat sz \<le> 2 ^ (4 + q)"
    and h: "hdr st' = (hdr st)(bp \<mapsto> \<lparr>u = Size (2 ^ (4 + q)), flags = fl\<rparr>)" "integrity \<lparr>u = Size (2 ^ (4 + q)), flags = fl\<rparr>"
    using balloc_binv [OF inv r mal [rule_format]] .
  have us: "used st' bp" using h by (simp add: used_def)
  have keep: "hdr st' a = hdr st a \<and> apart a (extent st' a) bp (extent st' bp)" if a: "used st a" for a
  proof -
    have "a \<noteq> bp" using a fresh by auto
    then show ?thesis using used_apart [OF inv' _ us] a h(1) by (simp add: used_def)
  qed
  have "nat sz + 8 \<le> extent st' bp" using h(1) fit by (simp add: extent_def size_of_def)
  moreover have "well_formed st'" using inv' by (auto simp: well_formed_def)
  ultimately show ?thesis using p fresh us keep by simp
qed

lemma bfree_block:
  assumes wf: "well_formed st" and us: "used st bp"
  shows "well_formed (bfree (bp + 8) st) \<and> \<not> used (bfree (bp + 8) st) bp \<and>
    (\<forall>a. a \<noteq> bp \<longrightarrow> hdr (bfree (bp + 8) st) a = hdr st a) \<and>
    (flags (the (hdr st bp)) AND B_MALLOCED = 0 \<longrightarrow>
       bfree (bp + 8) (bfree (bp + 8) st) = bfree (bp + 8) st \<and>
       fst (balloc mo mal (int (size_of (the (hdr st bp)))) (bfree (bp + 8) st)) = Some (bp + 8))"
proof -
  obtain lay qs where inv: "binv lay qs st" using wf by (auto simp: well_formed_def)
  obtain h where h: "hdr st bp = Some h" "in_use (lay bp) h" using used_in_use [OF inv us] by auto
  then have sz: "size_of h = 2 ^ (4 + lay bp)" by (simp add: in_use_def size_of_def)
  note eq = bfree_eq [OF inv us]
  have "fst (balloc mo mal (int (size_of h)) (bfree (bp + 8) st)) = Some (bp + 8)" if m: "flags h AND B_MALLOCED = 0"
  proof -
    have q: "lay bp < 13" using m h by (simp add: in_use_def)
    have "length (bQhead st) = 13" "bFreeBuf st \<noteq> None"
      using inv binvD_queues [OF inv] by (simp_all add: queues_ok_def binv_def)
    then show ?thesis using m q h eq
      by (subst balloc_cases [where q = "lay bp" and memSize = "block_size (lay bp)"])
        (simp_all add: sz ballocGetSize_exact origin_of_def hand_out_def del: of_nat_power)
  qed
  moreover have "bfree (bp + 8) (bfree (bp + 8) st) = bfree (bp + 8) st" if "flags h AND B_MALLOCED = 0"
    using that eq h by (simp add: bfree_def [of _ "_\<lparr>bQhead := _, hdr := _\<rparr>"])
  moreover have "well_formed (bfree (bp + 8) st)" using bfree_binv [OF inv us] by (auto simp: well_formed_def)
  moreover have "\<not> used (bfree (bp + 8) st) bp" "\<forall>a. a \<noteq> bp \<longrightarrow> hdr (bfree (bp + 8) st) a = hdr st a"
    using eq by (simp_all add: used_def)
  ultimately show ?thesis using h by simp
qed

text \<open>
  C12: A block that \<open>balloc\<close> gives back has room for the size asked, was not in use, overlaps no
  block in use, and the headers of the blocks in use stay as they are; the allocator stays well
  formed.
\<close>

theorem balloc_fresh:
  assumes wf: "well_formed st" and r: "balloc mo mal sz st = (Some p, st')"
    and mal: "\<forall>bp. mal = Some bp \<longrightarrow> malloc_ok st (snd (ballocGetSize (nat sz))) bp"
  shows "well_formed st' \<and> 8 \<le> p \<and> \<not> used st (p - 8) \<and> used st' (p - 8) \<and> nat sz + 8 \<le> extent st' (p - 8) \<and>
    (\<forall>a. used st a \<longrightarrow> hdr st' a = hdr st a \<and> apart a (extent st' a) (p - 8) (extent st' (p - 8)))"
  by (rule balloc_block [OF assms])

text \<open>
  \<open>bfree\<close> of a block in use takes that block and no other out of use and keeps the allocator
  well formed; freeing a block of the arena a second time does nothing, and the next request of
  its size gets it back.
\<close>

theorem bfree_reuse:
  assumes wf: "well_formed st" and us: "used st bp"
  shows "well_formed (bfree (bp + 8) st) \<and> \<not> used (bfree (bp + 8) st) bp \<and>
    (\<forall>a. a \<noteq> bp \<longrightarrow> hdr (bfree (bp + 8) st) a = hdr st a) \<and>
    (flags (the (hdr st bp)) AND B_MALLOCED = 0 \<longrightarrow>
       bfree (bp + 8) (bfree (bp + 8) st) = bfree (bp + 8) st \<and>
       fst (balloc mo mal (int (size_of (the (hdr st bp)))) (bfree (bp + 8) st)) = Some (bp + 8))"
  by (rule bfree_block [OF assms])

lemma mem_copy_apart: "apart a m p n \<Longrightarrow> a \<le> x \<Longrightarrow> x < a + m \<Longrightarrow> mem_copy p from n ms x = ms x"
  by (auto simp: apart_def mem_copy_def)

lemma mem_bfree [simp]: "mem (bfree p st) = mem st"
  by (auto simp: bfree_def Let_def split: option.splits prod.splits)

lemma balloc_none: "balloc mo mal sz st = (None, st') \<Longrightarrow> bFreeBuf st \<noteq> None \<Longrightarrow> st' = st"
  by (cases "ballocGetSize (nat sz)")
    (auto simp: balloc_cases hand_out_def split: if_splits origin.splits option.splits)

lemma binv_mem [simp]: "binv lay qs (st\<lparr>mem := m\<rparr>) = binv lay qs st"
  by (simp add: binv_def queues_ok_def placed_def arena_def)

lemma used_mem [simp]: "used (st\<lparr>mem := m\<rparr>) a = used st a"
  by (simp add: used_def)

text \<open>
  C37: \<open>brealloc\<close> of a block in use of a well-formed allocator: on failure the previous buffer and the
  allocator are as before; otherwise the allocator stays well-formed, the block returned is in use,
  has room for the size asked for and holds the contents of the old one, and every other block in
  use stays in use with its contents. What \<open>malloc\<close> gives, when it is called and gives anything, must
  lie outside the arena and outside the blocks it gave before.
\<close>

theorem brealloc_keeps_contents:
  assumes wf: "well_formed st" and us: "used st bp" and r: "brealloc mo mal (Some (bp + 8)) n st = (res, st')"
    and mal: "\<forall>b. mal = Some b \<longrightarrow> malloc_ok st (snd (ballocGetSize n)) b"
  shows "case res of
      None \<Rightarrow> st' = st
    | Some p \<Rightarrow> well_formed st' \<and> used st' (p - 8) \<and> n + 8 \<le> extent st' (p - 8) \<and>
        (\<forall>i < size_of (the (hdr st bp)). mem st' (p + i) = mem st (bp + 8 + i)) \<and>
        (\<forall>a. used st a \<and> a \<noteq> bp \<longrightarrow> used st' a \<and> (\<forall>i < extent st a. mem st' (a + i) = mem st (a + i)))"
proof -
  obtain h where h: "hdr st bp = Some h" using us by (auto simp: used_def)
  have op: "bFreeBuf st \<noteq> None" using wf by (auto simp: well_formed_def binv_def)
  show ?thesis
  proof (cases "size_of h \<ge> n")
    case True
    then show ?thesis using r wf us h by (auto simp: brealloc_def extent_def)
  next
    case False
    obtain p st1 where b: "balloc mo mal (int n) st = (p, st1)" by (cases "balloc mo mal (int n) st")
    note r' = r [unfolded brealloc_def, simplified, unfolded h b, simplified]
    show ?thesis
    proof (cases p)
      case None
      then show ?thesis using r' balloc_none [OF b [unfolded None] op] False by simp
    next
      case (Some p0)
      let ?m = "st1\<lparr>mem := mem_copy p0 (bp + 8) (size_of h) (mem st1)\<rparr>"
      have st': "res = Some p0" "st' = bfree (bp + 8) ?m" using r' Some False by auto
      obtain lay qs where inv: "binv lay qs st" using wf by (auto simp: well_formed_def)
      have ms: "mem st1 = mem st" by (rule balloc_binv [OF inv b [unfolded Some]]) (use mal in auto)
      note f = balloc_block [OF wf b [unfolded Some], simplified, OF mal]
      have wf': "well_formed ?m" and us': "used ?m bp" using f us by (auto simp: well_formed_def used_def)
      note g = bfree_block [OF wf' us']
      have k: "used st' a" "hdr st' a = hdr st1 a" if "a \<noteq> bp" "used st1 a" for a
        using that g st' by (auto simp: used_def)
      have "p0 - 8 \<noteq> bp" using f us by auto
      moreover have "mem st' (p0 + i) = mem st (bp + 8 + i)" if "i < size_of h" for i
        using that st'(2) ms by (simp add: mem_copy_def add.commute)
      moreover have "mem st' (a + i) = mem st (a + i)" if a: "used st a" "a \<noteq> bp" "i < extent st a" for a i
      proof -
        have "apart a (extent st a) p0 (size_of h)"
          using f a(1) False by (force simp: apart_def extent_def)
        then show ?thesis using mem_copy_apart [of a "extent st a" p0 "size_of h" "a + i"] a(3) st'(2) ms by simp
      qed
      ultimately show ?thesis using f g k st' h by (auto simp: extent_def used_def)
    qed
  qed
qed

text \<open>
  \<open>bstrdup\<close> of a string gives a block that holds it with its terminator, and changes no byte of
  a block in use.
\<close>

theorem bstrdup_copies:
  assumes wf: "well_formed st" and r: "bstrdup mo mal (Some s) st = (Some p, st')"
    and mal: "\<forall>b. mal = Some b \<longrightarrow> malloc_ok st (snd (ballocGetSize (length s + 1))) b"
  shows "well_formed st' \<and> used st' (p - 8) \<and> length s + 9 \<le> extent st' (p - 8) \<and>
    map (\<lambda>i. mem st' (p + i)) [0..<length s + 1] = s @ [0] \<and>
    (\<forall>a. used st a \<longrightarrow> used st' a \<and> (\<forall>i < extent st a. mem st' (a + i) = mem st (a + i)))"
proof -
  obtain q st1 where b: "balloc mo mal (int (length s + 1)) st = (q, st1)" by fastforce
  have q: "q = Some p" "st' = st1\<lparr>mem := mem_store p (s @ [0]) (mem st1)\<rparr>"
    using r b by (auto simp: bstrdup_def split: option.splits)
  obtain lay qs where inv: "binv lay qs st" using wf by (auto simp: well_formed_def)
  have mal': "\<forall>bp. mal = Some bp \<longrightarrow> malloc_ok st (snd (ballocGetSize (nat (int (length s + 1))))) bp"
    using mal by (simp only: nat_int)
  have ms: "mem st1 = mem st" by (rule balloc_binv [OF inv b [unfolded q(1)] mal' [rule_format]]) auto
  note f = balloc_block [OF wf b [unfolded q(1)] mal']
  have "mem st' (a + i) = mem st (a + i)" if a: "used st a" "i < extent st a" for a i
  proof -
    have "hdr st1 a = hdr st a" "apart a (extent st1 a) (p - 8) (extent st1 (p - 8))" using f a(1) by auto
    then have "apart a (extent st a) p (length s + 1)" using f by (auto simp: apart_def extent_def)
    then show ?thesis using a(2) by (auto simp: q(2) ms mem_store_def apart_def)
  qed
  moreover have "map (\<lambda>i. mem st' (p + i)) [0..<length s + 1] = s @ [0]"
    by (rule nth_equalityI) (auto simp: q(2) mem_store_def nth_append)
  ultimately show ?thesis using f q(2) by (auto simp: well_formed_def extent_def used_def)
qed

text \<open>An opened allocator: an arena at 4096 of 1024 bytes with a block of 16 bytes in use.\<close>

definition b0 :: balloc_state where
  "b0 = \<lparr>bQhead = replicate 13 None, bFreeBuf = Some 4096, bFreeNext = 4096, bFreeSize = 1024, bFreeLeft = 1024,
         bFlags = 1, bopenCount = 1, hdr = Map.empty, mem = (\<lambda>_. 0)\<rparr>"

definition b1 :: balloc_state where
  "b1 = snd (hand_out 4096 24 0 (b0\<lparr>bFreeNext := 4120, bFreeLeft := 1000\<rparr>))"

lemma getSize_16 [simp]: "ballocGetSize 16 = (0, 24)"
  using ballocGetSize_exact [of 0] by simp

lemma b0_wf: "binv (\<lambda>_. 0) (replicate 13 []) b0"
  by (simp add: b0_def binv_def arena_def queues_ok_def)

lemma alloc_b0: "balloc None None 16 b0 = (Some 4104, b1)"
  by (simp add: b1_def balloc_def b0_def hand_out_def)

lemma used_b1: "used b1 4096"
  by (simp add: used_def b1_def hand_out_def integrity_def)

lemma b1_wf: "well_formed b1"
  unfolding well_formed_def by (rule balloc_binv [OF b0_wf alloc_b0]) auto

theorem balloc_fresh_witness:
  "well_formed b1 \<and> \<not> used b0 4096 \<and> used b1 4096 \<and> 24 \<le> extent b1 4096"
  using balloc_fresh [OF _ alloc_b0] b0_wf by (auto simp: well_formed_def)

theorem bfree_reuse_witness:
  "well_formed b1 \<and> used b1 4096 \<and> fst (balloc None None 16 (bfree 4104 b1)) = Some 4104"
  using bfree_reuse [OF b1_wf used_b1, of None None] b1_wf used_b1 by (simp add: b1_def hand_out_def size_of_def)

lemma realloc_b1:
  "brealloc None None (Some 4104) 20 b1 = (Some 4128, snd (brealloc None None (Some 4104) 20 b1))"
  by (simp add: brealloc_def b1_def b0_def hand_out_def balloc_def size_of_def ballocGetSize_def class_loop.simps)

theorem brealloc_keeps_contents_witness:
  "well_formed b1 \<and> used b1 4096 \<and> used (snd (brealloc None None (Some 4104) 20 b1)) 4120"
  using brealloc_keeps_contents [of b1 4096 None None 20, simplified, OF b1_wf used_b1 realloc_b1] b1_wf used_b1 by simp

lemma dup_b1: "bstrdup None None (Some [72, 105]) b1 = (Some 4128, snd (bstrdup None None (Some [72, 105]) b1))"
  by (simp add: bstrdup_def b1_def b0_def hand_out_def balloc_def ballocGetSize_def class_loop.simps)

theorem bstrdup_copies_witness:
  "well_formed b1 \<and> map (\<lambda>i. mem (snd (bstrdup None None (Some [72, 105]) b1)) (4128 + i)) [0, 1, 2] = [72, 105, 0]"
  using bstrdup_copies [OF b1_wf dup_b1] b1_wf by simp

text \<open>
  An allocator opened by the first call of \<open>balloc\<close> has no flag \<open>B_USE_MALLOC\<close>, whatever the initial
  flags were: it refuses every request above the largest class.
\<close>

lemma auto_open_no_malloc:
  assumes "bFreeBuf st = None" "0 \<le> bopenCount st" "ballocGetSize (nat sz) = (q, m)" "13 \<le> q"
  shows "fst (balloc mo mal sz st) = None"
  using assms by (auto simp: balloc_def bopen_def Let_def split: option.splits)

text \<open>\<open>bopen\<close> on a closed allocator with no block gives a well-formed one.\<close>

lemma bopen_wf:
  assumes "hdr st = Map.empty" "bopenCount st = 0" "bopen mal buf n fl st = (0, st')"
  shows "well_formed st'"
proof -
  have "binv (\<lambda>_. 0) (replicate 13 []) st'"
    using assms by (auto simp: bopen_def Let_def binv_def arena_def queues_ok_def split: option.splits if_splits)
  then show ?thesis by (auto simp: well_formed_def)
qed

end
