(* ===== verification/HttpDate.thy ===== *)
theory HttpDate
  imports Prelude "HOL-Library.Signed_Division"
begin

text \<open>
  The dates of the header \<open>If-Modified-Since\<close>, the part of \<open>apps/WebServer/webs.c\<close> under
  \<open>WEBS_IF_MODIFIED_SUPPORT\<close>: the Gregorian calendar and the parser of HTTP dates.

  The parsers read single characters of a buffer at an index and move the index on: a buffer is
  the function from offsets to characters, and each parser returns its value and the new index.
  Day numbers and seconds are \<open>long\<close> (32 bits): sums and products wrap, as does the conversion
  of a \<open>double\<close> that is too large. The code's \<open>floor\<close> of a quotient of two \<open>long\<close>
  values in \<open>double\<close> is exact and is the \<open>div\<close> of integers; its \<open>%\<close> is \<open>smod\<close>.
\<close>

type_synonym cbuf = "nat \<Rightarrow> char"

section \<open>The calendar\<close>

abbreviation (input) GregorianEpoch :: int where "GregorianEpoch \<equiv> 1"

definition GregorianLeapYearP :: "int \<Rightarrow> bool" where
  "GregorianLeapYearP year =
     (let tmp = year smod 400 in year smod 4 = 0 \<and> tmp \<noteq> 100 \<and> tmp \<noteq> 200 \<and> tmp \<noteq> 300)"

abbreviation (input) wrap32 :: "int \<Rightarrow> int" where "wrap32 x \<equiv> signed_take_bit 31 x"

definition FixedFromGregorian :: "int \<Rightarrow> int \<Rightarrow> int \<Rightarrow> int" where
  "FixedFromGregorian month day year =
     (let y = wrap32 (year - 1);
          fixedDate = wrap32 (wrap32 (GregorianEpoch - 1 + wrap32 (365 * y)) + y div 4 - y div 100 + y div 400 + (367 * month - 362) div 12);
          fixedDate = wrap32 (fixedDate + (if month \<le> 2 then 0 else if GregorianLeapYearP year then - 1 else - 2))
      in wrap32 (fixedDate + day))"

text \<open>Behind the first subtraction nothing leaves the range.\<close>

definition GregorianYearFromFixed :: "int \<Rightarrow> int" where
  "GregorianYearFromFixed fixedDate =
     (let d0 = wrap32 (fixedDate - GregorianEpoch);
          n400 = d0 div 146097;
          d1 = d0 smod 146097;
          n100 = d1 div 36524;
          d2 = d1 smod 36524;
          n4 = d2 div 1461;
          d3 = d2 smod 1461;
          n1 = d3 div 365;
          year = 400 * n400 + 100 * n100 + 4 * n4 + n1
      in if n100 = 4 \<or> n1 = 4 then year else year + 1)"

definition GregorianDateDifference :: "int \<Rightarrow> int \<Rightarrow> int \<Rightarrow> int \<Rightarrow> int \<Rightarrow> int \<Rightarrow> int" where
  "GregorianDateDifference month1 day1 year1 month2 day2 year2 =
     wrap32 (FixedFromGregorian month2 day2 year2 - FixedFromGregorian month1 day1 year1)"

definition dateToTimet :: "int \<Rightarrow> int \<Rightarrow> int \<Rightarrow> int" where
  "dateToTimet year month day =
     (let dayDifference = wrap32 (FixedFromGregorian (month + 1) day year - FixedFromGregorian 1 1 1970)
      in wrap32 (dayDifference * 24 * 60 * 60))"

section \<open>The parsers\<close>

definition gisdigit :: "char \<Rightarrow> bool" where
  "gisdigit c \<longleftrightarrow> of_char c \<ge> (48 :: nat) \<and> of_char c \<le> (57 :: nat)"

fun ndigit_loop :: "cbuf \<Rightarrow> nat \<Rightarrow> nat \<Rightarrow> int \<Rightarrow> int" where
  "ndigit_loop buf i 0 r = r"
| "ndigit_loop buf i (Suc n) r = ndigit_loop buf (i + 1) n (if gisdigit (buf i) then r * 10 + (of_char (buf i) - 48) else r)"

definition parseNDIGIT :: "cbuf \<Rightarrow> nat \<Rightarrow> nat \<Rightarrow> int \<times> nat" where
  "parseNDIGIT buf digits index = (ndigit_loop buf index digits 0, index + digits)"

definition month_of :: "cbuf \<Rightarrow> nat \<Rightarrow> int" where
  "month_of buf i =
     (if buf i = CHR ''A'' then
        (if buf (i + 1) = CHR ''p'' then 3 else if buf (i + 1) = CHR ''u'' then 7 else - 1)
      else if buf i = CHR ''D'' then 11
      else if buf i = CHR ''F'' then 1
      else if buf i = CHR ''J'' then
        (if buf (i + 1) = CHR ''a'' then 0
         else if buf (i + 1) = CHR ''u'' then
           (if buf (i + 2) = CHR ''l'' then 6 else if buf (i + 2) = CHR ''n'' then 5 else - 1)
         else - 1)
      else if buf i = CHR ''M'' then
        (if buf (i + 1) = CHR ''a'' then
           (if buf (i + 2) = CHR ''r'' then 2 else if buf (i + 2) = CHR ''y'' then 4 else - 1)
         else - 1)
      else if buf i = CHR ''N'' then 10
      else if buf i = CHR ''O'' then 9
      else if buf i = CHR ''S'' then 8
      else - 1)"

definition parseMonth :: "cbuf \<Rightarrow> nat \<Rightarrow> int \<times> nat" where
  "parseMonth buf index =
     (let returnValue = month_of buf index
      in (returnValue, if returnValue \<ge> 0 then index + 3 else index))"

definition parseYear :: "cbuf \<Rightarrow> nat \<Rightarrow> int \<times> nat" where
  "parseYear buf index =
     (let (returnValue, tmpIndex) = parseNDIGIT buf 4 index in
      if returnValue \<ge> 0 then (returnValue, tmpIndex)
      else
        let (returnValue, tmpIndex) = parseNDIGIT buf 2 tmpIndex in
        if returnValue \<ge> 0 then (if returnValue < 70 then returnValue + 2000 else returnValue + 1900, tmpIndex)
        else (returnValue, index))"

definition parseTime :: "cbuf \<Rightarrow> nat \<Rightarrow> int \<times> nat" where
  "parseTime buf index =
     (let (hourValue, tmpIndex) = parseNDIGIT buf 2 index;
          (minuteValue, secondValue, tmpIndex) =
            (if hourValue \<ge> 0 then
               let (minuteValue, tmpIndex) = parseNDIGIT buf 2 (tmpIndex + 1)
               in if minuteValue \<ge> 0 then
                    let (secondValue, tmpIndex) = parseNDIGIT buf 2 (tmpIndex + 1)
                    in (minuteValue, secondValue, tmpIndex)
                  else (minuteValue, - 1, tmpIndex)
             else (- 1, - 1, tmpIndex))
      in if hourValue \<ge> 0 \<and> minuteValue \<ge> 0 \<and> secondValue \<ge> 0
         then ((hourValue * 60 + minuteValue) * 60 + secondValue, tmpIndex)
         else (- 1, index))"

definition parseDate1or2 :: "cbuf \<Rightarrow> nat \<Rightarrow> int \<times> nat" where
  "parseDate1or2 buf index =
     (if buf index = CHR '','' then
        let (dayValue, tmpIndex) = parseNDIGIT buf 2 (index + 2);
            (monthValue, yearValue, tmpIndex) =
              (if dayValue \<ge> 0 then
                 let (monthValue, tmpIndex) = parseMonth buf (tmpIndex + 1)
                 in if monthValue \<ge> 0 then
                      let (yearValue, tmpIndex) = parseYear buf (tmpIndex + 1) in (monthValue, yearValue, tmpIndex)
                    else (monthValue, - 1, tmpIndex)
               else (- 1, - 1, tmpIndex))
        in if dayValue \<ge> 0 \<and> monthValue \<ge> 0 \<and> yearValue \<ge> 0
           then (if yearValue < 1970 then 0 else dateToTimet yearValue monthValue dayValue, tmpIndex)
           else (- 1, index)
      else (- 1, index))"

definition parseDate3Time :: "cbuf \<Rightarrow> nat \<Rightarrow> int \<times> nat" where
  "parseDate3Time buf index =
     (let (monthValue, tmpIndex) = parseMonth buf index;
          (dayValue, timeValue, yearValue, tmpIndex) =
            (if monthValue \<ge> 0 then
               let tmpIndex = tmpIndex + 1;
                   (dayValue, tmpIndex) = (if buf tmpIndex = CHR '' '' then parseNDIGIT buf 1 (tmpIndex + 1)
                                           else parseNDIGIT buf 2 tmpIndex);
                   (timeValue, tmpIndex) = parseTime buf tmpIndex
               in if timeValue \<ge> 0 then
                    let (yearValue, tmpIndex) = parseYear buf tmpIndex in (dayValue, timeValue, yearValue, tmpIndex)
                  else (dayValue, timeValue, - 1, tmpIndex)
             else (- 1, - 1, - 1, tmpIndex))
      in if dayValue \<ge> 0 \<and> monthValue \<ge> 0 \<and> yearValue \<ge> 0
         then (wrap32 (dateToTimet yearValue monthValue dayValue + timeValue), tmpIndex)
         else (- 1, index))"

definition bufferIndexIncrementGivenNTest :: "cbuf \<Rightarrow> nat \<Rightarrow> char \<Rightarrow> nat \<Rightarrow> nat \<Rightarrow> nat" where
  "bufferIndexIncrementGivenNTest buf testIndex testChar foundIncrement notfoundIncrement =
     (if buf testIndex = testChar then foundIncrement else notfoundIncrement)"

text \<open>\<open>sizeof\<close> of a string literal counts its terminator.\<close>

abbreviation (input) sizeof_lit :: "string \<Rightarrow> nat" where "sizeof_lit s \<equiv> length s + 1"

definition parseWeekday :: "cbuf \<Rightarrow> nat \<Rightarrow> int \<times> nat" where
  "parseWeekday buf i =
     (let skip = (\<lambda>c s. i + bufferIndexIncrementGivenNTest buf (i + 3) c (sizeof_lit s) 3) in
      if buf i = CHR ''F'' then (5, skip CHR ''d'' ''Friday'')
      else if buf i = CHR ''M'' then (1, skip CHR ''d'' ''Monday'')
      else if buf i = CHR ''S'' then
        (if buf (i + 1) = CHR ''a'' then (6, skip CHR ''u'' ''Saturday'')
         else if buf (i + 1) = CHR ''u'' then (0, skip CHR ''d'' ''Sunday'')
         else (- 1, i))
      else if buf i = CHR ''T'' then
        (if buf (i + 1) = CHR ''h'' then (4, skip CHR ''r'' ''Thursday'')
         else if buf (i + 1) = CHR ''u'' then (2, skip CHR ''s'' ''Tuesday'')
         else (- 1, i))
      else if buf i = CHR ''W'' then (3, skip CHR ''n'' ''Wednesday'')
      else (- 1, i))"

definition dateParse :: "cbuf \<Rightarrow> int" where
  "dateParse cmd =
     (let (weekday, index) = parseWeekday cmd 0 in
      if weekday \<ge> 0 then
        let (dateValue, tmpIndex) = parseDate1or2 cmd index in
        if dateValue \<ge> 0 then
          let (timeValue, _) = parseTime cmd (tmpIndex + 1)
          in if timeValue \<ge> 0 then wrap32 (dateValue + timeValue) else 0
        else fst (parseDate3Time cmd index)
      else 0)"

section \<open>Calendar arithmetic\<close>

text \<open>The calendar as tables: lengths of months, and the day after a date.\<close>

definition month_length :: "int \<Rightarrow> int \<Rightarrow> int" where
  "month_length month year =
     (if month = 2 then (if GregorianLeapYearP year then 29 else 28)
      else if month \<in> {4, 6, 9, 11} then 30 else 31)"

definition valid_date :: "int \<Rightarrow> int \<Rightarrow> int \<Rightarrow> bool" where
  "valid_date month day year \<longleftrightarrow> 1 \<le> month \<and> month \<le> 12 \<and> 1 \<le> day \<and> day \<le> month_length month year \<and> 1 \<le> year"

definition next_day :: "int \<times> int \<times> int \<Rightarrow> int \<times> int \<times> int" where
  "next_day = (\<lambda>(month, day, year).
     if day < month_length month year then (month, day + 1, year)
     else if month < 12 then (month + 1, 1, year)
     else (1, 1, year + 1))"

text \<open>The year as four-hundreds, hundreds, fours and ones.\<close>

lemma year_parts:
  assumes "1 \<le> (year :: int)"
  obtains a b c e where "year = 400 * a + 100 * b + 4 * c + e + 1" "0 \<le> a" "0 \<le> b" "b < 4" "0 \<le> c" "c < 25" "0 \<le> e" "e < 4"
proof (rule that)
  let ?y = "year - 1"
  show "year = 400 * (?y div 400) + 100 * (?y mod 400 div 100) + 4 * (?y mod 400 mod 100 div 4) + ?y mod 400 mod 100 mod 4 + 1"
    using div_mult_mod_eq [of ?y 400] div_mult_mod_eq [of "?y mod 400" 100] div_mult_mod_eq [of "?y mod 400 mod 100" 4]
    by linarith
  show "?y mod 400 div 100 < 4" using pos_mod_bound [of 400 ?y] by linarith
  show "?y mod 400 mod 100 div 4 < 25" using pos_mod_bound [of 100 "?y mod 400"] by linarith
qed (use assms in \<open>auto simp: pos_imp_zdiv_nonneg_iff\<close>)

definition days_before_year :: "int \<Rightarrow> int" where
  "days_before_year year = 365 * (year - 1) + (year - 1) div 4 - (year - 1) div 100 + (year - 1) div 400"

definition parts :: "int \<Rightarrow> int \<Rightarrow> int \<Rightarrow> int \<Rightarrow> bool" where
  "parts a b c e \<longleftrightarrow> 0 \<le> a \<and> 0 \<le> b \<and> b < 4 \<and> 0 \<le> c \<and> c < 25 \<and> 0 \<le> e \<and> e < 4"

abbreviation of_parts :: "int \<Rightarrow> int \<Rightarrow> int \<Rightarrow> int \<Rightarrow> int" where
  "of_parts a b c e \<equiv> 400 * a + 100 * b + 4 * c + e + 1"

lemma days_before_parts:
  assumes "parts a b c e"
  shows "days_before_year (of_parts a b c e) = 146097 * a + 36524 * b + 1461 * c + 365 * e"
proof -
  let ?y = "400 * a + 100 * b + 4 * c + e"
  note p = assms [unfolded parts_def]
  have "?y div 4 = 100 * a + 25 * b + c" using p by linarith
  moreover have "?y div 100 = 4 * a + b" using p by linarith
  moreover have "?y div 400 = a" using p by linarith
  ultimately show ?thesis by (simp add: days_before_year_def)
qed

lemma leap_parts:
  assumes "parts a b c e"
  shows "GregorianLeapYearP (of_parts a b c e) \<longleftrightarrow> e = 3 \<and> (c = 24 \<longrightarrow> b = 3)"
proof -
  note p = assms [unfolded parts_def]
  let ?y = "of_parts a b c e" and ?r = "100 * b + 4 * c + e + 1"
  have y: "0 \<le> ?y" using p by linarith
  have b4: "b = 0 \<or> b = 1 \<or> b = 2 \<or> b = 3" using p by linarith
  have m4: "?y smod 4 = 0 \<longleftrightarrow> e = 3"
  proof -
    have "?y smod 4 = ?y mod 4" using y by (simp add: smod_mod_positive)
    also have "\<dots> = (e + 1 + 4 * (100 * a + 25 * b + c)) mod 4" by (simp add: algebra_simps)
    also have "\<dots> = (e + 1) mod 4" by (rule mod_mult_self2)
    also have "\<dots> = 0 \<longleftrightarrow> e = 3" using p by presburger
    finally show ?thesis .
  qed
  have m400: "?y smod 400 = (if ?r = 400 then 0 else ?r)"
  proof -
    have "?y smod 400 = ?y mod 400" using y by (simp add: smod_mod_positive)
    also have "\<dots> = (?r + 400 * a) mod 400" by (simp add: algebra_simps)
    also have "\<dots> = ?r mod 400" by (rule mod_mult_self2)
    finally have "?y smod 400 = ?r mod 400" .
    moreover have "r mod 400 = (if r = 400 then 0 else r)" if "0 \<le> r" "r \<le> 400" for r :: int using that by simp
    ultimately show ?thesis using p by (simp del: smod_int_numeral_numeral)
  qed
  show ?thesis
  proof (cases "e = 3")
    case True
    then have "(?r = 100 \<or> ?r = 200 \<or> ?r = 300) \<longleftrightarrow> c = 24 \<and> b \<noteq> 3"
      using b4 p by (elim disjE) auto
    then show ?thesis using True m4 m400 by (auto simp: GregorianLeapYearP_def Let_def)
  next
    case False
    then show ?thesis using m4 by (simp add: GregorianLeapYearP_def Let_def)
  qed
qed

lemma wrap32_id: "- (2 ^ 31) \<le> x \<Longrightarrow> x < 2 ^ 31 \<Longrightarrow> signed_take_bit 31 x = (x :: int)"
  by (rule signed_take_bit_int_eq_self) simp_all

lemma wrap32_num: "- 2147483648 \<le> x \<Longrightarrow> x < 2147483648 \<Longrightarrow> signed_take_bit 31 x = (x :: int)"
  by (rule wrap32_id) simp_all

text \<open>The day of the year, and its bounds.\<close>

definition day_of_year :: "int \<Rightarrow> int \<Rightarrow> int \<Rightarrow> int" where
  "day_of_year month day year =
     (367 * month - 362) div 12 + (if month \<le> 2 then 0 else if GregorianLeapYearP year then - 1 else - 2) + day"

lemmas day_of_year_eq = day_of_year_def

text \<open>In the first five million eight hundred thousand years nothing wraps.\<close>

abbreviation (input) LAST_YEAR :: int where "LAST_YEAR \<equiv> 5800000"

lemma days_before_bounds:
  assumes "1 \<le> year" "year \<le> LAST_YEAR"
  shows "0 \<le> days_before_year year" "days_before_year year \<le> 2120000000"
proof -
  have "0 \<le> (year - 1) div 400" "(year - 1) div 400 \<le> (year - 1) div 100" "(year - 1) div 100 \<le> (year - 1) div 4" "(year - 1) div 4 \<le> 1450000"
    using assms by auto
  then show "0 \<le> days_before_year year" "days_before_year year \<le> 2120000000" using assms by (simp_all add: days_before_year_def)
qed

lemma fixed_split:
  assumes "1 \<le> month" "month \<le> 12" "1 \<le> day" "day \<le> 31" "1 \<le> year" "year \<le> LAST_YEAR"
  shows "FixedFromGregorian month day year = days_before_year year + day_of_year month day year"
proof -
  let ?y = "year - 1" and ?m = "(367 * month - 362) div 12"
  note b = days_before_bounds [OF assms(5,6), unfolded days_before_year_def]
  have q: "0 \<le> ?y div 400" "?y div 400 \<le> ?y div 100" "?y div 100 \<le> ?y div 4" "?y div 4 \<le> 1450000" using assms(5,6) by auto
  have m: "0 \<le> ?m" "?m \<le> 400" using assms(1,2) by auto
  have w: "signed_take_bit 31 ?y = ?y" "signed_take_bit 31 (365 * ?y) = 365 * ?y"
    by (rule wrap32_num; use assms(5,6) in simp)+
  have f: "signed_take_bit 31 (365 * ?y + ?y div 4 - ?y div 100 + ?y div 400 + ?m) = 365 * ?y + ?y div 4 - ?y div 100 + ?y div 400 + ?m"
    by (rule wrap32_num; use b m in linarith)
  have g: "signed_take_bit 31 (365 * ?y + ?y div 4 - ?y div 100 + ?y div 400 + ?m + z) = 365 * ?y + ?y div 4 - ?y div 100 + ?y div 400 + ?m + z"
    if "- 2 \<le> z" "z \<le> 31" for z
    by (rule wrap32_num; use b m that in linarith)
  define c :: int where "c = (if month \<le> 2 then 0 else if GregorianLeapYearP year then - 1 else - 2)"
  have c: "- 2 \<le> c" "c \<le> 0" by (simp_all add: c_def)
  have "FixedFromGregorian month day year =
      signed_take_bit 31 (signed_take_bit 31 (365 * ?y + ?y div 4 - ?y div 100 + ?y div 400 + ?m + c) + day)"
    unfolding FixedFromGregorian_def Let_def w c_def [symmetric] using w f by simp
  also have "\<dots> = 365 * ?y + ?y div 4 - ?y div 100 + ?y div 400 + ?m + (c + day)"
    using g [of c] g [of "c + day"] c assms(3,4) by (simp add: add.assoc)
  finally show ?thesis by (simp add: days_before_year_def day_of_year_def c_def)
qed

lemma valid_fixed:
  assumes "valid_date month day year" "year \<le> LAST_YEAR"
  shows "FixedFromGregorian month day year = days_before_year year + day_of_year month day year"
  using assms by (intro fixed_split) (auto simp: valid_date_def month_length_def split: if_splits)

lemma months: "1 \<le> m \<Longrightarrow> m \<le> 12 \<Longrightarrow> m \<in> {1, 2, 3, 4, 5, 6, 7, 8, 9, 10, 11, 12 :: int}"
  by simp presburger

lemma day_of_year_month:
  assumes "1 \<le> m" "m < 12"
  shows "day_of_year (m + 1) day year = day_of_year m day year + month_length m year"
proof -
  have "m \<in> {1, 2, 3, 4, 5, 6, 7, 8, 9, 10, 11 :: int}" using assms by simp presburger
  then show ?thesis by (auto simp: day_of_year_eq month_length_def)
qed

lemma day_of_year_bounds:
  assumes "valid_date m d y"
  shows "1 \<le> day_of_year m d y" "day_of_year m d y \<le> (if GregorianLeapYearP y then 366 else 365)"
  using months [of m] assms by (auto simp: valid_date_def day_of_year_eq month_length_def split: if_splits)

lemma div_smod_parts:
  assumes "0 \<le> (r :: int)" "r < n" "0 \<le> q"
  shows "(n * q + r) div n = q" "(n * q + r) smod n = r"
proof -
  have "0 \<le> n * q + r" using assms by simp
  then show "(n * q + r) div n = q" "(n * q + r) smod n = r" using assms by (simp_all add: smod_mod_positive)
qed

lemma year_from_parts:
  assumes p: "parts a b c e" and k: "0 \<le> k" "k \<le> 364 \<or> k = 365 \<and> GregorianLeapYearP (of_parts a b c e)"
    and y: "1 \<le> of_parts a b c e" "of_parts a b c e \<le> LAST_YEAR"
  shows "GregorianYearFromFixed (days_before_year (of_parts a b c e) + (k + 1)) = of_parts a b c e"
proof -
  note q = p [unfolded parts_def]
  define d1 d2 d3 where d: "d1 = 36524 * b + d2" "d2 = 1461 * c + d3" "d3 = 365 * e + k"
  have "days_before_year (of_parts a b c e) + (k + 1) - 1 = 146097 * a + d1"
    using days_before_parts [OF p] by (simp add: d)
  moreover have "signed_take_bit 31 (days_before_year (of_parts a b c e) + (k + 1) - 1) = days_before_year (of_parts a b c e) + (k + 1) - 1"
    by (rule wrap32_num; use days_before_bounds [OF y] k in linarith)
  ultimately have d0: "signed_take_bit 31 (days_before_year (of_parts a b c e) + (k + 1) - 1) = 146097 * a + d1" by simp
  have leap: "k = 365 \<Longrightarrow> e = 3 \<and> (c = 24 \<longrightarrow> b = 3)" using k(2) leap_parts [OF p] by auto
  have d1: "0 \<le> d1" "d1 < 146097" using q k leap by (auto simp: d)
  note s0 = div_smod_parts [OF d1, of a]
  consider "k \<le> 364" | "k = 365" "c \<noteq> 24" | "k = 365" "c = 24" using k(2) by auto
  then show ?thesis
  proof cases
    case 1
    have "0 \<le> d2" "d2 < 36524" "0 \<le> d3" "d3 < 1461" using q k 1 by (auto simp: d)
    then have "d1 div 36524 = b" "d1 smod 36524 = d2" "d2 div 1461 = c" "d2 smod 1461 = d3" "d3 div 365 = e"
      using div_smod_parts [of d2 36524 b] div_smod_parts [of d3 1461 c] div_smod_parts [of k 365 e] q k 1 by (simp_all add: d)
    then show ?thesis using q s0 unfolding GregorianYearFromFixed_def d0 Let_def by simp
  next
    case 2
    have "0 \<le> d2" "d2 < 36524" "d3 = 1460" using q 2 leap by (auto simp: d)
    then have "d1 div 36524 = b" "d1 smod 36524 = d2" "d2 div 1461 = c" "d2 smod 1461 = 1460"
      using div_smod_parts [of d2 36524 b] div_smod_parts [of d3 1461 c] q by (simp_all add: d)
    then show ?thesis using q s0 2 leap unfolding GregorianYearFromFixed_def d0 Let_def by simp
  next
    case 3
    then have "d1 = 146096" using leap by (simp add: d)
    then show ?thesis using s0 3 q leap unfolding GregorianYearFromFixed_def d0 Let_def by simp
  qed
qed

text \<open>
  C22: \<open>GregorianYearFromFixed\<close> finds the year of every day number \<open>FixedFromGregorian\<close> gives to a
  date of the calendar from the year 1 to the year 5800000, the last day of a leap year included. From
  about the year 5880000 on the day number does not fit in 32 bits.
\<close>

theorem gregorian_year_roundtrip:
  assumes "valid_date month day year" "year \<le> 5800000"
  shows "GregorianYearFromFixed (FixedFromGregorian month day year) = year"
proof -
  have y1: "1 \<le> year" using assms by (simp add: valid_date_def)
  then obtain a b c e where y: "year = of_parts a b c e" and p: "parts a b c e"
    using year_parts [of year] unfolding parts_def by metis
  define k where "k = day_of_year month day year - 1"
  have k: "0 \<le> k" "k \<le> 364 \<or> k = 365 \<and> GregorianLeapYearP (of_parts a b c e)"
    using day_of_year_bounds [OF assms(1)] by (auto simp: k_def y split: if_splits)
  have "FixedFromGregorian month day year = days_before_year (of_parts a b c e) + (k + 1)"
    using valid_fixed [OF assms] by (simp add: k_def y)
  then show ?thesis using year_from_parts [OF p k] y y1 assms(2) by simp
qed

theorem gregorian_year_roundtrip_witness:
  "valid_date 12 31 2000 \<and> GregorianYearFromFixed (FixedFromGregorian 12 31 2000) = 2000"
proof -
  have v: "valid_date 12 31 2000" by (simp add: valid_date_def month_length_def)
  then show ?thesis using gregorian_year_roundtrip [OF v] by simp
qed

lemma days_before_next:
  assumes "1 \<le> year"
  shows "days_before_year (year + 1) = days_before_year year + (if GregorianLeapYearP year then 366 else 365)"
proof -
  obtain a b c e where y: "year = of_parts a b c e" and p: "parts a b c e"
    using year_parts [OF assms] unfolding parts_def by metis
  note q = p [unfolded parts_def]
  have l: "GregorianLeapYearP year \<longleftrightarrow> e = 3 \<and> (c = 24 \<longrightarrow> b = 3)" using leap_parts [OF p] y by simp
  consider "e < 3" | "e = 3" "c < 24" | "e = 3" "c = 24" "b < 3" | "e = 3" "c = 24" "b = 3" using q by linarith
  then show ?thesis
  proof cases
    case 1
    then have "parts a b c (e + 1)" using q by (simp add: parts_def)
    then show ?thesis using days_before_parts [of a b c "e + 1"] days_before_parts [OF p] l 1 by (simp add: y)
  next
    case 2
    then have "parts a b (c + 1) 0" using q by (simp add: parts_def)
    then show ?thesis using days_before_parts [of a b "c + 1" 0] days_before_parts [OF p] l 2 by (simp add: y)
  next
    case 3
    then have "parts a (b + 1) 0 0" using q by (simp add: parts_def)
    then show ?thesis using days_before_parts [of a "b + 1" 0 0] days_before_parts [OF p] l 3 by (simp add: y)
  next
    case 4
    then have "parts (a + 1) 0 0 0" using q by (simp add: parts_def)
    then show ?thesis using days_before_parts [of "a + 1" 0 0 0] days_before_parts [OF p] l 4 by (simp add: y)
  qed
qed

text \<open>
  \<open>FixedFromGregorian\<close> numbers the days of the calendar: the first of January of the year 1 is
  day 1, and the day after a date of the calendar before the year 5800000, by the lengths of the months, has the next
  number.
\<close>

theorem fixed_counts_days:
  "FixedFromGregorian 1 1 1 = 1 \<and>
   (valid_date month day year \<and> year < 5800000 \<longrightarrow>
     (case next_day (month, day, year) of (month', day', year') \<Rightarrow>
        valid_date month' day' year' \<and>
        FixedFromGregorian month' day' year' = FixedFromGregorian month day year + 1))"
proof (intro conjI impI)
  show "FixedFromGregorian 1 1 1 = 1" by (simp add: fixed_split days_before_year_def day_of_year_def)
next
  assume "valid_date month day year \<and> year < 5800000"
  then have v: "valid_date month day year" and y: "year \<le> LAST_YEAR" "year + 1 \<le> LAST_YEAR" by simp_all
  note f = valid_fixed [OF v y(1)] valid_fixed
  have step: "day_of_year m 1 year = day_of_year m d year + 1 - d" for m d by (simp add: day_of_year_eq)
  have ml: "1 \<le> month_length m y" for m y by (simp add: month_length_def)
  show "case next_day (month, day, year) of (month', day', year') \<Rightarrow> valid_date month' day' year' \<and>
      FixedFromGregorian month' day' year' = FixedFromGregorian month day year + 1"
  proof (cases "day < month_length month year")
    case True
    then have "valid_date month (day + 1) year" using v by (simp add: valid_date_def)
    then show ?thesis using True f(1) f(2) [of month "day + 1" year] y by (simp add: next_day_def day_of_year_def)
  next
    case False
    then have d: "day = month_length month year" using v by (simp add: valid_date_def)
    show ?thesis
    proof (cases "month < 12")
      case True
      then have n: "valid_date (month + 1) 1 year" using v ml [of "month + 1" year] by (simp add: valid_date_def)
      then show ?thesis using True v d day_of_year_month [of month 1 year] step [of month day] f(1) f(2) [OF n y(1)]
        by (simp add: next_day_def valid_date_def)
    next
      case False
      then have m: "month = 12" using v by (simp add: valid_date_def)
      have n: "valid_date 1 1 (year + 1)" using v ml [of 1 "year + 1"] by (simp add: valid_date_def)
      show ?thesis using v d m days_before_next [of year] f(1) f(2) [OF n y(2)]
        by (simp add: next_day_def valid_date_def day_of_year_eq month_length_def)
    qed
  qed
qed

theorem fixed_counts_days_witness:
  "FixedFromGregorian 1 1 1901 = FixedFromGregorian 12 31 1900 + 1"
  using fixed_counts_days [of 12 31 1900] by (simp add: valid_date_def month_length_def next_day_def)

section \<open>The parser on the three forms of a date\<close>

text \<open>A buffer that holds a text at an index.\<close>

fun holds :: "cbuf \<Rightarrow> nat \<Rightarrow> string \<Rightarrow> bool" where
  "holds buf i [] \<longleftrightarrow> True"
| "holds buf i (c # s) \<longleftrightarrow> buf i = c \<and> holds buf (i + 1) s"

lemma holds_append [simp]: "holds buf i (s @ t) \<longleftrightarrow> holds buf i s \<and> holds buf (i + length s) t"
  by (induction s arbitrary: i) auto

definition dig :: "nat \<Rightarrow> char" where
  "dig n = char_of (48 + n mod 10)"

definition dec2 :: "nat \<Rightarrow> string" where
  "dec2 n = [dig (n div 10), dig n]"

definition dec4 :: "nat \<Rightarrow> string" where
  "dec4 n = [dig (n div 1000), dig (n div 100), dig (n div 10), dig n]"

lemma dig_facts [simp]: "gisdigit (dig n)" "(of_char (dig n) :: int) = 48 + int (n mod 10)"
proof -
  have "of_char (dig n) = 48 + n mod 10" by (simp add: dig_def)
  then show "gisdigit (dig n)" by (simp add: gisdigit_def)
  have "(of_char (dig n) :: int) = int (of_char (dig n))" by (simp add: of_nat_of_char)
  then show "(of_char (dig n) :: int) = 48 + int (n mod 10)" by (simp add: dig_def)
qed

lemma parseNDIGIT_dec2: "holds buf i (dec2 n) \<Longrightarrow> n < 100 \<Longrightarrow> parseNDIGIT buf 2 i = (int n, i + 2)"
proof -
  assume h: "holds buf i (dec2 n)" and n: "n < 100"
  have "n div 10 mod 10 * 10 + n mod 10 = n" using n by simp
  then have "int n = int (n div 10 mod 10) * 10 + int (n mod 10)" by linarith
  then show ?thesis using h by (simp add: parseNDIGIT_def dec2_def numeral_2_eq_2)
qed

lemma parseNDIGIT_dec4: "holds buf i (dec4 n) \<Longrightarrow> n < 10000 \<Longrightarrow> parseNDIGIT buf 4 i = (int n, i + 4)"
proof -
  assume h: "holds buf i (dec4 n)" and n: "n < 10000"
  have "((n div 1000 mod 10 * 10 + n div 100 mod 10) * 10 + n div 10 mod 10) * 10 + n mod 10 = n"
  proof -
    have "n div 100 = n div 10 div 10" "n div 1000 = n div 100 div 10" by (simp_all flip: div_mult2_eq)
    then have "10 * (n div 1000) + n div 100 mod 10 = n div 100" "10 * (n div 100) + n div 10 mod 10 = n div 10" by simp_all
    moreover have "n div 1000 mod 10 = n div 1000" "10 * (n div 10) + n mod 10 = n" using n by simp_all
    moreover have "((t * 10 + b) * 10 + c) * 10 + e = k"
      if "10 * t + b = x" "10 * x + c = z" "10 * z + e = k" for t b x c z e k :: nat using that by (simp add: algebra_simps)
    ultimately show ?thesis by metis
  qed
  from arg_cong [OF this [symmetric], of int]
  have "int n = ((int (n div 1000 mod 10) * 10 + int (n div 100 mod 10)) * 10 + int (n div 10 mod 10)) * 10 + int (n mod 10)"
    by (simp only: of_nat_add of_nat_mult of_nat_numeral)
  moreover have "parseNDIGIT buf 4 i = (ndigit_loop buf i (Suc (Suc (Suc (Suc 0)))) 0, i + 4)"
    by (simp add: parseNDIGIT_def eval_nat_numeral)
  ultimately show ?thesis using h by (simp add: dec4_def)
qed

lemma parseTime_dec:
  assumes "holds buf i (dec2 h)" "holds buf (i + 3) (dec2 m)" "holds buf (i + 6) (dec2 s)" "h < 100" "m < 100" "s < 100"
  shows "parseTime buf i = (int ((h * 60 + m) * 60 + s), i + 8)"
proof -
  have "parseNDIGIT buf 2 i = (int h, i + 2)" "parseNDIGIT buf 2 (i + 3) = (int m, i + 5)" "parseNDIGIT buf 2 (i + 6) = (int s, i + 8)"
    using assms by (simp_all add: parseNDIGIT_dec2)
  then show ?thesis by (simp add: parseTime_def numeral_eq_Suc)
qed

definition month_name :: "nat \<Rightarrow> string" where
  "month_name m = [''Jan'', ''Feb'', ''Mar'', ''Apr'', ''May'', ''Jun'', ''Jul'', ''Aug'', ''Sep'', ''Oct'', ''Nov'', ''Dec''] ! m"

definition day_name :: "nat \<Rightarrow> string" where
  "day_name w = [''Sunday'', ''Monday'', ''Tuesday'', ''Wednesday'', ''Thursday'', ''Friday'', ''Saturday''] ! w"

lemma upto12: "m < 12 \<Longrightarrow> m = 0 \<or> m = 1 \<or> m = 2 \<or> m = 3 \<or> m = 4 \<or> m = 5 \<or> m = 6 \<or> m = 7 \<or> m = 8 \<or> m = 9 \<or> m = 10 \<or> m = (11 :: nat)"
  by (auto simp: less_Suc_eq numeral_eq_Suc)

lemma upto7: "w < 7 \<Longrightarrow> w = 0 \<or> w = 1 \<or> w = 2 \<or> w = 3 \<or> w = 4 \<or> w = 5 \<or> w = (6 :: nat)"
  by (auto simp: less_Suc_eq numeral_eq_Suc)

lemma parseMonth_name:
  assumes "holds buf i (month_name m)" "m < 12"
  shows "parseMonth buf i = (int m, i + 3)"
  using upto12 [OF assms(2)] assms(1) by (elim disjE) (simp_all add: month_name_def parseMonth_def month_of_def numeral_2_eq_2)

lemma parseWeekday_short:
  assumes "holds buf 0 (take 3 (day_name w))" "buf 3 \<in> {CHR '','', CHR '' ''}" "w < 7"
  shows "parseWeekday buf 0 = (int w, 3)"
  using upto7 [OF \<open>w < 7\<close>] assms
  by (elim disjE) (auto simp: day_name_def parseWeekday_def bufferIndexIncrementGivenNTest_def)

lemma parseWeekday_long:
  assumes "holds buf 0 (day_name w)" "w < 7"
  shows "parseWeekday buf 0 = (int w, length (day_name w) + 1)"
  using upto7 [OF \<open>w < 7\<close>] assms
  by (elim disjE) (simp_all add: day_name_def parseWeekday_def bufferIndexIncrementGivenNTest_def numeral_3_eq_3)

definition rfc1123 :: "nat \<Rightarrow> nat \<Rightarrow> nat \<Rightarrow> nat \<Rightarrow> nat \<Rightarrow> nat \<Rightarrow> nat \<Rightarrow> string" where
  "rfc1123 w d m y h mi s =
     take 3 (day_name w) @ '', '' @ dec2 d @ '' '' @ month_name m @ '' '' @ dec4 y @ '' '' @
     dec2 h @ '':'' @ dec2 mi @ '':'' @ dec2 s @ '' GMT''"

lemma lens [simp]: "length (dec2 n) = 2" "length (dec4 n) = 4"
  by (simp_all add: dec2_def dec4_def)

lemma length_day [simp]: "w < 7 \<Longrightarrow> min (length (day_name w)) 3 = 3"
  by (drule upto7, elim disjE) (simp_all add: day_name_def)

lemma length_month [simp]: "m < 12 \<Longrightarrow> length (month_name m) = 3"
  by (drule upto12, elim disjE) (simp_all add: month_name_def)

lemma rfc1123_pieces:
  assumes "holds buf 0 (rfc1123 w d m y h mi s)" "w < 7" "m < 12"
  shows "holds buf 0 (take 3 (day_name w))" "buf 3 = CHR '',''" "holds buf 5 (dec2 d)" "holds buf 8 (month_name m)"
    "holds buf 12 (dec4 y)" "holds buf 17 (dec2 h)" "holds buf 20 (dec2 mi)" "holds buf 23 (dec2 s)"
  using assms by (simp_all add: rfc1123_def)

lemma days_1970:
  assumes "1970 \<le> y" "y \<le> 2037" "1 \<le> m" "m \<le> 12" "1 \<le> d" "d \<le> 31"
  shows "FixedFromGregorian m d y - FixedFromGregorian 1 1 1970 \<in> {0..24842}"
proof -
  have e: "FixedFromGregorian 1 1 1970 = 719163" by (simp add: fixed_split days_before_year_def day_of_year_def)
  have "1 \<le> day_of_year m d y" "day_of_year m d y \<le> 367"
    using months [of m] assms by (auto simp: day_of_year_eq)
  moreover have "719162 \<le> days_before_year y"
  proof (cases "y = 1970")
    case False
    then have "365 * (y - 1) \<ge> 365 * 1970" "(y - 1) div 4 \<ge> 492" "(y - 1) div 100 \<le> 20" "(y - 1) div 400 \<ge> 4"
      using assms by auto
    then show ?thesis by (simp add: days_before_year_def)
  qed (simp add: days_before_year_def)
  moreover have "days_before_year y \<le> 743636"
  proof -
    have "(y - 1) div 4 \<le> 509" "(y - 1) div 100 \<ge> 19" "(y - 1) div 400 \<le> 5" using assms by auto
    then show ?thesis using assms(2) by (simp add: days_before_year_def)
  qed
  moreover have "FixedFromGregorian m d y = days_before_year y + day_of_year m d y" using assms by (intro fixed_split) simp_all
  ultimately show ?thesis by (simp add: e)
qed

text \<open>
  A date in the form of RFC 1123, such as \<open>Sun, 06 Nov 1994 08:49:37 GMT\<close>, from 1970 to 2037 is
  parsed to the seconds since the first of January 1970: the number of days between times 86400
  and the time of the day.
\<close>

theorem rfc1123_parses:
  assumes "holds buf 0 (rfc1123 w d m y h mi s)" and w: "w < 7" and m: "m < 12" and d: "1 \<le> d" "d \<le> 31"
    and y: "1970 \<le> y" "y \<le> 2037" and t: "h < 24" "mi < 60" "s < 60"
  shows "dateParse buf =
    GregorianDateDifference 1 1 1970 (int m + 1) (int d) (int y) * 86400 + int ((h * 60 + mi) * 60 + s)"
proof -
  note p = rfc1123_pieces [OF assms(1) w m]
  define D where "D = FixedFromGregorian (int m + 1) (int d) (int y) - FixedFromGregorian 1 1 1970"
  have D: "0 \<le> D" "D \<le> 24842" using days_1970 [of "int y" "int m + 1" "int d"] m d y by (auto simp: D_def)
  define T where "T = (h * 60 + mi) * 60 + s"
  have T: "T < 86400" using t by (simp add: T_def distrib_right)
  have "dateToTimet (int y) (int m) (int d) = D * 86400"
    using D by (simp add: dateToTimet_def Let_def D_def [symmetric] wrap32_id)
  moreover have "parseWeekday buf 0 = (int w, 3)" using parseWeekday_short [OF p(1) _ w] p(2) by simp
  moreover have "parseNDIGIT buf 2 5 = (int d, 7)" using parseNDIGIT_dec2 [OF p(3)] d by simp
  moreover have "parseMonth buf 8 = (int m, 11)" using parseMonth_name [OF p(4) m] by simp
  moreover have "parseYear buf 12 = (int y, 16)" using parseNDIGIT_dec4 [OF p(5)] y by (simp add: parseYear_def)
  moreover have "parseTime buf 17 = (int T, 25)" unfolding T_def using parseTime_dec [of buf 17] p t by simp
  moreover have "signed_take_bit 31 (D * 86400 + int T) = D * 86400 + int T"
    by (rule wrap32_id) (use D T in simp_all)
  ultimately show ?thesis
    unfolding T_def [symmetric]
    using D y p(2) by (simp add: dateParse_def parseDate1or2_def GregorianDateDifference_def D_def [symmetric] wrap32_id)
qed

text \<open>The buffer of a text, with zero bytes behind it.\<close>

definition buf_of :: "string \<Rightarrow> cbuf" where
  "buf_of s = (\<lambda>i. if i < length s then s ! i else CHR 0x00)"

theorem rfc1123_parses_witness:
  "dateParse (buf_of ''Sun, 06 Nov 1994 08:49:37 GMT'') = 784111777"
proof -
  have "holds (buf_of ''Sun, 06 Nov 1994 08:49:37 GMT'') 0 (rfc1123 0 6 10 1994 8 49 37)"
    by (simp add: rfc1123_def day_name_def month_name_def dec2_def dec4_def dig_def buf_of_def char_of_def bit_Suc_0_iff)
  from rfc1123_parses [OF this] show ?thesis
    by (simp add: GregorianDateDifference_def fixed_split days_before_year_def day_of_year_def GregorianLeapYearP_def wrap32_id)
qed

lemma parse_at_blank:
  assumes "buf i = CHR '' ''"
  shows "parseDate1or2 buf i = (- 1, i)" "parseDate3Time buf i = (- 1, i)"
  using assms by (simp_all add: parseDate1or2_def parseDate3Time_def parseMonth_def month_of_def)

text \<open>
  Of the three forms the comments give, two are never parsed: after a weekday in full the index is one past the
  comma, since \<open>sizeof\<close> of the name counts its terminator, and the form of \<open>asctime\<close> is looked up at the blank before
  its month. Both give \<open>-1\<close>.
\<close>

theorem other_forms_fail:
  assumes "w < 7"
    and "holds buf 0 (day_name w @ '', '') \<or> holds buf 0 (take 3 (day_name w) @ '' '')"
  shows "dateParse buf = - 1"
  using assms(2)
proof
  assume "holds buf 0 (day_name w @ '', '')"
  then have "parseWeekday buf 0 = (int w, length (day_name w) + 1)" "buf (length (day_name w) + 1) = CHR '' ''"
    using parseWeekday_long [OF _ assms(1)] by simp_all
  then show ?thesis using parse_at_blank by (simp add: dateParse_def)
next
  assume "holds buf 0 (take 3 (day_name w) @ '' '')"
  then have "parseWeekday buf 0 = (int w, 3)" "buf 3 = CHR '' ''"
    using parseWeekday_short [OF _ _ assms(1), of buf] assms(1) by simp_all
  then show ?thesis using parse_at_blank by (simp add: dateParse_def)
qed

theorem other_forms_fail_witness:
  "dateParse (buf_of ''Sunday, 06-Nov-94 08:49:37 GMT'') = - 1 \<and> dateParse (buf_of ''Sun Nov  6 08:49:37 1994'') = - 1"
  using other_forms_fail [of 0 "buf_of ''Sunday, 06-Nov-94 08:49:37 GMT''"]
    other_forms_fail [of 0 "buf_of ''Sun Nov  6 08:49:37 1994''"]
  by (simp add: day_name_def buf_of_def)

end
