(* ===== verification/Url.thy ===== *)
theory Url
  imports Prelude
begin

text \<open>
  The treatment of request paths by the web server: \<open>websDecodeUrl\<close> (\<open>apps/WebServer/webs.c\<close>),
  \<open>websCondenseMultipleChars\<close> (\<open>apps/WebServer/handler.c\<close>) and \<open>websValidateUrl\<close>
  (\<open>apps/WebServer/default.c\<close>).

  A C string is the list of its characters before the terminator. The two functions that rewrite
  a string in place are modelled on the buffer with its terminator and two indices, and proved
  equal to functions on strings.
\<close>

abbreviation (input) NUL :: char where "NUL \<equiv> CHR 0x00"

definition cstring :: "string \<Rightarrow> string" where
  "cstring buf = takeWhile (\<lambda>c. c \<noteq> NUL) buf"

section \<open>Decoding\<close>

definition gisxdigit :: "char \<Rightarrow> bool" where
  "gisxdigit c \<longleftrightarrow> c \<in> set ''0123456789abcdefABCDEF''"

definition tolower :: "char \<Rightarrow> char" where
  "tolower c = (let n = of_char c :: nat in if 65 \<le> n \<and> n \<le> 90 then char_of (n + 32) else c)"

text \<open>One step of the loop over the two digits.\<close>

definition xdigit_step :: "nat \<Rightarrow> char \<Rightarrow> nat" where
  "xdigit_step num ch =
     (let c = of_char (tolower ch) :: nat
      in if 97 \<le> c \<and> c \<le> 102 then num * 16 + 10 + c - 97 else num * 16 + c - 48)"

definition xpair :: "char \<Rightarrow> char \<Rightarrow> char" where
  "xpair a b = char_of (xdigit_step (xdigit_step 0 a) b)"

text \<open>\<open>websDecodeUrl\<close> into another buffer: what it writes before the terminator.\<close>

function websDecodeUrl :: "string \<Rightarrow> nat \<Rightarrow> string" where
  "websDecodeUrl s len =
     (case s of
        [] \<Rightarrow> []
      | c # t \<Rightarrow>
          if len = 0 then []
          else if c = CHR ''+'' then CHR '' '' # websDecodeUrl t (len - 1)
          else if c = CHR ''%'' \<and> length t \<ge> 2 \<and> gisxdigit (t ! 0) \<and> gisxdigit (t ! 1)
            then xpair (t ! 0) (t ! 1) # websDecodeUrl (drop 2 t) (len - 1)
          else c # websDecodeUrl t (len - 1))"
  by pat_completeness auto
termination by (relation "measure (length \<circ> fst)") auto

declare websDecodeUrl.simps [simp del]

text \<open>\<open>websDecodeUrl\<close> with \<open>decoded = token\<close>: the loop on the buffer.\<close>

function decode_insitu :: "string \<Rightarrow> nat \<Rightarrow> nat \<Rightarrow> nat \<Rightarrow> string" where
  "decode_insitu buf ip op len =
     (if ip < length buf \<and> buf ! ip \<noteq> NUL \<and> len > 0 then
        if buf ! ip = CHR ''+'' then decode_insitu (buf[op := CHR '' '']) (ip + 1) (op + 1) (len - 1)
        else if buf ! ip = CHR ''%'' \<and> gisxdigit (buf ! (ip + 1)) \<and> gisxdigit (buf ! (ip + 2))
          then decode_insitu (buf[op := xpair (buf ! (ip + 1)) (buf ! (ip + 2))]) (ip + 3) (op + 1) (len - 1)
        else decode_insitu (buf[op := buf ! ip]) (ip + 1) (op + 1) (len - 1)
      else buf[op := NUL])"
  by pat_completeness auto
termination by (relation "measure (\<lambda>(buf, ip, op, len). len)") auto

declare decode_insitu.simps [simp del]

section \<open>Condensing\<close>

text \<open>The inner loop, and the outer one.\<close>

function skip_same :: "string \<Rightarrow> nat \<Rightarrow> char \<Rightarrow> nat" where
  "skip_same buf pScan c =
     (if pScan + 1 < length buf \<and> buf ! pScan = c \<and> buf ! (pScan + 1) = c then skip_same buf (pScan + 1) c else pScan)"
  by pat_completeness auto
termination by (relation "measure (\<lambda>(buf, pScan, c). length buf - pScan)") auto

declare skip_same.simps [simp del]

lemma skip_same_ge: "pScan \<le> skip_same buf pScan c"
  by (induction buf pScan c rule: skip_same.induct) (subst skip_same.simps, auto)

function condense_loop :: "string \<Rightarrow> nat \<Rightarrow> nat \<Rightarrow> char \<Rightarrow> string" where
  "condense_loop buf pStr pScan c =
     (if pScan < length buf \<and> buf ! pScan \<noteq> NUL \<and> buf ! pStr \<noteq> NUL then
        let pScan = skip_same buf pScan c;
            buf = (if pStr \<noteq> pScan then buf[pStr := buf ! pScan] else buf)
        in condense_loop buf (pStr + 1) (pScan + 1) c
      else if pStr \<noteq> pScan then buf[pStr := NUL] else buf)"
  by pat_completeness auto
termination
proof (relation "measure (\<lambda>(buf, pStr, pScan, c). length buf - pScan)", goal_cases)
  case (2 buf pStr pScan c)
  then show ?case using skip_same_ge [of pScan buf c] by auto
qed simp

declare condense_loop.simps [simp del]

definition websCondenseMultipleChars :: "string option \<Rightarrow> char \<Rightarrow> string option" where
  "websCondenseMultipleChars strToCondense cCondense =
     map_option (\<lambda>buf. condense_loop buf 0 0 cCondense) strToCondense"

section \<open>Validation\<close>

abbreviation (input) kMaxUrlParts :: nat where "kMaxUrlParts \<equiv> 64"

text \<open>\<open>gstrtok\<close> with the delimiter \<open>/\<close>: its tokens, and the string it leaves behind.\<close>

function strtok_all :: "string \<Rightarrow> string list" where
  "strtok_all [] = []"
| "strtok_all (c # s) =
     (if c = CHR ''/'' then strtok_all s
      else (c # takeWhile (\<lambda>c. c \<noteq> CHR ''/'') s) # strtok_all (dropWhile (\<lambda>c. c \<noteq> CHR ''/'') s))"
  by pat_completeness auto
termination by (relation "measure length") (auto simp: length_dropWhile_le less_Suc_eq_le)

definition strtok_left :: "string \<Rightarrow> string" where
  "strtok_left s = takeWhile (\<lambda>c. c = CHR ''/'') s @ takeWhile (\<lambda>c. c \<noteq> CHR ''/'') (dropWhile (\<lambda>c. c = CHR ''/'') s)"

text \<open>The loop over the tokens: the parts kept and the sum of their lengths, or too many parts.\<close>

fun url_parts :: "string list \<Rightarrow> string list \<Rightarrow> nat \<Rightarrow> (string list \<times> nat) option" where
  "url_parts [] parts len = Some (parts, len)"
| "url_parts (token # ts) parts len =
     (if length parts \<ge> kMaxUrlParts then None
      else if token = ''..'' then url_parts ts (butlast parts) len
      else if token \<noteq> ''.'' then url_parts ts (parts @ [token]) (len + length token + 1)
      else url_parts ts parts len)"

text \<open>
  \<open>websValidateUrl\<close>: \<open>-1\<close>, or 0 with the local path stored in the request and the size of the
  buffer allocated for it.
\<close>

definition websValidateUrl :: "string option \<Rightarrow> string \<Rightarrow> int \<times> (string \<times> nat) option" where
  "websValidateUrl dir path =
     (case dir of
        None \<Rightarrow> (- 1, None)
      | Some dir \<Rightarrow>
          if dir = [] then (- 1, None)
          else
            let path = cstring (decode_insitu (path @ [NUL]) 0 0 (length path));
                path = map (\<lambda>c. if c = CHR 0x5C then CHR ''/'' else c) path
            in case url_parts (strtok_all path) [] 0 of
                 None \<Rightarrow> (- 1, None)
               | Some (parts, len) \<Rightarrow>
                   if parts \<noteq> [] \<or> strtok_left path = ''/'' \<or> strtok_left path = []
                   then (0, Some (dir @ concat (map (\<lambda>p. CHR ''/'' # p) parts), length dir + 1 + len + 1))
                   else (- 1, None))"

section \<open>In-place rewriting\<close>

lemma drop_nth: "drop i buf = x # xs \<Longrightarrow> i < length buf \<and> buf ! i = x \<and> drop (i + 1) buf = xs"
  by (metis Cons_nth_drop_Suc Suc_eq_plus1 drop_all list.inject not_less list.distinct(1))

lemma write_behind:
  assumes "op < k" "op < length buf"
  shows "drop k (buf[op := x]) = drop k buf" "take (op + 1) (buf[op := x]) = take op buf @ [x]"
  using assms by (simp_all add: take_Suc_conv_app_nth)

lemma ahead:
  assumes "drop (ip + 1) buf = t @ NUL # rest"
  shows "length t \<ge> 2 \<Longrightarrow> buf ! (ip + 1) = t ! 0 \<and> buf ! (ip + 2) = t ! 1 \<and> drop (ip + 3) buf = drop 2 t @ NUL # rest"
    and "\<not> length t \<ge> 2 \<Longrightarrow> buf ! (ip + 1) = NUL \<or> buf ! (ip + 2) = NUL"
proof -
  have n: "buf ! (ip + 1 + k) = (t @ NUL # rest) ! k" if "k \<le> length t" for k
    using arg_cong [OF assms, of "\<lambda>xs. xs ! k"] arg_cong [OF assms, of length] that by (subst (asm) nth_drop) auto
  have "drop 2 (drop (ip + 1) buf) = drop 2 (t @ NUL # rest)" using assms by simp
  then show "length t \<ge> 2 \<Longrightarrow> buf ! (ip + 1) = t ! 0 \<and> buf ! (ip + 2) = t ! 1 \<and> drop (ip + 3) buf = drop 2 t @ NUL # rest"
    using n [of 0] n [of 1] by (cases t) (auto simp: nth_append numeral_eq_Suc)
  show "\<not> length t \<ge> 2 \<Longrightarrow> buf ! (ip + 1) = NUL \<or> buf ! (ip + 2) = NUL"
    using n [of 0] n [of 1] by (cases t) (auto simp: nth_append numeral_eq_Suc Suc_le_eq)
qed

lemma not_xdigit_NUL [simp]: "\<not> gisxdigit NUL"
  by (simp add: gisxdigit_def)

lemma decode_insitu_gen:
  assumes "op \<le> ip" "drop ip buf = s @ NUL # rest" "NUL \<notin> set s"
  shows "\<exists>tl. decode_insitu buf ip op len = take op buf @ websDecodeUrl s len @ NUL # tl"
  using assms
proof (induction s len arbitrary: buf ip op rule: websDecodeUrl.induct)
  case (1 s len)
  have ip: "ip < length buf" using 1(5) by (metis append_is_Nil_conv drop_all list.distinct(1) not_less)
  have fin: "\<exists>tl. buf[op := NUL] = take op buf @ [] @ NUL # tl"
    using 1(4) ip by (simp add: upd_conv_take_nth_drop)
  show ?case
  proof (cases s)
    case Nil
    then have "buf ! ip = NUL" using drop_nth 1(5) by fastforce
    then show ?thesis using fin Nil by (simp add: decode_insitu.simps [of buf] websDecodeUrl.simps [of "[]"])
  next
    case (Cons c t)
    then have c: "buf ! ip = c" "drop (ip + 1) buf = t @ NUL # rest" using drop_nth [of ip buf c] 1(5) by auto
    have nz: "c \<noteq> NUL" "NUL \<notin> set t" using 1(6) Cons by auto
    have op: "op < length buf" using 1(4) ip by simp
    have hex: "gisxdigit (buf ! (ip + 1)) \<and> gisxdigit (buf ! (ip + 2)) \<longleftrightarrow> length t \<ge> 2 \<and> gisxdigit (t ! 0) \<and> gisxdigit (t ! 1)"
      and hex_eq: "length t \<ge> 2 \<Longrightarrow> buf ! (ip + 1) = t ! 0 \<and> buf ! (ip + 2) = t ! 1 \<and> drop (ip + 3) buf = drop 2 t @ NUL # rest"
      using ahead [OF c(2)] by (cases "length t \<ge> 2", auto)+
    have go: "\<exists>tl. decode_insitu (buf[op := x]) k (op + 1) (len - 1) = take op buf @ (x # websDecodeUrl s' (len - 1)) @ NUL # tl"
      if "drop k buf = s' @ NUL # rest" "op < k" "NUL \<notin> set s'"
        and IH: "\<And>buf ip op. op \<le> ip \<Longrightarrow> drop ip buf = s' @ NUL # rest \<Longrightarrow> NUL \<notin> set s' \<Longrightarrow>
          \<exists>tl. decode_insitu buf ip op (len - 1) = take op buf @ websDecodeUrl s' (len - 1) @ NUL # tl" for x k s'
      using IH [of "op + 1" k "buf[op := x]"] that(1-3) write_behind [OF that(2) op, of x] by simp
    note d = decode_insitu.simps [of buf ip op len] and w = websDecodeUrl.simps [of "c # t" len]
    consider "len = 0" | "len > 0" "c = CHR ''+''"
      | "len > 0" "c = CHR ''%''" "length t \<ge> 2" "gisxdigit (t ! 0)" "gisxdigit (t ! 1)"
      | "len > 0" "c \<noteq> CHR ''+''" "\<not> (c = CHR ''%'' \<and> length t \<ge> 2 \<and> gisxdigit (t ! 0) \<and> gisxdigit (t ! 1))"
      by auto
    then show ?thesis
    proof cases
      case 1
      then show ?thesis using fin d w Cons by simp
    next
      case 2
      show ?thesis using go [OF c(2), of "CHR '' ''"] 1(1) [OF Cons] 2 d w c nz ip 1(4) Cons by simp
    next
      case 3
      then have "NUL \<notin> set (drop 2 t)" using nz(2) by (meson in_set_dropD)
      then show ?thesis using go [of "ip + 3" "drop 2 t" "xpair (t ! 0) (t ! 1)"] 1(2) [OF Cons] 3 hex_eq d w c nz ip 1(4) Cons by simp
    next
      case 4
      then show ?thesis using go [OF c(2), of c] 1(3) [OF Cons] hex d w c nz ip 1(4) Cons by auto
    qed
  qed
qed

text \<open>Condensing as a function on strings.\<close>

fun condense :: "char \<Rightarrow> string \<Rightarrow> string" where
  "condense c (x # y # xs) = (if x = c \<and> y = c then condense c (y # xs) else x # condense c (y # xs))"
| "condense c xs = xs"

lemma skip_same_spec:
  assumes "drop p buf = s @ NUL # rest" "s \<noteq> []" "c \<noteq> NUL"
  shows "\<exists>k<length s. skip_same buf p c = p + k \<and> condense c s = s ! k # condense c (drop (k + 1) s)"
  using assms
proof (induction s arbitrary: p)
  case (Cons x t)
  have x: "p < length buf" "buf ! p = x" "drop (p + 1) buf = t @ NUL # rest" using drop_nth [of p buf x] Cons.prems(1) by auto
  have y: "p + 1 < length buf" "buf ! (p + 1) = (case t of [] \<Rightarrow> NUL | y # _ \<Rightarrow> y)"
    using drop_nth [of "p + 1" buf] x(3) by (cases t; auto)+
  show ?case
  proof (cases "x = c \<and> t \<noteq> [] \<and> hd t = c")
    case True
    then obtain k where k: "k < length t" "skip_same buf (p + 1) c = p + 1 + k" "condense c t = t ! k # condense c (drop (k + 1) t)"
      using Cons.IH [OF x(3)] Cons.prems(3) by auto
    have "skip_same buf p c = p + 1 + k" using True x y k(2) by (cases t) (auto simp: skip_same.simps [of buf p])
    moreover have "condense c (x # t) = condense c t" using True by (cases t) auto
    ultimately show ?thesis using k by (intro exI [of _ "k + 1"]) simp
  next
    case False
    then have "skip_same buf p c = p" using x y Cons.prems(3) by (cases t) (auto simp: skip_same.simps [of buf p])
    moreover have "condense c (x # t) = x # condense c t" using False by (cases t) auto
    ultimately show ?thesis by (intro exI [of _ 0]) simp
  qed
qed simp

lemma condense_loop_gen:
  assumes "pStr \<le> pScan" "drop pScan buf = s @ NUL # rest" "NUL \<notin> set s" "c \<noteq> NUL"
    "\<forall>i. pStr \<le> i \<and> i < pScan \<longrightarrow> buf ! i \<noteq> NUL"
  shows "\<exists>tl. condense_loop buf pStr pScan c = take pStr buf @ condense c s @ NUL # tl"
  using assms
proof (induction "length s" arbitrary: s buf pStr pScan rule: less_induct)
  case less
  have scan: "pScan < length buf" using less(3) by (metis append_is_Nil_conv drop_all list.distinct(1) not_less)
  show ?case
  proof (cases s)
    case Nil
    then have z: "buf ! pScan = NUL" using drop_nth less(3) by fastforce
    have "buf[pStr := NUL] = condense_loop buf pStr pScan c"
      using z scan list_update_id [of buf pScan] by (simp add: condense_loop.simps [of buf])
    then show ?thesis using scan less(2) Nil by (metis append_Nil condense.simps(2) le_less_trans upd_conv_take_nth_drop)
  next
    case (Cons x t)
    then obtain k where k: "k < length s" "skip_same buf pScan c = pScan + k" "condense c s = s ! k # condense c (drop (k + 1) s)"
      using skip_same_spec [OF less(3) _ less(5)] by auto
    have nth: "buf ! (pScan + i) = s ! i" if "i < length s" for i
      using arg_cong [OF less(3), of "\<lambda>xs. xs ! i"] scan that by (simp add: nth_append)
    have ne: "buf ! (pScan + i) \<noteq> NUL" if "i < length s" for i using nth [OF that] less(4) that nth_mem by metis
    have ne0: "buf ! pScan \<noteq> NUL" "buf ! pStr \<noteq> NUL"
      using ne [of 0] Cons less(6) less(2) by (auto simp: le_less)
    let ?buf = "buf[pStr := s ! k]"
    have st: "pStr < pScan + k + 1" "pStr < length buf" using less(2) scan by auto
    have upd: "(if pStr \<noteq> pScan + k then buf[pStr := buf ! (pScan + k)] else buf) = ?buf"
      using nth [OF k(1)] list_update_id [of buf "pScan + k"] by auto
    have d: "drop (pScan + k + 1) ?buf = drop (k + 1) s @ NUL # rest"
      using write_behind(1) [OF st, of "s ! k"] arg_cong [OF less(3), of "drop (k + 1)"] k(1) by (simp add: add.commute)
    have nz: "\<forall>i. pStr + 1 \<le> i \<and> i < pScan + k + 1 \<longrightarrow> ?buf ! i \<noteq> NUL"
    proof (intro allI impI)
      fix i assume i: "pStr + 1 \<le> i \<and> i < pScan + k + 1"
      then have "?buf ! i = buf ! i" by simp
      moreover have "buf ! i \<noteq> NUL"
      proof (cases "i < pScan")
        case False
        then have "i - pScan < length s" using i k(1) by linarith
        then show ?thesis using ne [of "i - pScan"] False by simp
      qed (use less(6) i in auto)
      ultimately show "?buf ! i \<noteq> NUL" by simp
    qed
    have shorter: "length (drop (k + 1) s) < length s" using k(1) by simp
    have zd: "NUL \<notin> set (drop (k + 1) s)" using less(4) by (meson in_set_dropD)
    obtain tl where "condense_loop ?buf (pStr + 1) (pScan + k + 1) c = take (pStr + 1) ?buf @ condense c (drop (k + 1) s) @ NUL # tl"
      using less(1) [OF shorter _ d zd less(5) nz] less(2) by auto
    moreover have "condense_loop buf pStr pScan c = condense_loop ?buf (pStr + 1) (pScan + k + 1) c"
      using condense_loop.simps [of buf pStr pScan c] scan ne0 k(2) upd by (simp add: Let_def)
    ultimately show ?thesis using write_behind(2) [OF st] k(3) by simp
  qed
qed

lemma cstring_prefix: "NUL \<notin> set s \<Longrightarrow> cstring (s @ NUL # t) = s"
  unfolding cstring_def by (subst takeWhile_append2) auto

lemma condense_set: "set (condense c s) \<subseteq> set s"
  by (induction c s rule: condense.induct) auto

lemma condense_head: "condense c (x # xs) \<noteq> [] \<and> hd (condense c (x # xs)) = x"
  by (induction c "x # xs" arbitrary: x xs rule: condense.induct) auto

lemma condense_no_pair: "condense c s \<noteq> p @ c # c # q"
proof (induction c s arbitrary: p rule: condense.induct)
  case (1 c x y xs)
  show ?case
  proof (cases p)
    case Nil
    then show ?thesis using 1 condense_head [of c y xs] by (cases "condense c (y # xs)") auto
  next
    case (Cons z p')
    then show ?thesis using 1(1) [of p] 1(2) [of p'] by auto
  qed
qed (auto simp: Cons_eq_append_conv)

text \<open>
  \<open>websCondenseMultipleChars\<close>, on a string in its buffer: the string left in the buffer is the
  given one with every run of the character cut to one, it has no two of them in a row, and a
  second call changes nothing more.
\<close>

theorem condense_in_place:
  assumes "NUL \<notin> set s" "c \<noteq> NUL"
  shows "\<exists>buf. websCondenseMultipleChars (Some (s @ NUL # rest)) c = Some buf \<and> cstring buf = condense c s \<and>
    (\<nexists>p q. condense c s = p @ c # c # q) \<and>
    map_option cstring (websCondenseMultipleChars (Some buf) c) = Some (condense c s)"
proof -
  have run: "\<exists>tl. condense_loop (s @ NUL # rest) 0 0 c = condense c s @ NUL # tl" if "NUL \<notin> set s" for s rest
    using condense_loop_gen [of 0 0 "s @ NUL # rest" s rest c] that assms(2) by simp
  obtain tl where tl: "condense_loop (s @ NUL # rest) 0 0 c = condense c s @ NUL # tl" using run assms(1) by blast
  have z: "NUL \<notin> set (condense c s)" using condense_set assms(1) by blast
  obtain tl2 where tl2: "condense_loop (condense c s @ NUL # tl) 0 0 c = condense c (condense c s) @ NUL # tl2"
    using run [OF z] by blast
  have idem: "condense c t = t" if "\<And>p q. t \<noteq> p @ c # c # q" for t
    using that
  proof (induction c t rule: condense.induct)
    case (1 c x y xs)
    have "\<not> (x = c \<and> y = c)" using 1(3) [of "[]" xs] by auto
    moreover have "y # xs \<noteq> p @ c # c # q" for p q using 1(3) [of "x # p" q] by auto
    ultimately show ?case using 1(2) by auto
  qed auto
  show ?thesis
    using tl tl2 z idem [of "condense c s"] condense_no_pair [of c s] by (auto simp: websCondenseMultipleChars_def cstring_prefix)
qed

theorem condense_in_place_witness:
  "map_option cstring (websCondenseMultipleChars (Some (''//a///b'' @ [NUL])) CHR ''/'') = Some ''/a/b''"
  using condense_in_place [of "''//a///b''" "CHR ''/''" "[]"] by (auto simp: numeral_eq_Suc)

text \<open>A reference encoder: everything but letters and digits as two hexadecimal digits.\<close>

definition hexdig :: "nat \<Rightarrow> char" where
  "hexdig n = ''0123456789abcdef'' ! (n mod 16)"

definition unreserved :: "char \<Rightarrow> bool" where
  "unreserved c \<longleftrightarrow> (let n = of_char c :: nat in 48 \<le> n \<and> n \<le> 57 \<or> 65 \<le> n \<and> n \<le> 90 \<or> 97 \<le> n \<and> n \<le> 122)"

definition encode_char :: "char \<Rightarrow> string" where
  "encode_char c = (if unreserved c then [c] else [CHR ''%'', hexdig (of_char c div 16), hexdig (of_char c)])"

definition encode_url :: "string \<Rightarrow> string" where
  "encode_url s = concat (map encode_char s)"

lemma upto16: "m < 16 \<Longrightarrow> m = 0 \<or> m = 1 \<or> m = 2 \<or> m = 3 \<or> m = 4 \<or> m = 5 \<or> m = 6 \<or> m = 7 \<or> m = 8 \<or> m = 9 \<or>
    m = 10 \<or> m = 11 \<or> m = 12 \<or> m = 13 \<or> m = 14 \<or> m = (15 :: nat)"
  by (auto simp: less_Suc_eq numeral_eq_Suc)

lemma hex_digits:
  assumes "m < 16"
  shows "gisxdigit (''0123456789abcdef'' ! m) \<and> xdigit_step num (''0123456789abcdef'' ! m) = num * 16 + m"
  using upto16 [OF assms]
  by (elim disjE) (simp_all add: gisxdigit_def xdigit_step_def tolower_def)

lemma hexdig_step: "gisxdigit (hexdig n)" "xdigit_step num (hexdig n) = num * 16 + n mod 16"
  using hex_digits [of "n mod 16"] by (simp_all add: hexdig_def)

lemma xpair_hex: "xpair (hexdig (of_char c div 16)) (hexdig (of_char c)) = c"
proof -
  have "n div 16 mod 16 * 16 + n mod 16 = n" if "n < 256" for n :: nat using that by simp
  from this [of "of_char c"] have "(of_char c div 16 mod 16) * 16 + of_char c mod 16 = (of_char c :: nat)" by simp
  then show ?thesis by (simp add: xpair_def hexdig_step)
qed

lemma decode_encode_char: "websDecodeUrl (encode_char c @ s) (Suc len) = c # websDecodeUrl s len"
proof (cases "unreserved c")
  case True
  then have "c \<noteq> CHR ''+''" "c \<noteq> CHR ''%''" by (auto simp: unreserved_def)
  then show ?thesis using True by (simp add: encode_char_def websDecodeUrl.simps [of "c # s"])
next
  case False
  then show ?thesis by (simp add: encode_char_def websDecodeUrl.simps [of "_ # _"] hexdig_step xpair_hex)
qed

lemma decode_encode: "websDecodeUrl (encode_url s) (length s + n) = s"
proof (induction s)
  case Nil
  then show ?case by (simp add: encode_url_def websDecodeUrl.simps [of "[]"])
next
  case (Cons c s)
  then show ?case using decode_encode_char [of c "encode_url s" "length s + n"] by (simp add: encode_url_def)
qed

lemma length_encode: "length s \<le> length (encode_url s)"
  by (induction s) (auto simp: encode_url_def encode_char_def)

lemma decode_insitu_full:
  assumes "NUL \<notin> set s"
  shows "\<exists>tl. decode_insitu (s @ NUL # rest) 0 0 len = websDecodeUrl s len @ NUL # tl"
  using decode_insitu_gen [of 0 0 "s @ NUL # rest" s rest len] assms by simp

text \<open>
  Decoding in place gives what decoding into a second buffer gives, and takes an encoded text
  back to the text.
\<close>

theorem decode_in_place:
  assumes "NUL \<notin> set s"
  shows "cstring (decode_insitu (s @ NUL # rest) 0 0 len) = cstring (websDecodeUrl s len) \<and>
    websDecodeUrl (encode_url t) (length (encode_url t)) = t"
proof -
  have "cstring (d @ NUL # tl) = cstring d" for d tl by (induction d) (auto simp: cstring_def)
  then show ?thesis
    using decode_insitu_full [OF assms, of rest len] decode_encode [of t "length (encode_url t) - length t"] length_encode [of t]
    by auto
qed

theorem decode_in_place_witness:
  "cstring (decode_insitu (''a%20b+%7e'' @ [NUL]) 0 0 9) = ''a b ~''"
  using decode_in_place [of "''a%20b+%7e''" "[]" 9 "[]"]
  by (simp add: websDecodeUrl.simps [of "_ # _"] websDecodeUrl.simps [of "[]"] gisxdigit_def xpair_def xdigit_step_def tolower_def
      cstring_def char_of_def bit_Suc_0_iff)

section \<open>The path of the document\<close>

definition safe_part :: "string \<Rightarrow> bool" where
  "safe_part p \<longleftrightarrow> p \<noteq> [] \<and> p \<noteq> ''.'' \<and> p \<noteq> ''..'' \<and> CHR ''/'' \<notin> set p \<and> CHR 0x5C \<notin> set p"

lemma strtok_all_tokens: "t \<in> set (strtok_all s) \<Longrightarrow> t \<noteq> [] \<and> CHR ''/'' \<notin> set t \<and> set t \<subseteq> set s"
proof (induction s rule: strtok_all.induct)
  case (2 c s)
  then show ?case
    by (cases "c = CHR ''/''") (auto dest: set_takeWhileD set_dropWhileD split: if_splits)
qed simp

text \<open>What the loop over the tokens keeps.\<close>

lemma url_parts_inv:
  assumes "url_parts ts parts len = Some (ps, l)" "length parts \<le> 64" "length (concat parts) + length parts \<le> len"
    and "\<forall>p\<in>set parts. Q p \<and> p \<noteq> ''.'' \<and> p \<noteq> ''..''" "\<forall>t\<in>set ts. Q t"
  shows "length ps \<le> 64 \<and> length (concat ps) + length ps \<le> l \<and> (\<forall>p\<in>set ps. Q p \<and> p \<noteq> ''.'' \<and> p \<noteq> ''..'')"
  using assms
proof (induction ts parts len rule: url_parts.induct)
  case (2 token ts parts len)
  have b: "length (concat (butlast parts)) + length (butlast parts) \<le> len"
  proof (cases parts rule: rev_cases)
    case (snoc xs x)
    then show ?thesis using 2(6) by simp
  qed simp
  have lt: "\<not> 64 \<le> length parts" using 2(4) by (auto split: if_splits)
  have ts: "\<forall>t\<in>set ts. Q t" "Q token" using 2(8) by simp_all
  consider "token = ''..''" | "token \<noteq> ''..''" "token \<noteq> ''.''" | "token = ''.''" by auto
  then show ?case
  proof cases
    case 1
    have "\<forall>p\<in>set (butlast parts). Q p \<and> p \<noteq> ''.'' \<and> p \<noteq> ''..''" using 2(7) by (meson in_set_butlastD)
    then show ?thesis using 2(1) [OF lt 1 _ _ b _ ts(1)] 2(4,5) lt 1 by simp
  next
    case 2
    have "\<forall>p\<in>set (parts @ [token]). Q p \<and> p \<noteq> ''.'' \<and> p \<noteq> ''..''" using "2.prems"(4) 2 ts(2) by simp
    then show ?thesis using "2.IH"(2) [OF lt 2 _ _ _ _ ts(1)] "2.prems"(1,2,3) lt 2 by simp
  next
    case 3
    then show ?thesis using 2(3) [OF lt _ _ _ _ _ _ ts(1)] 2(4-7) lt by simp
  qed
qed simp

text \<open>
  C16: A path that \<open>websValidateUrl\<close> accepts is the directory of the request followed by at most 64
  parts, none of them empty, \<open>.\<close>, \<open>..\<close> or with a slash or backslash in it: it cannot leave the
  directory, however the request was encoded. The path fits into the buffer allocated for it.
\<close>

theorem validate_stays_inside:
  assumes "websValidateUrl (Some dir) path = (r, Some (lpath, sz))"
  shows "r = 0 \<and> length lpath + 1 \<le> sz \<and>
    (\<exists>parts. lpath = dir @ concat (map (\<lambda>p. CHR ''/'' # p) parts) \<and> length parts \<le> 64 \<and> (\<forall>p\<in>set parts. safe_part p))"
proof -
  define dec where "dec = cstring (decode_insitu (path @ [NUL]) 0 0 (length path))"
  define s where "s = map (\<lambda>c. if c = CHR 0x5C then CHR ''/'' else c) dec"
  obtain parts l where u: "url_parts (strtok_all s) [] 0 = Some (parts, l)"
    and lp: "lpath = dir @ concat (map (\<lambda>p. CHR ''/'' # p) parts)" "sz = length dir + 1 + l + 1" "r = 0"
    using assms by (auto simp: websValidateUrl_def Let_def s_def dec_def split: if_splits option.splits)
  have bs: "CHR 0x5C \<notin> set s" by (auto simp: s_def)
  have "\<forall>t\<in>set (strtok_all s). t \<noteq> [] \<and> CHR ''/'' \<notin> set t \<and> CHR 0x5C \<notin> set t"
    using strtok_all_tokens [of _ s] bs by blast
  from url_parts_inv [OF u _ _ _ this]
  have inv: "length parts \<le> 64" "length (concat parts) + length parts \<le> l" "\<forall>p\<in>set parts. safe_part p"
    by (auto simp: safe_part_def)
  have "length (concat (map (\<lambda>p. CHR ''/'' # p) ps)) = length (concat ps) + length ps" for ps :: "string list"
    by (induction ps) auto
  then show ?thesis using inv lp by auto
qed

lemma decode_plain:
  assumes "CHR ''%'' \<notin> set s" "CHR ''+'' \<notin> set s"
  shows "websDecodeUrl s (length s) = s"
  using assms
proof (induction s)
  case Nil
  then show ?case by (simp add: websDecodeUrl.simps [of "[]"])
next
  case (Cons c s)
  then show ?case by (auto simp: websDecodeUrl.simps [of "c # s"])
qed

lemma strtok_all_join:
  assumes "\<forall>p\<in>set ps. p \<noteq> [] \<and> CHR ''/'' \<notin> set p"
  shows "strtok_all (concat (map (\<lambda>p. CHR ''/'' # p) ps)) = ps"
  using assms
proof (induction ps)
  case (Cons p ps)
  obtain c q where p: "p = c # q" using Cons.prems by (cases p) auto
  have q: "c \<noteq> CHR ''/''" "\<And>x. x \<in> set q \<Longrightarrow> x \<noteq> CHR ''/''" using Cons.prems p by auto
  let ?r = "concat (map (\<lambda>p. CHR ''/'' # p) ps)"
  have "takeWhile (\<lambda>c. c \<noteq> CHR ''/'') ?r = []" "dropWhile (\<lambda>c. c \<noteq> CHR ''/'') ?r = ?r" by (cases ps; simp)+
  then have "takeWhile (\<lambda>c. c \<noteq> CHR ''/'') (q @ ?r) = q" "dropWhile (\<lambda>c. c \<noteq> CHR ''/'') (q @ ?r) = ?r"
    using q(2) by (simp_all add: takeWhile_append2 dropWhile_append2)
  then show ?case using Cons p q(1) by simp
qed simp

lemma url_parts_plain:
  assumes "\<forall>p\<in>set ts. p \<noteq> ''.'' \<and> p \<noteq> ''..''" "length parts + length ts \<le> 64"
  shows "\<exists>l. url_parts ts parts len = Some (parts @ ts, l)"
  using assms by (induction ts parts len rule: url_parts.induct) auto

text \<open>
  A plain path of at most 64 safe parts is accepted, and the local path is the directory with
  that path behind it.
\<close>

theorem validate_plain:
  assumes "dir \<noteq> []" "ps \<noteq> []" "length ps \<le> 64" "\<forall>p\<in>set ps. safe_part p"
    and "\<forall>p\<in>set ps. NUL \<notin> set p \<and> CHR ''%'' \<notin> set p \<and> CHR ''+'' \<notin> set p"
  shows "\<exists>sz. websValidateUrl (Some dir) (concat (map (\<lambda>p. CHR ''/'' # p) ps)) =
    (0, Some (dir @ concat (map (\<lambda>p. CHR ''/'' # p) ps), sz))"
proof -
  let ?s = "concat (map (\<lambda>p. CHR ''/'' # p) ps)"
  have s: "NUL \<notin> set ?s" "CHR ''%'' \<notin> set ?s" "CHR ''+'' \<notin> set ?s" "CHR 0x5C \<notin> set ?s"
    using assms(4,5) by (auto simp: safe_part_def)
  obtain tl where "decode_insitu (?s @ [NUL]) 0 0 (length ?s) = ?s @ NUL # tl"
    using decode_insitu_full [OF s(1), of "[]" "length ?s"] decode_plain [OF s(2,3)] by auto
  then have d: "cstring (decode_insitu (?s @ [NUL]) 0 0 (length ?s)) = ?s" using cstring_prefix [OF s(1)] by simp
  have m: "map (\<lambda>c. if c = CHR 0x5C then CHR ''/'' else c) ?s = ?s" using s(4) by (intro map_idI) auto
  obtain l where "url_parts ps [] 0 = Some (ps, l)"
    using url_parts_plain [of ps "[]" 0] assms(3,4) by (auto simp: safe_part_def)
  moreover have "strtok_all ?s = ps" by (rule strtok_all_join) (use assms(4) in \<open>simp add: safe_part_def\<close>)
  ultimately show ?thesis unfolding websValidateUrl_def using d m assms(1,2) by (simp add: Let_def)
qed

theorem validate_plain_witness:
  "\<exists>sz. websValidateUrl (Some ''/web'') ''/img/a.gif'' = (0, Some (''/web/img/a.gif'', sz))"
  using validate_plain [of "''/web''" "[''img'', ''a.gif'']"] by (simp add: safe_part_def)

lemmas url_eval =
  websValidateUrl_def Let_def decode_insitu.simps gisxdigit_def xpair_def xdigit_step_def tolower_def char_of_def
  bit_Suc_0_iff cstring_def strtok_left_def

theorem validate_stays_inside_witness:
  "\<exists>lpath sz. websValidateUrl (Some ''/w'') ''/%2e./b'' = (0, Some (lpath, sz)) \<and> length lpath < sz \<and> lpath = ''/w/b''"
proof -
  have "websValidateUrl (Some ''/w'') ''/%2e./b'' = (0, Some (''/w/b'', 6))" by (simp add: url_eval)
  then show ?thesis using validate_stays_inside [of "''/w''" "''/%2e./b''" 0 "''/w/b''" 6] by auto
qed

end
