(* ===== verification/Handler.thy ===== *)
theory Handler
  imports Url "HOL-Library.Multiset" "HOL-Library.Sublist" "HOL-Library.List_Lexorder" "HOL-Library.Char_ord"
begin

text \<open>
  The URL handlers of the web server, \<open>apps/WebServer/handler.c\<close>: the sorted table of handlers, the
  search of the published directories, and the dispatch of a request.

  The handlers themselves are a parameter: \<open>call h\<close> is what the handler \<open>h\<close> does to the request and
  whether it accepts it. \<open>qsort\<close> of the C library is a parameter too, with what the C standard
  promises of it (\<open>is_qsort\<close>). Whether \<open>brealloc\<close> finds memory is an argument of
  \<open>websUrlHandlerDefine\<close>; \<open>bstrdup\<close> is taken to succeed. Opening and closing the ASP module with the table is left out.
\<close>

section \<open>Strings and sorting\<close>

fun gstrcmp :: "string \<Rightarrow> string \<Rightarrow> int" where
  "gstrcmp [] [] = 0"
| "gstrcmp [] (y # ys) = - of_char y"
| "gstrcmp (x # xs) [] = of_char x"
| "gstrcmp (x # xs) (y # ys) = (if x = y then gstrcmp xs ys else of_char x - of_char y)"

fun gstrncmp :: "string \<Rightarrow> string \<Rightarrow> nat \<Rightarrow> int" where
  "gstrncmp xs ys 0 = 0"
| "gstrncmp [] [] (Suc n) = 0"
| "gstrncmp [] (y # ys) (Suc n) = - of_char y"
| "gstrncmp (x # xs) [] (Suc n) = of_char x"
| "gstrncmp (x # xs) (y # ys) (Suc n) = (if x = y then gstrncmp xs ys n else of_char x - of_char y)"

text \<open>A comparison that is consistent between the different elements of a list.\<close>

definition consistent :: "('a \<Rightarrow> 'a \<Rightarrow> int) \<Rightarrow> 'a multiset \<Rightarrow> bool" where
  "consistent cmp M \<longleftrightarrow>
     (\<forall>a b. {#a, b#} \<subseteq># M \<longrightarrow> sgn (cmp a b) = - sgn (cmp b a)) \<and>
     (\<forall>a b c. {#a, b, c#} \<subseteq># M \<longrightarrow> cmp a b \<le> 0 \<longrightarrow> cmp b c \<le> 0 \<longrightarrow> cmp a c \<le> 0)"

definition is_qsort :: "(('a \<Rightarrow> 'a \<Rightarrow> int) \<Rightarrow> 'a list \<Rightarrow> 'a list) \<Rightarrow> bool" where
  "is_qsort qs \<longleftrightarrow> (\<forall>cmp xs. consistent cmp (mset xs) \<longrightarrow>
     mset (qs cmp xs) = mset xs \<and> sorted_wrt (\<lambda>a b. cmp a b \<le> 0) (qs cmp xs))"

section \<open>The table\<close>

abbreviation (input) WEBS_HANDLER_FIRST :: u32 where "WEBS_HANDLER_FIRST \<equiv> 1"
abbreviation (input) WEBS_HANDLER_LAST :: u32 where "WEBS_HANDLER_LAST \<equiv> 2"

record 'h websUrlHandlerType =
  handler :: "'h option"
  webDir :: string
  urlPrefix :: string
  len :: nat
  arg :: int
  flags :: u32

text \<open>\<open>websUrlHandler\<close> is \<open>None\<close> for the null pointer.\<close>

record 'h url_handlers =
  websUrlHandler :: "'h websUrlHandlerType list option"
  websUrlHandlerMax :: nat
  urlHandlerOpenCount :: int

datatype fault = NullDeref

definition websUrlHandlerSort :: "'h websUrlHandlerType \<Rightarrow> 'h websUrlHandlerType \<Rightarrow> int" where
  "websUrlHandlerSort s1 s2 =
     (if flags s1 AND WEBS_HANDLER_FIRST \<noteq> 0 \<or> flags s2 AND WEBS_HANDLER_LAST \<noteq> 0 then - 1
      else if flags s2 AND WEBS_HANDLER_FIRST \<noteq> 0 \<or> flags s1 AND WEBS_HANDLER_LAST \<noteq> 0 then 1
      else
        let rc = gstrcmp (urlPrefix s1) (urlPrefix s2) in
        if rc = 0 \<and> len s1 < len s2 then 1
        else if rc = 0 \<and> len s1 > len s2 then - 1
        else - rc)"

definition websUrlHandlerOpen :: "'h url_handlers \<Rightarrow> 'h url_handlers" where
  "websUrlHandlerOpen st =
     (let st = st\<lparr>urlHandlerOpenCount := urlHandlerOpenCount st + 1\<rparr>
      in if urlHandlerOpenCount st = 1 then st\<lparr>websUrlHandler := None, websUrlHandlerMax := 0\<rparr> else st)"

definition websUrlHandlerClose :: "'h url_handlers \<Rightarrow> 'h url_handlers" where
  "websUrlHandlerClose st =
     (let st = st\<lparr>urlHandlerOpenCount := urlHandlerOpenCount st - 1\<rparr>
      in if urlHandlerOpenCount st \<le> 0 then st\<lparr>websUrlHandlerMax := 0\<rparr> else st)"

definition websUrlHandlerDefine ::
  "((('h websUrlHandlerType \<Rightarrow> 'h websUrlHandlerType \<Rightarrow> int) \<Rightarrow> 'h websUrlHandlerType list \<Rightarrow> 'h websUrlHandlerType list)) \<Rightarrow>
    bool \<Rightarrow> string \<Rightarrow> string option \<Rightarrow> int \<Rightarrow> 'h \<Rightarrow> u32 \<Rightarrow> 'h url_handlers \<Rightarrow> int \<times> 'h url_handlers" where
  "websUrlHandlerDefine qsort room pre dir a h fl st =
     (if \<not> room then (- 1, st\<lparr>websUrlHandler := None\<rparr>)
      else
        let old = (case websUrlHandler st of None \<Rightarrow> [] | Some t \<Rightarrow> t);
            sp = \<lparr>handler = Some h, webDir = (case dir of None \<Rightarrow> [] | Some d \<Rightarrow> d), urlPrefix = pre,
                  len = length pre, arg = a, flags = fl\<rparr>
        in (0, st\<lparr>websUrlHandler := Some (qsort websUrlHandlerSort (old @ [sp])),
                  websUrlHandlerMax := websUrlHandlerMax st + 1\<rparr>))"

text \<open>\<open>websPublish\<close>, with the handler it installs.\<close>

definition websPublish where
  "websPublish qsort room publish pre p st = websUrlHandlerDefine qsort room pre (Some p) 0 publish 0 st"

text \<open>The entries the loops visit; a table lost by a failed \<open>brealloc\<close> is a null pointer.\<close>

definition entries :: "'h url_handlers \<Rightarrow> fault + 'h websUrlHandlerType list" where
  "entries st =
     (case websUrlHandler st of
        Some t \<Rightarrow> Inr (take (websUrlHandlerMax st) t)
      | None \<Rightarrow> if websUrlHandlerMax st = 0 then Inr [] else Inl NullDeref)"

fun delete_loop :: "'h \<Rightarrow> 'h websUrlHandlerType list \<Rightarrow> 'h websUrlHandlerType list option" where
  "delete_loop h [] = None"
| "delete_loop h (sp # sps) =
     (if handler sp = Some h then Some (sp\<lparr>handler := None\<rparr> # sps) else map_option (\<lambda>t. sp # t) (delete_loop h sps))"

definition websUrlHandlerDelete :: "'h \<Rightarrow> 'h url_handlers \<Rightarrow> fault + (int \<times> 'h url_handlers)" where
  "websUrlHandlerDelete h st =
     (case entries st of
        Inl e \<Rightarrow> Inl e
      | Inr t \<Rightarrow>
          Inr (case delete_loop h t of
                 None \<Rightarrow> (- 1, st)
               | Some t' \<Rightarrow> (0, st\<lparr>websUrlHandler := map_option (\<lambda>l. t' @ drop (websUrlHandlerMax st) l) (websUrlHandler st)\<rparr>)))"

fun publish_loop :: "string \<Rightarrow> 'h websUrlHandlerType list \<Rightarrow> (string \<times> string) option" where
  "publish_loop path [] = None"
| "publish_loop path (sp # sps) =
     (if urlPrefix sp = [] then publish_loop path sps
      else if handler sp \<noteq> None \<and> gstrncmp (urlPrefix sp) path (len sp) = 0 then Some (webDir sp, urlPrefix sp)
      else publish_loop path sps)"

text \<open>\<open>websGetPublishDir\<close>: the directory, with the prefix it was found by.\<close>

definition websGetPublishDir :: "string \<Rightarrow> 'h url_handlers \<Rightarrow> fault + (string \<times> string) option" where
  "websGetPublishDir path st = map_sum id (publish_loop path) (entries st)"

section \<open>Requests\<close>

abbreviation (input) WEBS_PROCESSING :: nat where "WEBS_PROCESSING \<equiv> 16"
abbreviation (input) WEBS_HNAP_FW_UPGRADE :: u32 where "WEBS_HNAP_FW_UPGRADE \<equiv> 0x01000000"

text \<open>What the dispatcher does besides calling handlers, the counter \<open>handlerHits\<close> of the statistics included.\<close>

datatype webs_event = DeleteSocketHandler | HandlerHit | SetEnv | SetVar string string | Error nat string

record webs =
  valid :: bool
  wstate :: nat
  wflags :: u32
  url :: string
  path :: string
  query :: string
  dir :: string
  events :: "webs_event list"

definition websSetRequestPath :: "string option \<Rightarrow> string option \<Rightarrow> webs \<Rightarrow> webs" where
  "websSetRequestPath d p wp =
     (let wp = (case d of None \<Rightarrow> wp | Some d \<Rightarrow> wp\<lparr>dir := d\<rparr>)
      in case p of None \<Rightarrow> wp | Some p \<Rightarrow> wp\<lparr>path := p, events := events wp @ [SetVar ''PATH_INFO'' p]\<rparr>)"

text \<open>The handler that \<open>websPublish\<close> installs; \<open>None\<close> when the path ends before its part behind the prefix.\<close>

definition websPublishHandler :: "string \<Rightarrow> string \<Rightarrow> string \<Rightarrow> webs \<Rightarrow> (bool \<times> webs) option" where
  "websPublishHandler pre d p wp =
     (let n = length pre + 1
      in if n \<le> length p then Some (False, websSetRequestPath (Some d) (Some (drop n p)) wp) else None)"

type_synonym 'h caller = "'h \<Rightarrow> string \<Rightarrow> string \<Rightarrow> int \<Rightarrow> string \<Rightarrow> string \<Rightarrow> string \<Rightarrow> webs \<Rightarrow> bool \<times> webs"

fun request_loop :: "'h caller \<Rightarrow> 'h websUrlHandlerType list \<Rightarrow> bool \<Rightarrow> webs \<Rightarrow> int \<times> webs" where
  "request_loop call [] first wp = (0, wp\<lparr>events := events wp @ [Error 200 ''No handler for this URL'']\<rparr>)"
| "request_loop call (sp # sps) first wp =
     (case handler sp of
        None \<Rightarrow> request_loop call sps first wp
      | Some h \<Rightarrow>
          if gstrncmp (urlPrefix sp) (path wp) (len sp) = 0 then
            let wp = (if first \<and> wflags wp AND WEBS_HNAP_FW_UPGRADE = 0 then wp\<lparr>events := events wp @ [SetEnv]\<rparr> else wp);
                (r, wp) = call h (urlPrefix sp) (webDir sp) (arg sp) (url wp) (path wp) (query wp) wp
            in if r then (1, wp) else if \<not> valid wp then (1, wp) else request_loop call sps False wp
          else request_loop call sps first wp)"

definition condensed :: "string \<Rightarrow> string" where
  "condensed s = (case websCondenseMultipleChars (Some (s @ [NUL])) CHR ''/'' of None \<Rightarrow> s | Some b \<Rightarrow> cstring b)"

definition websUrlHandlerRequest :: "'h caller \<Rightarrow> string \<Rightarrow> 'h url_handlers \<Rightarrow> webs \<Rightarrow> fault + (int \<times> webs)" where
  "websUrlHandlerRequest call default_dir st wp =
     (let wp = wp\<lparr>events := events wp @ [DeleteSocketHandler, HandlerHit], wstate := WEBS_PROCESSING\<rparr>;
          wp = websSetRequestPath (Some default_dir) None wp;
          wp = wp\<lparr>path := condensed (path wp), url := condensed (url wp)\<rparr>
      in map_sum id (\<lambda>t. request_loop call t True wp) (entries st))"

section \<open>Comparing strings\<close>

lemma of_char_int: "(of_char c :: int) = int (of_char c)"
  by (rule of_nat_of_char [symmetric])

lemma of_char_nonzero: "NUL \<noteq> c \<Longrightarrow> 0 < (of_char c :: int)"
proof -
  assume "NUL \<noteq> c"
  then have "(of_char c :: nat) \<noteq> of_char NUL" using of_char_eq_iff by metis
  then show ?thesis unfolding of_char_int by simp
qed

lemma of_char_int_less: "(of_char a :: int) < of_char b \<longleftrightarrow> a < b"
  unfolding of_char_int by (simp add: less_char_def)

text \<open>\<open>strcmp\<close> orders strings lexicographically.\<close>

lemma gstrcmp_less:
  assumes "NUL \<notin> set a" "NUL \<notin> set b"
  shows "sgn (gstrcmp a b) = (if a = b then 0 else if a < b then - 1 else 1)"
  using assms
proof (induction a b rule: gstrcmp.induct)
  case (4 x xs y ys)
  show ?case
  proof (cases "x = y")
    case False
    then have "x < y \<or> y < x" by auto
    then show ?thesis using False of_char_int_less [of x y] of_char_int_less [of y x]
      by (auto simp: sgn_if)
  qed (use 4 in auto)
qed (auto simp: of_char_nonzero)

lemma gstrncmp_prefix: "NUL \<notin> set p \<Longrightarrow> gstrncmp p s (length p) = 0 \<longleftrightarrow> prefix p s"
proof (induction p arbitrary: s)
  case (Cons x p)
  show ?case
  proof (cases s)
    case Nil
    then show ?thesis using Cons.prems of_char_nonzero [of x] by auto
  next
    case (Cons y t)
    then show ?thesis using Cons.IH [of t] Cons.prems by (auto simp: of_char_eq_iff)
  qed
qed simp

lemma prefix_le: "prefix p q \<Longrightarrow> p \<le> (q :: string)"
proof (induction p arbitrary: q)
  case (Cons x p)
  then show ?case by (cases q) auto
qed simp

section \<open>The order of the table\<close>

definition is_first :: "'h websUrlHandlerType \<Rightarrow> bool" where
  "is_first sp \<longleftrightarrow> flags sp AND 1 \<noteq> 0"

definition is_last :: "'h websUrlHandlerType \<Rightarrow> bool" where
  "is_last sp \<longleftrightarrow> flags sp AND 2 \<noteq> 0"

lemma sort_flags:
  "websUrlHandlerSort a b =
     (if is_first a \<or> is_last b then - 1
      else if is_first b \<or> is_last a then 1
      else if gstrcmp (urlPrefix a) (urlPrefix b) = 0 \<and> len a < len b then 1
      else if gstrcmp (urlPrefix a) (urlPrefix b) = 0 \<and> len a > len b then - 1
      else - gstrcmp (urlPrefix a) (urlPrefix b))"
  unfolding websUrlHandlerSort_def is_first_def is_last_def Let_def by (rule refl)

definition rank :: "'h websUrlHandlerType \<Rightarrow> nat" where
  "rank sp = (if is_first sp then 0 else if is_last sp then 2 else 1)"

definition entry_ok :: "'h websUrlHandlerType \<Rightarrow> bool" where
  "entry_ok sp \<longleftrightarrow> len sp = length (urlPrefix sp) \<and> NUL \<notin> set (urlPrefix sp) \<and> \<not> (is_first sp \<and> is_last sp)"

text \<open>At most one handler asks to be first, and at most one to be last.\<close>

definition table_ok :: "'h websUrlHandlerType multiset \<Rightarrow> bool" where
  "table_ok M \<longleftrightarrow> (\<forall>sp\<in>#M. entry_ok sp) \<and> size (filter_mset is_first M) \<le> 1 \<and> size (filter_mset is_last M) \<le> 1"

lemma sort_sgn:
  assumes "entry_ok a" "entry_ok b" "\<not> (is_first a \<and> is_first b)" "\<not> (is_last a \<and> is_last b)"
  shows "sgn (websUrlHandlerSort a b) =
    (if rank a < rank b then - 1 else if rank b < rank a then 1
     else if urlPrefix a = urlPrefix b then 0 else if urlPrefix b < urlPrefix a then - 1 else 1)"
proof -
  have g: "sgn (gstrcmp (urlPrefix a) (urlPrefix b)) = (if urlPrefix a = urlPrefix b then 0 else if urlPrefix a < urlPrefix b then - 1 else 1)"
    using gstrcmp_less assms(1,2) by (simp add: entry_ok_def)
  then have z: "gstrcmp (urlPrefix a) (urlPrefix b) = 0 \<longleftrightarrow> urlPrefix a = urlPrefix b" using sgn_0_0 by (metis one_neq_zero zero_neq_neg_one)
  show ?thesis
  proof (cases "is_first a \<or> is_first b \<or> is_last a \<or> is_last b")
    case True
    then show ?thesis using assms unfolding rank_def sort_flags entry_ok_def by auto
  next
    case False
    then have "websUrlHandlerSort a b = - gstrcmp (urlPrefix a) (urlPrefix b)"
      using z assms(1,2) by (auto simp: sort_flags entry_ok_def)
    then show ?thesis using g False by (auto simp: rank_def)
  qed
qed

lemma pair_ok:
  assumes "table_ok M" "{#a, b#} \<subseteq># M"
  shows "entry_ok a" "entry_ok b" "\<not> (is_first a \<and> is_first b)" "\<not> (is_last a \<and> is_last b)"
proof -
  show "entry_ok a" "entry_ok b" using assms by (auto simp: table_ok_def dest: mset_subset_eqD)
  have "filter_mset P {#a, b#} \<subseteq># filter_mset P M" for P using assms(2) by (rule multiset_filter_mono)
  then have le: "size (filter_mset P {#a, b#}) \<le> size (filter_mset P M)" for P by (rule size_mset_mono)
  show "\<not> (is_first a \<and> is_first b)" using le [of is_first] assms(1) by (auto simp: table_ok_def)
  show "\<not> (is_last a \<and> is_last b)" using le [of is_last] assms(1) by (auto simp: table_ok_def)
qed

lemma le_sgn: "x \<le> (0 :: int) \<longleftrightarrow> sgn x \<noteq> 1"
  by (simp add: sgn_if)

lemma sort_consistent:
  assumes ok: "table_ok M"
  shows "consistent websUrlHandlerSort M"
  unfolding consistent_def
proof (intro conjI allI impI)
  fix a b assume "{#a, b#} \<subseteq># M"
  note p = pair_ok [OF ok this]
  show "sgn (websUrlHandlerSort a b) = - sgn (websUrlHandlerSort b a)"
    using sort_sgn [OF p] sort_sgn [of b a] p by auto
next
  fix a b c assume t: "{#a, b, c#} \<subseteq># M" and ab: "websUrlHandlerSort a b \<le> 0" and bc: "websUrlHandlerSort b c \<le> 0"
  have "{#a, b#} \<subseteq># {#a, b, c#}" "{#b, c#} \<subseteq># {#a, b, c#}" "{#a, c#} \<subseteq># {#a, b, c#}" by (simp_all add: subseteq_mset_def)
  then have s: "{#a, b#} \<subseteq># M" "{#b, c#} \<subseteq># M" "{#a, c#} \<subseteq># M" using t subset_mset.order_trans by blast+
  show "websUrlHandlerSort a c \<le> 0"
    using ab bc sort_sgn [OF pair_ok [OF ok s(1)]] sort_sgn [OF pair_ok [OF ok s(2)]] sort_sgn [OF pair_ok [OF ok s(3)]]
    unfolding le_sgn by (auto split: if_splits)
qed

lemma table_ok_mono: "N \<subseteq># M \<Longrightarrow> table_ok M \<Longrightarrow> table_ok N"
  unfolding table_ok_def
  using size_mset_mono [OF multiset_filter_mono, of N M] by (auto dest: mset_subset_eqD intro: le_trans)

section \<open>Building the table\<close>

record 'h handler_def =
  d_prefix :: string
  d_dir :: "string option"
  d_arg :: int
  d_handler :: 'h
  d_flags :: u32

definition entry_of :: "'h handler_def \<Rightarrow> 'h websUrlHandlerType" where
  "entry_of d = \<lparr>handler = Some (d_handler d), webDir = (case d_dir d of None \<Rightarrow> [] | Some x \<Rightarrow> x), urlPrefix = d_prefix d,
                 len = length (d_prefix d), arg = d_arg d, flags = d_flags d\<rparr>"

text \<open>A sequence of definitions, each of them finding memory.\<close>

fun define_all where
  "define_all qsort [] st = st"
| "define_all qsort (d # ds) st =
     define_all qsort ds (snd (websUrlHandlerDefine qsort True (d_prefix d) (d_dir d) (d_arg d) (d_handler d) (d_flags d) st))"

definition sorted_table :: "'h websUrlHandlerType list \<Rightarrow> bool" where
  "sorted_table t \<longleftrightarrow> sorted_wrt (\<lambda>a b. websUrlHandlerSort a b \<le> 0) t"

lemma define_all_table:
  assumes q: "is_qsort qsort" and ok: "table_ok (mset (map entry_of ds) + mset t)"
    and st: "websUrlHandler st = (if t = [] then None else Some t)" "websUrlHandlerMax st = length t" "sorted_table t"
  shows "\<exists>t'. entries (define_all qsort ds st) = Inr t' \<and> sorted_table t' \<and> mset t' = mset (map entry_of ds) + mset t"
  using ok st
proof (induction ds arbitrary: t st)
  case Nil
  then show ?case by (auto simp: entries_def split: if_splits)
next
  case (Cons d ds)
  have sub: "mset (t @ [entry_of d]) \<subseteq># mset (map entry_of (d # ds)) + mset t" by simp
  have "consistent websUrlHandlerSort (mset (t @ [entry_of d]))"
    by (rule sort_consistent [OF table_ok_mono [OF sub Cons.prems(1)]])
  then have qt: "mset (qsort websUrlHandlerSort (t @ [entry_of d])) = mset (t @ [entry_of d])"
      "sorted_table (qsort websUrlHandlerSort (t @ [entry_of d]))"
    using q unfolding is_qsort_def sorted_table_def by blast+
  define t1 where "t1 = qsort websUrlHandlerSort (t @ [entry_of d])"
  let ?st = "snd (websUrlHandlerDefine qsort True (d_prefix d) (d_dir d) (d_arg d) (d_handler d) (d_flags d) st)"
  have l: "length t1 = length t + 1" using qt(1) mset_eq_length t1_def by fastforce
  have ne: "t1 \<noteq> []" using l by auto
  have "websUrlHandler ?st = Some t1" "websUrlHandlerMax ?st = length t1"
    using Cons.prems(2,3) l by (auto simp: websUrlHandlerDefine_def entry_of_def t1_def Let_def)
  then have "\<exists>t'. entries (define_all qsort ds ?st) = Inr t' \<and> sorted_table t' \<and> mset t' = mset (map entry_of ds) + mset t1"
    using Cons.IH [of t1 ?st] Cons.prems(1) qt [folded t1_def] ne by simp
  then show ?case using qt(1) by (simp add: t1_def)
qed

definition fresh :: "'h url_handlers" where
  "fresh = websUrlHandlerOpen \<lparr>websUrlHandler = None, websUrlHandlerMax = 0, urlHandlerOpenCount = 0\<rparr>"

lemma define_all_fresh:
  assumes "is_qsort qsort" "table_ok (mset (map entry_of ds))"
  obtains t where "entries (define_all qsort ds fresh) = Inr t" "sorted_table t" "mset t = mset (map entry_of ds)"
  using define_all_table [OF assms(1), of ds "[]" fresh] assms(2)
  by (auto simp: fresh_def websUrlHandlerOpen_def sorted_table_def)

section \<open>Published directories\<close>

lemma publish_loop_found:
  "publish_loop pa t = Some (d, p) \<Longrightarrow>
     \<exists>us sp vs. t = us @ sp # vs \<and> webDir sp = d \<and> urlPrefix sp = p \<and> p \<noteq> [] \<and> gstrncmp p pa (len sp) = 0 \<and>
       (\<forall>x\<in>set us. urlPrefix x = [] \<or> handler x = None \<or> gstrncmp (urlPrefix x) pa (len x) \<noteq> 0)"
proof (induction t)
  case (Cons sp t)
  show ?case
  proof (cases "urlPrefix sp = [] \<or> handler sp = None \<or> gstrncmp (urlPrefix sp) pa (len sp) \<noteq> 0")
    case True
    then obtain us x vs where "t = us @ x # vs" "webDir x = d" "urlPrefix x = p" "p \<noteq> []" "gstrncmp p pa (len x) = 0"
      "\<forall>x\<in>set us. urlPrefix x = [] \<or> handler x = None \<or> gstrncmp (urlPrefix x) pa (len x) \<noteq> 0"
      using Cons by (auto split: if_splits)
    then show ?thesis using True by (intro exI [of _ "sp # us"] exI [of _ x] exI [of _ vs]) auto
  next
    case False
    then show ?thesis using Cons.prems by (intro exI [of _ "[]"] exI [of _ sp] exI [of _ t]) auto
  qed
qed simp

lemma publish_loop_none:
  "publish_loop pa t = None \<Longrightarrow> sp \<in> set t \<Longrightarrow> urlPrefix sp = [] \<or> handler sp = None \<or> gstrncmp (urlPrefix sp) pa (len sp) \<noteq> 0"
  by (induction t) (auto split: if_splits)

lemma sorted_table_prefix:
  assumes t: "table_ok (mset t)" "sorted_table t" and s: "t = us @ sp # vs" "x \<in> set vs"
    and plain: "\<not> is_first sp" "\<not> is_last sp" "\<not> is_first x" "\<not> is_last x"
    and pre: "prefix (urlPrefix sp) (urlPrefix x)"
  shows "urlPrefix x = urlPrefix sp"
proof -
  obtain v1 v2 where "vs = v1 @ x # v2" using s(2) by (meson split_list)
  then have "mset t = {#sp, x#} + (mset us + mset v1 + mset v2)" using s(1) by simp
  then have "{#sp, x#} \<subseteq># mset t" by simp
  note p = pair_ok [OF t(1) this]
  have "websUrlHandlerSort sp x \<le> 0" using t(2) s by (auto simp: sorted_table_def sorted_wrt_append)
  then have "urlPrefix x \<le> urlPrefix sp"
    using sort_sgn [OF p] plain unfolding le_sgn by (auto simp: rank_def split: if_splits)
  then show ?thesis using prefix_le [OF pre] by simp
qed

definition matches :: "string \<Rightarrow> 'h handler_def \<Rightarrow> bool" where
  "matches pa d \<longleftrightarrow> d_prefix d \<noteq> [] \<and> prefix (d_prefix d) pa"

lemma flags_plain: "w AND 3 = 0 \<Longrightarrow> w AND 1 = 0 \<and> w AND 2 = (0 :: u32)"
proof -
  assume a: "w AND 3 = 0"
  have "w AND 1 = (w AND 3) AND 1" "w AND 2 = (w AND 3) AND 2" by (simp_all add: and.assoc)
  then show ?thesis using a by simp
qed

text \<open>
  Whatever the order of the definitions, \<open>websGetPublishDir\<close> finds the directory of the longest
  defined prefix of the path, and nothing only if no non-empty prefix of the path is defined,
  provided that only handlers of every path ask to be first or last.
\<close>

theorem publish_longest_prefix:
  assumes q: "is_qsort qsort" and ok: "table_ok (mset (map entry_of ds))"
    and fl: "\<forall>d\<in>set ds. d_flags d AND 3 \<noteq> 0 \<longrightarrow> d_prefix d = []"
  shows "case websGetPublishDir pa (define_all qsort ds fresh) of
      Inl e \<Rightarrow> False
    | Inr None \<Rightarrow> \<not> (\<exists>d\<in>set ds. matches pa d)
    | Inr (Some (wd, p)) \<Rightarrow>
        (\<exists>d\<in>set ds. matches pa d \<and> d_prefix d = p \<and> webDir (entry_of d) = wd) \<and>
        (\<forall>d\<in>set ds. matches pa d \<longrightarrow> length (d_prefix d) \<le> length p)"
proof -
  obtain t where t: "entries (define_all qsort ds fresh) = Inr t" "sorted_table t" "mset t = mset (map entry_of ds)"
    using define_all_fresh [OF q ok] .
  have set_t: "set t = entry_of ` set ds" using t(3) mset_eq_setD by fastforce
  have nz: "NUL \<notin> set (d_prefix d)" if "d \<in> set ds" for d
    using ok that by (auto simp: table_ok_def entry_ok_def entry_of_def)
  have match: "matches pa d \<longleftrightarrow> urlPrefix (entry_of d) \<noteq> [] \<and> gstrncmp (urlPrefix (entry_of d)) pa (len (entry_of d)) = 0"
    if "d \<in> set ds" for d
    using gstrncmp_prefix [OF nz [OF that]] by (simp add: matches_def entry_of_def)
  show ?thesis
  proof (cases "publish_loop pa t")
    case None
    then have "\<not> matches pa d" if "d \<in> set ds" for d
      using publish_loop_none [OF None, of "entry_of d"] set_t match [OF that] that by (auto simp: entry_of_def)
    then show ?thesis using None t(1) by (auto simp: websGetPublishDir_def)
  next
    case (Some r)
    obtain wd p where r: "r = (wd, p)" by (cases r)
    obtain us sp vs where sp: "t = us @ sp # vs" "webDir sp = wd" "urlPrefix sp = p" "p \<noteq> []" "gstrncmp p pa (len sp) = 0"
      and us: "\<forall>x\<in>set us. urlPrefix x = [] \<or> handler x = None \<or> gstrncmp (urlPrefix x) pa (len x) \<noteq> 0"
      using publish_loop_found [of pa t wd p] Some r by auto
    obtain d where d: "d \<in> set ds" "sp = entry_of d" using set_t sp(1) by auto
    have md: "matches pa d" using match [OF d(1)] sp d(2) by simp
    have plain: "\<not> is_first (entry_of e)" "\<not> is_last (entry_of e)" if "e \<in> set ds" "matches pa e" for e
      using fl that flags_plain [of "d_flags e"] by (auto simp: matches_def is_first_def is_last_def entry_of_def)
    have "length (d_prefix e) \<le> length p" if e: "e \<in> set ds" "matches pa e" for e
    proof (rule ccontr)
      assume long: "\<not> length (d_prefix e) \<le> length p"
      have pp: "prefix p (d_prefix e)"
        using prefix_length_prefix [of p pa "d_prefix e"] md e(2) long sp(3) d(2) by (simp add: matches_def entry_of_def)
      have "entry_of e \<in> set t" using e(1) set_t by auto
      moreover have "entry_of e \<notin> set us" using us match [OF e(1)] e(2) by (auto simp: entry_of_def)
      moreover have "entry_of e \<noteq> sp" using long sp(3) by (auto simp: entry_of_def)
      ultimately have "entry_of e \<in> set vs" using sp(1) by auto
      then have "urlPrefix (entry_of e) = urlPrefix sp"
        using sorted_table_prefix [of t us sp vs "entry_of e"] t ok sp plain [OF e] plain [OF d(1) md] d(2) pp
        by (simp add: entry_of_def)
      then show False using long sp(3) by (simp add: entry_of_def)
    qed
    then show ?thesis using Some r t(1) md d sp by (auto simp: websGetPublishDir_def entry_of_def)
  qed
qed

section \<open>Dispatch\<close>

lemma first_is_head:
  assumes "table_ok (mset t)" "sorted_table t" "sp \<in> set t" "is_first sp"
  shows "t \<noteq> [] \<and> hd t = sp"
proof (cases t)
  case (Cons x xs)
  show ?thesis
  proof (cases "x = sp")
    case False
    then obtain v1 v2 where "xs = v1 @ sp # v2" using assms(3) Cons by (auto dest: split_list)
    then have "mset t = {#x, sp#} + (mset v1 + mset v2)" using Cons by simp
    then have "{#x, sp#} \<subseteq># mset t" by simp
    note p = pair_ok [OF assms(1) this]
    have "websUrlHandlerSort x sp \<le> 0" using assms(2,3) Cons False by (auto simp: sorted_table_def)
    then show ?thesis using p assms(4) by (auto simp: sort_flags entry_ok_def split: if_splits)
  qed (use Cons in simp)
qed (use assms(3) in simp)

text \<open>The request as the handlers see it: the default directory, and slashes condensed.\<close>

definition prepared :: "string \<Rightarrow> webs \<Rightarrow> webs" where
  "prepared d wp = wp\<lparr>events := events wp @ [DeleteSocketHandler, HandlerHit] @ (if wflags wp AND WEBS_HNAP_FW_UPGRADE = 0 then [SetEnv] else []),
     wstate := WEBS_PROCESSING, dir := d, path := condensed (path wp), url := condensed (url wp)\<rparr>"

lemma prepared_sel [simp]:
  "url (prepared d wp) = condensed (url wp)" "path (prepared d wp) = condensed (path wp)" "query (prepared d wp) = query wp"
  by (simp_all add: prepared_def)

text \<open>Entries whose prefix does not match are passed over.\<close>

lemma request_loop_skip:
  assumes "\<forall>x\<in>set us. handler x = None \<or> gstrncmp (urlPrefix x) (path wp) (len x) \<noteq> 0"
  shows "request_loop call (us @ ts) first wp = request_loop call ts first wp"
  using assms by (induction us) (auto split: option.splits)

lemma request_prepared:
  assumes "entries st = Inr (sp # ts)" "handler sp = Some h" "urlPrefix sp = []" "len sp = 0"
  shows "websUrlHandlerRequest call df st wp =
    (let (r, wp') = call h [] (webDir sp) (arg sp) (condensed (url wp)) (condensed (path wp)) (query wp) (prepared df wp)
     in Inr (if r then (1, wp') else if \<not> valid wp' then (1, wp') else request_loop call ts False wp'))"
proof -
  have "wp\<lparr>events := events wp @ [DeleteSocketHandler, HandlerHit], wstate := 16, dir := df, path := condensed (path wp), url := condensed (url wp),
      events := events wp @ [DeleteSocketHandler, HandlerHit, SetEnv]\<rparr> = prepared df wp" if "wflags wp AND 0x01000000 = 0"
    using that by (simp add: prepared_def)
  moreover have "wp\<lparr>events := events wp @ [DeleteSocketHandler, HandlerHit], wstate := 16, dir := df, path := condensed (path wp), url := condensed (url wp)\<rparr>
      = prepared df wp" if "wflags wp AND 0x01000000 \<noteq> 0"
    using that by (simp add: prepared_def)
  ultimately show ?thesis
    using assms by (auto simp: websUrlHandlerRequest_def websSetRequestPath_def Let_def split: prod.split)
qed

lemma first_entry:
  assumes q: "is_qsort qsort" and ok: "table_ok (mset (map entry_of ds))" and d: "d \<in> set ds" "d_flags d AND 1 \<noteq> 0"
  obtains ts where "entries (define_all qsort ds fresh) = Inr (entry_of d # ts)" "sorted_table (entry_of d # ts)"
    "mset (entry_of d # ts) = mset (map entry_of ds)"
proof -
  obtain t where t: "entries (define_all qsort ds fresh) = Inr t" "sorted_table t" "mset t = mset (map entry_of ds)"
    using define_all_fresh [OF q ok] .
  have "entry_of d \<in> set t" using d(1) t(3) mset_eq_setD by fastforce
  moreover have "is_first (entry_of d)" using d(2) by (simp add: is_first_def entry_of_def)
  ultimately obtain ts where "t = entry_of d # ts" using first_is_head [of t "entry_of d"] t ok by (metis list.collapse)
  then show thesis using t that by simp
qed

text \<open>
  C17: The handler defined for every path with the flag \<open>WEBS_HANDLER_FIRST\<close>, the security handler of
  the server, is called first for every request, whatever the order of the definitions: a request it takes is
  finished, and no other handler sees it.
\<close>

theorem first_handler_decides:
  assumes q: "is_qsort qsort" and ok: "table_ok (mset (map entry_of ds))"
    and d: "d \<in> set ds" "d_flags d AND 1 \<noteq> 0" "d_prefix d = []"
    and take: "call (d_handler d) [] (webDir (entry_of d)) (d_arg d) (condensed (url wp)) (condensed (path wp)) (query wp)
        (prepared df wp) = (accepts, wp')" "accepts \<or> \<not> valid wp'"
  shows "websUrlHandlerRequest call df (define_all qsort ds fresh) wp = Inr (1, wp')"
proof -
  obtain ts where "entries (define_all qsort ds fresh) = Inr (entry_of d # ts)" using first_entry [OF q ok d(1,2)] .
  from request_prepared [OF this, of "d_handler d"] show ?thesis using take d(3) by (auto simp: entry_of_def)
qed

text \<open>
  When the first handler passes a request on, the next one called is the one with the longest prefix
  of the path, if no two handlers have the same non-empty prefix.
\<close>

lemma dispatch_longest:
  assumes q: "is_qsort qsort" and ok: "table_ok (mset (map entry_of ds))"
    and fl: "\<forall>d\<in>set ds. d_flags d AND 3 \<noteq> 0 \<longrightarrow> d_prefix d = []"
    and d: "d \<in> set ds" "d_flags d AND 1 \<noteq> 0" "d_prefix d = []"
    and pass: "call (d_handler d) [] (webDir (entry_of d)) (d_arg d) (condensed (url wp)) (condensed (path wp)) (query wp)
        (prepared df wp) = (False, wp')" "valid wp'"
    and e: "e \<in> set ds" "matches (path wp') e" "\<forall>x\<in>set ds. matches (path wp') x \<longrightarrow> x = e \<or> length (d_prefix x) < length (d_prefix e)"
    and took: "call (d_handler e) (d_prefix e) (webDir (entry_of e)) (d_arg e) (url wp') (path wp') (query wp') wp' = (True, wp'')"
  shows "websUrlHandlerRequest call df (define_all qsort ds fresh) wp = Inr (1, wp'')"
proof -
  obtain ts where t: "entries (define_all qsort ds fresh) = Inr (entry_of d # ts)" "sorted_table (entry_of d # ts)"
    "mset (entry_of d # ts) = mset (map entry_of ds)" using first_entry [OF q ok d(1,2)] .
  have set_t: "insert (entry_of d) (set ts) = entry_of ` set ds" using mset_eq_setD [OF t(3)] by simp
  have "d_prefix e \<noteq> []" using e(2) by (simp add: matches_def)
  then have "entry_of e \<noteq> entry_of d" using d(3) by (auto simp: entry_of_def)
  then have "entry_of e \<in> set ts" using set_t e(1) by (metis imageI insertE)
  then obtain us vs where ts: "ts = us @ entry_of e # vs" "entry_of e \<notin> set us" by (meson split_list_first)
  have plain: "\<not> is_first (entry_of x)" "\<not> is_last (entry_of x)" if "x \<in> set ds" "d_prefix x \<noteq> []" for x
    using fl that flags_plain [of "d_flags x"] by (auto simp: is_first_def is_last_def entry_of_def)
  have nz: "NUL \<notin> set (d_prefix x)" if "x \<in> set ds" for x
    using ok that by (auto simp: table_ok_def entry_ok_def entry_of_def)
  have "gstrncmp (urlPrefix x) (path wp') (len x) \<noteq> 0" if x: "x \<in> set us" for x
  proof
    assume m: "gstrncmp (urlPrefix x) (path wp') (len x) = 0"
    obtain y where y: "y \<in> set ds" "x = entry_of y" using set_t x ts by (metis UnI1 imageE insertCI set_append)
    have p: "prefix (d_prefix y) (path wp')" using m y gstrncmp_prefix [OF nz [OF y(1)]] by (simp add: entry_of_def)
    obtain u1 u2 where us: "us = u1 @ x # u2" using x by (meson split_list)
    have mt: "mset (entry_of d # ts) = {#x, entry_of e#} + (add_mset (entry_of d) (mset u1 + mset u2 + mset vs))" using ts us by simp
    have okt: "table_ok (mset (entry_of d # ts))" using ok t(3) by simp
    have "{#x, entry_of e#} \<subseteq># mset (entry_of d # ts)" unfolding mt by simp
    note po = pair_ok [OF okt this]
    have le: "websUrlHandlerSort x (entry_of e) \<le> 0" using t(2) ts us by (auto simp: sorted_table_def sorted_wrt_append)
    have pe: "prefix (d_prefix e) (path wp')" using e(2) by (simp add: matches_def)
    show False
    proof (cases "d_prefix y = []")
      case True
      have "{#x, entry_of d#} \<subseteq># mset (entry_of d # ts)" using us ts by simp
      from pair_ok(3) [OF okt this] have nf: "\<not> is_first x" using d(2) by (auto simp: is_first_def entry_of_def)
      have px: "urlPrefix x = []" "urlPrefix (entry_of e) = d_prefix e" using True y by (simp_all add: entry_of_def)
      have "rank (entry_of e) = 1" using plain [OF e(1)] \<open>d_prefix e \<noteq> []\<close> by (simp add: rank_def)
      moreover have "rank x \<ge> 1" using nf by (simp add: rank_def)
      ultimately have "sgn (websUrlHandlerSort x (entry_of e)) = 1"
        using sort_sgn [OF po] px \<open>d_prefix e \<noteq> []\<close> by (auto simp: not_less)
      then show False using le by (simp add: le_sgn)
    next
      case False
      then have my: "matches (path wp') y" using p by (simp add: matches_def)
      then have l: "y = e \<or> length (d_prefix y) < length (d_prefix e)" using e(3) y(1) by simp
      have "prefix (d_prefix y) (d_prefix e)" using prefix_length_prefix [OF p pe] l by auto
      moreover have "entry_of e \<in> set (u2 @ entry_of e # vs)" by simp
      ultimately have "urlPrefix (entry_of e) = urlPrefix x"
        using sorted_table_prefix [OF okt t(2), of "entry_of d # u1" x "u2 @ entry_of e # vs" "entry_of e"] ts us y plain [OF y(1) False]
          plain [OF e(1) \<open>d_prefix e \<noteq> []\<close>] by (simp add: entry_of_def)
      then have "d_prefix e = d_prefix y" by (simp add: y(2) entry_of_def)
      then have "y = e" using l by (elim disjE) simp_all
      then show False using ts(2) x y(2) by simp
    qed
  qed
  then have skip: "request_loop call ts False wp' = request_loop call (entry_of e # vs) False wp'"
    unfolding ts(1) by (intro request_loop_skip) blast
  have "gstrncmp (d_prefix e) (path wp') (length (d_prefix e)) = 0"
    using gstrncmp_prefix [OF nz [OF e(1)]] e(2) by (simp add: matches_def)
  then have "request_loop call (entry_of e # vs) False wp' = (1, wp'')" using took by (simp add: entry_of_def)
  then show ?thesis
    using request_prepared [OF t(1), of "d_handler d"] pass d(3) skip by (simp add: entry_of_def)
qed

text \<open>
  A definition that finds no memory loses the table: the pointer is overwritten with the null
  pointer while the number of entries stays, so the next search or request follows the null pointer.
\<close>

theorem define_failure_loses_table:
  assumes "websUrlHandlerMax st > 0" "websUrlHandlerDefine qsort False p d a h fl st = (r, st')"
  shows "r = - 1 \<and> websGetPublishDir pa st' = Inl NullDeref \<and> websUrlHandlerRequest call df st' wp = Inl NullDeref \<and>
    websUrlHandlerDelete h' st' = Inl NullDeref"
  using assms by (auto simp: websUrlHandlerDefine_def websGetPublishDir_def websUrlHandlerRequest_def websUrlHandlerDelete_def
      entries_def Let_def)

text \<open>
  Two handlers that both ask to be first compare as less in both directions, so their order is
  whatever \<open>qsort\<close> makes of it, and not alphabetical.
\<close>

lemma two_first_inconsistent:
  "is_first a \<Longrightarrow> is_first b \<Longrightarrow> websUrlHandlerSort a b = - 1 \<and> websUrlHandlerSort b a = - 1"
  by (simp add: sort_flags)

section \<open>The server's own table\<close>

text \<open>An insertion sort is a \<open>qsort\<close>.\<close>

fun ins :: "('a \<Rightarrow> 'a \<Rightarrow> int) \<Rightarrow> 'a \<Rightarrow> 'a list \<Rightarrow> 'a list" where
  "ins cmp x [] = [x]"
| "ins cmp x (y # ys) = (if cmp x y \<le> 0 then x # y # ys else y # ins cmp x ys)"

definition isort :: "('a \<Rightarrow> 'a \<Rightarrow> int) \<Rightarrow> 'a list \<Rightarrow> 'a list" where
  "isort cmp xs = foldr (ins cmp) xs []"

lemma mset_ins [simp]: "mset (ins cmp x ys) = add_mset x (mset ys)"
  by (induction ys) auto

lemma consistentD:
  assumes "consistent cmp M"
  shows consistent_sym: "{#a, b#} \<subseteq># M \<Longrightarrow> sgn (cmp a b) = - sgn (cmp b a)"
    and consistent_trans: "{#a, b, d#} \<subseteq># M \<Longrightarrow> cmp a b \<le> 0 \<Longrightarrow> cmp b d \<le> 0 \<Longrightarrow> cmp a d \<le> 0"
  using assms [unfolded consistent_def] by (rule conjE, iprover)+

lemma consistent_mono:
  assumes c: "consistent cmp M" and sub: "N \<subseteq># M"
  shows "consistent cmp N"
  unfolding consistent_def
proof (intro conjI allI impI)
  fix a b assume "{#a, b#} \<subseteq># N"
  then have "{#a, b#} \<subseteq># M" using sub by (rule subset_mset.order_trans)
  then show "sgn (cmp a b) = - sgn (cmp b a)" by (rule consistent_sym [OF c])
next
  fix a b d assume t: "{#a, b, d#} \<subseteq># N" and le: "cmp a b \<le> 0" "cmp b d \<le> 0"
  have "{#a, b, d#} \<subseteq># M" using t sub by (rule subset_mset.order_trans)
  then show "cmp a d \<le> 0" using le by (rule consistent_trans [OF c])
qed

lemma ins_sorted:
  assumes "consistent cmp (add_mset x (mset ys))" "sorted_wrt (\<lambda>a b. cmp a b \<le> 0) ys"
  shows "sorted_wrt (\<lambda>a b. cmp a b \<le> 0) (ins cmp x ys)"
  using assms
proof (induction ys)
  case (Cons y ys)
  have anti: "sgn (cmp x y) = - sgn (cmp y x)" by (rule consistent_sym [OF Cons.prems(1)]) simp
  have sub: "consistent cmp (add_mset x (mset ys))" by (rule consistent_mono [OF Cons.prems(1)]) simp
  show ?case
  proof (cases "cmp x y \<le> 0")
    case True
    have "cmp x z \<le> 0" if "z \<in> set ys" for z
    proof -
      have "{#x, y, z#} \<subseteq># add_mset x (mset (y # ys))" using that by simp
      moreover have "cmp y z \<le> 0" using Cons.prems(2) that by simp
      ultimately show ?thesis using consistent_trans [OF Cons.prems(1) _ True] by simp
    qed
    then show ?thesis using True Cons.prems(2) by simp
  next
    case False
    then have "cmp y x \<le> 0" using anti by (auto simp: sgn_if split: if_splits)
    moreover have "set (ins cmp x ys) = insert x (set ys)" using mset_ins [of cmp x ys] by (metis set_mset_add_mset_insert set_mset_mset)
    ultimately show ?thesis using False Cons.IH [OF sub] Cons.prems(2) by simp
  qed
qed simp

lemma isort_qsort: "is_qsort isort"
  unfolding is_qsort_def
proof (intro allI impI)
  fix cmp :: "'a \<Rightarrow> 'a \<Rightarrow> int" and xs
  assume "consistent cmp (mset xs)"
  then show "mset (isort cmp xs) = mset xs \<and> sorted_wrt (\<lambda>a b. cmp a b \<le> 0) (isort cmp xs)"
  proof (induction xs)
    case (Cons x xs)
    have "consistent cmp (mset xs)" by (rule consistent_mono [OF Cons.prems]) simp
    then have "mset (isort cmp xs) = mset xs" "sorted_wrt (\<lambda>a b. cmp a b \<le> 0) (isort cmp xs)" using Cons.IH by simp_all
    then show ?case using ins_sorted [of cmp x "isort cmp xs"] Cons.prems by (simp add: isort_def)
  qed (simp add: isort_def)
qed

text \<open>The handlers that \<open>initWebs\<close> of \<open>LINUX/main.c\<close> defines, in the build with \<open>MT_USE_STAT_TASK\<close>.\<close>

datatype server_handler =
  websSecurityHandler | websFormHandler | websCgiHandler | websVirtualDirHandler | websStatisticsHandler | websHNAPHandler |
  websDefaultHandler | websHomePageHandler

definition initWebs_handlers :: "string \<Rightarrow> server_handler handler_def list" where
  "initWebs_handlers virtual_dir =
     [\<lparr>d_prefix = [], d_dir = None, d_arg = 0, d_handler = websSecurityHandler, d_flags = WEBS_HANDLER_FIRST\<rparr>,
      \<lparr>d_prefix = ''/goform'', d_dir = None, d_arg = 0, d_handler = websFormHandler, d_flags = 0\<rparr>,
      \<lparr>d_prefix = ''/cgi-bin'', d_dir = None, d_arg = 0, d_handler = websCgiHandler, d_flags = 0\<rparr>,
      \<lparr>d_prefix = ''/virtualtmp'', d_dir = Some virtual_dir, d_arg = 0, d_handler = websVirtualDirHandler, d_flags = 0\<rparr>,
      \<lparr>d_prefix = ''/mt_stat'', d_dir = None, d_arg = 0, d_handler = websStatisticsHandler, d_flags = 0\<rparr>,
      \<lparr>d_prefix = ''/HNAP1'', d_dir = None, d_arg = 0, d_handler = websHNAPHandler, d_flags = 0\<rparr>,
      \<lparr>d_prefix = [], d_dir = None, d_arg = 0, d_handler = websDefaultHandler, d_flags = WEBS_HANDLER_LAST\<rparr>,
      \<lparr>d_prefix = ''/'', d_dir = None, d_arg = 0, d_handler = websHomePageHandler, d_flags = 0\<rparr>]"

lemma initWebs_ok: "table_ok (mset (map entry_of (initWebs_handlers vd)))"
  by (simp add: table_ok_def initWebs_handlers_def entry_of_def entry_ok_def is_first_def is_last_def)

lemma initWebs_flags: "d \<in> set (initWebs_handlers vd) \<Longrightarrow> d_flags d AND 3 \<noteq> 0 \<longrightarrow> d_prefix d = []"
  by (auto simp: initWebs_handlers_def)

theorem publish_longest_prefix_witness:
  "websGetPublishDir ''/virtualtmp/x'' (define_all isort (initWebs_handlers ''/tmp'') fresh) \<noteq> Inl NullDeref \<and>
   websGetPublishDir ''/virtualtmp/x'' (define_all isort (initWebs_handlers ''/tmp'') fresh) \<noteq> Inr None"
proof -
  have m: "\<exists>d\<in>set (initWebs_handlers ''/tmp''). matches ''/virtualtmp/x'' d"
    by (simp add: initWebs_handlers_def matches_def)
  show ?thesis
    using publish_longest_prefix [OF isort_qsort initWebs_ok, of "''/tmp''" "''/virtualtmp/x''"] initWebs_flags m
    by (auto split: sum.splits option.splits)
qed

definition wp0 :: webs where
  "wp0 = \<lparr>valid = True, wstate = 0, wflags = 0, url = ''/goform/x'', path = ''/goform/x'', query = [], dir = [], events = []\<rparr>"

theorem first_handler_decides_witness:
  "websUrlHandlerRequest (\<lambda>h _ _ _ _ _ _ w. (h = websSecurityHandler, w)) ''/web''
     (define_all isort (initWebs_handlers ''/tmp'') fresh) wp0 = Inr (1, prepared ''/web'' wp0)"
  by (rule first_handler_decides [OF isort_qsort initWebs_ok, of "hd (initWebs_handlers ''/tmp'')", where accepts = True])
    (simp_all add: initWebs_handlers_def)

theorem define_failure_loses_table_witness:
  "websGetPublishDir ''/x'' (snd (websUrlHandlerDefine isort False ''/y'' None 0 websFormHandler 0
     (define_all isort [hd (initWebs_handlers ''/tmp'')] fresh))) = Inl NullDeref"
  using define_failure_loses_table [of "define_all isort [hd (initWebs_handlers ''/tmp'')] fresh" isort "''/y''" None 0 websFormHandler 0]
  by (simp add: initWebs_handlers_def websUrlHandlerDefine_def fresh_def websUrlHandlerOpen_def Let_def)

end
