(* ===== verification/WpsMonitor.thy ===== *)
theory WpsMonitor
  imports LinkUtil
begin

text \<open>
  The monitor of the WPS status, \<open>apps/hnap_wps_status_monitor/hnap_wps_status_monitor.c\<close>: it follows the
  status file of the WPS daemon, publishes each status for the HNAP server, and ends after a result.

  The program is a chain of loops. A state holds the loop the program is in with its counter
  (\<open>phase\<close>) and the variables that live across loops; one step is one turn of a loop, reading what
  the turn sees: the signal, the results of \<open>stat\<close> and \<open>popen\<close>, and the output of the commands
  (\<open>None\<close> for a \<open>popen\<close> that fails). Parsing and the link status are those of \<open>LinkUtil\<close>.
\<close>

section \<open>State\<close>

text \<open>
  The stream \<open>fptr\<close>. The label \<open>End\<close> tests it, and can be reached before it was ever assigned: what the
  program does from there is undefined. The model stops at that point, with \<open>bad_pclose\<close> set.
\<close>

datatype stream = Uninit | Closed | Opened

datatype phase =
    Wait
  | Monitor
  | Delay int
  | Connect int
  | FailDelay int
  | LastCode
  | LastDelay int
  | Stopped

record wps_state =
  ph :: phase
  wps_status :: int
  last_status :: int
  retry :: nat
  fptr :: stream
  exposed :: "int list"
  running_file :: bool
  pid_file :: bool
  bad_pclose :: bool

record wps_obs =
  gotSignal :: bool
  stat_current :: bool
  cat_current :: "string option"
  stat_last :: bool
  cat_last :: "string option"
  cat_wireless :: "string option"

definition wps_init :: wps_state where
  "wps_init = \<lparr>ph = Wait, wps_status = 0, last_status = 0, retry = 0, fptr = Uninit, exposed = [],
               running_file = True, pid_file = True, bad_pclose = False\<rparr>"

section \<open>Operations\<close>

definition get_station_link_status :: "string option \<Rightarrow> bool" where
  "get_station_link_status out = (case out of None \<Rightarrow> False | Some s \<Rightarrow> wireless_loop 0 s = 3)"

definition expose_wps_status :: "int \<Rightarrow> wps_state \<Rightarrow> wps_state" where
  "expose_wps_status code st = st\<lparr>exposed := exposed st @ [code]\<rparr>"

text \<open>The number behind the first equals sign of the first line a command prints.\<close>

definition status_of :: "string \<Rightarrow> int option" where
  "status_of out =
     (case fgets 128 out of
        None \<Rightarrow> None
      | Some (buf, _) \<Rightarrow>
          (case dropWhile (\<lambda>c. c \<noteq> CHR ''='') buf of [] \<Rightarrow> None | _ # s \<Rightarrow> Some (atoi s)))"

text \<open>The label \<open>End\<close>.\<close>

definition wps_end :: "wps_state \<Rightarrow> wps_state" where
  "wps_end st =
     (if fptr st = Uninit then st\<lparr>bad_pclose := True, ph := Stopped\<rparr>
      else
        let st = st\<lparr>fptr := Closed\<rparr>;
            st = expose_wps_status 0 (st\<lparr>wps_status := 0\<rparr>)
        in st\<lparr>running_file := False, pid_file := False, ph := Stopped\<rparr>)"

text \<open>Behind the monitoring loop.\<close>

definition after_monitor :: "wps_state \<Rightarrow> wps_state" where
  "after_monitor st =
     (let s = wps_status st in
      if s = 99 \<or> s = 10 \<or> s = 11 \<or> s = 12 \<or> s = 13 then st\<lparr>ph := Delay (if s \<noteq> 99 then 120 else 60)\<rparr>
      else if s = 3 then st\<lparr>ph := Connect 60\<rparr>
      else if s = 1 \<or> s = 2 then st\<lparr>ph := LastCode, retry := 0\<rparr>
      else wps_end st)"

definition wait_turn :: "wps_obs \<Rightarrow> wps_state \<Rightarrow> wps_state" where
  "wait_turn ob st =
     (if stat_current ob then st\<lparr>ph := Monitor\<rparr>
      else
        let st = st\<lparr>retry := retry st + 1\<rparr> in
        if retry st > 60 then st\<lparr>ph := Stopped\<rparr>
        else if gotSignal ob then wps_end st
        else st)"

definition monitor_turn :: "wps_obs \<Rightarrow> wps_state \<Rightarrow> wps_state" where
  "monitor_turn ob st =
     (if gotSignal ob then wps_end st
      else if stat_current ob then
        let st = st\<lparr>retry := 0\<rparr> in
        case cat_current ob of
          None \<Rightarrow>
            let st = st\<lparr>fptr := Closed, retry := retry st + 1\<rparr>
            in if retry st \<ge> 5 then after_monitor (st\<lparr>running_file := False\<rparr>) else st
        | Some out \<Rightarrow>
            let st = st\<lparr>fptr := Closed\<rparr> in
            (case status_of out of
               None \<Rightarrow> st
             | Some s \<Rightarrow>
                 let st = expose_wps_status s (st\<lparr>wps_status := s\<rparr>)
                 in if s = 3 \<or> s = 10 \<or> s = 11 \<or> s = 12 \<or> s = 13
                    then after_monitor (st\<lparr>running_file := False\<rparr>) else st)
      else
        let st = st\<lparr>retry := retry st + 1\<rparr>
        in if retry st > 10 then after_monitor (st\<lparr>running_file := False\<rparr>) else st)"

text \<open>A turn of the loops that only count down.\<close>

definition count_turn :: "(int \<Rightarrow> phase) \<Rightarrow> int \<Rightarrow> (wps_state \<Rightarrow> wps_state) \<Rightarrow> wps_obs \<Rightarrow> wps_state \<Rightarrow> wps_state" where
  "count_turn p n fin ob st =
     (if gotSignal ob then wps_end st
      else if n - 1 = 0 then fin st
      else st\<lparr>ph := p (n - 1)\<rparr>)"

definition connect_turn :: "int \<Rightarrow> wps_obs \<Rightarrow> wps_state \<Rightarrow> wps_state" where
  "connect_turn n ob st =
     (if gotSignal ob then wps_end st
      else
        let (st, n) = (if wps_status st = 3 \<and> get_station_link_status (cat_wireless ob)
                       then (expose_wps_status 99 (st\<lparr>wps_status := 99\<rparr>), 60) else (st, n))
        in if n - 1 = 0 then expose_wps_status 14 (st\<lparr>wps_status := 14, ph := FailDelay 60\<rparr>)
           else st\<lparr>ph := Connect (n - 1)\<rparr>)"

definition last_code_turn :: "wps_obs \<Rightarrow> wps_state \<Rightarrow> wps_state" where
  "last_code_turn ob st =
     (if gotSignal ob then wps_end st
      else if \<not> stat_last ob then
        let st = st\<lparr>retry := retry st + 1\<rparr> in if retry st > 10 then wps_end st else st
      else
        let st = st\<lparr>retry := 0\<rparr> in
        case cat_last ob of
          None \<Rightarrow> wps_end (st\<lparr>fptr := Closed\<rparr>)
        | Some out \<Rightarrow>
            (if fgets 128 out = None then wps_end (st\<lparr>fptr := Closed\<rparr>)
             else
               let st = (case status_of out of
                           None \<Rightarrow> st
                         | Some s \<Rightarrow> st\<lparr>last_status := wps_status st, wps_status := s\<rparr>)
               in if wps_status st = 3 \<or> wps_status st = 4 then
                    let st = (if wps_status st = 3 then expose_wps_status 12 (st\<lparr>wps_status := 12\<rparr>)
                              else if last_status st = 2 then expose_wps_status 11 (st\<lparr>wps_status := 11\<rparr>)
                              else if last_status st = 1 then expose_wps_status 10 (st\<lparr>wps_status := 10\<rparr>)
                              else st)
                    in st\<lparr>fptr := Opened, ph := LastDelay 120\<rparr>
                  else wps_end (st\<lparr>fptr := Closed\<rparr>)))"

definition wps_step :: "wps_state \<Rightarrow> wps_obs \<Rightarrow> wps_state" where
  "wps_step st ob =
     (case ph st of
        Wait \<Rightarrow> wait_turn ob st
      | Monitor \<Rightarrow> monitor_turn ob st
      | Delay n \<Rightarrow> count_turn Delay n wps_end ob st
      | Connect n \<Rightarrow> connect_turn n ob st
      | FailDelay n \<Rightarrow> count_turn FailDelay n wps_end ob st
      | LastCode \<Rightarrow> last_code_turn ob st
      | LastDelay n \<Rightarrow> count_turn LastDelay n (\<lambda>st. wps_end (st\<lparr>fptr := Closed\<rparr>)) ob st
      | Stopped \<Rightarrow> st)"

section \<open>Cleaning up\<close>

lemmas turn_defs = wait_turn_def monitor_turn_def count_turn_def connect_turn_def last_code_turn_def after_monitor_def
  wps_end_def expose_wps_status_def

definition counting :: "phase \<Rightarrow> bool" where
  "counting p \<longleftrightarrow> (case p of Delay n \<Rightarrow> 0 < n \<and> n \<le> 120 | Connect n \<Rightarrow> 0 < n \<and> n \<le> 60 | FailDelay n \<Rightarrow> 0 < n \<and> n \<le> 60
     | LastDelay n \<Rightarrow> 0 < n \<and> n \<le> 120 | _ \<Rightarrow> True)"

definition gave_up :: "wps_state \<Rightarrow> bool" where
  "gave_up st \<longleftrightarrow> exposed st = [] \<and> retry st = 61 \<and> running_file st \<and> pid_file st"

definition cleaned :: "wps_state \<Rightarrow> bool" where
  "cleaned st \<longleftrightarrow> exposed st \<noteq> [] \<and> last (exposed st) = 0 \<and> \<not> running_file st \<and> \<not> pid_file st \<and> \<not> bad_pclose st"

text \<open>The program tested a stream it had never assigned, before it had published any status.\<close>

definition never_opened :: "wps_state \<Rightarrow> bool" where
  "never_opened st \<longleftrightarrow> bad_pclose st \<and> fptr st = Uninit \<and> exposed st = []"

definition wps_inv :: "wps_state \<Rightarrow> bool" where
  "wps_inv st \<longleftrightarrow> counting (ph st) \<and> (ph st \<noteq> Stopped \<longrightarrow> pid_file st \<and> \<not> bad_pclose st) \<and>
     (ph st = Wait \<longrightarrow> running_file st \<and> exposed st = [] \<and> retry st \<le> 60) \<and>
     (fptr st = Uninit \<longrightarrow> exposed st = [] \<and> wps_status st = 0 \<and> ph st \<in> {Wait, Monitor, Stopped}) \<and>
     (ph st = Stopped \<longrightarrow> gave_up st \<or> cleaned st \<or> never_opened st)"

lemma wps_end_stopped [simp]: "ph (wps_end st) = Stopped"
  by (simp add: wps_end_def expose_wps_status_def Let_def)

text \<open>What holds whenever the label is reached, and is enough for the end.\<close>

definition at_end :: "wps_state \<Rightarrow> bool" where
  "at_end st \<longleftrightarrow> pid_file st \<and> \<not> bad_pclose st \<and> (fptr st = Uninit \<longrightarrow> exposed st = [] \<and> wps_status st = 0)"

lemma wps_end_inv: "at_end st \<Longrightarrow> wps_inv (wps_end st)"
  by (auto simp: at_end_def wps_end_def expose_wps_status_def wps_inv_def counting_def cleaned_def never_opened_def Let_def)

lemma wps_inv_at_end: "wps_inv st \<Longrightarrow> ph st \<noteq> Stopped \<Longrightarrow> at_end st"
  by (auto simp: wps_inv_def at_end_def)

lemma at_end_update [simp]:
  "at_end (st\<lparr>ph := p\<rparr>) = at_end st" "at_end (st\<lparr>retry := r\<rparr>) = at_end st" "at_end (st\<lparr>running_file := b\<rparr>) = at_end st"
  "at_end st \<Longrightarrow> at_end (st\<lparr>fptr := Closed\<rparr>)" "at_end st \<Longrightarrow> at_end (st\<lparr>fptr := Opened\<rparr>)"
  by (auto simp: at_end_def)

lemma at_end_assigned:
  "fptr st \<noteq> Uninit \<Longrightarrow> at_end (st\<lparr>wps_status := s, exposed := xs\<rparr>) = at_end st"
  "fptr st \<noteq> Uninit \<Longrightarrow> at_end (st\<lparr>last_status := l, wps_status := s\<rparr>) = at_end st"
  by (auto simp: at_end_def)

lemma after_monitor_inv: "at_end st \<Longrightarrow> wps_inv (after_monitor st)"
proof (cases "wps_status st \<in> {99, 10, 11, 12, 13, 3, 1, 2}")
  case True
  assume "at_end st"
  then show ?thesis using True by (auto simp: after_monitor_def wps_inv_def counting_def at_end_def Let_def)
next
  case False
  assume "at_end st"
  then show ?thesis using False by (simp add: after_monitor_def Let_def wps_end_inv)
qed

lemma monitor_turn_inv:
  assumes "wps_inv st" "ph st = Monitor"
  shows "wps_inv (monitor_turn ob st)"
proof -
  have e: "at_end st" by (rule wps_inv_at_end) (use assms in simp_all)
  have stay: "wps_inv (st\<lparr>retry := n\<rparr>)" "wps_inv (st\<lparr>retry := n, fptr := Closed\<rparr>)"
    "wps_inv (st\<lparr>retry := n, fptr := Closed, wps_status := s, exposed := xs\<rparr>)"
    "wps_inv (st\<lparr>fptr := Closed, retry := n\<rparr>)" for n s xs
    using assms by (auto simp: wps_inv_def)
  show ?thesis
    using e stay
    by (auto simp: monitor_turn_def Let_def expose_wps_status_def at_end_assigned
        intro!: after_monitor_inv wps_end_inv split: option.split)
qed

lemma last_code_turn_inv:
  assumes "wps_inv st" "ph st = LastCode"
  shows "wps_inv (last_code_turn ob st)"
proof -
  have e: "at_end st" by (rule wps_inv_at_end) (use assms in simp_all)
  have f: "fptr st \<noteq> Uninit" "pid_file st" "\<not> bad_pclose st" using assms by (auto simp: wps_inv_def)
  have stay: "wps_inv (st\<lparr>retry := n\<rparr>)" for n using assms by (auto simp: wps_inv_def)
  show ?thesis
    using e stay f
    by (auto simp: last_code_turn_def Let_def expose_wps_status_def at_end_assigned
        intro!: wps_end_inv split: option.split)
      (auto simp: wps_inv_def counting_def)
qed

lemma wps_step_inv:
  assumes "wps_inv st"
  shows "wps_inv (wps_step st ob)"
proof (cases "ph st")
  case Wait
  then have "at_end st" using assms wps_inv_at_end by simp
  then show ?thesis using Wait assms
    by (auto simp: wps_step_def wait_turn_def Let_def intro!: wps_end_inv) (auto simp: wps_inv_def counting_def gave_up_def)
next
  case Monitor
  then show ?thesis using assms by (simp add: wps_step_def monitor_turn_inv)
next
  case (Connect n)
  then have "at_end st" using assms wps_inv_at_end by simp
  then show ?thesis using Connect assms
    by (auto simp: wps_step_def connect_turn_def Let_def expose_wps_status_def intro!: wps_end_inv)
      (auto simp: wps_inv_def counting_def)
next
  case LastCode
  then show ?thesis using assms by (simp add: wps_step_def last_code_turn_inv)
next
  case Stopped
  then show ?thesis using assms by (simp add: wps_step_def)
next
  case (Delay n)
  then have "at_end st" using assms wps_inv_at_end by simp
  then show ?thesis using Delay assms by (auto simp: wps_step_def count_turn_def wps_end_inv) (auto simp: wps_inv_def counting_def)
next
  case (FailDelay n)
  then have "at_end st" using assms wps_inv_at_end by simp
  then show ?thesis using FailDelay assms by (auto simp: wps_step_def count_turn_def wps_end_inv) (auto simp: wps_inv_def counting_def)
next
  case (LastDelay n)
  then have "at_end st" using assms wps_inv_at_end by simp
  then show ?thesis using LastDelay assms by (auto simp: wps_step_def count_turn_def wps_end_inv) (auto simp: wps_inv_def counting_def)
qed

interpretation wps_system: invariant_system wps_step wps_inv "\<lambda>_. True"
  by unfold_locales (rule wps_step_inv)

lemma wps_reachable_inv: "wps_inv (run wps_step wps_init obs)"
  by (rule wps_system.run_inv) (auto simp: wps_init_def wps_inv_def counting_def list_all_iff)

text \<open>
  C29: Whatever the monitor observes, when it has ended, one of three cases holds: it has published
  the status 0 last and removed its two files, and closed no stream it had not opened; or it never
  saw the status file in 61 turns and has left its files; or it reached its end before it had ever
  assigned the stream it closes there, and before it had published anything, in which case its
  behaviour from there on is undefined and nothing is claimed of it. Its counters stay above zero
  until the end.
\<close>

theorem wps_cleans_up:
  "counting (ph (run wps_step wps_init obs)) \<and>
   (ph (run wps_step wps_init obs) \<noteq> Stopped \<or> gave_up (run wps_step wps_init obs) \<or>
    cleaned (run wps_step wps_init obs) \<or> never_opened (run wps_step wps_init obs))"
  using wps_reachable_inv [of obs] by (auto simp: wps_inv_def)

section \<open>Ending\<close>




lemma stopped_step [simp]: "ph st = Stopped \<Longrightarrow> wps_step st ob = st"
  by (simp add: wps_step_def)

lemma stopped_run [simp]: "ph st = Stopped \<Longrightarrow> run wps_step st obs = st"
  by (induction obs) auto

lemma wps_end_ph [simp]: "wps_end (st\<lparr>ph := p\<rparr>) = wps_end st"
  by (simp add: wps_end_def expose_wps_status_def Let_def)


text \<open>A turn that sees nothing.\<close>

definition idle :: wps_obs where
  "idle = \<lparr>gotSignal = False, stat_current = False, cat_current = None, stat_last = False, cat_last = None, cat_wireless = None\<rparr>"


theorem wps_cleans_up_witness:
  "cleaned (run wps_step wps_init
     [idle\<lparr>stat_current := True\<rparr>, idle\<lparr>stat_current := True, cat_current := Some ''status=1''\<rparr>, idle\<lparr>gotSignal := True\<rparr>])"
proof -
  define obs where "obs = [idle\<lparr>stat_current := True\<rparr>,
    idle\<lparr>stat_current := True, cat_current := Some ''status=1''\<rparr>, idle\<lparr>gotSignal := True\<rparr>]"
  have "status_of ''status=1'' = Some 1" by code_simp
  then have "run wps_step wps_init obs =
      wps_end (wps_init\<lparr>ph := Monitor, fptr := Closed, wps_status := 1, exposed := [1]\<rparr>)"
    by (simp add: obs_def idle_def wps_init_def wps_step_def wait_turn_def monitor_turn_def expose_wps_status_def Let_def)
  then have "ph (run wps_step wps_init obs) = Stopped" "\<not> gave_up (run wps_step wps_init obs)"
    "\<not> never_opened (run wps_step wps_init obs)"
    by (simp_all add: gave_up_def never_opened_def wps_end_def wps_init_def expose_wps_status_def Let_def)
  then show ?thesis using wps_cleans_up [of obs] by (simp add: obs_def)
qed

section \<open>A result after a successful registration\<close>

definition no_signal :: "wps_obs list \<Rightarrow> bool" where
  "no_signal obs \<longleftrightarrow> (\<forall>ob\<in>set obs. \<not> gotSignal ob)"

lemma run_fail_delay:
  assumes "no_signal obs" "0 < n" "int (length obs) = n" "ph st = FailDelay n"
  shows "run wps_step st obs = wps_end st"
  using assms
proof (induction obs arbitrary: st n)
  case (Cons ob obs)
  show ?case
  proof (cases obs)
    case Nil
    then show ?thesis using Cons.prems by (simp add: wps_step_def count_turn_def no_signal_def)
  next
    case (Cons _ _)
    then show ?thesis using Cons.prems Cons.IH [of "n - 1" "st\<lparr>ph := FailDelay (n - 1)\<rparr>"]
      by (simp add: wps_step_def count_turn_def no_signal_def)
  qed
qed simp

lemma run_connect:
  assumes "no_signal obs" "0 < n" "int (length obs) = n" "ph st = Connect n" "wps_status st \<noteq> 3"
  shows "run wps_step st obs = expose_wps_status 14 (st\<lparr>wps_status := 14, ph := FailDelay 60\<rparr>)"
  using assms
proof (induction obs arbitrary: st n)
  case (Cons ob obs)
  show ?case
  proof (cases obs)
    case Nil
    then show ?thesis using Cons.prems by (simp add: wps_step_def connect_turn_def no_signal_def)
  next
    case (Cons _ _)
    then show ?thesis using Cons.prems Cons.IH [of "n - 1" "st\<lparr>ph := Connect (n - 1)\<rparr>"]
      by (simp add: wps_step_def connect_turn_def no_signal_def expose_wps_status_def)
  qed
qed simp

lemma run_unconnected:
  assumes "no_signal obs" "\<forall>ob\<in>set obs. \<not> get_station_link_status (cat_wireless ob)" "int (length obs) < n" "ph st = Connect n"
  shows "run wps_step st obs = st\<lparr>ph := Connect (n - int (length obs))\<rparr>"
  using assms
proof (induction obs arbitrary: st n)
  case Nil
  then show ?case by simp
next
  case (Cons ob obs)
  then show ?case using Cons.IH [of "n - 1" "st\<lparr>ph := Connect (n - 1)\<rparr>"]
    by (simp add: wps_step_def connect_turn_def no_signal_def algebra_simps)
qed

text \<open>
  After a successful registration the monitor reports a failure to connect even if the link
  came up: within the 60 turns of waiting a link is published as 99, but when the time is over the code publishes
  14 in any case, and ends 60 turns later.
\<close>

theorem wps_success_then_failure:
  assumes "ph st = Connect 60" "wps_status st = 3" "fptr st \<noteq> Uninit"
    and "length before < 60" "length rest = 59" "length final = 60" "no_signal (before @ ob # rest @ final)"
    and "\<forall>ob\<in>set before. \<not> get_station_link_status (cat_wireless ob)" "get_station_link_status (cat_wireless ob)"
  shows "exposed (run wps_step st (before @ ob # rest @ final)) = exposed st @ [99, 14, 0] \<and>
    ph (run wps_step st (before @ ob # rest @ final)) = Stopped"
proof -
  have ns: "no_signal before" "no_signal rest" "no_signal final" "\<not> gotSignal ob" using assms(7) by (auto simp: no_signal_def)
  define n where "n = 60 - int (length before)"
  define s1 where "s1 = st\<lparr>ph := Connect n\<rparr>"
  define s2 where "s2 = st\<lparr>wps_status := 99, exposed := exposed st @ [99], ph := Connect 59\<rparr>"
  define s3 where "s3 = expose_wps_status 14 (s2\<lparr>wps_status := 14, ph := FailDelay 60\<rparr>)"
  have "run wps_step st before = s1" using run_unconnected [OF ns(1) assms(8) _ assms(1)] assms(4) by (simp add: s1_def n_def)
  moreover have "wps_step s1 ob = s2"
    using ns(4) assms(2,9) by (simp add: s1_def s2_def wps_step_def connect_turn_def expose_wps_status_def)
  moreover have "run wps_step s2 rest = s3"
    unfolding s3_def using run_connect [OF ns(2), of 59 s2] assms(5) by (simp add: s2_def)
  moreover have "run wps_step s3 final = wps_end s3"
    using run_fail_delay [OF ns(3), of 60 s3] assms(6) by (simp add: s3_def expose_wps_status_def)
  ultimately have "run wps_step st (before @ ob # rest @ final) = wps_end s3" by (simp add: run_append)
  then show ?thesis using assms(3) by (simp add: s3_def s2_def wps_end_def expose_wps_status_def Let_def)
qed

definition linked :: wps_obs where
  "linked = idle\<lparr>cat_wireless := Some (''wlan0: 3 10. 20. 30. 0 0 0 0 0 0'' @ [NL])\<rparr>"

lemma link_idle: "get_station_link_status (cat_wireless idle) = False" "gotSignal idle = False" "gotSignal linked = False"
  by (simp_all add: idle_def linked_def get_station_link_status_def)

lemma link_linked: "get_station_link_status (cat_wireless linked)"
  using sample_wireless by (simp add: linked_def get_station_link_status_def)

theorem wps_success_then_failure_witness:
  "exposed (run wps_step (wps_init\<lparr>ph := Connect 60, wps_status := 3, fptr := Closed\<rparr>)
     (replicate 5 idle @ linked # replicate 59 idle @ replicate 60 idle)) = [99, 14, 0]"
  using wps_success_then_failure [of "wps_init\<lparr>ph := Connect 60, wps_status := 3, fptr := Closed\<rparr>" "replicate 5 idle" "replicate 59 idle"
      "replicate 60 idle" linked] link_idle link_linked
  by (simp add: no_signal_def wps_init_def)

text \<open>A signal stops every loop but the first at once.\<close>

lemma wps_signal_stops:
  "gotSignal ob \<Longrightarrow> ph st \<noteq> Wait \<Longrightarrow> ph (wps_step st ob) = Stopped"
  by (cases "ph st") (auto simp: wps_step_def monitor_turn_def connect_turn_def last_code_turn_def count_turn_def)

text \<open>A signal before the status file is there closes a stream that was never assigned.\<close>

lemma wps_early_signal: "never_opened (wps_step wps_init (idle\<lparr>gotSignal := True\<rparr>))"
  by (simp add: wps_init_def idle_def wps_step_def wait_turn_def wps_end_def never_opened_def)

text \<open>
  The limit of five failed \<open>popen\<close> calls is never reached, since the counter is reset in every
  turn that finds the file: the monitor goes on for ever.
\<close>

definition no_popen :: "wps_obs \<Rightarrow> bool" where
  "no_popen ob \<longleftrightarrow> \<not> gotSignal ob \<and> stat_current ob \<and> cat_current ob = None"

lemma wps_popen_fails_forever:
  assumes "ph st = Monitor" "list_all no_popen obs"
  shows "ph (run wps_step st obs) = Monitor"
proof -
  have "ph (wps_step st ob) = Monitor" if "ph st = Monitor" "no_popen ob" for st ob
    using that by (simp add: wps_step_def monitor_turn_def no_popen_def)
  then show ?thesis using assms by (induction obs arbitrary: st) auto
qed

end
