(* ===== verification/EjLex.thy ===== *)
theory EjLex
  imports Prelude
begin

text \<open>
  The lexical analyser of the server-side scripts, \<open>apps/WebServer/ejlex.c\<close>.

  The ring queues of the script and of the token (verified in theory \<open>Ringq\<close>) are the lists of
  their bytes, growing without limit as the code opens them; \<open>ringqInsertc\<close> puts a byte in front.
  A character is an \<open>int\<close> with \<open>-1\<close> for the end of the input, and \<open>char\<close> is unsigned on the target.
  \<open>line\<close> is the text of the line buffer; a write before its start is recorded in \<open>line_fault\<close>.
  \<open>isInteger\<close> is code of the vendor without source, and a parameter.
\<close>

section \<open>State\<close>

abbreviation (input) "TOK_ERR \<equiv> (- 1 :: int)"
abbreviation (input) "TOK_LPAREN \<equiv> (1 :: int)"
abbreviation (input) "TOK_RPAREN \<equiv> (2 :: int)"
abbreviation (input) "TOK_IF \<equiv> (3 :: int)"
abbreviation (input) "TOK_ELSE \<equiv> (4 :: int)"
abbreviation (input) "TOK_LBRACE \<equiv> (5 :: int)"
abbreviation (input) "TOK_RBRACE \<equiv> (6 :: int)"
abbreviation (input) "TOK_LOGICAL \<equiv> (7 :: int)"
abbreviation (input) "TOK_EXPR \<equiv> (8 :: int)"
abbreviation (input) "TOK_SEMI \<equiv> (9 :: int)"
abbreviation (input) "TOK_LITERAL \<equiv> (10 :: int)"
abbreviation (input) "TOK_FUNCTION \<equiv> (11 :: int)"
abbreviation (input) "TOK_NEWLINE \<equiv> (12 :: int)"
abbreviation (input) "TOK_ID \<equiv> (13 :: int)"
abbreviation (input) "TOK_EOF \<equiv> (14 :: int)"
abbreviation (input) "TOK_COMMA \<equiv> (15 :: int)"
abbreviation (input) "TOK_VAR \<equiv> (16 :: int)"
abbreviation (input) "TOK_ASSIGNMENT \<equiv> (17 :: int)"
abbreviation (input) "TOK_FOR \<equiv> (18 :: int)"
abbreviation (input) "TOK_INC_DEC \<equiv> (19 :: int)"
abbreviation (input) "TOK_RETURN \<equiv> (20 :: int)"

abbreviation (input) "EXPR_LESS \<equiv> (1 :: int)"
abbreviation (input) "EXPR_LESSEQ \<equiv> (2 :: int)"
abbreviation (input) "EXPR_GREATER \<equiv> (3 :: int)"
abbreviation (input) "EXPR_GREATEREQ \<equiv> (4 :: int)"
abbreviation (input) "EXPR_EQ \<equiv> (5 :: int)"
abbreviation (input) "EXPR_NOTEQ \<equiv> (6 :: int)"
abbreviation (input) "EXPR_PLUS \<equiv> (7 :: int)"
abbreviation (input) "EXPR_MINUS \<equiv> (8 :: int)"
abbreviation (input) "EXPR_DIV \<equiv> (9 :: int)"
abbreviation (input) "EXPR_MOD \<equiv> (10 :: int)"
abbreviation (input) "EXPR_LSHIFT \<equiv> (11 :: int)"
abbreviation (input) "EXPR_RSHIFT \<equiv> (12 :: int)"
abbreviation (input) "EXPR_MUL \<equiv> (13 :: int)"
abbreviation (input) "EXPR_INC \<equiv> (15 :: int)"
abbreviation (input) "EXPR_DEC \<equiv> (16 :: int)"
abbreviation (input) "EXPR_BOOL_COMP \<equiv> (17 :: int)"
abbreviation (input) "COND_AND \<equiv> (1 :: int)"
abbreviation (input) "COND_OR \<equiv> (2 :: int)"
abbreviation (input) "STATE_STMT \<equiv> (8 :: int)"
abbreviation (input) "EJ_INC \<equiv> (110 :: int)"

text \<open>A character constant of the source.\<close>

definition ch :: "char \<Rightarrow> int" where
  "ch c = of_char c"

record ejinput_t =
  tokbuf :: bytes
  script :: bytes
  putBackToken :: "bytes option"
  putBackTokenId :: int
  line :: bytes
  lineLength :: int
  lineNumber :: int
  lineColumn :: int
  line_fault :: bool

record ej_t = ejinput_t +
  error :: "(string \<times> int) option"
  token :: bytes
  tid :: int

section \<open>Input and token buffer\<close>

definition ejError :: "string \<Rightarrow> ej_t \<Rightarrow> ej_t" where
  "ejError msg ep = ep\<lparr>error := Some (msg, lineNumber ep)\<rparr>"

definition tokenAddChar :: "int \<Rightarrow> ej_t \<Rightarrow> ej_t" where
  "tokenAddChar c ep = (let t = tokbuf ep @ [word_of_int c] in ep\<lparr>tokbuf := t, token := t\<rparr>)"

definition inputGetc :: "ej_t \<Rightarrow> int \<times> ej_t" where
  "inputGetc ep =
     (case script ep of
        [] \<Rightarrow> (- 1, ep)
      | b # rest \<Rightarrow>
          let c = uint b; ep = ep\<lparr>script := rest\<rparr> in
          if c = 10 then (c, ep\<lparr>lineNumber := lineNumber ep + 1, lineColumn := 0\<rparr>)
          else
            let ep = (if lineColumn ep + 2 \<ge> lineLength ep then ep\<lparr>lineLength := lineLength ep + EJ_INC\<rparr> else ep);
                ep = ep\<lparr>line := take (nat (lineColumn ep)) (line ep) @ [b],
                        line_fault := line_fault ep \<or> lineColumn ep < 0, lineColumn := lineColumn ep + 1\<rparr>
            in (c, ep))"

definition inputPutback :: "int \<Rightarrow> ej_t \<Rightarrow> ej_t" where
  "inputPutback c ep =
     (let col = lineColumn ep - 1
      in ep\<lparr>script := word_of_int c # script ep, lineColumn := col,
            line := (if col < 0 then line ep else take (nat col) (line ep)), line_fault := line_fault ep \<or> col < 0\<rparr>)"

definition gisdigit :: "int \<Rightarrow> bool" where
  "gisdigit c \<longleftrightarrow> 48 \<le> c \<and> c \<le> 57"

definition gisalnum :: "int \<Rightarrow> bool" where
  "gisalnum c \<longleftrightarrow> gisdigit c \<or> 65 \<le> c \<and> c \<le> 90 \<or> 97 \<le> c \<and> c \<le> 122"

definition conv_digit :: "int \<Rightarrow> int \<Rightarrow> int" where
  "conv_digit base c =
     (if gisdigit c then c - 48
      else if 97 \<le> c \<and> c \<le> 102 then c - 97 + 10
      else if 65 \<le> c \<and> c \<le> 70 then c - 65 + 10
      else base)"

fun charConvert :: "int \<Rightarrow> nat \<Rightarrow> int \<Rightarrow> ej_t \<Rightarrow> int \<times> ej_t" where
  "charConvert base 0 lval ep = (lval, ep)"
| "charConvert base (Suc n) lval ep =
     (let (c, ep) = inputGetc ep in
      if c < 0 then (lval, ep)
      else if conv_digit base c \<ge> base then (lval, inputPutback c ep)
      else charConvert base n (lval * base + conv_digit base c) ep)"

lemma inputGetc_length: "inputGetc ep = (c, ep') \<Longrightarrow> length (script ep') = length (script ep) - 1 \<and> (c < 0 \<longleftrightarrow> script ep = [])"
  by (auto simp: inputGetc_def Let_def split: list.splits if_splits)

lemma inputGetc_less: "inputGetc ep = (c, ep') \<Longrightarrow> \<not> c < 0 \<Longrightarrow> length (script ep') < length (script ep)"
  using inputGetc_length [of ep c ep'] by (cases "script ep") auto

lemma inputPutback_length [simp]: "length (script (inputPutback c ep)) = length (script ep) + 1"
  by (simp add: inputPutback_def Let_def)

lemma tokenAddChar_script [simp]: "script (tokenAddChar c ep) = script ep"
  by (simp add: tokenAddChar_def Let_def)

lemma charConvert_length: "charConvert base n lval ep = (v, ep') \<Longrightarrow> length (script ep') \<le> length (script ep)"
proof (induction n arbitrary: lval ep)
  case (Suc n)
  obtain c ep1 where g: "inputGetc ep = (c, ep1)" by (cases "inputGetc ep")
  show ?case
    using Suc.prems Suc.IH [of "lval * base + conv_digit base c" ep1] inputGetc_length [OF g] inputGetc_less [OF g]
    by (auto simp: g split: if_splits)
qed simp

section \<open>The loops\<close>

text \<open>Comments: whether the end of the comment was found.\<close>

function skip_comment :: "int \<Rightarrow> ej_t \<Rightarrow> bool \<times> ej_t" where
  "skip_comment style ep =
     (let (c, ep1) = inputGetc ep in
      if c < 0 then (False, ejError ''Syntax Error'' ep1)
      else if c = 10 \<and> style = 47 then (True, ep1)
      else if c = 42 then
        let (c, ep2) = inputGetc ep1
        in if style = 47 then (if c = 10 then (True, ep2) else skip_comment style ep2)
           else if c = 47 then (True, ep2) else skip_comment style ep2
      else skip_comment style ep1)"
  by pat_completeness auto
termination
proof (relation "measure (\<lambda>(_, ep). length (script ep))", goal_cases)
  case (2 style ep x c1 ep1 y c2 ep2)
  then have g: "inputGetc ep = (c1, ep1)" "inputGetc ep1 = (c2, ep2)" by simp_all
  then show ?case using inputGetc_less [OF g(1) 2(3)] inputGetc_length [OF g(2)] by simp
next
  case (3 style ep x c1 ep1 y c2 ep2)
  then have g: "inputGetc ep = (c1, ep1)" "inputGetc ep1 = (c2, ep2)" by simp_all
  then show ?case using inputGetc_less [OF g(1) 3(3)] inputGetc_length [OF g(2)] by simp
next
  case (4 style ep x c1 ep1)
  then have "inputGetc ep = (c1, ep1)" by simp
  then show ?case using inputGetc_less 4(3) by simp
qed simp

declare skip_comment.simps [simp del]

text \<open>The character an escape sequence stands for.\<close>

definition escape :: "ej_t \<Rightarrow> (int \<times> ej_t) option" where
  "escape ep =
     (let (c, ep) = inputGetc ep in
      if gisdigit c then Some (charConvert 8 3 0 (inputPutback c ep))
      else if c = ch CHR ''n'' then Some (10, ep)
      else if c = ch CHR ''b'' then Some (8, ep)
      else if c = ch CHR ''f'' then Some (12, ep)
      else if c = ch CHR ''r'' then Some (13, ep)
      else if c = ch CHR ''t'' then Some (9, ep)
      else if c = ch CHR ''x'' then Some (charConvert 16 2 0 ep)
      else if c = ch CHR ''u'' then
        let (c, ep) = charConvert 16 2 0 ep; (d, ep) = charConvert 16 2 0 ep in Some (c * 16 + d, ep)
      else if c = 39 \<or> c = 34 \<or> c = 92 then Some (c, ep)
      else None)"

lemma escape_length: "escape ep = Some (c, ep') \<Longrightarrow> length (script ep') \<le> length (script ep)"
proof -
  assume e: "escape ep = Some (c, ep')"
  obtain c0 ep0 where g: "inputGetc ep = (c0, ep0)" by (cases "inputGetc ep")
  note l = inputGetc_length [OF g]
  have "\<not> gisdigit c0 \<or> length (script ep0) < length (script ep)" using inputGetc_less [OF g] by (auto simp: gisdigit_def)
  then show ?thesis
    using e l unfolding escape_def g
    by (auto simp: Let_def dest!: charConvert_length split: if_splits prod.splits)
qed

text \<open>The characters of a literal behind its quote; \<open>c\<close> is the one read last.\<close>

function string_loop :: "int \<Rightarrow> int \<Rightarrow> ej_t \<Rightarrow> int \<times> ej_t" where
  "string_loop quote c ep =
     (if c = quote then (TOK_LITERAL, ep)
      else
        case (if c = 92 then escape ep else Some (c, ep)) of
          None \<Rightarrow> (TOK_ERR, ejError ''Invalid Escape Sequence'' (snd (inputGetc ep)))
        | Some (c, ep1) \<Rightarrow>
            let (c, ep2) = inputGetc (tokenAddChar c ep1)
            in if c < 0 then (TOK_ERR, ejError ''Unmatched Quote'' ep2) else string_loop quote c ep2)"
  by pat_completeness auto
termination
proof (relation "measure (\<lambda>(_, _, ep). length (script ep))", goal_cases)
  case (2 quote c ep x c1 ep1 y c2 ep2)
  have "length (script ep1) \<le> length (script ep)" using 2(2,3) by (auto dest: escape_length split: if_splits)
  moreover have "length (script ep2) < length (script ep1)" using inputGetc_less [of "tokenAddChar c1 ep1" c2 ep2] 2(4-6) by simp
  ultimately show ?case by simp
qed simp

declare string_loop.simps [simp del]

text \<open>An identifier, and blanks behind it.\<close>

function ident_loop :: "int \<Rightarrow> ej_t \<Rightarrow> int \<times> ej_t" where
  "ident_loop c ep =
     (let ep = (if c = 92 then ep else tokenAddChar c ep);
          (c, ep) = inputGetc ep
      in if c < 0 then (c, ep)
         else if \<not> gisalnum c \<and> c \<noteq> 36 \<and> c \<noteq> 95 \<and> c \<noteq> 92 then (c, ep)
         else ident_loop c ep)"
  by pat_completeness auto
termination
proof (relation "measure (\<lambda>(_, ep). length (script ep))", goal_cases)
  case (2 c ep ep0 x c1 ep1)
  then have "inputGetc ep0 = (c1, ep1)" "length (script ep0) = length (script ep)" by auto
  then show ?case using inputGetc_less [of ep0 c1 ep1] 2(4) by simp
qed simp

declare ident_loop.simps [simp del]

function skip_blank :: "int set \<Rightarrow> int \<Rightarrow> ej_t \<Rightarrow> int \<times> ej_t" where
  "skip_blank B c ep =
     (if c \<in> B then let (c, ep) = inputGetc ep in if c < 0 then (c, ep) else skip_blank B c ep else (c, ep))"
  by pat_completeness auto
termination
proof (relation "measure (\<lambda>(_, _, ep). length (script ep))", goal_cases)
  case (2 B c ep x c1 ep1)
  then have "inputGetc ep = (c1, ep1)" by simp
  then show ?case using inputGetc_less 2(4) by simp
qed simp

declare skip_blank.simps [simp del]

lemma skip_blank_length:
  "skip_blank B c ep = (c', ep') \<Longrightarrow> c \<in> B \<Longrightarrow>
    length (script ep') \<le> length (script ep) \<and> (\<not> c' < 0 \<longrightarrow> length (script ep') < length (script ep))"
proof (induction B c ep rule: skip_blank.induct)
  case (1 B c ep)
  obtain c1 ep1 where g: "inputGetc ep = (c1, ep1)" by (cases "inputGetc ep")
  have s: "skip_blank B c ep = (if c1 < 0 then (c1, ep1) else skip_blank B c1 ep1)"
    using 1(3) by (simp add: skip_blank.simps [of B c ep] g)
  show ?case
  proof (cases "c1 < 0")
    case True
    then show ?thesis using s 1(2) inputGetc_length [OF g] by auto
  next
    case False
    note l = inputGetc_less [OF g False]
    show ?thesis
    proof (cases "c1 \<in> B")
      case True
      then show ?thesis using 1(1) [OF 1(3) g [symmetric] refl False] s 1(2) False l by auto
    next
      case notB: False
      then show ?thesis using s 1(2) False l by (auto simp: skip_blank.simps [of B c1 ep1])
    qed
  qed
qed

lemma skip_comment_length: "skip_comment style ep = (b, ep') \<Longrightarrow> length (script ep') \<le> length (script ep)"
proof (induction style ep rule: skip_comment.induct)
  case (1 style ep)
  obtain c1 ep1 where g: "inputGetc ep = (c1, ep1)" by (cases "inputGetc ep")
  obtain c2 ep2 where g2: "inputGetc ep1 = (c2, ep2)" by (cases "inputGetc ep1")
  have l: "length (script ep1) \<le> length (script ep)" "length (script ep2) \<le> length (script ep)"
    using inputGetc_length [OF g] inputGetc_length [OF g2] by auto
  show ?case
    using "1.prems" l 1(1) [OF g [symmetric] refl _ _ _ g2 [symmetric] refl] 1(2) [OF g [symmetric] refl _ _ _ g2 [symmetric] refl]
      1(3) [OF g [symmetric] refl]
    unfolding skip_comment.simps [of style ep] g
    by (auto simp: g2 ejError_def split: if_splits)
qed

section \<open>Tokens\<close>

definition reserved :: "bytes \<Rightarrow> int option" where
  "reserved t =
     (if t = map (\<lambda>c. word_of_int (ch c)) ''if'' then Some TOK_IF
      else if t = map (\<lambda>c. word_of_int (ch c)) ''else'' then Some TOK_ELSE
      else if t = map (\<lambda>c. word_of_int (ch c)) ''var'' then Some TOK_VAR
      else if t = map (\<lambda>c. word_of_int (ch c)) ''for'' then Some TOK_FOR
      else if t = map (\<lambda>c. word_of_int (ch c)) ''return'' then Some TOK_RETURN
      else None)"

text \<open>The default case: identifiers, numbers and reserved words.\<close>

definition lex_word :: "(bytes \<Rightarrow> bool) \<Rightarrow> int \<Rightarrow> int \<Rightarrow> ej_t \<Rightarrow> int \<times> ej_t" where
  "lex_word isInteger state c ep =
     (let (c, ep) = ident_loop c ep;
          b = (case tokbuf ep of [] \<Rightarrow> 0 | b # _ \<Rightarrow> uint b)
      in if isInteger (token ep) then (TOK_LITERAL, inputPutback c ep)
         else if \<not> gisalnum b \<and> b \<noteq> 36 \<and> b \<noteq> 95 then (TOK_ERR, ejError ''Invalid identifier'' ep)
         else case (if state = STATE_STMT then reserved (token ep) else None) of
           Some t \<Rightarrow>
             (t, if t = TOK_RETURN \<and> (c = ch CHR '';'' \<or> c = ch CHR ''('') then inputPutback c ep else ep)
         | None \<Rightarrow>
             let (c, ep) = skip_blank {32, 9, 13, 10} c ep
             in (if c = ch CHR ''('' then TOK_FUNCTION else TOK_ID, inputPutback c ep))"

text \<open>An operator of one character, or of two with the second one \<open>d\<close>.\<close>

definition one_or_two :: "int \<Rightarrow> int \<times> int \<Rightarrow> int \<times> int \<Rightarrow> ej_t \<Rightarrow> int \<times> ej_t" where
  "one_or_two d two one ep =
     (let (c, ep) = inputGetc ep in
      if c < 0 then (TOK_ERR, ejError ''Syntax Error'' ep)
      else if c = d then (fst two, tokenAddChar (snd two) ep)
      else (fst one, tokenAddChar (snd one) (inputPutback c ep)))"

text \<open>\<open><\<close> and \<open>>\<close>, with the shift and the comparison with equality.\<close>

definition less_or_shift :: "int \<Rightarrow> int \<Rightarrow> int \<Rightarrow> int \<Rightarrow> ej_t \<Rightarrow> int \<times> ej_t" where
  "less_or_shift d shift eq plain ep =
     (let (c, ep) = inputGetc ep in
      if c < 0 then (TOK_ERR, ejError ''Syntax Error'' ep)
      else if c = d then (TOK_EXPR, tokenAddChar shift ep)
      else if c = ch CHR ''='' then (TOK_EXPR, tokenAddChar eq ep)
      else (TOK_EXPR, inputPutback c (tokenAddChar plain ep)))"

definition logical :: "int \<Rightarrow> int \<Rightarrow> ej_t \<Rightarrow> int \<times> ej_t" where
  "logical d op ep =
     (let (c, ep) = inputGetc ep in
      if c < 0 \<or> c \<noteq> d then (TOK_ERR, ejError ''Syntax Error'' ep) else (TOK_LOGICAL, tokenAddChar op ep))"

function lex_loop :: "(bytes \<Rightarrow> bool) \<Rightarrow> int \<Rightarrow> int \<Rightarrow> ej_t \<Rightarrow> int \<times> ej_t" where
  "lex_loop isInteger state c ep =
     (if c < 0 then (TOK_EOF, ep)
      else if c \<in> {32, 9, 13} then
        let (c, ep) = skip_blank {32, 9, 13} c ep in lex_loop isInteger state c ep
      else if c = 10 then (TOK_NEWLINE, ep)
      else if c = ch CHR ''('' then (TOK_LPAREN, tokenAddChar c ep)
      else if c = ch CHR '')'' then (TOK_RPAREN, tokenAddChar c ep)
      else if c = ch CHR ''{'' then (TOK_LBRACE, tokenAddChar c ep)
      else if c = ch CHR ''}'' then (TOK_RBRACE, tokenAddChar c ep)
      else if c = ch CHR ''+'' then one_or_two c (TOK_INC_DEC, EXPR_INC) (TOK_EXPR, EXPR_PLUS) ep
      else if c = ch CHR ''-'' then one_or_two c (TOK_INC_DEC, EXPR_DEC) (TOK_EXPR, EXPR_MINUS) ep
      else if c = ch CHR ''*'' then (TOK_EXPR, tokenAddChar EXPR_MUL ep)
      else if c = ch CHR ''%'' then (TOK_EXPR, tokenAddChar EXPR_MOD ep)
      else if c = ch CHR ''/'' then
        let (c, ep) = inputGetc ep in
        if c < 0 then (TOK_ERR, ejError ''Syntax Error'' ep)
        else if c \<noteq> ch CHR ''*'' \<and> c \<noteq> ch CHR ''/'' then (TOK_EXPR, tokenAddChar EXPR_DIV (inputPutback c ep))
        else
          let (closed, ep) = skip_comment c ep in
          if \<not> closed then (TOK_ERR, ep)
          else let (c, ep) = inputGetc ep
               in if c < 0 then (TOK_EOF, ep) else lex_loop isInteger state c ep
      else if c = ch CHR ''<'' then less_or_shift c EXPR_LSHIFT EXPR_LESSEQ EXPR_LESS ep
      else if c = ch CHR ''>'' then less_or_shift c EXPR_RSHIFT EXPR_GREATEREQ EXPR_GREATER ep
      else if c = ch CHR ''='' then
        let (c, ep) = inputGetc ep in
        if c < 0 then (TOK_ERR, ejError ''Syntax Error'' ep)
        else if c = ch CHR ''='' then (TOK_EXPR, tokenAddChar EXPR_EQ ep)
        else (TOK_ASSIGNMENT, inputPutback c ep)
      else if c = ch CHR ''!'' then one_or_two (ch CHR ''='') (TOK_EXPR, EXPR_NOTEQ) (TOK_EXPR, EXPR_BOOL_COMP) ep
      else if c = ch CHR '';'' then (TOK_SEMI, tokenAddChar c ep)
      else if c = ch CHR '','' then (TOK_COMMA, tokenAddChar c ep)
      else if c = ch CHR ''|'' then logical c COND_OR ep
      else if c = ch CHR ''&'' then logical c COND_AND ep
      else if c = 34 \<or> c = 39 then
        let (d, ep) = inputGetc ep in
        if d < 0 then (TOK_ERR, ejError ''Syntax Error'' ep) else string_loop c d ep
      else lex_word isInteger state c ep)"
  by pat_completeness auto
termination
proof (relation "measure (\<lambda>(_, _, c, ep). 2 * length (script ep) + (if c < 0 then 0 else 1))", goal_cases)
  case (2 isInteger state c ep x c1 ep1)
  then have "skip_blank {32, 9, 13} c ep = (c1, ep1)" by simp
  from skip_blank_length [OF this 2(2)] show ?case using 2(1) by auto
next
  case (3 isInteger state c ep x c1 ep1 y closed ep2 z c2 ep3)
  then have g: "inputGetc ep = (c1, ep1)" "skip_comment c1 ep1 = (closed, ep2)" "inputGetc ep2 = (c2, ep3)" by simp_all
  have "\<not> c1 < 0" "\<not> c2 < 0" using 3 by simp_all
  then show ?case
    using inputGetc_less [OF g(1)] skip_comment_length [OF g(2)] inputGetc_less [OF g(3)] by auto
qed simp

declare lex_loop.simps [simp del]

definition getLexicalToken :: "(bytes \<Rightarrow> bool) \<Rightarrow> int \<Rightarrow> ej_t \<Rightarrow> int \<times> ej_t" where
  "getLexicalToken isInteger state ep =
     (let ep = ep\<lparr>tid := - 1, token := [], tokbuf := []\<rparr> in
      if putBackTokenId ep > 0 then
        let t = (case putBackToken ep of None \<Rightarrow> [] | Some t \<Rightarrow> t)
        in (putBackTokenId ep, ep\<lparr>tokbuf := t, token := t, putBackTokenId := 0\<rparr>)
      else
        let (c, ep) = inputGetc ep
        in if c < 0 then (TOK_EOF, ep) else lex_loop isInteger state c ep)"

definition ejLexGetToken :: "(bytes \<Rightarrow> bool) \<Rightarrow> int \<Rightarrow> ej_t \<Rightarrow> int \<times> ej_t" where
  "ejLexGetToken isInteger state ep =
     (let (t, ep) = getLexicalToken isInteger state ep in (t, ep\<lparr>tid := t\<rparr>))"

definition ejLexPutbackToken :: "int \<Rightarrow> bytes \<Rightarrow> ej_t \<Rightarrow> ej_t" where
  "ejLexPutbackToken t s ep = ep\<lparr>putBackTokenId := t, putBackToken := Some s\<rparr>"

definition ejLexOpenScript :: "bytes \<Rightarrow> ej_t \<Rightarrow> ej_t" where
  "ejLexOpenScript s ep =
     ep\<lparr>tokbuf := [], script := s, putBackToken := None, putBackTokenId := 0, line := [], lineLength := 0,
        lineNumber := 1, lineColumn := 0, line_fault := False\<rparr>"

text \<open>
  Saving and restoring the input. The ring queues are copied with their pointers; a token put back
  since is freed, and its pointer kept if the saved state has none.
\<close>

definition ejLexSaveInputState :: "ej_t \<Rightarrow> ejinput_t" where
  "ejLexSaveInputState ep = ejinput_t.truncate ep"

definition ejLexRestoreInputState :: "ejinput_t \<Rightarrow> ej_t \<Rightarrow> ej_t" where
  "ejLexRestoreInputState st ep =
     (let ep = ep\<lparr>tokbuf := tokbuf st, script := script st, putBackTokenId := putBackTokenId st\<rparr>
      in case putBackToken st of None \<Rightarrow> ep | Some t \<Rightarrow> ep\<lparr>putBackToken := Some t\<rparr>)"

text \<open>Closing frees the buffers; a saved state owns its copy of the token put back.\<close>

definition ejLexCloseScript :: "ej_t \<Rightarrow> ej_t" where
  "ejLexCloseScript ep = ep\<lparr>putBackToken := None, putBackTokenId := 0, line := [], tokbuf := [], script := []\<rparr>"

definition ejLexFreeInputState :: "ejinput_t \<Rightarrow> ejinput_t" where
  "ejLexFreeInputState s = s\<lparr>putBackToken := None\<rparr>"

section \<open>Reading\<close>

lemma ch_simps [simp]:
  "ch CHR ''('' = 40" "ch CHR '')'' = 41" "ch CHR ''{'' = 123" "ch CHR ''}'' = 125" "ch CHR ''+'' = 43" "ch CHR ''-'' = 45"
  "ch CHR ''*'' = 42" "ch CHR ''%'' = 37" "ch CHR ''/'' = 47" "ch CHR ''<'' = 60" "ch CHR ''>'' = 62" "ch CHR ''='' = 61"
  "ch CHR ''!'' = 33" "ch CHR '';'' = 59" "ch CHR '','' = 44" "ch CHR ''|'' = 124" "ch CHR ''&'' = 38"
  "ch CHR ''n'' = 110" "ch CHR ''b'' = 98" "ch CHR ''f'' = 102" "ch CHR ''r'' = 114" "ch CHR ''t'' = 116"
  "ch CHR ''x'' = 120" "ch CHR ''u'' = 117"
  by (simp_all add: ch_def)

lemma uint_numeral_10: "uint (10 :: u8) = 10"
  by simp

lemma uint_numeral_47: "uint (47 :: u8) = 47"
  by simp

lemma uint_numeral_40: "uint (40 :: u8) = 40"
  by simp

lemma getc_cons:
  assumes "script ep = b # r"
  obtains ep1 where "inputGetc ep = (uint b, ep1)" "script ep1 = r" "tokbuf ep1 = tokbuf ep" "token ep1 = token ep"
    "lineColumn ep1 = (if b = 10 then 0 else lineColumn ep + 1)" "putBackTokenId ep1 = putBackTokenId ep"
proof -
  have "uint b = 10 \<longleftrightarrow> b = 10" by (metis uint_numeral_10 word_uint_eq_iff)
  then show ?thesis using that assms by (auto simp: inputGetc_def Let_def)
qed

lemma getc_nil: "script ep = [] \<Longrightarrow> inputGetc ep = (- 1, ep)"
  by (simp add: inputGetc_def)

section \<open>Literals\<close>

text \<open>A printer for literals: printable characters as they are, all others in octal.\<close>

definition plain :: "u8 \<Rightarrow> bool" where
  "plain b \<longleftrightarrow> 32 \<le> unat b \<and> unat b \<le> 126 \<and> b \<noteq> 34 \<and> b \<noteq> 39 \<and> b \<noteq> 92"

definition octal :: "u8 \<Rightarrow> bytes" where
  "octal b = [of_nat (48 + unat b div 64), of_nat (48 + unat b div 8 mod 8), of_nat (48 + unat b mod 8)]"

definition quote_byte :: "u8 \<Rightarrow> bytes" where
  "quote_byte b = (if plain b then [b] else 92 # octal b)"

lemma unat_byte: "unat (b :: u8) < 256"
  using unsigned_less [of b, where 'a = nat] by simp

lemma octal_digit:
  assumes "x < 8"
  shows "uint (of_nat (48 + x) :: u8) = 48 + int x" "conv_digit 8 (48 + int x) = int x" "gisdigit (48 + int x)"
proof -
  have "unat (of_nat (48 + x) :: u8) = 48 + x" unfolding unat_of_nat using assms by simp
  then show "uint (of_nat (48 + x) :: u8) = 48 + int x" by (simp only: uint_nat of_nat_add of_nat_numeral)
qed (use assms in \<open>simp_all add: conv_digit_def gisdigit_def\<close>)

lemma octal_step:
  assumes "script ep = of_nat (48 + x) # r" "x < 8"
  obtains ep1 where "charConvert 8 (Suc n) v ep = charConvert 8 n (v * 8 + int x) ep1" "script ep1 = r" "tokbuf ep1 = tokbuf ep"
proof -
  obtain ep1 where "inputGetc ep = (48 + int x, ep1)" "script ep1 = r" "tokbuf ep1 = tokbuf ep"
    using getc_cons [OF assms(1)] octal_digit(1) [OF assms(2)] by metis
  then show ?thesis using that octal_digit [OF assms(2)] assms(2) by simp
qed

lemma octal_value: "n < 256 \<Longrightarrow> (n div 64 * 8 + n div 8 mod 8) * 8 + n mod 8 = (n :: nat)"
proof -
  have "n div 64 = n div 8 div 8" by (simp flip: div_mult2_eq)
  then have "n div 64 * 8 + n div 8 mod 8 = n div 8" by simp
  then show ?thesis by simp
qed

lemma charConvert_octal:
  assumes "script ep = octal b @ r"
  obtains ep1 where "charConvert 8 3 0 ep = (uint b, ep1)" "script ep1 = r" "tokbuf ep1 = tokbuf ep"
proof -
  define x2 x1 x0 where x: "x2 = unat b div 64" "x1 = unat b div 8 mod 8" "x0 = unat b mod 8"
  have lt: "unat b < 256" by (rule unat_byte)
  have d: "x2 < 8" "x1 < 8" "x0 < 8" using lt by (auto simp: x)
  have s: "script ep = of_nat (48 + x2) # of_nat (48 + x1) # of_nat (48 + x0) # r" using assms by (simp add: octal_def x)
  have v: "(x2 * 8 + x1) * 8 + x0 = unat b" using octal_value [OF lt] by (simp add: x)
  obtain e1 where e1: "charConvert 8 (Suc (Suc (Suc 0))) 0 ep = charConvert 8 (Suc (Suc 0)) (0 * 8 + int x2) e1"
      "script e1 = of_nat (48 + x1) # of_nat (48 + x0) # r" "tokbuf e1 = tokbuf ep"
    using octal_step [OF s d(1)] .
  obtain e2 where e2: "charConvert 8 (Suc (Suc 0)) (0 * 8 + int x2) e1 = charConvert 8 (Suc 0) ((0 * 8 + int x2) * 8 + int x1) e2"
      "script e2 = of_nat (48 + x0) # r" "tokbuf e2 = tokbuf e1"
    using octal_step [OF e1(2) d(2)] .
  obtain e3 where e3: "charConvert 8 (Suc 0) ((0 * 8 + int x2) * 8 + int x1) e2 = charConvert 8 0 (((0 * 8 + int x2) * 8 + int x1) * 8 + int x0) e3"
      "script e3 = r" "tokbuf e3 = tokbuf e2"
    using octal_step [OF e2(2) d(3)] .
  have val: "((0 * 8 + int x2) * 8 + int x1) * 8 + int x0 = uint b" unfolding uint_nat v [symmetric] by simp
  have "charConvert 8 3 0 ep = (uint b, e3)"
    unfolding numeral_3_eq_3 e1(1) e2(1) e3(1) by (simp only: charConvert.simps(1) val)
  then show ?thesis using that e1(3) e2(3) e3(2,3) by simp
qed

lemma escape_octal:
  assumes "script ep = octal b @ r"
  obtains ep1 where "escape ep = Some (uint b, ep1)" "script ep1 = r" "tokbuf ep1 = tokbuf ep"
proof -
  have x: "unat b div 64 < 8" using unat_byte [of b] by simp
  define c :: u8 where "c = of_nat (48 + unat b div 64)"
  have s: "script ep = c # tl (octal b) @ r" using assms by (simp add: octal_def c_def)
  obtain e0 where e0: "inputGetc ep = (uint c, e0)" "script e0 = tl (octal b) @ r" "tokbuf e0 = tokbuf ep"
    using getc_cons [OF s] by metis
  have pb: "script (inputPutback (uint c) e0) = octal b @ r" "tokbuf (inputPutback (uint c) e0) = tokbuf ep"
    using e0 by (simp_all add: inputPutback_def Let_def octal_def c_def)
  obtain e1 where "charConvert 8 3 0 (inputPutback (uint c) e0) = (uint b, e1)" "script e1 = r" "tokbuf e1 = tokbuf ep"
    using charConvert_octal [OF pb(1)] pb(2) by metis
  moreover have "gisdigit (uint c)" using octal_digit(1,3) [OF x] by (simp add: c_def)
  ultimately show ?thesis using that e0(1) by (simp add: escape_def)
qed

lemma uint_numeral_ne: "uint (x :: u8) = 34 \<longleftrightarrow> x = 34" "uint (x :: u8) = 92 \<longleftrightarrow> x = 92"
proof -
  have "uint (34 :: u8) = 34" "uint (92 :: u8) = 92" by simp_all
  then show "uint (x :: u8) = 34 \<longleftrightarrow> x = 34" "uint (x :: u8) = 92 \<longleftrightarrow> x = 92" by (metis word_uint_eq_iff)+
qed

lemma quote_byte_step:
  assumes "script ep = tl (quote_byte x) @ r"
  obtains ep1 where "(if uint (hd (quote_byte x)) = 92 then escape ep else Some (uint (hd (quote_byte x)), ep)) = Some (uint x, ep1)"
    "script ep1 = r" "tokbuf ep1 = tokbuf ep" "uint (hd (quote_byte x)) \<noteq> 34"
proof (cases "plain x")
  case True
  have "uint x \<noteq> 34" "uint x \<noteq> 92" using True uint_numeral_ne [of x] by (auto simp: plain_def)
  then show ?thesis using that assms True by (simp add: quote_byte_def)
next
  case False
  then have "script ep = octal x @ r" using assms by (simp add: quote_byte_def)
  then obtain ep1 where "escape ep = Some (uint x, ep1)" "script ep1 = r" "tokbuf ep1 = tokbuf ep" using escape_octal by blast
  then show ?thesis using that False by (simp add: quote_byte_def)
qed

lemma tokenAddChar_byte: "tokbuf (tokenAddChar (uint x) ep) = tokbuf ep @ [x]" "token (tokenAddChar (uint x) ep) = tokbuf ep @ [x]"
  by (simp_all add: tokenAddChar_def Let_def)

lemma string_loop_quoted:
  assumes "concat (map quote_byte s) @ 34 # rest = b # r" "script ep = r"
  shows "\<exists>ep'. string_loop 34 (uint b) ep = (TOK_LITERAL, ep') \<and> tokbuf ep' = tokbuf ep @ s \<and> script ep' = rest"
  using assms
proof (induction s arbitrary: b r ep)
  case Nil
  then show ?case by (auto simp: string_loop.simps [of 34 34])
next
  case (Cons x s)
  have ne: "quote_byte x \<noteq> []" by (simp add: quote_byte_def)
  obtain b' r' where tail: "concat (map quote_byte s) @ 34 # rest = b' # r'" by (cases "concat (map quote_byte s) @ 34 # rest") auto
  have b: "b = hd (quote_byte x)" "r = tl (quote_byte x) @ b' # r'"
    using Cons.prems(1) ne tail by (cases "quote_byte x"; auto)+
  obtain ep1 where e: "(if uint b = 92 then escape ep else Some (uint b, ep)) = Some (uint x, ep1)" "script ep1 = b' # r'"
      "tokbuf ep1 = tokbuf ep" "uint b \<noteq> 34"
    using quote_byte_step [of ep x "b' # r'"] Cons.prems(2) b by metis
  have "script (tokenAddChar (uint x) ep1) = b' # r'" using e(2) by simp
  then obtain ep2 where g: "inputGetc (tokenAddChar (uint x) ep1) = (uint b', ep2)" "script ep2 = r'" "tokbuf ep2 = tokbuf ep @ [x]"
    using getc_cons e(3) by (metis tokenAddChar_byte(1))
  have "string_loop 34 (uint b) ep = string_loop 34 (uint b') ep2"
    unfolding string_loop.simps [of 34 "uint b" ep] e(1) using e(4) g(1) by (simp add: linorder_not_less)
  then show ?case using Cons.IH [OF tail g(2)] g(3) by simp
qed

text \<open>
  C26: A literal is read back as it was printed: for every text, its printed form between double
  quotes gives one literal token with exactly that text, and the rest of the script is left.
\<close>

theorem literal_roundtrip:
  assumes "script ep = 34 # concat (map quote_byte s) @ 34 # rest" "putBackTokenId ep \<le> 0"
  shows "\<exists>ep'. getLexicalToken isInteger state ep = (TOK_LITERAL, ep') \<and> tokbuf ep' = s \<and> script ep' = rest"
proof -
  let ?ep = "ep\<lparr>tid := - 1, token := [], tokbuf := []\<rparr>"
  have "script ?ep = 34 # concat (map quote_byte s) @ 34 # rest" using assms by simp
  then obtain e1 where e1: "inputGetc ?ep = (uint (34 :: u8), e1)" "script e1 = concat (map quote_byte s) @ 34 # rest" "tokbuf e1 = []"
    using getc_cons [of ?ep] by (metis (no_types, lifting) ej_t.select_convs ejinput_t.select_convs(1) ejinput_t.surjective ejinput_t.update_convs(1))
  obtain b r where tail: "concat (map quote_byte s) @ 34 # rest = b # r" by (cases "concat (map quote_byte s) @ 34 # rest") auto
  obtain e2 where e2: "inputGetc e1 = (uint b, e2)" "script e2 = r" "tokbuf e2 = []"
    using getc_cons [of e1 b r] e1(2,3) tail by metis
  have "lex_loop isInteger state 34 e1 = string_loop 34 (uint b) e2"
    using e2(1) by (simp add: lex_loop.simps [of isInteger state 34] linorder_not_less)
  then show ?thesis using e1(1) string_loop_quoted [OF tail e2(2)] e2(3) assms(2)
    by (simp add: getLexicalToken_def Let_def)
qed

section \<open>Words\<close>

definition idchar :: "u8 \<Rightarrow> bool" where
  "idchar b \<longleftrightarrow> gisalnum (uint b) \<or> uint b = 36 \<or> uint b = 95"

text \<open>A character that ends a word.\<close>

definition ends_word :: "u8 \<Rightarrow> bool" where
  "ends_word d \<longleftrightarrow> \<not> idchar d \<and> uint d \<noteq> 92"

lemma idchar_range: "idchar b \<Longrightarrow> 36 \<le> uint b \<and> uint b \<notin> {37..47} \<and> uint b \<notin> {58..64} \<and> uint b \<notin> {91..94} \<and> uint b \<le> 122"
  by (auto simp: idchar_def gisalnum_def gisdigit_def)

lemma lex_loop_word:
  assumes "idchar b"
  shows "lex_loop isInteger st (uint b) ep = lex_word isInteger st (uint b) ep"
proof -
  define c where "c = uint b"
  have "\<not> c < 0" "c \<notin> {32, 9, 13}" "c \<notin> {10, 40, 41, 123, 125, 43, 45, 42, 37, 47, 60, 62, 61, 33, 59, 44, 124, 38, 34, 39}"
    using idchar_range [OF assms] by (auto simp: c_def)
  then have "lex_loop isInteger st c ep = lex_word isInteger st c ep"
    by (subst lex_loop.simps) (simp del: insert_iff add: insert_iff)
  then show ?thesis by (simp add: c_def)
qed

lemma ident_loop_step:
  assumes "script ep = x # r" "uint b \<noteq> 92" "idchar x"
  obtains ep1 where "ident_loop (uint b) ep = ident_loop (uint x) ep1" "script ep1 = r" "tokbuf ep1 = tokbuf ep @ [b]"
proof -
  have "script (tokenAddChar (uint b) ep) = x # r" using assms(1) by simp
  then obtain ep1 where "inputGetc (tokenAddChar (uint b) ep) = (uint x, ep1)" "script ep1 = r" "tokbuf ep1 = tokbuf ep @ [b]"
    using getc_cons by (metis tokenAddChar_byte(1))
  then show ?thesis using that assms(2,3)
    by (subst (asm) ident_loop.simps) (auto simp: idchar_def linorder_not_less)
qed

lemma ident_loop_end:
  assumes "script ep = d # r" "uint b \<noteq> 92" "ends_word d"
  obtains ep1 where "ident_loop (uint b) ep = (uint d, ep1)" "script ep1 = r" "tokbuf ep1 = tokbuf ep @ [b]"
    "token ep1 = tokbuf ep1" "d = 10 \<Longrightarrow> lineColumn ep1 = 0"
proof -
  have "script (tokenAddChar (uint b) ep) = d # r" using assms(1) by simp
  then obtain ep1 where "inputGetc (tokenAddChar (uint b) ep) = (uint d, ep1)" "script ep1 = r" "tokbuf ep1 = tokbuf ep @ [b]"
      "token ep1 = tokbuf ep @ [b]" "d = 10 \<Longrightarrow> lineColumn ep1 = 0"
    using getc_cons by (metis tokenAddChar_byte)
  then show ?thesis using that assms(2,3)
    by (subst (asm) ident_loop.simps) (auto simp: idchar_def ends_word_def linorder_not_less)
qed

lemma ident_loop_eof:
  assumes "script ep = []" "uint b \<noteq> 92"
  obtains ep1 where "ident_loop (uint b) ep = (- 1, ep1)" "script ep1 = []" "tokbuf ep1 = tokbuf ep @ [b]" "token ep1 = tokbuf ep1"
proof -
  have "inputGetc (tokenAddChar (uint b) ep) = (- 1, tokenAddChar (uint b) ep)" using assms(1) by (simp add: getc_nil)
  then have "ident_loop (uint b) ep = (- 1, tokenAddChar (uint b) ep)" using assms(2) by (subst ident_loop.simps) simp
  then show ?thesis using that [of "tokenAddChar (uint b) ep"] assms tokenAddChar_byte [of b ep] by simp
qed

lemma ident_loop_word:
  assumes "list_all idchar w" "uint b \<noteq> 92" "script ep = w @ r"
  shows "\<exists>ep1 c. ident_loop (uint b) ep = ident_loop (uint c) ep1 \<and> uint c \<noteq> 92 \<and> script ep1 = r \<and> tokbuf ep1 @ [c] = tokbuf ep @ b # w"
  using assms
proof (induction w arbitrary: b ep)
  case Nil
  then show ?case by auto
next
  case (Cons x w)
  obtain ep1 where e: "ident_loop (uint b) ep = ident_loop (uint x) ep1" "script ep1 = w @ r" "tokbuf ep1 = tokbuf ep @ [b]"
    using ident_loop_step [of ep x "w @ r" b] Cons.prems by auto
  have "uint x \<noteq> 92" using Cons.prems(1) idchar_range [of x] by auto
  then show ?case using Cons.IH [of x ep1] Cons.prems(1) e by auto
qed

lemma putBackTokenId_getc [simp]: "inputGetc ep = (c, ep1) \<Longrightarrow> putBackTokenId ep1 = putBackTokenId ep"
  by (auto simp: inputGetc_def Let_def split: list.splits if_splits)

lemma putBackTokenId_ident: "ident_loop c ep = (c1, ep1) \<Longrightarrow> putBackTokenId ep1 = putBackTokenId ep"
proof (induction c ep rule: ident_loop.induct)
  case (1 c ep)
  define e0 where "e0 = (if c = 92 then ep else tokenAddChar c ep)"
  obtain c2 e2 where g: "inputGetc e0 = (c2, e2)" by (cases "inputGetc e0")
  have p: "putBackTokenId e2 = putBackTokenId ep"
    using putBackTokenId_getc [OF g] by (auto simp: e0_def tokenAddChar_def Let_def)
  have "ident_loop c ep = (if c2 < 0 \<or> \<not> gisalnum c2 \<and> c2 \<noteq> 36 \<and> c2 \<noteq> 95 \<and> c2 \<noteq> 92 then (c2, e2) else ident_loop c2 e2)"
    by (subst ident_loop.simps) (simp add: e0_def [symmetric] g)
  then show ?case using 1(1) [OF e0_def g [symmetric] refl] 1(2) p by (auto split: if_splits)
qed

lemma word_start:
  assumes "script ep = b # r" "putBackTokenId ep \<le> 0" "idchar b"
  obtains ep1 where "getLexicalToken isInteger st ep = lex_word isInteger st (uint b) ep1" "script ep1 = r" "tokbuf ep1 = []"
    "putBackTokenId ep1 = putBackTokenId ep"
proof -
  let ?ep = "ep\<lparr>tid := - 1, token := [], tokbuf := []\<rparr>"
  have "script ?ep = b # r" using assms(1) by simp
  then obtain ep1 where "inputGetc ?ep = (uint b, ep1)" "script ep1 = r" "tokbuf ep1 = tokbuf ?ep" using getc_cons [of ?ep b r] by blast
  then show ?thesis using that assms(2) lex_loop_word [OF assms(3)] putBackTokenId_getc [of ?ep] by (simp add: getLexicalToken_def Let_def linorder_not_less)
qed

lemma word_read:
  assumes "script ep = b # w @ d # rest" "putBackTokenId ep \<le> 0" "idchar b" "list_all idchar w" "ends_word d"
  obtains ep1 where "script ep1 = rest" "tokbuf ep1 = b # w" "token ep1 = b # w" "d = 10 \<Longrightarrow> lineColumn ep1 = 0"
    "putBackTokenId ep1 = putBackTokenId ep"
    "getLexicalToken isInteger st ep =
      (if isInteger (b # w) then (TOK_LITERAL, inputPutback (uint d) ep1)
       else case (if st = STATE_STMT then reserved (b # w) else None) of
         Some t \<Rightarrow> (t, if t = TOK_RETURN \<and> (uint d = 59 \<or> uint d = 40) then inputPutback (uint d) ep1 else ep1)
       | None \<Rightarrow> let (c, ep2) = skip_blank {32, 9, 13, 10} (uint d) ep1
                  in (if c = 40 then TOK_FUNCTION else TOK_ID, inputPutback c ep2))"
proof -
  obtain e0 where e0: "getLexicalToken isInteger st ep = lex_word isInteger st (uint b) e0" "script e0 = w @ d # rest" "tokbuf e0 = []"
      "putBackTokenId e0 = putBackTokenId ep"
    using word_start [OF assms(1-3)] .
  have b92: "uint b \<noteq> 92" using idchar_range [OF assms(3)] by auto
  obtain e1 c where e1: "ident_loop (uint b) e0 = ident_loop (uint c) e1" "uint c \<noteq> 92" "script e1 = d # rest" "tokbuf e1 @ [c] = b # w"
    using ident_loop_word [OF assms(4) b92 e0(2)] e0(3) by auto
  obtain e2 where e2: "ident_loop (uint c) e1 = (uint d, e2)" "script e2 = rest" "tokbuf e2 = b # w" "token e2 = b # w"
      "d = 10 \<Longrightarrow> lineColumn e2 = 0"
    using ident_loop_end [OF e1(3,2) assms(5)] e1(4) by metis
  have ok: "gisalnum (uint b) \<or> uint b = 36 \<or> uint b = 95" using assms(3) by (simp add: idchar_def)
  have pb: "putBackTokenId e2 = putBackTokenId ep" using putBackTokenId_ident [of "uint b" e0] e1(1) e2(1) e0(4) by simp
  show ?thesis
    by (rule that [OF e2(2-5) pb], assumption)
      (use ok in \<open>auto simp: e0(1) lex_word_def e1(1) e2 split: option.splits\<close>)
qed

lemma skip_blank_blanks:
  assumes "bl @ [e] = d # ds" "\<forall>x\<in>set bl. uint x \<in> B" "uint e \<notin> B" "script ep = ds @ rest"
  shows "\<exists>ep1. skip_blank B (uint d) ep = (uint e, ep1) \<and> script ep1 = rest \<and> tokbuf ep1 = tokbuf ep \<and> token ep1 = token ep"
  using assms
proof (induction bl arbitrary: d ds ep)
  case Nil
  then show ?case by (auto simp: skip_blank.simps [of B "uint d"])
next
  case (Cons x bl)
  obtain y ys where y: "bl @ [e] = y # ys" by (cases "bl @ [e]") auto
  then have "script ep = y # ys @ rest" using Cons.prems by auto
  then obtain ep1 where g: "inputGetc ep = (uint y, ep1)" "script ep1 = ys @ rest" "tokbuf ep1 = tokbuf ep" "token ep1 = token ep"
    using getc_cons by metis
  have "skip_blank B (uint d) ep = skip_blank B (uint y) ep1"
    using Cons.prems g(1) by (subst skip_blank.simps) (auto simp: linorder_not_less)
  then show ?case using Cons.IH [OF y _ _ g(2)] Cons.prems g(3,4) by simp
qed

text \<open>
  A word that is no number and no reserved word, followed by any blanks and another character, is
  one token with exactly that text: a function if that character is an opening parenthesis, and an
  identifier otherwise; the script is left at that character.
\<close>

theorem word_token:
  assumes "script ep = b # w @ blanks @ e # rest" "putBackTokenId ep \<le> 0" "idchar b" "list_all idchar w" "\<not> isInteger (b # w)"
    and "st \<noteq> STATE_STMT \<or> reserved (b # w) = None"
    and "\<forall>x\<in>set blanks. uint x \<in> {32, 9, 13, 10}" "uint e \<notin> {32, 9, 13, 10}" "blanks = [] \<longrightarrow> ends_word e"
  shows "\<exists>ep'. getLexicalToken isInteger st ep = (if e = 40 then TOK_FUNCTION else TOK_ID, ep') \<and>
    token ep' = b # w \<and> script ep' = e # rest"
proof -
  obtain d ds where d: "blanks @ [e] = d # ds" by (cases "blanks @ [e]") auto
  have s: "script ep = b # w @ d # ds @ rest" using assms(1) d by (metis append_Cons append_assoc append_Nil)
  have "ends_word d"
    using assms(7,9) d by (cases blanks) (auto simp: ends_word_def idchar_def gisalnum_def gisdigit_def)
  note r = word_read [OF s assms(2-4) this, of isInteger st]
  have none: "(if st = STATE_STMT then reserved (b # w) else None) = None" using assms(6) by auto
  obtain e1 where e1: "script e1 = ds @ rest" "token e1 = b # w"
    "getLexicalToken isInteger st ep = (let (c, ep2) = skip_blank {32, 9, 13, 10} (uint d) e1
       in (if c = 40 then TOK_FUNCTION else TOK_ID, inputPutback c ep2))"
    by (rule r, unfold none) (use assms(5) in simp)
  obtain e2 where "skip_blank {32, 9, 13, 10} (uint d) e1 = (uint e, e2)" "script e2 = rest" "token e2 = b # w"
    using skip_blank_blanks [OF d assms(7,8) e1(1)] e1(2) by auto
  moreover have "uint e = 40 \<longleftrightarrow> e = 40" by (metis uint_numeral_40 word_uint_eq_iff)
  ultimately show ?thesis using e1(3) by (auto simp: inputPutback_def Let_def)
qed

section \<open>Ends of lines and of the script\<close>

lemma lex_other:
  assumes "c > 125"
  shows "lex_loop isInteger st c ep = lex_word isInteger st c ep"
  using assms by (subst lex_loop.simps) simp

text \<open>
  An identifier that ends the script is returned, but the end of the input is put back as a
  character: \<open>char\<close> is unsigned on the target, so the next token is an error and not the end of the script.
\<close>

theorem word_at_end_of_script:
  assumes "script ep = b # w" "putBackTokenId ep \<le> 0" "idchar b" "list_all idchar w"
    and "\<not> isInteger (b # w)" "\<not> isInteger [255]" "st \<noteq> STATE_STMT \<or> reserved (b # w) = None"
  shows "\<exists>ep1 ep2. getLexicalToken isInteger st ep = (TOK_ID, ep1) \<and> token ep1 = b # w \<and> script ep1 = [255] \<and>
    getLexicalToken isInteger st ep1 = (TOK_ERR, ep2)"
proof -
  let ?ep = "ep\<lparr>tid := - 1, token := [], tokbuf := []\<rparr>"
  have "script ?ep = b # w" using assms(1) by simp
  then obtain e0 where e0: "inputGetc ?ep = (uint b, e0)" "script e0 = w" "tokbuf e0 = tokbuf ?ep" using getc_cons by blast
  have p0: "putBackTokenId e0 \<le> 0" using putBackTokenId_getc [OF e0(1)] assms(2) by simp
  have b92: "uint b \<noteq> 92" using idchar_range [OF assms(3)] by auto
  obtain e1 c where e1: "ident_loop (uint b) e0 = ident_loop (uint c) e1" "uint c \<noteq> 92" "script e1 = []" "tokbuf e1 @ [c] = b # w"
    using ident_loop_word [OF assms(4) b92, of e0 "[]"] e0(2,3) by auto
  obtain e2 where e2: "ident_loop (uint c) e1 = (- 1, e2)" "script e2 = []" "tokbuf e2 = b # w" "token e2 = b # w"
    using ident_loop_eof [OF e1(3,2)] e1(4) by metis
  have p2: "putBackTokenId e2 \<le> 0" using putBackTokenId_ident [of "uint b" e0] e1(1) e2(1) p0 by simp
  define e3 where "e3 = inputPutback (- 1) e2"
  have e3: "script e3 = [255]" "token e3 = b # w" "putBackTokenId e3 \<le> 0" using e2 p2 by (simp_all add: e3_def inputPutback_def Let_def)
  have ok: "gisalnum (uint b) \<or> uint b = 36 \<or> uint b = 95" using assms(3) by (simp add: idchar_def)
  have none: "(if st = STATE_STMT then reserved (b # w) else None) = None" using assms(7) by auto
  have "getLexicalToken isInteger st ep = lex_word isInteger st (uint b) e0"
    using assms(2) e0(1) lex_loop_word [OF assms(3)] by (simp add: getLexicalToken_def Let_def linorder_not_less)
  also have "\<dots> = (TOK_ID, e3)"
  proof (cases "st = STATE_STMT")
    case True
    then show ?thesis using ok none assms(5)
      by (simp add: lex_word_def Let_def e1(1) e2 e3_def skip_blank.simps [of "{32, 9, 13, 10}" "- 1"])
  next
    case False
    then show ?thesis using ok assms(5)
      by (simp add: lex_word_def Let_def e1(1) e2 e3_def skip_blank.simps [of "{32, 9, 13, 10}" "- 1"])
  qed
  finally have first: "getLexicalToken isInteger st ep = (TOK_ID, e3)" .
  let ?e3 = "e3\<lparr>tid := - 1, token := [], tokbuf := []\<rparr>"
  have "script ?e3 = [255]" using e3(1) by simp
  then obtain f0 where f0: "inputGetc ?e3 = (255, f0)" "script f0 = []" "tokbuf f0 = tokbuf ?e3" using getc_cons [of ?e3 255 "[]"] by auto
  obtain f1 where f1: "ident_loop 255 f0 = (- 1, f1)" "tokbuf f1 = [255]" "token f1 = [255]"
    using ident_loop_eof [OF f0(2), of 255] f0(3) by auto
  have "getLexicalToken isInteger st e3 = lex_word isInteger st 255 f0"
    using e3(3) f0(1) lex_other [of 255] by (simp add: getLexicalToken_def Let_def)
  also have "\<dots> = (TOK_ERR, ejError ''Invalid identifier'' f1)"
    using assms(6) by (simp add: lex_word_def f1 gisalnum_def gisdigit_def)
  finally show ?thesis using first e3 by blast
qed

lemma number_line_fault:
  assumes "script ep = b # w @ 10 # rest" "putBackTokenId ep \<le> 0" "idchar b" "list_all idchar w" "isInteger (b # w)"
  shows "\<exists>ep'. getLexicalToken isInteger st ep = (TOK_LITERAL, ep') \<and> line_fault ep' \<and> lineColumn ep' = - 1"
proof -
  have "ends_word 10" by (simp add: ends_word_def idchar_def gisalnum_def gisdigit_def)
  then obtain ep1 where "lineColumn ep1 = 0" "getLexicalToken isInteger st ep = (TOK_LITERAL, inputPutback 10 ep1)"
    using word_read [OF assms(1-4), of isInteger st] assms(5) by (metis uint_numeral_10)
  then show ?thesis by (simp add: inputPutback_def Let_def)
qed

text \<open>
  A number at the end of a line makes the analyser write before the start of its line buffer:
  the newline is put back when the column has just been set to zero.
\<close>

theorem number_at_end_of_line:
  assumes "script ep = b # w @ 10 # rest" "putBackTokenId ep \<le> 0" "idchar b" "list_all idchar w" "isInteger (b # w)"
  shows "\<exists>ep'. getLexicalToken isInteger st ep = (TOK_LITERAL, ep') \<and> line_fault ep' \<and> lineColumn ep' = - 1"
  using assms by (rule number_line_fault)

text \<open>A comment ends with the first star and slash behind text without stars, but not if a second star precedes them.\<close>

lemma skip_comment_text:
  assumes "\<forall>x\<in>set t. uint x \<noteq> 42" "script ep = t @ r"
  shows "\<exists>ep1. skip_comment 42 ep = skip_comment 42 ep1 \<and> script ep1 = r"
  using assms
proof (induction t arbitrary: ep)
  case (Cons x t)
  obtain e1 where g: "inputGetc ep = (uint x, e1)" "script e1 = t @ r" using getc_cons [of ep x "t @ r"] Cons.prems(2) by auto
  have "skip_comment 42 ep = skip_comment 42 e1" using Cons.prems(1) g(1) by (subst skip_comment.simps) (simp add: linorder_not_less)
  then show ?case using Cons.IH [of e1] Cons.prems(1) g(2) by auto
qed auto

lemma skip_comment_star:
  assumes "script ep = 42 # y # r"
  shows "\<exists>ep1. skip_comment 42 ep = (if y = 47 then (True, ep1) else skip_comment 42 ep1) \<and> script ep1 = r"
proof -
  obtain e1 where g: "inputGetc ep = (42, e1)" "script e1 = y # r" using getc_cons [OF assms] by auto
  obtain e2 where g2: "inputGetc e1 = (uint y, e2)" "script e2 = r" using getc_cons [OF g(2)] by auto
  have "uint y = 47 \<longleftrightarrow> y = 47" by (metis uint_numeral_47 word_uint_eq_iff)
  then show ?thesis using g(1) g2 by (subst skip_comment.simps) auto
qed

lemma comment_closed:
  assumes "\<forall>x\<in>set t. uint x \<noteq> 42" "script ep = t @ 42 # 47 # rest"
  shows "\<exists>ep1. skip_comment 42 ep = (True, ep1) \<and> script ep1 = rest"
  using skip_comment_text [OF assms] skip_comment_star [of _ 47 rest] by metis

lemma comment_double_star:
  assumes "\<forall>x\<in>set t. uint x \<noteq> 42" "script ep = t @ 42 # 42 # 47 # rest"
  shows "\<exists>ep1. skip_comment 42 ep = skip_comment 42 ep1 \<and> script ep1 = rest"
proof -
  obtain e1 where e1: "skip_comment 42 ep = skip_comment 42 e1" "script e1 = 42 # 42 # 47 # rest" using skip_comment_text [OF assms] by auto
  obtain e2 where e2: "skip_comment 42 e1 = skip_comment 42 e2" "script e2 = 47 # rest"
    using skip_comment_star [OF e1(2)] by auto
  have "\<exists>ep1. skip_comment 42 e2 = skip_comment 42 ep1 \<and> script ep1 = rest" by (rule skip_comment_text [of "[47]"]) (use e2(2) in simp_all)
  then show ?thesis using e1(1) e2(1) by simp
qed

section \<open>Samples\<close>

definition lexer :: "bytes \<Rightarrow> ej_t" where
  "lexer s = \<lparr>tokbuf = [], script = s, putBackToken = None, putBackTokenId = 0, line = [], lineLength = 0,
              lineNumber = 1, lineColumn = 0, line_fault = False, error = None, token = [], tid = 0\<rparr>"

lemma lexer_sel [simp]: "script (lexer s) = s" "putBackTokenId (lexer s) = 0"
  by (simp_all add: lexer_def)

definition numeric :: "bytes \<Rightarrow> bool" where
  "numeric s = list_all (\<lambda>b. 48 \<le> b \<and> b \<le> 57) s"

theorem literal_roundtrip_witness:
  "\<exists>ep'. getLexicalToken numeric STATE_STMT (lexer [34, 72, 92, 48, 52, 50, 34, 59]) = (TOK_LITERAL, ep') \<and>
     tokbuf ep' = [72, 34] \<and> script ep' = [59]"
  by (rule literal_roundtrip) (simp_all add: quote_byte_def plain_def octal_def)

theorem word_token_witness:
  "\<exists>ep'. getLexicalToken numeric 6 (lexer [119, 114, 32, 40, 49]) = (TOK_FUNCTION, ep') \<and> token ep' = [119, 114] \<and> script ep' = [40, 49]"
  using word_token [of "lexer [119, 114, 32, 40, 49]" 119 "[114]" "[32]" 40 "[49]" numeric 6]
  by (simp add: idchar_def gisalnum_def gisdigit_def numeric_def)

theorem word_at_end_of_script_witness:
  "\<exists>ep1 ep2. getLexicalToken numeric 6 (lexer [120]) = (TOK_ID, ep1) \<and> getLexicalToken numeric 6 ep1 = (TOK_ERR, ep2)"
  using word_at_end_of_script [of "lexer [120]" 120 "[]" numeric 6]
  by (auto simp: idchar_def gisalnum_def gisdigit_def numeric_def)

theorem number_at_end_of_line_witness:
  "\<exists>ep'. getLexicalToken numeric STATE_STMT (lexer [53, 10]) = (TOK_LITERAL, ep') \<and> line_fault ep'"
  using number_at_end_of_line [of "lexer [53, 10]" 53 "[]" "[]" numeric STATE_STMT]
  by (auto simp: idchar_def gisalnum_def gisdigit_def numeric_def)

end
