(* ===== verification/Fmt.thy ===== *)
theory Fmt
  imports LinkUtil "HOL-Library.Monad_Syntax"
begin

text \<open>
  The formatting functions of the web server, \<open>apps/WebServer/misc.c\<close>: \<open>fmtAlloc\<close>, \<open>fmtStatic\<close>,
  \<open>fmtRealloc\<close> and \<open>fmtValloc\<close> over \<open>dsnprintf\<close>, and the number readers \<open>hextoi\<close> and \<open>gstrtoi\<close>.

  A C string is a \<open>string\<close> without the terminator. A buffer is a list of cells, with \<open>None\<close> for a
  cell that nothing was written to since its allocation, and a write outside it is recorded in
  \<open>fault\<close>; \<open>mem\<close> says which sizes can be allocated. The variable arguments are a list of tagged values. A call that
  reads an argument that is not there, or the format behind its terminator, has no result
  (\<open>None\<close>). \<open>int\<close> and \<open>long\<close> have 32 bits; widths are mathematical integers.
\<close>

abbreviation (input) NUL :: char where "NUL \<equiv> CHR 0x00"

section \<open>The string buffer\<close>

type_synonym cells = "char option list"

record strbuf_t =
  sbuf :: "cells option"
  bsize :: int
  bmax :: int
  bcount :: int
  STR_REALLOC :: bool
  fault :: bool
  stored :: "(u32 \<times> int) list"
  mem :: "nat \<Rightarrow> bool"

abbreviation (input) STR_INC :: int where "STR_INC \<equiv> 64"

datatype flag = flag_minus | flag_plus | flag_space | flag_hash | flag_zero | flag_short | flag_long

datatype fmt_arg = AInt u32 | AStr "string option" | APtr u32

text \<open>
  \<open>balloc\<close> of a new buffer and \<open>brealloc\<close> of an old one. Their result is not tested: the store that follows
  goes through the null pointer when there is no memory, which is a \<open>fault\<close>.
\<close>

definition resize :: "nat \<Rightarrow> cells option \<Rightarrow> cells" where
  "resize n b = (case b of None \<Rightarrow> replicate n None | Some cs \<Rightarrow> take n cs @ replicate (n - length cs) None)"

definition store :: "int \<Rightarrow> char \<Rightarrow> strbuf_t \<Rightarrow> strbuf_t" where
  "store i c buf =
     (case sbuf buf of
        None \<Rightarrow> buf\<lparr>fault := True\<rparr>
      | Some cs \<Rightarrow> if 0 \<le> i \<and> i < int (length cs) then buf\<lparr>sbuf := Some (cs[nat i := Some c])\<rparr> else buf\<lparr>fault := True\<rparr>)"

definition put_char :: "char \<Rightarrow> strbuf_t \<Rightarrow> strbuf_t" where
  "put_char c buf =
     (let put = (\<lambda>buf. let buf = store (bcount buf) c buf in if c \<noteq> NUL then buf\<lparr>bcount := bcount buf + 1\<rparr> else buf)
      in if bcount buf \<ge> bsize buf - 1 then
           if \<not> STR_REALLOC buf then buf
           else if bsize buf + STR_INC > bmax buf \<and> bsize buf + STR_INC > STR_INC then buf
           else put (buf\<lparr>bsize := bsize buf + STR_INC,
                     sbuf := (if mem buf (nat (bsize buf + STR_INC)) then Some (resize (nat (bsize buf + STR_INC)) (sbuf buf)) else None)\<rparr>)
         else put buf)"

text \<open>The loops that put one character several times.\<close>

fun put_many :: "char \<Rightarrow> nat \<Rightarrow> strbuf_t \<Rightarrow> strbuf_t" where
  "put_many c 0 buf = buf"
| "put_many c (Suc n) buf = put_many c n (put_char c buf)"

fun put_chars :: "string \<Rightarrow> strbuf_t \<Rightarrow> strbuf_t" where
  "put_chars [] buf = buf"
| "put_chars (c # cs) buf = put_chars cs (put_char c buf)"

text \<open>\<open>strnlen\<close>, with no limit for a negative precision.\<close>

definition strnlen :: "string \<Rightarrow> int \<Rightarrow> int" where
  "strnlen t n = (if n < 0 then int (length t) else min (int (length t)) n)"

definition put_string :: "string \<Rightarrow> int \<Rightarrow> int \<Rightarrow> int \<Rightarrow> flag list \<Rightarrow> strbuf_t \<Rightarrow> strbuf_t" where
  "put_string t len width prec f buf =
     (let len = (if len < 0 then strnlen t prec else if prec \<ge> 0 \<and> prec < len then prec else len);
          buf = (if width > len \<and> flag_minus \<notin> set f then put_many CHR '' '' (nat (width - len)) buf else buf);
          buf = put_chars (take (nat len) t) buf
      in if width > len \<and> flag_minus \<in> set f then put_many CHR '' '' (nat (width - len)) buf else buf)"

abbreviation (input) ULONG_MAX :: nat where "ULONG_MAX \<equiv> 4294967295"

text \<open>
  The power of the base that belongs to the first digit, with the number of digits. The callers
  pass the bases 8, 10 and 16 and start at 1, so that the first two conditions hold.
\<close>

function scale :: "nat \<Rightarrow> nat \<Rightarrow> nat \<Rightarrow> nat \<Rightarrow> nat \<times> nat" where
  "scale base value len x =
     (if 1 < base \<and> 0 < x \<and> x < ULONG_MAX div base then
        let x2 = x * base in if x2 > value then (len, x) else scale base value (len + 1) x2
      else (len, x))"
  by pat_completeness auto
termination
proof (relation "measure (\<lambda>(_, _, _, x). ULONG_MAX - x)", goal_cases)
  case (2 base v len x x2)
  then have "x < x2" "x2 \<le> ULONG_MAX"
    by (auto simp: less_eq_div_iff_mult_less_eq dest!: less_imp_le)
  then show ?case by simp
qed simp

declare scale.simps [simp del]

definition digit_char :: "bool \<Rightarrow> nat \<Rightarrow> char" where
  "digit_char upper digit = char_of ((if digit < 10 then 48 else (if upper then 65 else 97) - 10) + digit)"

function put_digits :: "nat \<Rightarrow> bool \<Rightarrow> nat \<Rightarrow> nat \<Rightarrow> strbuf_t \<Rightarrow> strbuf_t" where
  "put_digits base upper value x buf =
     (if 1 < base \<and> x > 0
      then put_digits base upper value (x div base) (put_char (digit_char upper ((value div x) mod base)) buf)
      else buf)"
  by pat_completeness auto
termination by (relation "measure (\<lambda>(_, _, _, x, _). x)") auto

declare put_digits.simps [simp del]

definition put_ulong :: "nat \<Rightarrow> nat \<Rightarrow> bool \<Rightarrow> string option \<Rightarrow> int \<Rightarrow> int \<Rightarrow> flag list \<Rightarrow> strbuf_t \<Rightarrow> strbuf_t" where
  "put_ulong value base upper prefix width prec f buf =
     (let (len, x) = scale base value 1 1;
          zeros = (if prec > int len then prec - int len else 0);
          width = width - (zeros + int len);
          width = (case prefix of None \<Rightarrow> width | Some p \<Rightarrow> width - strnlen p (- 1));
          buf = (if flag_minus \<notin> set f then put_many (if flag_zero \<in> set f then CHR ''0'' else CHR '' '') (nat width) buf else buf);
          buf = (case prefix of None \<Rightarrow> buf | Some p \<Rightarrow> put_string p (- 1) 0 (- 1) [] buf);
          buf = put_many CHR ''0'' (nat zeros) buf;
          buf = put_digits base upper value x buf
      in if flag_minus \<in> set f then put_many CHR '' '' (nat width) buf else buf)"

section \<open>Conversion specifications\<close>

fun get_flags :: "flag list \<Rightarrow> string \<Rightarrow> flag list \<times> string" where
  "get_flags f [] = (f, [])"
| "get_flags f (c # cs) =
     (if c = CHR ''-'' then get_flags (flag_minus # f) cs
      else if c = CHR ''+'' then get_flags (flag_plus # f) cs
      else if c = CHR '' '' then get_flags (flag_space # f) cs
      else if c = CHR ''#'' then get_flags (flag_hash # f) cs
      else if c = CHR ''0'' then get_flags (flag_zero # f) cs
      else (f, c # cs))"

fun get_number :: "int \<Rightarrow> string \<Rightarrow> int \<times> string" where
  "get_number n [] = (n, [])"
| "get_number n (c # cs) = (if isdigit c then get_number (n * 10 + (of_char c - 48)) cs else (n, c # cs))"

fun int_arg :: "fmt_arg list \<Rightarrow> (u32 \<times> fmt_arg list) option" where
  "int_arg (AInt w # as) = Some (w, as)"
| "int_arg _ = None"

fun str_arg :: "fmt_arg list \<Rightarrow> (string option \<times> fmt_arg list) option" where
  "str_arg (AStr t # as) = Some (t, as)"
| "str_arg _ = None"

fun ptr_arg :: "fmt_arg list \<Rightarrow> (u32 \<times> fmt_arg list) option" where
  "ptr_arg (APtr p # as) = Some (p, as)"
| "ptr_arg _ = None"

definition get_width :: "flag list \<Rightarrow> string \<Rightarrow> fmt_arg list \<Rightarrow> (flag list \<times> int \<times> string \<times> fmt_arg list) option" where
  "get_width f fmt args =
     (case fmt of
        c # cs \<Rightarrow>
          if c = CHR ''*'' then
            do { (w, args) \<leftarrow> int_arg args;
                 Some (if sint w < 0 then (flag_minus # f, - sint w, cs, args) else (f, sint w, cs, args)) }
          else let (n, fmt) = get_number 0 fmt in Some (f, n, fmt, args)
      | [] \<Rightarrow> Some (f, 0, [], args))"

definition get_prec :: "flag list \<Rightarrow> string \<Rightarrow> fmt_arg list \<Rightarrow> (flag list \<times> int \<times> string \<times> fmt_arg list) option" where
  "get_prec f fmt args =
     (case fmt of
        c # cs \<Rightarrow>
          if c = CHR ''.'' then
            (let f = removeAll flag_zero f in
             case cs of
               d # ds \<Rightarrow>
                 if d = CHR ''*'' then do { (w, args) \<leftarrow> int_arg args; Some (f, sint w, ds, args) }
                 else let (n, fmt) = get_number 0 cs in Some (f, n, fmt, args)
             | [] \<Rightarrow> Some (f, 0, [], args))
          else Some (f, - 1, fmt, args)
      | [] \<Rightarrow> Some (f, - 1, [], args))"

definition get_length :: "flag list \<Rightarrow> string \<Rightarrow> flag list \<times> string" where
  "get_length f fmt =
     (case fmt of
        c # cs \<Rightarrow> if c = CHR ''h'' then (flag_short # f, cs) else if c = CHR ''l'' then (flag_long # f, cs) else (f, fmt)
      | [] \<Rightarrow> (f, []))"

record spec =
  flags :: "flag list"
  width :: int
  prec :: int
  conv :: char

text \<open>The specification behind a percent sign; \<open>None\<close> also when the format ends inside it.\<close>

definition parse_spec :: "string \<Rightarrow> fmt_arg list \<Rightarrow> (spec \<times> string \<times> fmt_arg list) option" where
  "parse_spec fmt args =
     (let (f, fmt) = get_flags [] fmt in
      do { (f, w, fmt, args) \<leftarrow> get_width f fmt args;
           (f, p, fmt, args) \<leftarrow> get_prec f fmt args;
           (case get_length f fmt of
              (f, c # cs) \<Rightarrow> Some (\<lparr>flags = f, width = w, prec = p, conv = c\<rparr>, cs, args)
            | (f, []) \<Rightarrow> None) })"

text \<open>
  The conversions. A string with the flag \<open>#\<close> is a Pascal string: its first character is its length.
\<close>

definition put_conv :: "spec \<Rightarrow> fmt_arg list \<Rightarrow> strbuf_t \<Rightarrow> (strbuf_t \<times> fmt_arg list) option" where
  "put_conv sp args buf =
     (let f = flags sp; w = width sp; p = prec sp; c = conv sp in
      if c = CHR ''d'' \<or> c = CHR ''i'' then
        do { (v, args) \<leftarrow> int_arg args;
             let v = (if flag_short \<in> set f then scast (ucast v :: 16 word) else v);
             Some (if sint v \<ge> 0 then
                     if flag_plus \<in> set f then put_ulong (unat v) 10 False (Some ''+'') w p f buf
                     else if flag_space \<in> set f then put_ulong (unat v) 10 False (Some '' '') w p f buf
                     else put_ulong (unat v) 10 False None w p f buf
                   else put_ulong (unat (- v)) 10 False (Some ''-'') w p f buf, args) }
      else if c = CHR ''o'' \<or> c = CHR ''u'' \<or> c = CHR ''x'' \<or> c = CHR ''X'' then
        do { (v, args) \<leftarrow> int_arg args;
             let v = (if flag_short \<in> set f then ucast (ucast v :: 16 word) else v);
             Some (if c = CHR ''o'' then
                     if flag_hash \<in> set f \<and> v \<noteq> 0 then put_ulong (unat v) 8 False (Some ''0'') w p f buf
                     else put_ulong (unat v) 8 False None w p f buf
                   else if c = CHR ''u'' then put_ulong (unat v) 10 False None w p f buf
                   else if flag_hash \<in> set f \<and> v \<noteq> 0 then
                     if c = CHR ''x'' then put_ulong (unat v) 16 False (Some ''0x'') w p f buf
                     else put_ulong (unat v) 16 True (Some ''0X'') w p f buf
                   else put_ulong (unat v) 16 (c = CHR ''X'') None w p f buf, args) }
      else if c = CHR ''c'' then
        do { (v, args) \<leftarrow> int_arg args; Some (put_char (char_of (unat v)) buf, args) }
      else if c = CHR ''s'' \<or> c = CHR ''S'' then
        do { (t, args) \<leftarrow> str_arg args;
             case t of
               None \<Rightarrow> Some (put_string ''(null)'' (- 1) w p f buf, args)
             | Some t \<Rightarrow>
                 if flag_hash \<in> set f then
                   (case t of
                      [] \<Rightarrow> Some (put_string [] 0 w p f buf, args)
                    | l # t \<Rightarrow>
                        if (if p \<ge> 0 \<and> p < of_char l then p else of_char l) > int (length t) then None
                        else Some (put_string t (of_char l) w p f buf, args))
                 else Some (put_string t (- 1) w p f buf, args) }
      else if c = CHR ''p'' then
        do { (v, args) \<leftarrow> ptr_arg args; Some (put_ulong (unat v) 16 False (Some ''0x'') w p f buf, args) }
      else if c = CHR ''n'' then
        do { (v, args) \<leftarrow> ptr_arg args; Some (buf\<lparr>stored := stored buf @ [(v, bcount buf)]\<rparr>, args) }
      else Some (put_char c buf, args))"

lemma get_flags_length: "get_flags f fmt = (f', fmt') \<Longrightarrow> length fmt' \<le> length fmt"
  by (induction f fmt rule: get_flags.induct) (auto split: if_splits)

lemma get_number_length: "get_number n fmt = (n', fmt') \<Longrightarrow> length fmt' \<le> length fmt"
  by (induction n fmt rule: get_number.induct) (auto split: if_splits)

lemma get_width_length: "get_width f fmt args = Some (f', w, fmt', args') \<Longrightarrow> length fmt' \<le> length fmt"
  by (auto simp: get_width_def bind_eq_Some_conv dest!: get_number_length split: list.splits if_splits prod.splits)

lemma get_prec_length: "get_prec f fmt args = Some (f', w, fmt', args') \<Longrightarrow> length fmt' \<le> length fmt"
  by (auto simp: get_prec_def bind_eq_Some_conv Let_def dest!: get_number_length split: list.splits if_splits prod.splits)

lemma parse_spec_length:
  assumes "parse_spec fmt args = Some (sp, fmt', args')"
  shows "length fmt' < length fmt"
proof -
  obtain f1 fmt1 where 1: "get_flags [] fmt = (f1, fmt1)" by (cases "get_flags [] fmt")
  obtain f2 w fmt2 args2 where 2: "get_width f1 fmt1 args = Some (f2, w, fmt2, args2)"
    using assms by (cases "get_width f1 fmt1 args") (auto simp: parse_spec_def 1)
  obtain f3 p fmt3 args3 where 3: "get_prec f2 fmt2 args2 = Some (f3, p, fmt3, args3)"
    using assms by (cases "get_prec f2 fmt2 args2") (auto simp: parse_spec_def 1 2)
  obtain f4 fmt4 where 4: "get_length f3 fmt3 = (f4, fmt4)" by (cases "get_length f3 fmt3")
  have "length fmt4 \<le> length fmt3" using 4 by (auto simp: get_length_def split: list.splits if_splits)
  moreover have "length fmt' < length fmt4"
    using assms by (cases fmt4) (auto simp: parse_spec_def 1 2 3 4)
  ultimately show ?thesis
    using get_flags_length [OF 1] get_width_length [OF 2] get_prec_length [OF 3] by linarith
qed

function fmt_loop :: "string \<Rightarrow> fmt_arg list \<Rightarrow> strbuf_t \<Rightarrow> strbuf_t option" where
  "fmt_loop [] args buf = Some buf"
| "fmt_loop (c # fmt) args buf =
     (if c \<noteq> CHR ''%'' then fmt_loop fmt args (put_char c buf)
      else
        case fmt of
          [] \<Rightarrow> None
        | d # ds \<Rightarrow>
            if d = CHR ''%'' then fmt_loop ds args (put_char d buf)
            else
              (case parse_spec fmt args of
                 None \<Rightarrow> None
               | Some (sp, fmt, args) \<Rightarrow>
                   (case put_conv sp args buf of None \<Rightarrow> None | Some (buf, args) \<Rightarrow> fmt_loop fmt args buf)))"
  by pat_completeness auto
termination
  by (relation "measure (\<lambda>(fmt, _, _). length fmt)") (auto dest: parse_spec_length)

text \<open>
  The whole function: the buffer it leaves and its result. \<open>old\<close> is the buffer the caller passes in,
  \<open>size\<close> its size or the limit of the growth.
\<close>

definition gstrlen :: "cells \<Rightarrow> int" where
  "gstrlen cs = int (length (takeWhile (\<lambda>c. c \<noteq> Some NUL) cs))"

definition dsnprintf :: "(nat \<Rightarrow> bool) \<Rightarrow> cells option \<Rightarrow> int \<Rightarrow> string \<Rightarrow> fmt_arg list \<Rightarrow> int \<Rightarrow> (strbuf_t \<times> int) option" where
  "dsnprintf m old n fmt args msize =
     (let buf = \<lparr>sbuf = old, bsize = 0, bmax = 0, bcount = 0, STR_REALLOC = False, fault = False, stored = [], mem = m\<rparr>;
          buf = (if old = None \<or> msize \<noteq> 0 then
                   let buf = buf\<lparr>bmax := n, STR_REALLOC := True\<rparr>;
                       buf = (if msize \<noteq> 0 then buf\<lparr>bsize := max msize 0\<rparr> else buf)
                   in (case old of Some cs \<Rightarrow> if msize \<noteq> 0 then buf\<lparr>bcount := gstrlen cs\<rparr> else buf | None \<Rightarrow> buf)
                 else buf\<lparr>bsize := n\<rparr>)
      in do { buf \<leftarrow> fmt_loop fmt args buf;
              let buf = (if sbuf buf = None then put_char NUL buf else buf);
              let buf = (if n > 0 then store (if bcount buf < n then bcount buf else bsize buf - 1) NUL buf else buf);
              Some (buf, if msize \<noteq> 0 then bsize buf else bcount buf) })"

definition fmtAlloc :: "(nat \<Rightarrow> bool) \<Rightarrow> int \<Rightarrow> string \<Rightarrow> fmt_arg list \<Rightarrow> (strbuf_t \<times> int) option" where
  "fmtAlloc m n fmt args = dsnprintf m None n fmt args 0"

definition fmtValloc :: "(nat \<Rightarrow> bool) \<Rightarrow> int \<Rightarrow> string \<Rightarrow> fmt_arg list \<Rightarrow> (strbuf_t \<times> int) option" where
  "fmtValloc m n fmt args = dsnprintf m None n fmt args 0"

text \<open>\<open>fmtStatic\<close> returns \<open>-1\<close> for a buffer without room, which is left as it is. It needs no memory.\<close>

definition fmtStatic :: "cells \<Rightarrow> int \<Rightarrow> string \<Rightarrow> fmt_arg list \<Rightarrow> ((strbuf_t \<times> int) option) option" where
  "fmtStatic cs n fmt args =
     (if n \<le> 0 then Some None else map_option Some (dsnprintf (\<lambda>_. False) (Some cs) n fmt args 0))"

definition fmtRealloc :: "(nat \<Rightarrow> bool) \<Rightarrow> cells option \<Rightarrow> int \<Rightarrow> int \<Rightarrow> string \<Rightarrow> fmt_arg list \<Rightarrow> (strbuf_t \<times> int) option" where
  "fmtRealloc m old n msize fmt args = dsnprintf m (if msize = - 1 then None else old) n fmt args msize"

section \<open>Directories\<close>

text \<open>The position of the last slash.\<close>

fun gstrrchr :: "string \<Rightarrow> char \<Rightarrow> nat option" where
  "gstrrchr [] c = None"
| "gstrrchr (x # xs) c = (case gstrrchr xs c of Some i \<Rightarrow> Some (i + 1) | None \<Rightarrow> if x = c then Some 0 else None)"

definition dirname :: "string \<Rightarrow> nat \<Rightarrow> string" where
  "dirname name bufsize =
     (case gstrrchr name CHR ''/'' of
        None \<Rightarrow> ''.''
      | Some cp \<Rightarrow>
          if cp + 1 = length name \<and> cp = 0 then ''.''
          else if cp < bufsize then take cp name
          else take (bufsize - 1) name)"

section \<open>Reading numbers\<close>

definition hex_value :: "u32 \<Rightarrow> u32 option" where
  "hex_value c =
     (if c \<ge> 48 \<and> c \<le> 57 then Some (c - 48)
      else if c \<ge> 97 \<and> c \<le> 102 then Some (c - 97 + 10)
      else if c \<ge> 65 \<and> c \<le> 70 then Some (c - 65 + 10)
      else None)"

fun hex_loop :: "u32 \<Rightarrow> string \<Rightarrow> u32" where
  "hex_loop v [] = v"
| "hex_loop v (c # h) = (case hex_value (of_char c) of None \<Rightarrow> v | Some d \<Rightarrow> hex_loop (v * 0x10 + d) h)"

definition hex_prefix :: "string \<Rightarrow> bool" where
  "hex_prefix t \<longleftrightarrow> length t \<ge> 2 \<and> t ! 0 = CHR ''0'' \<and> (t ! 1 = CHR ''x'' \<or> t ! 1 = CHR ''X'')"

definition hextoi :: "string \<Rightarrow> u32" where
  "hextoi t = hex_loop 0 (if hex_prefix t then drop 2 t else t)"

definition gstrtoi :: "string \<Rightarrow> u32" where
  "gstrtoi t = (if hex_prefix t then hextoi (drop 2 t) else word_of_int (atoi t))"

section \<open>The buffer holds the text up to its limit\<close>

definition limit :: "strbuf_t \<Rightarrow> nat" where
  "limit buf = (if STR_REALLOC buf then 64 * max 1 (nat (bmax buf) div 64) - 1 else nat (bsize buf) - 1)"

definition holds :: "string \<Rightarrow> strbuf_t \<Rightarrow> bool" where
  "holds t buf \<longleftrightarrow> \<not> fault buf \<and> (STR_REALLOC buf \<longrightarrow> (\<forall>k \<le> limit buf + 1. mem buf k)) \<and> bcount buf = int (length t) \<and> length t \<le> limit buf \<and>
     (case sbuf buf of
        None \<Rightarrow> t = [] \<and> bsize buf = 0 \<and> STR_REALLOC buf
      | Some cs \<Rightarrow> bsize buf = int (length cs) \<and> take (length t) cs = map Some t \<and> length t < length cs \<and>
          (STR_REALLOC buf \<longrightarrow> 64 dvd length cs \<and> length cs \<le> limit buf + 1))"

lemma put_char_full:
  assumes "holds t buf" "bcount buf \<ge> bsize buf - 1" "\<not> STR_REALLOC buf \<or> bsize buf + 64 > bmax buf \<and> bsize buf > 0"
  shows "length t = limit buf" "put_char c buf = buf"
proof -
  show "put_char c buf = buf" using assms(2,3) by (auto simp: put_char_def Let_def)
  obtain cs where cs: "sbuf buf = Some cs" using assms(1,3) by (auto simp: holds_def split: option.splits)
  have l: "length t = length cs - 1" "0 < length cs" using assms(1,2) cs by (auto simp: holds_def)
  show "length t = limit buf"
  proof (cases "STR_REALLOC buf")
    case True
    then obtain k where k: "length cs = 64 * k" using assms(1) cs by (auto simp: holds_def dvd_def)
    have "int (length cs) + 64 > bmax buf" using True assms(1,3) cs by (auto simp: holds_def)
    then have "nat (bmax buf) < 64 * (k + 1)" using k by auto
    then have "nat (bmax buf) div 64 < k + 1" by (simp add: less_mult_imp_div_less mult.commute)
    moreover have "k \<le> max 1 (nat (bmax buf) div 64)" using assms(1) cs True k by (auto simp: holds_def limit_def)
    moreover have "k \<ge> 1" using l(2) k by simp
    ultimately have "max 1 (nat (bmax buf) div 64) = k" by linarith
    then show ?thesis using True l k by (simp add: limit_def)
  next
    case False
    then show ?thesis using assms(1) cs l by (simp add: limit_def holds_def)
  qed
qed

lemma holds_store:
  assumes "holds t buf" "sbuf buf = Some cs"
  shows "holds t (store (bcount buf) c buf)" "limit (store (bcount buf) c buf) = limit buf"
  using assms by (auto simp: holds_def store_def limit_def)

lemma buf_holds_append:
  assumes "holds t buf" "sbuf buf = Some cs" "length t < limit buf" "length t + 1 < length cs"
  shows "holds (t @ [c]) ((store (bcount buf) c buf)\<lparr>bcount := bcount buf + 1\<rparr>)"
proof -
  have "take (length t + 1) (cs[length t := Some c]) = map Some t @ [Some c]"
    using assms by (simp add: holds_def take_Suc_conv_app_nth take_update_swap list_update_append)
  then show ?thesis using assms by (auto simp: holds_def store_def limit_def)
qed

text \<open>The buffer after it has grown.\<close>

definition grown :: "strbuf_t \<Rightarrow> strbuf_t" where
  "grown buf = buf\<lparr>bsize := bsize buf + 64, sbuf := Some (resize (nat (bsize buf + 64)) (sbuf buf))\<rparr>"

lemma grown_fits:
  assumes "holds t buf" "STR_REALLOC buf" "bsize buf + 64 \<le> bmax buf \<or> bsize buf \<le> 0"
  shows "nat (bsize buf + 64) \<le> limit buf + 1"
proof (cases "sbuf buf")
  case None
  then show ?thesis using assms by (auto simp: holds_def limit_def)
next
  case (Some cs)
  have h: "bsize buf = int (length cs)" "64 dvd length cs" "length t < length cs" using assms(1,2) Some by (auto simp: holds_def)
  then have "64 * (length cs div 64 + 1) \<le> nat (bmax buf)" using assms(3) by auto
  then have "length cs div 64 + 1 \<le> nat (bmax buf) div 64" by (simp add: less_eq_div_iff_mult_less_eq mult.commute)
  then have "length cs + 64 \<le> 64 * (nat (bmax buf) div 64)" using h(2) by (metis add_mult_distrib2 dvd_mult_div_cancel mult.right_neutral mult_le_mono2)
  then show ?thesis using assms(2) h(1) by (simp add: limit_def nat_add_distrib)
qed

lemma holds_grown:
  assumes "holds t buf" "STR_REALLOC buf" "bsize buf + 64 \<le> bmax buf \<or> bsize buf \<le> 0"
  shows "holds t (grown buf)" "limit (grown buf) = limit buf" "bsize (grown buf) = bsize buf + 64" "mem buf (nat (bsize buf + 64))"
proof -
  show l: "limit (grown buf) = limit buf" "bsize (grown buf) = bsize buf + 64" using assms(2) by (simp_all add: grown_def limit_def)
  show "mem buf (nat (bsize buf + 64))" using grown_fits [OF assms] assms(1,2) by (auto simp: holds_def)
  show "holds t (grown buf)"
  proof (cases "sbuf buf")
    case None
    then show ?thesis using assms by (auto simp: holds_def grown_def limit_def resize_def)
  next
    case (Some cs)
    have h: "bsize buf = int (length cs)" "64 dvd length cs" "length t < length cs" "length cs \<le> limit buf + 1"
      using assms(1,2) Some by (auto simp: holds_def)
    then have "length cs + 64 \<le> limit buf + 1" using grown_fits [OF assms] by (simp add: nat_add_distrib)
    moreover have "length (resize (nat (bsize buf + 64)) (sbuf buf)) = length cs + 64" using h(1) Some by (simp add: resize_def nat_add_distrib)
    moreover have "take (length t) (resize (nat (bsize buf + 64)) (sbuf buf)) = take (length t) cs"
      using h Some by (simp add: resize_def nat_add_distrib)
    moreover have "take (length t) cs = map Some t" using assms(1) Some by (simp add: holds_def)
    moreover have "limit (grown buf) = limit buf" by (rule l)
    moreover have "64 dvd length cs + 64" using h(2) by simp
    ultimately show ?thesis using assms(1,2) h(1,3) unfolding holds_def by (simp add: grown_def Some)
  qed
qed

lemma put_char_eq:
  "bcount buf \<ge> bsize buf - 1 \<longrightarrow> mem buf (nat (bsize buf + 64)) \<or> \<not> STR_REALLOC buf \<or> bsize buf + 64 > bmax buf \<and> bsize buf > 0 \<Longrightarrow> put_char c buf =
     (if bcount buf \<ge> bsize buf - 1 \<and> (\<not> STR_REALLOC buf \<or> bsize buf + 64 > bmax buf \<and> bsize buf > 0) then buf
      else let b = (if bcount buf \<ge> bsize buf - 1 then grown buf else buf); b' = store (bcount b) c b
           in if c \<noteq> NUL then b'\<lparr>bcount := bcount b + 1\<rparr> else b')"
proof -
  have b: "bcount (store i c b) = bcount b" for i b by (simp add: store_def split: option.splits)
  assume "bcount buf \<ge> bsize buf - 1 \<longrightarrow> mem buf (nat (bsize buf + 64)) \<or> \<not> STR_REALLOC buf \<or> bsize buf + 64 > bmax buf \<and> bsize buf > 0"
  then show ?thesis by (auto simp: put_char_def grown_def Let_def b)
qed

lemma put_char_holds:
  assumes "holds t buf"
  shows "holds (if c = NUL \<or> length t = limit buf then t else t @ [c]) (put_char c buf)" "limit (put_char c buf) = limit buf"
proof -
  let ?full = "bcount buf \<ge> bsize buf - 1 \<and> (\<not> STR_REALLOC buf \<or> bsize buf + 64 > bmax buf \<and> bsize buf > 0)"
  define b where "b = (if bcount buf \<ge> bsize buf - 1 then grown buf else buf)"
  have "holds (if c = NUL \<or> length t = limit buf then t else t @ [c]) (put_char c buf) \<and> limit (put_char c buf) = limit buf"
  proof (cases ?full)
    case True
    then show ?thesis using put_char_full [OF assms] assms by auto
  next
    case False
    have g: "holds t b \<and> limit b = limit buf \<and> (\<exists>cs. sbuf b = Some cs \<and> length t + 1 < length cs)"
    proof (cases "bcount buf \<ge> bsize buf - 1")
      case True
      then have r: "STR_REALLOC buf" "bsize buf + 64 \<le> bmax buf \<or> bsize buf \<le> 0" using False by auto
      note h = holds_grown [OF assms r]
      then show ?thesis using True assms by (auto simp: b_def holds_def grown_def split: option.splits)
    next
      case False
      then show ?thesis using assms by (auto simp: b_def holds_def split: option.splits)
    qed
    then obtain cs where cs: "sbuf b = Some cs" "length t + 1 < length cs" by auto
    have "bcount buf \<ge> bsize buf - 1 \<longrightarrow> mem buf (nat (bsize buf + 64))"
      using holds_grown(4) [OF assms] False by (auto simp: not_less)
    then have eq: "put_char c buf = (if c \<noteq> NUL then (store (bcount b) c b)\<lparr>bcount := bcount b + 1\<rparr> else store (bcount b) c b)"
      using put_char_eq [of buf c] False unfolding b_def Let_def by argo
    have lt: "length t < limit buf"
    proof (cases "STR_REALLOC b")
      case True
      then show ?thesis using g cs by (auto simp: holds_def)
    next
      case False
      have "holds t b" using g by blast
      then have "length t < limit b" using False cs by (auto simp: holds_def limit_def)
      then show ?thesis using g by simp
    qed
    have "limit (store (bcount b) c b) = limit buf" "holds t (store (bcount b) c b)" using holds_store [OF _ cs(1)] g by auto
    moreover have "holds (t @ [c]) ((store (bcount b) c b)\<lparr>bcount := bcount b + 1\<rparr>)"
      using buf_holds_append [OF _ cs(1)] g lt cs(2) by auto
    moreover have "limit (x\<lparr>bcount := n\<rparr>) = limit x" for x :: strbuf_t and n by (simp add: limit_def)
    ultimately show ?thesis using lt by (auto simp: eq)
  qed
  then show "holds (if c = NUL \<or> length t = limit buf then t else t @ [c]) (put_char c buf)" "limit (put_char c buf) = limit buf" by auto
qed

lemma put_chars_holds:
  assumes "holds t buf"
  shows "holds (take (limit buf) (t @ filter (\<lambda>c. c \<noteq> NUL) cs)) (put_chars cs buf) \<and> limit (put_chars cs buf) = limit buf"
  using assms
proof (induction cs arbitrary: t buf)
  case Nil
  then show ?case by (simp add: holds_def)
next
  case (Cons c cs)
  let ?t = "if c = NUL \<or> length t = limit buf then t else t @ [c]"
  have l: "length t \<le> limit buf" using Cons.prems by (simp add: holds_def)
  have "take (limit buf) (?t @ filter (\<lambda>c. c \<noteq> NUL) cs) = take (limit buf) (t @ filter (\<lambda>c. c \<noteq> NUL) (c # cs))"
    using l by (auto simp: take_Cons' Suc_diff_Suc)
  then show ?case using Cons.IH [OF put_char_holds(1) [OF Cons.prems, of c]] put_char_holds(2) [OF Cons.prems, of c] by simp
qed

section \<open>The text of a format\<close>

text \<open>
  What a format stands for, without buffers: the digits of a number from the first to the last, the
  padding, and one piece of text for each conversion. \<open>%n\<close> writes no text and has none here.
\<close>

function digits_of :: "nat \<Rightarrow> nat \<Rightarrow> nat list" where
  "digits_of base v = (if 1 < base \<and> base \<le> v then digits_of base (v div base) @ [v mod base] else [v])"
  by pat_completeness auto
termination by (relation "measure snd") auto

declare digits_of.simps [simp del]

definition pad_left :: "char \<Rightarrow> int \<Rightarrow> string \<Rightarrow> string" where
  "pad_left c w t = replicate (nat (w - int (length t))) c @ t"

definition pad_right :: "int \<Rightarrow> string \<Rightarrow> string" where
  "pad_right w t = t @ replicate (nat (w - int (length t))) CHR '' ''"

definition string_text :: "string \<Rightarrow> int \<Rightarrow> int \<Rightarrow> flag list \<Rightarrow> string" where
  "string_text t w p f =
     (let t = (if p < 0 then t else take (nat p) t) in if flag_minus \<in> set f then pad_right w t else pad_left CHR '' '' w t)"

definition ulong_text :: "nat \<Rightarrow> nat \<Rightarrow> bool \<Rightarrow> string \<Rightarrow> int \<Rightarrow> int \<Rightarrow> flag list \<Rightarrow> string" where
  "ulong_text v base upper sign w p f =
     (let t = sign @ pad_left CHR ''0'' p (map (digit_char upper) (digits_of base v))
      in if flag_minus \<in> set f then pad_right w t
         else pad_left (if flag_zero \<in> set f then CHR ''0'' else CHR '' '') w t)"

lemma put_chars_append: "put_chars (xs @ ys) buf = put_chars ys (put_chars xs buf)"
  by (induction xs arbitrary: buf) auto

lemma put_many_chars: "put_many c n buf = put_chars (replicate n c) buf"
  by (induction n arbitrary: buf) auto

lemma put_string_piece:
  assumes "(if len < 0 then strnlen t p else if p \<ge> 0 \<and> p < len then p else len) = int (length t')" "take (length t') t = t'"
  shows "put_string t len w p f buf = put_chars (if flag_minus \<in> set f then pad_right w t' else pad_left CHR '' '' w t') buf"
  unfolding put_string_def assms(1) Let_def
  by (auto simp: assms(2) pad_left_def pad_right_def put_chars_append put_many_chars)

lemma put_string_text: "len < 0 \<Longrightarrow> put_string t len w p f buf = put_chars (string_text t w p f) buf"
  by (subst put_string_piece [where t' = "if p < 0 then t else take (nat p) t"]) (auto simp: string_text_def strnlen_def min_def)

lemma put_string_pascal:
  assumes "0 \<le> len" "(if p \<ge> 0 \<and> p < len then p else len) \<le> int (length t)"
  shows "put_string t len w p f buf = put_chars (string_text (take (nat len) t) w p f) buf"
proof -
  define t' where "t' = (if p < 0 then take (nat len) t else take (nat p) (take (nat len) t))"
  have "(if len < 0 then strnlen t p else if p \<ge> 0 \<and> p < len then p else len) = int (length t')" "take (length t') t = t'"
    using assms by (auto simp: t'_def min_def take_take)
  from put_string_piece [OF this] show ?thesis by (simp add: string_text_def t'_def Let_def)
qed

lemma put_string_empty: "put_string [] 0 w p f buf = put_chars (string_text [] w p f) buf"
  using put_string_pascal [of 0 p "[]"] by auto

lemma put_string_pascal_char:
  assumes "\<not> (if p \<ge> 0 \<and> p < of_char l then p else of_char l) > int (length t)"
  shows "put_string t (of_char l) w p f buf = put_chars (string_text (take (of_char l) t) w p f) buf"
proof -
  have "(of_char l :: int) = int (of_char l)" by (simp only: of_nat_of_char)
  then show ?thesis using put_string_pascal [of "of_char l" p t w f buf] assms by simp
qed

lemma scale_power:
  assumes "base \<in> {8, 10, 16}" "v \<le> ULONG_MAX" "base ^ k \<le> max 1 v"
  shows "\<exists>n. scale base v (k + 1) (base ^ k) = (n + 1, base ^ n) \<and> base ^ n \<le> max 1 v \<and> v < base ^ (n + 1)"
  using assms
proof (induction "ULONG_MAX - base ^ k" arbitrary: k rule: less_induct)
  case less
  have b: "1 < base" "even base" "odd (ULONG_MAX div base)" "ULONG_MAX div base > 1" using less.prems by auto
  show ?case
  proof (cases "base ^ k < ULONG_MAX div base")
    case True
    show ?thesis
    proof (cases "base ^ k * base > v")
      case True
      then have "scale base v (k + 1) (base ^ k) = (k + 1, base ^ k)" by (subst scale.simps) (simp add: Let_def)
      then show ?thesis using True less.prems(3) by (intro exI [of _ k]) (simp add: mult.commute)
    next
      case False
      have pw: "ULONG_MAX - base ^ (k + 1) < ULONG_MAX - base ^ k"
        by (rule diff_less_mono2, rule power_strict_increasing, simp, rule b(1), rule less_le_trans, rule True, rule div_le_dividend)
      have le: "base ^ (k + 1) \<le> max 1 v" using False by (simp add: mult.commute)
      have "\<exists>n. scale base v (k + 1 + 1) (base ^ (k + 1)) = (n + 1, base ^ n) \<and> base ^ n \<le> max 1 v \<and> v < base ^ (n + 1)"
        by (rule less.hyps [OF pw less.prems(1,2) le])
      moreover have "scale base v (k + 1) (base ^ k) = scale base v (k + 1 + 1) (base ^ (k + 1))"
        using False True b(1) by (subst scale.simps) (simp add: Let_def mult.commute)
      ultimately show ?thesis by simp
    qed
  next
    case False
    have "k = 0 \<or> even (base ^ k)" using b(2) by auto
    then have "base ^ k \<noteq> ULONG_MAX div base" using b(3,4) by (metis less_numeral_extra(4) power_0)
    then have "ULONG_MAX div base < base ^ k" using False by simp
    then have "ULONG_MAX < base ^ k * base" using b(1) by (simp add: div_less_iff_less_mult)
    then have "v < base ^ (k + 1)" using less.prems by (simp add: mult.commute)
    moreover have "scale base v (k + 1) (base ^ k) = (k + 1, base ^ k)" using False by (subst scale.simps) simp
    ultimately show ?thesis using less.prems(3) by (intro exI [of _ k]) simp
  qed
qed

text \<open>The digits the loop puts are those of the number.\<close>

lemma digits_loop:
  assumes "1 < base"
  shows "put_digits base upper v (base ^ n) buf =
    put_chars (map (digit_char upper) (map (\<lambda>k. (v div base ^ (n - k)) mod base) [0..<Suc n])) buf"
proof (induction n arbitrary: buf)
  case 0
  then show ?case using assms by (simp add: put_digits.simps [of base upper v "Suc 0"] put_digits.simps [of base upper v 0])
next
  case (Suc n)
  have "put_digits base upper v (base ^ Suc n) buf =
      put_digits base upper v (base ^ n) (put_char (digit_char upper ((v div base ^ Suc n) mod base)) buf)"
    using assms by (subst put_digits.simps) simp
  moreover have "[0..<Suc (Suc n)] = 0 # map Suc [0..<Suc n]" by (subst upt_conv_Cons) (simp_all add: map_Suc_upt del: upt_Suc)
  ultimately show ?case using Suc.IH by (simp add: comp_def del: upt_Suc)
qed

lemma digits_of_positions:
  assumes "1 < base" "v < base ^ Suc n" "base ^ n \<le> max 1 v"
  shows "map (\<lambda>k. (v div base ^ (n - k)) mod base) [0..<Suc n] = digits_of base v"
  using assms(2,3)
proof (induction n arbitrary: v)
  case 0
  then show ?case by (subst digits_of.simps) simp
next
  case (Suc n)
  have "1 < base ^ Suc n" using assms(1) by (rule one_less_power) simp
  then have v: "base ^ Suc n \<le> v" using Suc.prems(2) by simp
  have "base \<le> base ^ Suc n" using assms(1) by simp
  then have "base \<le> v" using v by linarith
  then have "digits_of base v = digits_of base (v div base) @ [v mod base]" using assms(1) by (subst digits_of.simps) simp
  moreover have "v div base < base ^ Suc n" using Suc.prems(1) by (simp add: less_mult_imp_div_less mult.commute)
  moreover have "base ^ n \<le> max 1 (v div base)"
    using v assms(1) by (simp add: less_eq_div_iff_mult_less_eq mult.commute le_max_iff_disj)
  moreover have "map (\<lambda>k. (v div base ^ (Suc n - k)) mod base) [0..<Suc n] = map (\<lambda>k. (v div base div base ^ (n - k)) mod base) [0..<Suc n]"
    by (auto simp: Suc_diff_le div_mult2_eq)
  moreover have "map (\<lambda>k. (v div base ^ (Suc n - k)) mod base) [0..<Suc (Suc n)] =
    map (\<lambda>k. (v div base ^ (Suc n - k)) mod base) [0..<Suc n] @ [v mod base]" by simp
  ultimately show ?case using Suc.IH [of "v div base"] by (simp del: upt_Suc)
qed

lemma put_ulong_text:
  assumes "base \<in> {8, 10, 16}" "v \<le> ULONG_MAX"
  shows "put_ulong v base upper sign w p f buf = put_chars (ulong_text v base upper (case sign of None \<Rightarrow> [] | Some t \<Rightarrow> t) w p f) buf"
proof -
  have b: "1 < base" using assms(1) by auto
  obtain n where n: "scale base v 1 1 = (n + 1, base ^ n)" "base ^ n \<le> max 1 v" "v < base ^ (n + 1)"
    using scale_power [OF assms, of 0] by auto
  define ds where "ds = map (digit_char upper) (digits_of base v)"
  have p: "put_digits base upper v (base ^ n) buf = put_chars ds buf" for buf
    unfolding digits_loop [OF b] using digits_of_positions [OF b, of v n] n(2,3) by (simp add: ds_def)
  have l: "length ds = n + 1" using digits_of_positions [OF b, of v n] n(2,3) by (metis ds_def length_map length_upt diff_zero Suc_eq_plus1)
  define t where "t = (case sign of None \<Rightarrow> [] | Some t \<Rightarrow> t)"
  define zeros where "zeros = (if p > int (n + 1) then p - int (n + 1) else 0)"
  have z: "nat zeros = nat (p - int (length ds))" "int (length (pad_left CHR ''0'' p ds)) = zeros + int (length ds)"
    by (simp_all add: zeros_def l pad_left_def)
  have st: "put_string x (- 1) 0 (- 1) [] buf = put_chars x buf" for x buf
    by (subst put_string_text) (simp_all add: string_text_def pad_left_def)
  have e: "put_ulong v base upper sign w p f buf =
    (let width = w - (zeros + int (length ds)) - int (length t);
         buf = (if flag_minus \<notin> set f then put_chars (replicate (nat width) (if flag_zero \<in> set f then CHR ''0'' else CHR '' '')) buf else buf);
         buf = put_chars ds (put_chars (replicate (nat zeros) CHR ''0'') (put_chars t buf))
     in if flag_minus \<in> set f then put_chars (replicate (nat width) CHR '' '') buf else buf)"
    unfolding put_ulong_def n(1) Let_def prod.case p zeros_def [symmetric] put_many_chars l t_def
    by (cases sign) (simp_all add: st strnlen_def)
  have u: "ulong_text v base upper t w p f =
    (let u = t @ pad_left CHR ''0'' p ds in if flag_minus \<in> set f then pad_right w u
       else pad_left (if flag_zero \<in> set f then CHR ''0'' else CHR '' '') w u)"
    by (simp add: ulong_text_def ds_def)
  have "int (length (t @ pad_left CHR ''0'' p ds)) = int (length t) + (zeros + int (length ds))" using z(2) by simp
  then have w: "w - int (length (t @ pad_left CHR ''0'' p ds)) = w - (zeros + int (length ds)) - int (length t)" by linarith
  have "put_chars (t @ pad_left CHR ''0'' p ds) buf = put_chars ds (put_chars (replicate (nat zeros) CHR ''0'') (put_chars t buf))" for buf
    by (simp add: put_chars_append pad_left_def z(1))
  then show ?thesis unfolding e u [unfolded t_def, folded t_def] t_def [symmetric] Let_def
    by (simp add: pad_right_def pad_left_def [of _ w] w put_chars_append del: length_append)
qed

definition conv_text :: "spec \<Rightarrow> fmt_arg list \<Rightarrow> (string \<times> fmt_arg list) option" where
  "conv_text sp args =
     (let f = flags sp; w = width sp; p = prec sp; c = conv sp in
      if c \<in> {CHR ''d'', CHR ''i''} then
        do { (v, args) \<leftarrow> int_arg args;
             let i = sint (if flag_short \<in> set f then scast (ucast v :: 16 word) else v);
             Some (ulong_text (nat \<bar>i\<bar>) 10 False
                    (if i < 0 then ''-'' else if flag_plus \<in> set f then ''+'' else if flag_space \<in> set f then '' '' else []) w p f, args) }
      else if c \<in> {CHR ''o'', CHR ''u'', CHR ''x'', CHR ''X''} then
        do { (v, args) \<leftarrow> int_arg args;
             let n = unat (if flag_short \<in> set f then ucast (ucast v :: 16 word) else v);
             let h = (flag_hash \<in> set f \<and> n \<noteq> 0);
             Some (if c = CHR ''o'' then ulong_text n 8 False (if h then ''0'' else []) w p f
                   else if c = CHR ''u'' then ulong_text n 10 False [] w p f
                   else if c = CHR ''x'' then ulong_text n 16 False (if h then ''0x'' else []) w p f
                   else ulong_text n 16 True (if h then ''0X'' else []) w p f, args) }
      else if c = CHR ''c'' then do { (v, args) \<leftarrow> int_arg args; Some ([char_of (unat v)], args) }
      else if c \<in> {CHR ''s'', CHR ''S''} then
        do { (t, args) \<leftarrow> str_arg args;
             case t of
               None \<Rightarrow> Some (string_text ''(null)'' w p f, args)
             | Some t \<Rightarrow>
                 if flag_hash \<notin> set f then Some (string_text t w p f, args)
                 else (case t of
                         [] \<Rightarrow> Some (string_text [] w p f, args)
                       | l # t \<Rightarrow> if (if p \<ge> 0 \<and> p < of_char l then p else of_char l) > int (length t) then None
                                  else Some (string_text (take (of_char l) t) w p f, args)) }
      else if c = CHR ''p'' then do { (v, args) \<leftarrow> ptr_arg args; Some (ulong_text (unat v) 16 False ''0x'' w p f, args) }
      else if c = CHR ''n'' then None
      else Some ([c], args))"

function render :: "string \<Rightarrow> fmt_arg list \<Rightarrow> string option" where
  "render [] args = Some []"
| "render (c # fmt) args =
     (if c \<noteq> CHR ''%'' then map_option ((#) c) (render fmt args)
      else
        case fmt of
          [] \<Rightarrow> None
        | d # ds \<Rightarrow>
            if d = CHR ''%'' then map_option ((#) d) (render ds args)
            else
              (case parse_spec fmt args of
                 None \<Rightarrow> None
               | Some (sp, fmt, args) \<Rightarrow>
                   (case conv_text sp args of None \<Rightarrow> None | Some (t, args) \<Rightarrow> map_option ((@) t) (render fmt args))))"
  by pat_completeness auto
termination
  by (relation "measure (\<lambda>(fmt, _). length fmt)") (auto dest: parse_spec_length)

lemma unat_ulong: "unat (v :: u32) \<le> ULONG_MAX"
  using unsigned_less [of v, where ?'a = nat] by simp

lemma uint_u32: "0 \<le> uint (v :: u32)" "uint (v :: u32) < 4294967296"
  using unsigned_less [of v, where ?'a = int] by simp_all

lemma sint_u32: "sint (v :: u32) = (if uint v < 2147483648 then uint v else uint v - 4294967296)"
proof -
  have "sint v = (uint v + 2147483648) mod 4294967296 - 2147483648"
    by (simp add: sint_uint signed_take_bit_eq_take_bit_shift take_bit_eq_mod)
  then show ?thesis using uint_u32 [of v] by (simp add: mod_pos_geq)
qed

lemma unat_abs: "nat \<bar>sint (v :: u32)\<bar> = (if sint v \<ge> 0 then unat v else unat (- v))"
proof (cases "uint v < 2147483648")
  case True
  then show ?thesis using uint_u32 [of v] by (simp add: sint_u32 flip: unat_eq_nat_uint)
next
  case False
  have "uint (- v) = 4294967296 - uint v"
    using False uint_u32 [of v] by (simp add: uint_word_ariths zmod_zminus1_eq_if)
  then show ?thesis using False uint_u32 [of v] by (simp add: sint_u32 unat_eq_nat_uint)
qed

lemma put_conv_text:
  assumes "conv sp \<noteq> CHR ''n''"
  shows "put_conv sp args buf = map_option (\<lambda>(t, as). (put_chars t buf, as)) (conv_text sp args)"
proof -
  note u = put_ulong_text [OF _ unat_ulong]
  have z: "unat v = 0 \<longleftrightarrow> v = 0" "0 < unat v \<longleftrightarrow> v \<noteq> 0" for v :: u32 by (simp_all add: unat_eq_zero word_neq_0_conv unat_gt_0)
  consider "conv sp \<in> {CHR ''d'', CHR ''i''}" | "conv sp \<in> {CHR ''o'', CHR ''u'', CHR ''x'', CHR ''X''}" | "conv sp = CHR ''c''"
    | "conv sp \<in> {CHR ''s'', CHR ''S''}" | "conv sp = CHR ''p''"
    | "conv sp \<notin> {CHR ''d'', CHR ''i'', CHR ''o'', CHR ''u'', CHR ''x'', CHR ''X'', CHR ''c'', CHR ''s'', CHR ''S'', CHR ''p''}" by blast
  then show ?thesis
  proof cases
    case 1
    show ?thesis
    proof (cases "int_arg args")
      case (Some a)
      obtain v as where a: "a = (v, as)" by (cases a)
      define v' where "v' = (if flag_short \<in> set (flags sp) then scast (ucast v :: 16 word) else v)"
      have "conv_text sp args = Some (ulong_text (nat \<bar>sint v'\<bar>) 10 False
          (if sint v' < 0 then ''-'' else if flag_plus \<in> set (flags sp) then ''+'' else if flag_space \<in> set (flags sp) then '' '' else [])
          (width sp) (prec sp) (flags sp), as)"
        unfolding conv_text_def Let_def Some a v'_def using 1 by simp
      moreover have "put_conv sp args buf = Some (if sint v' \<ge> 0 then
          if flag_plus \<in> set (flags sp) then put_ulong (unat v') 10 False (Some ''+'') (width sp) (prec sp) (flags sp) buf
          else if flag_space \<in> set (flags sp) then put_ulong (unat v') 10 False (Some '' '') (width sp) (prec sp) (flags sp) buf
          else put_ulong (unat v') 10 False None (width sp) (prec sp) (flags sp) buf
        else put_ulong (unat (- v')) 10 False (Some ''-'') (width sp) (prec sp) (flags sp) buf, as)"
        unfolding put_conv_def Let_def Some a v'_def using 1 by simp
      ultimately show ?thesis by (simp add: u unat_abs)
    qed (use 1 in \<open>auto simp: put_conv_def conv_text_def\<close>)
  next
    case 2
    show ?thesis
    proof (cases "int_arg args")
      case (Some a)
      obtain v as where a: "a = (v, as)" by (cases a)
      define v' where "v' = (if flag_short \<in> set (flags sp) then ucast (ucast v :: 16 word) else v)"
      show ?thesis
        unfolding conv_text_def put_conv_def Let_def Some a prod.case bind.simps v'_def [symmetric] using 2
        by (elim insertE) (simp_all add: u z)
    qed (use 2 in \<open>auto simp: put_conv_def conv_text_def\<close>)
  next
    case 3
    then show ?thesis by (cases "int_arg args") (auto simp: put_conv_def conv_text_def Let_def)
  next
    case 4
    then show ?thesis
      by (cases "str_arg args"; elim insertE;
          simp add: put_conv_def conv_text_def Let_def put_string_text put_string_empty
          put_string_pascal_char split: option.split list.split prod.split split del: if_split cong: if_cong; auto)
  next
    case 5
    then show ?thesis by (cases "ptr_arg args") (auto simp: put_conv_def conv_text_def Let_def u)
  next
    case 6
    then show ?thesis using assms by (auto simp: put_conv_def conv_text_def Let_def)
  qed
qed

lemma fmt_loop_render: "render fmt args = Some t \<Longrightarrow> fmt_loop fmt args buf = Some (put_chars t buf)"
proof (induction fmt args arbitrary: t buf rule: render.induct)
  case (2 c fmt args)
  show ?case
  proof (cases "c = CHR ''%''")
    case False
    then show ?thesis using 2 by auto
  next
    case pct: True
    then obtain d ds where fmt: "fmt = d # ds" using "2.prems" by (cases fmt) auto
    show ?thesis
    proof (cases "d = CHR ''%''")
      case True
      then show ?thesis using 2(2) [of d ds] "2.prems" pct fmt by auto
    next
      case False
      obtain sp fmt' args1 where p: "parse_spec fmt args = Some (sp, fmt', args1)"
        using "2.prems" pct fmt False by (cases "parse_spec fmt args") auto
      obtain u args' where c: "conv_text sp args1 = Some (u, args')"
        using "2.prems" pct fmt False p by (cases "conv_text sp args1") auto
      obtain t' where t': "render fmt' args' = Some t'" "t = u @ t'" using "2.prems" pct fmt False p c by auto
      have "conv sp \<noteq> CHR ''n''" using c by (auto simp: conv_text_def Let_def)
      then have "put_conv sp args1 buf = Some (put_chars u buf, args')" using put_conv_text [of sp args1 buf] c by simp
      moreover have "fmt_loop fmt' args' (put_chars u buf) = Some (put_chars t' (put_chars u buf))"
        using 2(3) [OF _ fmt False p refl refl c refl t'(1)] pct by simp
      ultimately show ?thesis using pct fmt False p t'(2) by (simp add: put_chars_append)
    qed
  qed
qed simp

section \<open>What the callers get\<close>

text \<open>The C string in a buffer; \<open>None\<close> when a cell before the terminator was never written or there is none.\<close>

fun c_string :: "cells \<Rightarrow> string option" where
  "c_string [] = None"
| "c_string (None # cs) = None"
| "c_string (Some c # cs) = (if c = NUL then Some [] else map_option ((#) c) (c_string cs))"

lemma c_string_text: "NUL \<notin> set t \<Longrightarrow> c_string (map Some t @ Some NUL # cs) = Some t"
  by (induction t) auto

text \<open>The text without terminators, as a C string has it.\<close>

definition visible :: "string \<Rightarrow> string" where
  "visible t = filter (\<lambda>c. c \<noteq> NUL) t"

lemma store_c_string:
  assumes "holds t buf" "sbuf buf = Some cs" "NUL \<notin> set t"
  shows "\<exists>cs'. sbuf (store (bcount buf) NUL buf) = Some cs' \<and> c_string cs' = Some t" "\<not> fault (store (bcount buf) NUL buf)"
proof -
  have h: "length t < length cs" "take (length t) cs = map Some t" "bcount buf = int (length t)" "\<not> fault buf" using assms by (auto simp: holds_def)
  have "cs[length t := Some NUL] = map Some t @ Some NUL # drop (Suc (length t)) cs" using h(1,2) by (metis upd_conv_take_nth_drop)
  then show "\<exists>cs'. sbuf (store (bcount buf) NUL buf) = Some cs' \<and> c_string cs' = Some t" "\<not> fault (store (bcount buf) NUL buf)"
    using c_string_text [OF assms(3)] h assms(2) by (simp_all add: store_def)
qed

lemma dsnprintf_text:
  assumes "render fmt args = Some out" "holds [] b0"
    and "b0 = \<lparr>sbuf = old, bsize = bs, bmax = bm, bcount = 0, STR_REALLOC = r, fault = False, stored = [], mem = m\<rparr>"
    and "old = None \<and> bs = 0 \<and> bm = n \<and> r \<or> (\<exists>cs. old = Some cs) \<and> bs = n \<and> bm = 0 \<and> \<not> r"
    and "int (length (take (limit b0) (visible out))) < n"
  shows "\<exists>buf cs. dsnprintf m old n fmt args 0 = Some (buf, int (length (take (limit b0) (visible out)))) \<and> \<not> fault buf \<and>
    sbuf buf = Some cs \<and> c_string cs = Some (take (limit b0) (visible out))"
proof -
  let ?t = "take (limit b0) (visible out)"
  define b1 where "b1 = put_chars out b0"
  have h1: "holds ?t b1" "limit b1 = limit b0" using put_chars_holds [OF assms(2), of out] by (simp_all add: b1_def visible_def)
  define b2 where "b2 = (if sbuf b1 = None then put_char NUL b1 else b1)"
  have h2: "holds ?t b2" using h1 put_char_holds [OF h1(1), of NUL] by (simp add: b2_def)
  have s2: "sbuf b2 \<noteq> None"
  proof (cases "sbuf b1")
    case None
    then have "bsize b1 = 0" "bcount b1 = 0" "STR_REALLOC b1" "mem b1 64" using h1(1) by (auto simp: holds_def limit_def)
    then show ?thesis using None by (auto simp: b2_def put_char_def store_def resize_def Let_def)
  qed (simp add: b2_def)
  then obtain cs2 where cs2: "sbuf b2 = Some cs2" by auto
  have c2: "bcount b2 = int (length ?t)" using h2 by (simp add: holds_def)
  have nul: "NUL \<notin> set ?t" by (auto simp: visible_def dest: in_set_takeD)
  have n: "n > 0" using assms(5) by linarith
  have "dsnprintf m old n fmt args 0 = Some (store (bcount b2) NUL b2, bcount (store (bcount b2) NUL b2))"
    using assms(3,4) fmt_loop_render [OF assms(1), of b0] n c2 assms(5)
    by (auto simp: dsnprintf_def Let_def b1_def b2_def)
  moreover have "bcount (store (bcount b2) NUL b2) = bcount b2" using cs2 by (simp add: store_def)
  ultimately show ?thesis using store_c_string [OF h2 cs2 nul] c2 by auto
qed

lemma fmtAlloc_render:
  assumes "render fmt args = Some out" "n \<ge> 64" "t = take (64 * (nat n div 64) - 1) (visible out)" "\<forall>k \<le> nat n. m k"
  shows "\<exists>buf cs. fmtAlloc m n fmt args = Some (buf, int (length t)) \<and> \<not> fault buf \<and> sbuf buf = Some cs \<and> c_string cs = Some t"
proof -
  let ?b = "\<lparr>sbuf = None, bsize = 0, bmax = n, bcount = 0, STR_REALLOC = True, fault = False, stored = [], mem = m\<rparr>"
  have "64 div 64 \<le> nat n div 64" using assms(2) by (intro div_le_mono) simp
  then have l: "limit ?b = 64 * (nat n div 64) - 1" and fit: "limit ?b + 1 \<le> nat n" by (simp_all add: limit_def)
  have "64 * (nat n div 64) \<le> nat n" by simp
  then have "64 * (nat n div 64) - 1 < nat n" using assms(2) by linarith
  moreover have "length t \<le> 64 * (nat n div 64) - 1" unfolding assms(3) by simp
  ultimately have "int (length (take (limit ?b) (visible out))) < n" unfolding l assms(3) [symmetric] by linarith
  moreover have "holds [] ?b" using assms(4) fit by (simp add: holds_def)
  ultimately show ?thesis
    using dsnprintf_text [OF assms(1) _ refl, of None 0 n True m n] unfolding l fmtAlloc_def assms(3) by simp
qed

text \<open>
  C6: \<open>fmtAlloc\<close> with a limit of at least 64 returns the text of the format, cut to one character
  less than the greatest multiple of 64 within the limit, with its length, as a terminated string, and
  writes inside its buffer only, if blocks of any size up to the limit can be allocated. (The code does not test whether
  they were.) The format and its arguments fit together: \<open>render\<close> gives the text.
\<close>

theorem fmtAlloc_text:
  assumes "render fmt args = Some out" "n \<ge> 64" "t = take (64 * (nat n div 64) - 1) (visible out)" "\<forall>k \<le> nat n. m k"
  shows "\<exists>buf cs. fmtAlloc m n fmt args = Some (buf, int (length t)) \<and> \<not> fault buf \<and> sbuf buf = Some cs \<and> c_string cs = Some t"
  using assms by (rule fmtAlloc_render)

text \<open>
  C34: \<open>fmtStatic\<close> never writes outside the buffer the caller passes, and leaves in it the text of
  the format cut to its size, terminated, with the length as its result.
\<close>

theorem fmtStatic_bounded:
  assumes "render fmt args = Some out" "n > 0" "length cs = nat n" "t = take (nat n - 1) (visible out)"
  shows "\<exists>buf cs'. fmtStatic cs n fmt args = Some (Some (buf, int (length t))) \<and> \<not> fault buf \<and>
    sbuf buf = Some cs' \<and> c_string cs' = Some t"
proof -
  let ?b = "\<lparr>sbuf = Some cs, bsize = n, bmax = 0, bcount = 0, STR_REALLOC = False, fault = False, stored = [], mem = (\<lambda>_. False)\<rparr>"
  have l: "limit ?b = nat n - 1" by (simp add: limit_def)
  have "length t \<le> nat n - 1" unfolding assms(4) by simp
  then have "int (length t) < n" using assms(2) by linarith
  then show ?thesis
    using dsnprintf_text [OF assms(1), of ?b "Some cs" n 0 False "\<lambda>_. False" n] assms unfolding l fmtStatic_def by (auto simp: holds_def)
qed

definition opt_text :: "string option \<Rightarrow> string" where
  "opt_text t = (case t of None \<Rightarrow> ''(null)'' | Some t \<Rightarrow> t)"

lemma opt_text_Some [simp]: "opt_text (Some t) = t"
  by (simp add: opt_text_def)

text \<open>One conversion \<open>%s\<close>.\<close>

lemma render_s:
  "render (CHR ''%'' # CHR ''s'' # fmt) (AStr t # args) = map_option ((@) (opt_text t)) (render fmt args)"
  by (simp add: parse_spec_def get_width_def get_prec_def get_length_def isdigit_def conv_text_def string_text_def pad_left_def
      opt_text_def split: option.split)

section \<open>Numbers are read back\<close>

lemma digits_of_less: "1 < base \<Longrightarrow> list_all (\<lambda>d. d < base) (digits_of base v)"
proof (induction base v rule: digits_of.induct)
  case (1 base v)
  then show ?case by (subst digits_of.simps) auto
qed

lemma digits_of_value: "1 < base \<Longrightarrow> foldl (\<lambda>a d. a * base + d) 0 (digits_of base v) = v"
proof (induction base v rule: digits_of.induct)
  case (1 base v)
  then show ?case by (subst digits_of.simps) auto
qed

lemma digits_of_length: "1 < base \<Longrightarrow> v < base ^ n \<Longrightarrow> 0 < n \<Longrightarrow> length (digits_of base v) \<le> n"
proof (induction n arbitrary: v)
  case (Suc n)
  show ?case
  proof (cases "base \<le> v")
    case True
    have "v div base < base ^ n" using Suc.prems by (simp add: less_mult_imp_div_less mult.commute)
    moreover have "0 < n" using True Suc.prems by (cases n) auto
    ultimately have "length (digits_of base (v div base)) \<le> n" using Suc.IH Suc.prems(1) by simp
    then show ?thesis using True Suc.prems(1) by (subst digits_of.simps) simp
  qed (subst digits_of.simps, simp)
qed simp

lemma hex_value_digit:
  assumes "d < 16"
  shows "hex_value (of_char (digit_char u d)) = Some (of_nat d)"
proof -
  have "(of_char (digit_char u d) :: u32) = of_nat (of_char (digit_char u d))" by (simp only: of_nat_of_char)
  also have "\<dots> = of_nat ((if d < 10 then 48 else (if u then 65 else 97) - 10) + d)" using assms by (simp add: digit_char_def)
  finally have c: "(of_char (digit_char u d) :: u32) = of_nat ((if d < 10 then 48 else (if u then 65 else 97) - 10) + d)" .
  have "d \<in> {0, 1, 2, 3, 4, 5, 6, 7, 8, 9, 10, 11, 12, 13, 14, 15}" using assms by (simp add: less_Suc_eq numeral_eq_Suc)
  then show ?thesis unfolding c by (elim insertE) (simp_all add: hex_value_def)
qed

lemma hex_loop_digits:
  "list_all (\<lambda>d. d < 16) ds \<Longrightarrow> hex_loop (of_nat a) (map (digit_char u) ds) = of_nat (foldl (\<lambda>a d. a * 16 + d) a ds)"
proof (induction ds arbitrary: a)
  case (Cons d ds)
  then show ?case using Cons.IH [of "a * 16 + d"] by (simp add: hex_value_digit)
qed simp

lemma isdigit_digit: "d < 10 \<Longrightarrow> isdigit (digit_char u d)" "d < 10 \<Longrightarrow> of_char (digit_char u d) = int d + 48"
proof -
  assume "d < 10"
  then have c: "(of_char (digit_char u d) :: nat) = 48 + d" by (simp add: digit_char_def)
  show "isdigit (digit_char u d)" using c \<open>d < 10\<close> by (simp add: isdigit_def)
  have "(of_char (digit_char u d) :: int) = int (of_char (digit_char u d))" by (simp only: of_nat_of_char)
  then show "of_char (digit_char u d) = int d + 48" using c by simp
qed

lemma digits_digits:
  "list_all (\<lambda>d. d < 10) ds \<Longrightarrow> digits (int a) (map (digit_char u) ds) = int (foldl (\<lambda>a d. a * 10 + d) a ds)"
proof (induction ds arbitrary: a)
  case (Cons d ds)
  have "10 * int a + int d = int (a * 10 + d)" by simp
  then show ?case using Cons.IH [of "a * 10 + d"] Cons.prems by (simp add: isdigit_digit mult.commute)
qed simp

lemma atoi_digits:
  assumes "list_all (\<lambda>d. d < 10) ds" "ds \<noteq> []"
  shows "atoi ((if neg then ''-'' else []) @ map (digit_char u) ds) =
    (if neg then - int (foldl (\<lambda>a d. a * 10 + d) 0 ds) else int (foldl (\<lambda>a d. a * 10 + d) 0 ds))"
proof -
  obtain d ds' where ds: "ds = d # ds'" using assms(2) by (cases ds) auto
  have c: "isdigit (digit_char u d)" using assms(1) ds by (simp add: isdigit_digit)
  then have "digit_char u d \<noteq> CHR ''-''" "digit_char u d \<noteq> CHR ''+''" "\<not> isspace (digit_char u d)"
    by (auto simp: isdigit_def isspace_def)
  moreover have "\<not> isspace CHR ''-''" by (simp add: isspace_def)
  ultimately show ?thesis using digits_digits [OF assms(1), of 0 u] c ds by (auto simp: atoi_def scan_int_def)
qed

definition formatted :: "int \<Rightarrow> string \<Rightarrow> fmt_arg list \<Rightarrow> string option" where
  "formatted n fmt args =
     (case fmtAlloc (\<lambda>_. True) n fmt args of None \<Rightarrow> None | Some (buf, _) \<Rightarrow> (case sbuf buf of None \<Rightarrow> None | Some cs \<Rightarrow> c_string cs))"

text \<open>The string \<open>fmtAlloc\<close> leaves when there is memory, for the lemmas of its callers.\<close>

lemma formatted_text:
  assumes "render fmt args = Some out" "n \<ge> 64" "NUL \<notin> set out"
  shows "formatted n fmt args = Some (take (64 * (nat n div 64) - 1) out)"
proof -
  let ?b = "\<lparr>sbuf = None, bsize = 0, bmax = n, bcount = 0, STR_REALLOC = True, fault = False, stored = [], mem = (\<lambda>_. True)\<rparr>"
  let ?t = "take (64 * (nat n div 64) - 1) out"
  have v: "visible out = out" using assms(3) by (auto simp: visible_def filter_id_conv)
  have "64 div 64 \<le> nat n div 64" using assms(2) by (intro div_le_mono) simp
  then have l: "limit ?b = 64 * (nat n div 64) - 1" by (simp add: limit_def)
  have "64 * (nat n div 64) \<le> nat n" "length ?t \<le> 64 * (nat n div 64) - 1" by simp_all
  then have "int (length ?t) < n" using assms(2) by linarith
  then obtain buf cs where "dsnprintf (\<lambda>_. True) None n fmt args 0 = Some (buf, int (length ?t))" "sbuf buf = Some cs" "c_string cs = Some ?t"
    using dsnprintf_text [OF assms(1), of ?b None 0 n True "\<lambda>_. True" n] unfolding l v by (auto simp: holds_def)
  then show ?thesis by (simp add: formatted_def fmtAlloc_def)
qed

lemma digit_char_nul: "d < 16 \<Longrightarrow> digit_char u d \<noteq> NUL" "d < 16 \<Longrightarrow> digit_char u d \<noteq> CHR ''x''" "d < 16 \<Longrightarrow> digit_char u d \<noteq> CHR ''X''"
proof -
  assume "d < 16"
  then have "(of_char (digit_char u d) :: nat) = (if d < 10 then 48 else (if u then 65 else 97) - 10) + d" by (simp add: digit_char_def)
  then have "(of_char (digit_char u d) :: nat) \<noteq> 0 \<and> (of_char (digit_char u d) :: nat) \<noteq> 120 \<and> (of_char (digit_char u d) :: nat) \<noteq> 88"
    using \<open>d < 16\<close> by (auto split: if_splits)
  then show "digit_char u d \<noteq> NUL" "digit_char u d \<noteq> CHR ''x''" "digit_char u d \<noteq> CHR ''X''" by auto
qed

lemma digits_of_not_Nil: "digits_of base v \<noteq> []"
  by (subst digits_of.simps) simp

lemma ulong_text_plain: "ulong_text v base u sign 0 (- 1) f = sign @ map (digit_char u) (digits_of base v)"
  by (simp add: ulong_text_def pad_left_def pad_right_def Let_def)

lemma no_hex_prefix:
  assumes "list_all (\<lambda>d. d < 16) ds"
  shows "\<not> hex_prefix (map (digit_char u) ds)"
proof
  assume "hex_prefix (map (digit_char u) ds)"
  then have "length ds \<ge> 2" "digit_char u (ds ! 1) \<in> {CHR ''x'', CHR ''X''}" by (auto simp: hex_prefix_def)
  moreover from this have "ds ! 1 < 16" using assms by (simp add: list_all_length)
  ultimately show False using digit_char_nul by auto
qed

lemma formatted_number:
  assumes "render fmt args = Some (sign @ map (digit_char u) (digits_of base v))" "base \<in> {10, 16}" "v \<le> ULONG_MAX"
    "NUL \<notin> set sign" "length sign \<le> 2"
  shows "formatted 64 fmt args = Some (sign @ map (digit_char u) (digits_of base v))"
proof -
  have "list_all (\<lambda>d. d < base) (digits_of base v)" using assms(2) by (intro digits_of_less) auto
  then have "\<forall>d\<in>set (digits_of base v). digit_char u d \<noteq> NUL" using assms(2) digit_char_nul(1) by (auto simp: list_all_iff)
  then have "NUL \<notin> set (sign @ map (digit_char u) (digits_of base v))" using assms(4) by auto
  moreover have "length (digits_of base v) \<le> 10" using assms(2,3) by (intro digits_of_length) auto
  ultimately show ?thesis using formatted_text [OF assms(1), of 64] assms(5) by simp
qed

text \<open>
  A number printed in hexadecimal, with or without its prefix, or in decimal is read back by the
  server's own conversion functions, for every 32-bit value.
\<close>

theorem number_roundtrip:
  "map_option hextoi (formatted 64 ''%x'' [AInt v]) = Some v \<and>
   map_option gstrtoi (formatted 64 ''%#x'' [AInt v]) = Some v \<and>
   map_option gstrtoi (formatted 64 ''%d'' [AInt v]) = Some v"
proof -
  have h16: "list_all (\<lambda>d. d < 16) (digits_of 16 (unat v))" by (rule digits_of_less) simp
  have hx: "hextoi (map (digit_char False) (digits_of 16 (unat v))) = v"
    using hex_loop_digits [OF h16, of 0 False] digits_of_value [of 16 "unat v"] no_hex_prefix [OF h16] by (simp add: hextoi_def)
  have x: "render ''%x'' [AInt v] = Some ([] @ map (digit_char False) (digits_of 16 (unat v)))"
    by (simp add: parse_spec_def get_width_def get_prec_def get_length_def isdigit_def conv_text_def ulong_text_plain)
  have 1: "map_option hextoi (formatted 64 ''%x'' [AInt v]) = Some v"
    using formatted_number [OF x _ unat_ulong] hx by simp
  define i where "i = sint v"
  define ds where "ds = digits_of 10 (nat \<bar>i\<bar>)"
  have ds: "list_all (\<lambda>d. d < 10) ds" "ds \<noteq> []" "foldl (\<lambda>a d. a * 10 + d) 0 ds = nat \<bar>i\<bar>"
    using digits_of_less [of 10] digits_of_not_Nil digits_of_value [of 10] by (simp_all add: ds_def)
  have d: "render ''%d'' [AInt v] = Some ((if i < 0 then ''-'' else []) @ map (digit_char False) ds)"
    by (simp add: parse_spec_def get_width_def get_prec_def get_length_def isdigit_def conv_text_def ulong_text_plain i_def ds_def)
  have le: "nat \<bar>i\<bar> \<le> ULONG_MAX" using unat_ulong by (simp add: i_def unat_abs)
  have fd: "formatted 64 ''%d'' [AInt v] = Some ((if i < 0 then ''-'' else []) @ map (digit_char False) ds)"
    unfolding ds_def by (rule formatted_number [OF d [unfolded ds_def] _ le]) simp_all
  have a: "atoi ((if i < 0 then ''-'' else []) @ map (digit_char False) ds) = i" using atoi_digits [OF ds(1,2), of "i < 0" False] ds(3) by auto
  have "list_all (\<lambda>d. d < 16) ds" using ds(1) by (auto simp: list_all_iff)
  then have "\<not> hex_prefix ((if i < 0 then ''-'' else []) @ map (digit_char False) ds)" using no_hex_prefix by (auto simp: hex_prefix_def)
  then have 2: "map_option gstrtoi (formatted 64 ''%d'' [AInt v]) = Some v" using fd a by (simp add: gstrtoi_def i_def)
  have hx': "render ''%#x'' [AInt v] = Some ((if v \<noteq> 0 then ''0x'' else []) @ map (digit_char False) (digits_of 16 (unat v)))"
    by (simp add: parse_spec_def get_width_def get_prec_def get_length_def isdigit_def conv_text_def ulong_text_plain unat_eq_zero unat_gt_0)
  have f: "formatted 64 ''%#x'' [AInt v] = Some ((if v \<noteq> 0 then ''0x'' else []) @ map (digit_char False) (digits_of 16 (unat v)))"
    by (rule formatted_number [OF hx' _ unat_ulong]) simp_all
  have 3: "map_option gstrtoi (formatted 64 ''%#x'' [AInt v]) = Some v"
  proof (cases "v = 0")
    case True
    have "digits_of 16 0 = [0]" by (subst digits_of.simps) simp
    then show ?thesis using f True atoi_digits [of "[0]" False False] by (simp add: gstrtoi_def hex_prefix_def)
  next
    case False
    then show ?thesis using f hx by (simp add: gstrtoi_def hex_prefix_def)
  qed
  show ?thesis using 1 2 3 by simp
qed

text \<open>The zeros that fill a field are put before the sign.\<close>

lemma zeros_before_sign: "render ''%05d'' [AInt (- 5)] = Some ''000-5''"
  by code_simp

text \<open>With a limit below 64 the text may reach past the limit, and is then not terminated where it ends.\<close>

lemma fmtAlloc_unterminated: "formatted 4 ''%s'' [AStr (Some ''abcdef'')] = None"
  by code_simp

section \<open>Samples\<close>

theorem fmtAlloc_text_witness:
  "\<exists>buf cs. fmtAlloc (\<lambda>k. k \<le> 64) 64 ''a%sc'' [AStr (Some ''b'')] = Some (buf, 3) \<and> \<not> fault buf \<and> sbuf buf = Some cs \<and> c_string cs = Some ''abc''"
proof -
  have "render ''a%sc'' [AStr (Some ''b'')] = Some ''abc''" by code_simp
  from fmtAlloc_text [OF this, of 64 "''abc''" "\<lambda>k. k \<le> 64"] show ?thesis by (simp add: visible_def)
qed

theorem fmtStatic_bounded_witness:
  "\<exists>buf cs'. fmtStatic [None, None, None] 3 ''%d'' [AInt 1234] = Some (Some (buf, 2)) \<and> \<not> fault buf \<and>
     sbuf buf = Some cs' \<and> c_string cs' = Some ''12''"
proof -
  have "render ''%d'' [AInt 1234] = Some ''1234''" by code_simp
  from fmtStatic_bounded [OF this, of 3 "[None, None, None]" "''12''"] show ?thesis by (simp add: visible_def)
qed

end
