(* ===== verification/Auth.thy ===== *)
theory Auth
  imports Fmt Md5 Base64
begin

text \<open>
  Who may use the web server: digest authentication (\<open>apps/WebServer/websda.c\<close>), the reading of the
  Authorization header (\<open>websParseRequest\<close> of \<open>apps/WebServer/webs.c\<close>), and the security handler with
  its test for wireless clients (\<open>apps/WebServer/security.c\<close>), for the build of \<open>LINUX/Makefile\<close>:
  \<open>DIGEST_ACCESS_SUPPORT\<close> and \<open>MT_USE_STAT_TASK\<close>, without user management and SSL.

  Strings are those of theory \<open>Fmt\<close>; \<open>None\<close> is the null pointer. The configuration
  (\<open>MT_Get_Param\<close>, vendor code without source) is a parameter, as are the time and the text that the
  commands and the files of the system give. A read behind the end of a header and a null pointer that
  is followed have no result.
\<close>

section \<open>Digests\<close>

definition hexdigit :: "nat \<Rightarrow> char" where
  "hexdigit n = ''0123456789abcdef'' ! n"

definition hex_of :: "bytes \<Rightarrow> string" where
  "hex_of hash = concat (map (\<lambda>b. [hexdigit (unat (drop_bit 4 b)), hexdigit (unat (b AND 0xF))]) hash)"

text \<open>The context is a local variable whose contents are arbitrary at first.\<close>

definition websMD5binary :: "MD5_CONTEXT \<Rightarrow> bytes \<Rightarrow> string" where
  "websMD5binary md5ctx buf = hex_of (fst (MD5Final (MD5Update (MD5Init md5ctx) buf)))"

definition to_bytes :: "string \<Rightarrow> bytes" where
  "to_bytes t = map of_char t"

definition websMD5 :: "MD5_CONTEXT \<Rightarrow> string \<Rightarrow> string option" where
  "websMD5 md5ctx t = (if t \<noteq> [] then Some (websMD5binary md5ctx (to_bytes t)) else None)"

text \<open>The request, as far as authentication uses it.\<close>

record auth =
  userName :: "string option"
  password :: "string option"
  authType :: "string option"
  realm :: "string option"
  nonce :: "string option"
  digest :: "string option"
  uri :: "string option"
  opaque :: "string option"
  nc :: "string option"
  cnonce :: "string option"
  qop :: "string option"
  AUTH_BASIC :: bool
  AUTH_DIGEST :: bool
  LOCAL_REQUEST :: bool
  REQUEST_METHOD :: string
  ipaddr :: string

definition websCalcNonce :: "MD5_CONTEXT \<Rightarrow> string \<Rightarrow> auth \<Rightarrow> string option" where
  "websCalcNonce ctx asctime wp =
     do { prenonce \<leftarrow> formatted 256 ''%s:%s:%s'' [AStr (Some ''onceuponatimeinparadise''), AStr (Some asctime), AStr (realm wp)];
          websMD5 ctx prenonce }"

definition websCalcOpaque :: string where
  "websCalcOpaque = ''5ccc069c403ebaf9f0171e9517f40e41''"

definition websCalcDigest :: "MD5_CONTEXT \<Rightarrow> auth \<Rightarrow> string option" where
  "websCalcDigest ctx wp =
     do { a1 \<leftarrow> formatted 255 ''%s:%s:%s'' [AStr (userName wp), AStr (realm wp), AStr (password wp)];
          let a1prime = websMD5 ctx a1;
          a2 \<leftarrow> formatted 255 ''%s:%s'' [AStr (Some (REQUEST_METHOD wp)), AStr (uri wp)];
          let a2prime = websMD5 ctx a2;
          preDigest \<leftarrow>
            (if qop wp = None then formatted 255 ''%s:%s:%s'' [AStr a1prime, AStr (nonce wp), AStr a2prime]
             else formatted 255 ''%s:%s:%s:%s:%s:%s''
                    [AStr a1prime, AStr (nonce wp), AStr (nc wp), AStr (cnonce wp), AStr (qop wp), AStr a2prime]);
          websMD5 ctx preDigest }"

section \<open>The Authorization header\<close>

definition gisalpha :: "char \<Rightarrow> bool" where
  "gisalpha c \<longleftrightarrow> c \<in> set ''abcdefghijklmnopqrstuvwxyzABCDEFGHIJKLMNOPQRSTUVWXYZ''"

definition isgoodchar :: "char \<Rightarrow> bool" where
  "isgoodchar c \<longleftrightarrow> gisalpha c \<or> isdigit c \<or> c \<in> set ''/_.-''"

definition tolower :: "char \<Rightarrow> char" where
  "tolower c = (let n = of_char c in if 65 \<le> n \<and> n \<le> (90 :: nat) then char_of (n + 32) else c)"

text \<open>\<open>gstricmp\<close> of two strings is 0.\<close>

definition stricmp_eq :: "string \<Rightarrow> string \<Rightarrow> bool" where
  "stricmp_eq a b \<longleftrightarrow> map tolower a = map tolower b"

definition set_field :: "string \<Rightarrow> string \<Rightarrow> auth \<Rightarrow> auth" where
  "set_field nm v wp =
     (if stricmp_eq nm ''username'' then wp\<lparr>userName := Some v\<rparr>
      else if stricmp_eq nm ''response'' then wp\<lparr>digest := Some v\<rparr>
      else if stricmp_eq nm ''opaque'' then wp\<lparr>opaque := Some v\<rparr>
      else if stricmp_eq nm ''uri'' then wp\<lparr>uri := Some v\<rparr>
      else if stricmp_eq nm ''realm'' then wp\<lparr>realm := Some v\<rparr>
      else if stricmp_eq nm ''nonce'' then wp\<lparr>nonce := Some v\<rparr>
      else if stricmp_eq nm ''nc'' then wp\<lparr>nc := Some v\<rparr>
      else if stricmp_eq nm ''cnonce'' then wp\<lparr>cnonce := Some v\<rparr>
      else if stricmp_eq nm ''qop'' then wp\<lparr>qop := Some v\<rparr>
      else wp)"

text \<open>
  The loop over the fields: \<open>cp\<close> is the text from the name of a field on. The temporary terminators
  stand behind the name and behind the value, outside what the scans read.
\<close>

function digest_loop :: "string \<Rightarrow> auth \<Rightarrow> auth option" where
  "digest_loop cp wp =
     (case dropWhile (\<lambda>c. c \<noteq> CHR ''='') cp of
        [] \<Rightarrow> Some wp
      | _ # vp \<Rightarrow>
          let vp = dropWhile (\<lambda>c. \<not> isgoodchar c) vp in
          if vp = [] then None
          else
            let wp = set_field (takeWhile isgoodchar cp) (takeWhile isgoodchar vp) wp;
                cp = dropWhile (\<lambda>c. \<not> isgoodchar c) (dropWhile isgoodchar vp)
            in if cp = [] then Some wp else digest_loop cp wp)"
  by pat_completeness auto
termination
proof (relation "measure (\<lambda>(cp, _). length cp)", goal_cases)
  case (2 cp wp eq vp vp' wp' cp')
  have "length (eq # vp) \<le> length cp" using 2(1) by (metis length_dropWhile_le)
  moreover have "length cp' \<le> length vp"
    unfolding 2(2,5) by (meson le_trans length_dropWhile_le)
  ultimately show ?case by simp
qed simp

declare digest_loop.simps [simp del]

abbreviation (input) FNAMESIZE :: nat where "FNAMESIZE \<equiv> 254"

definition to_string :: "bytes \<Rightarrow> string" where
  "to_string bs = map (\<lambda>b. char_of (unat b)) (takeWhile (\<lambda>b. b \<noteq> 0) bs)"

definition parse_authorization :: "string \<Rightarrow> auth \<Rightarrow> auth option" where
  "parse_authorization v wp =
     (if v = [] then Some (wp\<lparr>userName := Some [], password := Some [], AUTH_BASIC := True\<rparr>)
      else
        let wp = wp\<lparr>authType := Some (takeWhile gisalpha v)\<rparr> in
        if stricmp_eq (takeWhile gisalpha v) ''basic'' then
          let (wp, enc) = (case dropWhile (\<lambda>c. c \<noteq> CHR '' '') v of
                             [] \<Rightarrow> (wp, v)
                           | _ # cp \<Rightarrow> (wp\<lparr>authType := Some (takeWhile (\<lambda>c. c \<noteq> CHR '' '') v)\<rparr>, cp));
              userAuth = to_string (b64_decode (to_bytes enc) (FNAMESIZE - 1));
              wp = (case dropWhile (\<lambda>c. c \<noteq> CHR '':'') userAuth of
                      [] \<Rightarrow> wp\<lparr>userName := Some [], password := Some []\<rparr>
                    | _ # cp \<Rightarrow> wp\<lparr>userName := Some (takeWhile (\<lambda>c. c \<noteq> CHR '':'') userAuth), password := Some cp\<rparr>)
          in Some (wp\<lparr>AUTH_BASIC := True\<rparr>)
        else
          let wp = wp\<lparr>AUTH_DIGEST := True\<rparr>;
              cp = dropWhile (\<lambda>c. \<not> isgoodchar c) (dropWhile isgoodchar v)
          in if cp = [] then None else digest_loop cp wp)"

section \<open>Wireless clients\<close>

text \<open>
  The buffer in the turns of a loop that ends on \<open>feof\<close>: the test is made before a line is read, so
  that the turn in which the end is found sees the line before it again.
\<close>

function feof_lines :: "string \<Rightarrow> string \<Rightarrow> string list" where
  "feof_lines buff rest =
     (case fgets 255 rest of
        None \<Rightarrow> [buff]
      | Some (l, r) \<Rightarrow> if length l < 254 \<and> last l \<noteq> NL then [l] else l # feof_lines l r)"
  by pat_completeness auto
termination by (relation "measure (\<lambda>(_, rest). length rest)") (auto intro: fgets_less)

declare feof_lines.simps [simp del]

fun wls_port_loop :: "int \<Rightarrow> string list \<Rightarrow> int" where
  "wls_port_loop portNum [] = - 1"
| "wls_port_loop portNum (buff # bs) =
     (if strstr buff ''bridge name'' then wls_port_loop portNum bs
      else if strstr buff ''wlan0'' then portNum
      else wls_port_loop (portNum + 1) bs)"

text \<open>What the commands and \<open>/proc/net/arp\<close> print, with \<open>None\<close> for a file that cannot be opened, and what the buffers hold at first.\<close>

record wls_env =
  brctl_show :: "string option"
  brctl_showmacs :: "string option"
  proc_net_arp :: "string option"
  junk :: string

definition getWLSBridgePort :: "wls_env \<Rightarrow> int" where
  "getWLSBridgePort env = (case brctl_show env of None \<Rightarrow> - 1 | Some t \<Rightarrow> wls_port_loop 1 (feof_lines (junk env) t))"

text \<open>\<open>%s %s\<close>: a field that is not found keeps its value.\<close>

definition scan_words :: "string list \<Rightarrow> string \<Rightarrow> string list" where
  "scan_words old buff =
     (let new = map (\<lambda>x. case x of SStr t \<Rightarrow> t | SInt _ \<Rightarrow> []) (sscanf (replicate (length old) CStr) buff)
      in new @ drop (length new) old)"

fun mac_port_loop :: "string \<Rightarrow> string list \<Rightarrow> string list \<Rightarrow> int" where
  "mac_port_loop mac vars [] = - 1"
| "mac_port_loop mac vars (buff # bs) =
     (if strstr buff ''port no mac addr'' then mac_port_loop mac vars bs
      else
        let vars = scan_words vars buff
        in if vars ! 1 \<noteq> [] \<and> vars ! 1 = mac then atoi (vars ! 0) else mac_port_loop mac vars bs)"

definition GetBridgPortForMAC :: "wls_env \<Rightarrow> string \<Rightarrow> int" where
  "GetBridgPortForMAC env mac =
     (case brctl_showmacs env of None \<Rightarrow> - 1 | Some t \<Rightarrow> mac_port_loop mac (replicate 2 (junk env)) (feof_lines (junk env) t))"

fun arp_mac_loop :: "string \<Rightarrow> string \<Rightarrow> string list \<Rightarrow> string list \<Rightarrow> string" where
  "arp_mac_loop ip mac vars [] = mac"
| "arp_mac_loop ip mac vars (buff # bs) =
     (if strstr buff ''IP address'' then arp_mac_loop ip mac vars bs
      else
        let vars = scan_words vars buff
        in arp_mac_loop ip (if vars ! 0 \<noteq> [] \<and> vars ! 0 = ip then vars ! 3 else mac) vars bs)"

definition IPtoMAC :: "wls_env \<Rightarrow> string \<Rightarrow> string" where
  "IPtoMAC env ip =
     (case proc_net_arp env of None \<Rightarrow> [] | Some t \<Rightarrow> arp_mac_loop ip [] (replicate 4 (junk env)) (feof_lines (junk env) t))"

definition isIPFromWLS :: "wls_env \<Rightarrow> string \<Rightarrow> bool" where
  "isIPFromWLS env ip \<longleftrightarrow> GetBridgPortForMAC env (map tolower (IPtoMAC env ip)) = getWLSBridgePort env"

section \<open>The security handler\<close>

record sec_conf =
  MTuserName :: string
  MTuserPass :: string
  MTAuthTimeout :: string
  WirelessMgmtEnabled :: string

text \<open>The static variable with the time of the last request, and the counters of the statistics.\<close>

record sec_state =
  lastAuth :: int
  access_count :: nat
  error_count :: nat

datatype verdict = Pass | Denied nat string | Crash

text \<open>
  The part behind the exceptions for local requests: \<open>pw\<close> is the password of the request after the
  test of the timeout. The access method is always \<open>AM_BASIC\<close>.
\<close>

definition check_password ::
  "sec_conf \<Rightarrow> MD5_CONTEXT \<Rightarrow> string option \<Rightarrow> auth \<Rightarrow> sec_state \<Rightarrow> verdict \<times> auth \<times> sec_state" where
  "check_password conf ctx pw wp st =
     (if pw \<noteq> None \<and> pw \<noteq> Some [] then
        if pw \<noteq> Some (MTuserPass conf)
        then (Denied 401 ''Access Denied: Wrong Password'', wp, st\<lparr>access_count := access_count st + 1\<rparr>)
        else (Pass, wp, st)
      else if AUTH_DIGEST wp then
        let wp = wp\<lparr>password := Some (MTuserPass conf)\<rparr> in
        case (digest wp, websCalcDigest ctx wp) of
          (Some d, Some digestCalc) \<Rightarrow>
            if d \<noteq> digestCalc
            then (Denied 401 ''Access Denied: Wrong Password'', wp, st\<lparr>access_count := access_count st + 1\<rparr>)
            else (Pass, wp, st)
        | _ \<Rightarrow> (Crash, wp, st)
      else (Denied 401 ''Access to this document requires a password'', wp, st\<lparr>error_count := error_count st + 1\<rparr>))"

definition timed_out :: "sec_conf \<Rightarrow> int \<Rightarrow> sec_state \<Rightarrow> bool" where
  "timed_out conf now st \<longleftrightarrow> atoi (MTAuthTimeout conf) > 0 \<and> now > lastAuth st + atoi (MTAuthTimeout conf)"

text \<open>The arguments of \<open>strstr\<close> are in the order of the source: the text searched is \<open>0\<close>.\<close>

definition wireless_forbidden :: "sec_conf \<Rightarrow> wls_env \<Rightarrow> auth \<Rightarrow> bool" where
  "wireless_forbidden conf env wp \<longleftrightarrow> strstr ''0'' (WirelessMgmtEnabled conf) \<and> isIPFromWLS env (ipaddr wp)"

definition websSecurityHandler ::
  "sec_conf \<Rightarrow> wls_env \<Rightarrow> MD5_CONTEXT \<Rightarrow> int \<Rightarrow> string \<Rightarrow> auth \<Rightarrow> sec_state \<Rightarrow> verdict \<times> auth \<times> sec_state" where
  "websSecurityHandler conf env ctx now url wp st =
     (if MTuserName conf = [] \<or> MTuserPass conf = [] then (Pass, wp, st)
      else
        let pw = (if timed_out conf now st then Some [] else password wp);
            st = (if atoi (MTAuthTimeout conf) > 0 then st\<lparr>lastAuth := now\<rparr> else st)
        in if wireless_forbidden conf env wp then (Denied 403 ''Access Denied: Wireless management is fordidden'', wp, st)
           else if strstr url ''/mt_stat'' then (Pass, wp, st)
           else if strstr url ''/HNAP1'' then (Pass, wp, st)
           else if LOCAL_REQUEST wp then (Pass, wp, st)
           else check_password conf ctx pw wp st)"

text \<open>The password kept in a buffer of 32 characters; a longer one is not terminated, and reading it back has no result.\<close>

definition websSetPassword :: "string \<Rightarrow> string" where
  "websSetPassword pw = take 32 (pw @ replicate 32 NUL)"

definition websGetPassword :: "string \<Rightarrow> string option" where
  "websGetPassword websPassword = (if NUL \<in> set websPassword then Some (takeWhile (\<lambda>c. c \<noteq> NUL) websPassword) else None)"

section \<open>What passes\<close>

lemma is_prefix_append: "is_prefix p (p @ t)"
  by (induction p) auto

lemma strstr_infix: "strstr (a @ p @ t) p"
proof (induction a)
  case Nil
  show ?case
  proof (cases p)
    case (Cons c cs)
    then show ?thesis using is_prefix_append [of p t] by simp
  qed (cases t, auto)
next
  case (Cons x a)
  then show ?case by simp
qed

text \<open>
  C18: With a user name and a password configured, a request from elsewhere that the handler lets
  pass comes from a client that may manage the device, and its URL names the statistics or HNAP, or
  it carries the configured password within the timeout, or the digest computed with that password.
\<close>

theorem security_pass_sound:
  assumes "fst (websSecurityHandler conf env ctx now url wp st) = Pass" "MTuserName conf \<noteq> []" "MTuserPass conf \<noteq> []"
    and "\<not> LOCAL_REQUEST wp"
  shows "\<not> wireless_forbidden conf env wp \<and>
    (strstr url ''/mt_stat'' \<or> strstr url ''/HNAP1'' \<or>
     password wp = Some (MTuserPass conf) \<and> \<not> timed_out conf now st \<or>
     AUTH_DIGEST wp \<and> digest wp \<noteq> None \<and> digest wp = websCalcDigest ctx (wp\<lparr>password := Some (MTuserPass conf)\<rparr>))"
proof -
  define pw where "pw = (if timed_out conf now st then Some [] else password wp)"
  define st' where "st' = (if atoi (MTAuthTimeout conf) > 0 then st\<lparr>lastAuth := now\<rparr> else st)"
  have f: "\<not> wireless_forbidden conf env wp" using assms by (auto simp: websSecurityHandler_def Let_def split: if_splits)
  show ?thesis
  proof (cases "strstr url ''/mt_stat'' \<or> strstr url ''/HNAP1''")
    case False
    then have "fst (check_password conf ctx pw wp st') = Pass"
      using assms f by (simp add: websSecurityHandler_def pw_def [symmetric] st'_def [symmetric])
    then have "pw = Some (MTuserPass conf) \<and> pw \<noteq> Some [] \<or>
        AUTH_DIGEST wp \<and> digest wp \<noteq> None \<and> digest wp = websCalcDigest ctx (wp\<lparr>password := Some (MTuserPass conf)\<rparr>)"
      by (auto simp: check_password_def Let_def split: if_splits option.splits)
    then show ?thesis using f by (auto simp: pw_def split: if_splits)
  qed (use f in blast)
qed

text \<open>The two ways to be refused.\<close>

lemma security_denied:
  assumes "MTuserName conf \<noteq> []" "MTuserPass conf \<noteq> []" "\<not> LOCAL_REQUEST wp" "\<not> strstr url ''/mt_stat''" "\<not> strstr url ''/HNAP1''"
    and "\<not> AUTH_DIGEST wp" "password wp \<noteq> Some (MTuserPass conf) \<or> timed_out conf now st"
  obtains n m where "fst (websSecurityHandler conf env ctx now url wp st) = Denied n m" "n \<in> {401, 403}"
proof (cases "wireless_forbidden conf env wp")
  case True
  then show thesis using assms(1,2) that by (simp add: websSecurityHandler_def Let_def)
next
  case False
  define pw where "pw = (if timed_out conf now st then Some [] else password wp)"
  have "pw \<noteq> Some (MTuserPass conf)" using assms(2,7) by (auto simp: pw_def)
  then have "\<exists>m. fst (check_password conf ctx pw wp s) = Denied 401 m" for s
    using assms(6) by (auto simp: check_password_def)
  then show thesis using False assms(1-5) that by (auto simp: websSecurityHandler_def Let_def pw_def)
qed

text \<open>
  Conversely a request whose URL has the text \<open>/HNAP1\<close> or \<open>/mt_stat\<close> anywhere passes with no
  password at all, unless wireless management is forbidden.
\<close>

theorem security_bypass:
  assumes "url = pre @ ''/HNAP1'' @ post \<or> url = pre @ ''/mt_stat'' @ post" "\<not> wireless_forbidden conf env wp"
  shows "fst (websSecurityHandler conf env ctx now url wp st) = Pass"
proof -
  have "strstr url ''/HNAP1'' \<or> strstr url ''/mt_stat''" using assms(1) strstr_infix [of pre "''/HNAP1''" post] strstr_infix [of pre "''/mt_stat''" post] by auto
  then show ?thesis using assms(2) by (auto simp: websSecurityHandler_def Let_def)
qed

section \<open>The digest\<close>

lemma render_colon: "render (CHR '':'' # fmt) args = map_option ((#) CHR '':'') (render fmt args)"
  by simp

lemma render_fields:
  "render ''%s:%s'' [AStr a, AStr b] = Some (opt_text a @ '':'' @ opt_text b)"
  "render ''%s:%s:%s'' [AStr a, AStr b, AStr c] = Some (opt_text a @ '':'' @ opt_text b @ '':'' @ opt_text c)"
  "render ''%s:%s:%s:%s:%s:%s'' [AStr a, AStr b, AStr c, AStr d, AStr e, AStr f] =
     Some (opt_text a @ '':'' @ opt_text b @ '':'' @ opt_text c @ '':'' @ opt_text d @ '':'' @ opt_text e @ '':'' @ opt_text f)"
  by (simp_all add: render_s render_colon del: render.simps(2))

definition clean :: "string option \<Rightarrow> bool" where
  "clean t \<longleftrightarrow> NUL \<notin> set (opt_text t)"

lemma formatted_fields:
  "clean a \<Longrightarrow> clean b \<Longrightarrow> formatted 255 ''%s:%s'' [AStr a, AStr b] = Some (take 191 (opt_text a @ '':'' @ opt_text b))"
  "clean a \<Longrightarrow> clean b \<Longrightarrow> clean c \<Longrightarrow> formatted 255 ''%s:%s:%s'' [AStr a, AStr b, AStr c] =
     Some (take 191 (opt_text a @ '':'' @ opt_text b @ '':'' @ opt_text c))"
  "clean a \<Longrightarrow> clean b \<Longrightarrow> clean c \<Longrightarrow> clean d \<Longrightarrow> clean e \<Longrightarrow> clean f \<Longrightarrow>
     formatted 255 ''%s:%s:%s:%s:%s:%s'' [AStr a, AStr b, AStr c, AStr d, AStr e, AStr f] =
     Some (take 191 (opt_text a @ '':'' @ opt_text b @ '':'' @ opt_text c @ '':'' @ opt_text d @ '':'' @ opt_text e @ '':'' @ opt_text f))"
  using formatted_text [OF render_fields(1), of 255 a b] formatted_text [OF render_fields(2), of 255 a b c]
    formatted_text [OF render_fields(3), of 255 a b c d e f]
  by (simp_all add: clean_def)

text \<open>The hash as the server prints it.\<close>

definition hashed :: "string \<Rightarrow> string" where
  "hashed t = hex_of (md5_digest (to_bytes t))"

lemma websMD5_hashed:
  assumes "length (buffer ctx) = 64" "t \<noteq> []" "length t < 2 ^ 32 - 63"
  shows "websMD5 ctx t = Some (hashed t)"
proof -
  have "absorbed (MD5Init ctx) []" using assms(1) by (simp add: absorbed_def MD5Init_def bit_count_def md5_blocks_short)
  then have "absorbed (MD5Update (MD5Init ctx) (to_bytes t)) (to_bytes t)"
    using absorb [of "MD5Init ctx" "[]" "to_bytes t"] assms(3) by (simp add: to_bytes_def)
  from MD5Final_digest [OF this] show ?thesis using assms(2) by (simp add: websMD5_def websMD5binary_def hashed_def)
qed

lemma nibble: "unat (drop_bit 4 (b :: u8)) < 16" "unat (b AND 0xF) < 16"
proof -
  have "unat b < 256" using unsigned_less [of b, where ?'a = nat] by simp
  then show "unat (drop_bit 4 b) < 16" by (simp add: drop_bit_eq_div unat_div)
  have "b AND 0xF = take_bit 4 b" by (simp add: take_bit_eq_mask mask_eq_exp_minus_1)
  then show "unat (b AND 0xF) < 16" by (simp add: take_bit_eq_mod unat_mod)
qed

lemma hexdigit_clean: "n < 16 \<Longrightarrow> hexdigit n \<noteq> NUL"
  by (auto simp: hexdigit_def less_Suc_eq numeral_eq_Suc)

lemma hashed_clean: "NUL \<notin> set (hashed t)" "length (hashed t) = 32"
proof -
  show "NUL \<notin> set (hashed t)" using hexdigit_clean nibble by (fastforce simp: hashed_def hex_of_def)
  have l: "length (hex_of b) = 2 * length b" for b by (induction b) (auto simp: hex_of_def)
  have "length (md5_digest m) = 16" for m by (simp add: md5_digest_def split: prod.split)
  then show "length (hashed t) = 32" by (simp add: hashed_def l)
qed

lemma websCalcDigest_text:
  assumes "length (buffer ctx) = 64" "clean (userName wp)" "clean (realm wp)" "clean (password wp)" "clean (uri wp)"
    "NUL \<notin> set (REQUEST_METHOD wp)" "clean (nonce wp)" "clean (nc wp)" "clean (cnonce wp)" "clean (qop wp)"
  defines "ha1 \<equiv> hashed (take 191 (opt_text (userName wp) @ '':'' @ opt_text (realm wp) @ '':'' @ opt_text (password wp)))"
    and "ha2 \<equiv> hashed (take 191 (REQUEST_METHOD wp @ '':'' @ opt_text (uri wp)))"
  shows "websCalcDigest ctx wp = Some (hashed (take 191
    (if qop wp = None then ha1 @ '':'' @ opt_text (nonce wp) @ '':'' @ ha2
     else ha1 @ '':'' @ opt_text (nonce wp) @ '':'' @ opt_text (nc wp) @ '':'' @ opt_text (cnonce wp) @ '':'' @ opt_text (qop wp) @ '':'' @ ha2)))"
proof -
  have m: "websMD5 ctx (take 191 (x @ '':'' @ y)) = Some (hashed (take 191 (x @ '':'' @ y)))" for x y
    by (rule websMD5_hashed [OF assms(1)]) (auto simp: min_def)
  have c: "clean (Some (REQUEST_METHOD wp))" "clean (Some ha1)" "clean (Some ha2)"
    using assms(6) by (simp_all add: clean_def ha1_def ha2_def hashed_clean)
  have 1: "websMD5 ctx (take 191 (opt_text (userName wp) @ '':'' @ opt_text (realm wp) @ '':'' @ opt_text (password wp))) = Some ha1"
    unfolding ha1_def by (rule m)
  have 2: "websMD5 ctx (take 191 (REQUEST_METHOD wp @ '':'' @ opt_text (uri wp))) = Some ha2" unfolding ha2_def by (rule m)
  note f = formatted_fields(2) [OF assms(2-4)] formatted_fields(1) [OF c(1) assms(5), simplified opt_text_Some]
    formatted_fields(2) [OF c(2) assms(7) c(3), simplified opt_text_Some]
    formatted_fields(3) [OF c(2) assms(7-10) c(3), simplified opt_text_Some]
  show ?thesis
    unfolding websCalcDigest_def f bind.simps Let_def 1 2 by (cases "qop wp = None") (simp_all only: f if_True if_False simp_thms bind.simps m)
qed

text \<open>
  C25: The digest the server computes is the one of RFC 2617 without a quality of protection, when
  the fields are short enough: the hash of H(user:realm:password), the nonce and H(method:uri).
\<close>

theorem digest_rfc2617:
  assumes "length (buffer ctx) = 64" "userName wp = Some u" "realm wp = Some r" "password wp = Some p" "uri wp = Some i"
    "nonce wp = Some n" "qop wp = None" "clean (nc wp)" "clean (cnonce wp)"
    and "NUL \<notin> set (u @ r @ p @ i @ n @ REQUEST_METHOD wp)"
    and "length u + length r + length p \<le> 189" "length (REQUEST_METHOD wp) + length i \<le> 190" "length n \<le> 125"
  shows "websCalcDigest ctx wp = Some (hashed (hashed (u @ '':'' @ r @ '':'' @ p) @ '':'' @ n @ '':'' @ hashed (REQUEST_METHOD wp @ '':'' @ i)))"
proof -
  have "clean (userName wp)" "clean (realm wp)" "clean (password wp)" "clean (uri wp)" "clean (nonce wp)" "clean (qop wp)"
    "NUL \<notin> set (REQUEST_METHOD wp)"
    using assms by (simp_all add: clean_def opt_text_def)
  note d = websCalcDigest_text [OF assms(1) this(1-4,7,5) assms(8,9) this(6)]
  have t: "take 191 (u @ '':'' @ r @ '':'' @ p) = u @ '':'' @ r @ '':'' @ p"
    "take 191 (REQUEST_METHOD wp @ '':'' @ i) = REQUEST_METHOD wp @ '':'' @ i" using assms(11,12) by simp_all
  moreover have "take 191 (hashed x @ '':'' @ n @ '':'' @ hashed y) = hashed x @ '':'' @ n @ '':'' @ hashed y" for x y
    using assms(13) by (simp add: hashed_clean)
  ultimately show ?thesis using d assms(2-7) by (simp only: opt_text_Some if_True simp_thms)
qed

text \<open>
  A user name of 191 characters or more fills the buffer the password is hashed in, so that the
  password does not count: a client that sends such a name computes a digest that passes with any
  guess in place of the password. The name itself is not checked.
\<close>

theorem digest_bypass:
  assumes "length (buffer ctx) = 64" "userName wp = Some u" "length u \<ge> 191" "NUL \<notin> set u" "NUL \<notin> set guess"
    and "clean (realm wp)" "clean (uri wp)" "NUL \<notin> set (REQUEST_METHOD wp)" "clean (nonce wp)" "clean (nc wp)" "clean (cnonce wp)" "clean (qop wp)"
    and "AUTH_DIGEST wp" "password wp = None" "digest wp = websCalcDigest ctx (wp\<lparr>password := Some guess\<rparr>)"
    and "\<not> wireless_forbidden conf env wp" "NUL \<notin> set (MTuserPass conf)"
  shows "fst (websSecurityHandler conf env ctx now url wp st) = Pass"
proof -
  have c: "clean (userName (wp\<lparr>password := Some q\<rparr>))" "clean (realm (wp\<lparr>password := Some q\<rparr>))" "clean (uri (wp\<lparr>password := Some q\<rparr>))"
    "NUL \<notin> set (REQUEST_METHOD (wp\<lparr>password := Some q\<rparr>))" "clean (nonce (wp\<lparr>password := Some q\<rparr>))" "clean (nc (wp\<lparr>password := Some q\<rparr>))"
    "clean (cnonce (wp\<lparr>password := Some q\<rparr>))" "clean (qop (wp\<lparr>password := Some q\<rparr>))" for q
    using assms by (simp_all add: clean_def)
  have p: "clean (password (wp\<lparr>password := Some q\<rparr>))" if "NUL \<notin> set q" for q using that by (simp add: clean_def)
  note d = websCalcDigest_text [OF assms(1) c(1,2) p c(3-8)]
  have "websCalcDigest ctx (wp\<lparr>password := Some guess\<rparr>) = websCalcDigest ctx (wp\<lparr>password := Some (MTuserPass conf)\<rparr>)"
    unfolding d [OF assms(5)] d [OF assms(17)] using assms(2,3) by simp
  moreover have "websCalcDigest ctx (wp\<lparr>password := Some guess\<rparr>) \<noteq> None" unfolding d [OF assms(5)] by simp
  ultimately have v: "fst (check_password conf ctx pw wp st') = Pass" if "pw = None \<or> pw = Some []" for pw st'
    using that assms(13,15) by (auto simp: check_password_def Let_def)
  show ?thesis using assms(14,16) v by (auto simp: websSecurityHandler_def Let_def)
qed

section \<open>Reading credentials\<close>

lemma isgoodchar_not: "isgoodchar c \<Longrightarrow> c \<notin> {CHR ''='', CHR 0x22, CHR '','', CHR '' ''}"
  by (auto simp: isgoodchar_def gisalpha_def isdigit_def)

definition field_text :: "string \<times> string \<Rightarrow> string" where
  "field_text f = fst f @ [CHR ''='', CHR 0x22] @ snd f @ [CHR 0x22]"

fun fields_text :: "(string \<times> string) list \<Rightarrow> string" where
  "fields_text [] = []"
| "fields_text [f] = field_text f"
| "fields_text (f # fs) = field_text f @ '', '' @ fields_text fs"

definition field_ok :: "string \<times> string \<Rightarrow> bool" where
  "field_ok f \<longleftrightarrow> fst f \<noteq> [] \<and> snd f \<noteq> [] \<and> list_all isgoodchar (fst f) \<and> list_all isgoodchar (snd f)"

lemma good_run:
  assumes "list_all isgoodchar t" "\<not> isgoodchar c"
  shows "takeWhile isgoodchar (t @ c # r) = t" "dropWhile isgoodchar (t @ c # r) = c # r"
    "c = CHR ''='' \<Longrightarrow> dropWhile (\<lambda>c. c \<noteq> CHR ''='') (t @ c # r) = c # r"
proof -
  have g: "\<And>x. x \<in> set t \<Longrightarrow> isgoodchar x" using assms(1) by (simp add: list_all_iff)
  show "takeWhile isgoodchar (t @ c # r) = t" "dropWhile isgoodchar (t @ c # r) = c # r"
    using g assms(2) by (simp_all add: takeWhile_append2 dropWhile_append2)
  have "\<And>x. x \<in> set t \<Longrightarrow> x \<noteq> CHR ''=''" using g isgoodchar_not by blast
  then show "c = CHR ''='' \<Longrightarrow> dropWhile (\<lambda>c. c \<noteq> CHR ''='') (t @ c # r) = c # r" by (simp add: dropWhile_append2)
qed

lemma bad_chars: "\<not> isgoodchar (CHR ''='')" "\<not> isgoodchar (CHR 0x22)" "\<not> isgoodchar (CHR '','')" "\<not> isgoodchar (CHR '' '')"
  using isgoodchar_not by blast+

lemma digest_loop_field:
  assumes "field_ok f"
  shows "digest_loop (field_text f @ r) wp =
    (let wp = set_field (fst f) (snd f) wp; cp = dropWhile (\<lambda>c. \<not> isgoodchar c) r in if cp = [] then Some wp else digest_loop cp wp)"
proof -
  obtain v vs where v: "snd f = v # vs" "isgoodchar v" using assms by (cases "snd f") (auto simp: field_ok_def)
  have n: "list_all isgoodchar (fst f)" "list_all isgoodchar (snd f)" using assms by (auto simp: field_ok_def)
  have e: "field_text f @ r = fst f @ CHR ''='' # CHR 0x22 # snd f @ CHR 0x22 # r" by (simp add: field_text_def)
  have s: "dropWhile (\<lambda>c. \<not> isgoodchar c) (CHR 0x22 # snd f @ CHR 0x22 # r) = snd f @ CHR 0x22 # r"
    using v bad_chars by simp
  have ne: "snd f @ CHR 0x22 # r \<noteq> []" by simp
  have q: "dropWhile (\<lambda>c. \<not> isgoodchar c) (CHR 0x22 # r) = dropWhile (\<lambda>c. \<not> isgoodchar c) r" using bad_chars by simp
  show ?thesis unfolding e digest_loop.simps [of "fst f @ CHR ''='' # CHR 0x22 # snd f @ CHR 0x22 # r" wp]
    good_run(3) [OF n(1) bad_chars(1) refl] list.case Let_def s good_run(1) [OF n(1) bad_chars(1)]
    good_run(1,2) [OF n(2) bad_chars(2)] q using ne by argo
qed

lemma fields_text_start:
  assumes "fs \<noteq> []" "list_all field_ok fs"
  shows "\<exists>c t. fields_text fs = c # t \<and> isgoodchar c"
proof -
  obtain f fs' where fs: "fs = f # fs'" using assms(1) by (cases fs) auto
  obtain c t where "fst f = c # t" "isgoodchar c" using assms(2) fs by (cases "fst f") (auto simp: field_ok_def)
  then show ?thesis unfolding fs by (cases fs') (auto simp: field_text_def)
qed

lemma digest_loop_fields:
  "fs \<noteq> [] \<Longrightarrow> list_all field_ok fs \<Longrightarrow> digest_loop (fields_text fs) wp = Some (fold (\<lambda>f. set_field (fst f) (snd f)) fs wp)"
proof (induction fs arbitrary: wp rule: fields_text.induct)
  case (2 f)
  then show ?case using digest_loop_field [of f "[]" wp] by simp
next
  case (3 f g fs)
  obtain c t where ct: "fields_text (g # fs) = c # t" "isgoodchar c" using fields_text_start [of "g # fs"] "3.prems" by auto
  have "digest_loop (fields_text (f # g # fs)) wp = digest_loop (fields_text (g # fs)) (set_field (fst f) (snd f) wp)"
    using digest_loop_field [of f "'', '' @ fields_text (g # fs)" wp] "3.prems" ct bad_chars by (simp add: Let_def)
  then show ?case using "3.IH" [of "set_field (fst f) (snd f) wp"] "3.prems" by simp
qed simp

text \<open>
  A digest header is read back as it was printed: every field of the header with a name and a
  value of the allowed characters is stored under its name, in the order of the header.
\<close>

theorem digest_header_roundtrip:
  assumes "fs \<noteq> []" "list_all field_ok fs"
  shows "parse_authorization (''Digest '' @ fields_text fs) wp =
    Some (fold (\<lambda>f. set_field (fst f) (snd f)) fs (wp\<lparr>authType := Some ''Digest'', AUTH_DIGEST := True\<rparr>))"
proof -
  obtain c t where ct: "fields_text fs = c # t" "isgoodchar c" using fields_text_start [OF assms] by auto
  have a: "gisalpha c = True" if "c \<in> set ''Digest''" for c using that by (auto simp: gisalpha_def)
  have "\<not> gisalpha (CHR '' '')" by (simp add: gisalpha_def)
  then have w: "takeWhile gisalpha (''Digest '' @ fields_text fs) = ''Digest''" by (simp add: a)
  have g: "isgoodchar c" if "c \<in> set ''Digest''" for c using a [OF that] by (simp add: isgoodchar_def)
  then have "dropWhile isgoodchar (''Digest '' @ fields_text fs) = '' '' @ fields_text fs" using bad_chars(4) by simp
  then have d: "dropWhile (\<lambda>c. \<not> isgoodchar c) (dropWhile isgoodchar (''Digest '' @ fields_text fs)) = fields_text fs"
    using ct bad_chars(4) by simp
  have "\<not> stricmp_eq ''Digest'' ''basic''" by (simp add: stricmp_eq_def)
  then show ?thesis unfolding parse_authorization_def w d using digest_loop_fields [OF assms] ct by simp
qed

text \<open>Text and bytes.\<close>

lemma of_char_u8: "(of_char c :: u8) = of_nat (of_char c)"
  by (rule of_nat_of_char [symmetric])

lemma unat_of_char: "unat (of_char c :: u8) = of_char c"
  unfolding of_char_u8 by (simp add: unat_of_nat)

lemma to_string_to_bytes: "NUL \<notin> set t \<Longrightarrow> to_string (to_bytes t) = t"
proof -
  assume a: "NUL \<notin> set t"
  have "(of_char c :: u8) \<noteq> 0" if "c \<in> set t" for c
  proof
    assume "(of_char c :: u8) = 0"
    then have "(of_char c :: nat) = 0" using unat_of_char [of c] by simp
    then have "(of_char c :: nat) = of_char NUL" by simp
    then have "c = NUL" by (simp only: of_char_eq_iff)
    then show False using that a by simp
  qed
  then have "takeWhile (\<lambda>b. b \<noteq> 0) (to_bytes t) = to_bytes t" by (auto simp: to_bytes_def takeWhile_eq_all_conv)
  then have "to_string (to_bytes t) = map (\<lambda>b. char_of (unat b)) (to_bytes t)" by (simp only: to_string_def)
  then show ?thesis by (simp add: to_bytes_def comp_def unat_of_char)
qed

lemma to_bytes_to_string: "0 \<notin> set bs \<Longrightarrow> to_bytes (to_string bs) = bs"
proof -
  assume a: "0 \<notin> set bs"
  then have t: "takeWhile (\<lambda>b. b \<noteq> 0) bs = bs" by (auto simp: takeWhile_eq_all_conv)
  have "(of_char (char_of (unat b)) :: u8) = b" for b :: u8
  proof -
    have "unat b < 256" using unsigned_less [of b, where ?'a = nat] by simp
    then have "(of_char (char_of (unat b)) :: nat) = unat b" by simp
    then show ?thesis unfolding of_char_u8 by simp
  qed
  then show ?thesis by (simp add: to_string_def to_bytes_def t map_idI)
qed

lemma letter_nonzero: "letter k w \<noteq> 0"
  using decode_alphabet [OF piece_less, of k w] by (auto simp: letter_def)

lemma rfc_encode_nonzero: "0 \<notin> set (rfc_encode bs)"
  by (induction bs rule: rfc_encode.induct) (auto simp: Let_def letter_nonzero letter_nonzero [symmetric])

definition basic_header :: "string \<Rightarrow> string \<Rightarrow> string" where
  "basic_header u p = ''Basic '' @ to_string (rfc_encode (to_bytes (u @ '':'' @ p)))"

lemma basic_parsed:
  assumes "NUL \<notin> set (u @ p)" "CHR '':'' \<notin> set u" "length u + length p < 253"
  shows "parse_authorization (basic_header u p) wp =
    Some (wp\<lparr>authType := Some ''Basic'', userName := Some u, password := Some p, AUTH_BASIC := True\<rparr>)"
proof -
  let ?enc = "to_string (rfc_encode (to_bytes (u @ '':'' @ p)))"
  have h: "basic_header u p = ''Basic'' @ CHR '' '' # ?enc" by (simp add: basic_header_def)
  have "gisalpha c" if "c \<in> set ''Basic''" for c using that by (auto simp: gisalpha_def)
  moreover have "\<not> gisalpha (CHR '' '')" by (simp add: gisalpha_def)
  ultimately have w: "takeWhile gisalpha (basic_header u p) = ''Basic''" unfolding h by simp
  have sp: "takeWhile (\<lambda>c. c \<noteq> CHR '' '') (basic_header u p) = ''Basic''" "dropWhile (\<lambda>c. c \<noteq> CHR '' '') (basic_header u p) = CHR '' '' # ?enc"
    unfolding h by simp_all
  have "b64_decode (rfc_encode (to_bytes (u @ '':'' @ p))) 253 = to_bytes (u @ '':'' @ p)"
    using b64_loop_rfc [of "[]" "to_bytes (u @ '':'' @ p)" 253 0] assms(3) by (simp add: b64_decode_def to_bytes_def)
  then have "to_string (b64_decode (to_bytes ?enc) 253) = u @ '':'' @ p"
    using to_bytes_to_string [OF rfc_encode_nonzero] to_string_to_bytes [of "u @ '':'' @ p"] assms(1) by simp
  then have ua: "to_string (b64_decode (to_bytes ?enc) (FNAMESIZE - 1)) = u @ CHR '':'' # p" by simp
  have c: "\<And>x. x \<in> set u \<Longrightarrow> x \<noteq> CHR '':''" using assms(2) by blast
  have "takeWhile (\<lambda>c. c \<noteq> CHR '':'') (u @ CHR '':'' # p) = u" "dropWhile (\<lambda>c. c \<noteq> CHR '':'') (u @ CHR '':'' # p) = CHR '':'' # p"
    using c by (simp_all add: takeWhile_append2 dropWhile_append2)
  moreover have "stricmp_eq ''Basic'' ''basic''" by (simp add: stricmp_eq_def tolower_def char_of_def bit_Suc_0_iff)
  moreover have "basic_header u p \<noteq> []" by (simp add: h)
  ultimately show ?thesis unfolding parse_authorization_def w sp ua Let_def list.case prod.case by simp
qed

text \<open>
  C24: Basic authentication from header to decision: from the header with the encoded user name and
  password the server reads exactly these two, and a request with this header passes if and only if
  the password is the configured one; the user name is not compared. Conditions: the user name has
  no colon, neither text has a zero byte, the password is not empty and both together have fewer
  than 253 bytes; a user name and a password are configured; the request does not come from the
  device itself (such a request passes with any password); the client is not a wireless one that
  may not manage the device; the time of the login has not run out; and the URL holds neither
  \<open>/mt_stat\<close> nor \<open>/HNAP1\<close>.
\<close>

theorem basic_login:
  assumes "NUL \<notin> set (u @ p)" "CHR '':'' \<notin> set u" "length u + length p < 253" "p \<noteq> []"
    and "MTuserName conf \<noteq> []" "MTuserPass conf \<noteq> []" "\<not> LOCAL_REQUEST wp" "\<not> wireless_forbidden conf env wp" "\<not> timed_out conf now st"
    and "\<not> strstr url ''/mt_stat''" "\<not> strstr url ''/HNAP1''"
  shows "\<exists>wp'. parse_authorization (basic_header u p) wp = Some wp' \<and> userName wp' = Some u \<and> password wp' = Some p \<and>
    (fst (websSecurityHandler conf env ctx now url wp' st) = Pass \<longleftrightarrow> p = MTuserPass conf)"
proof -
  define wp' where "wp' = wp\<lparr>authType := Some ''Basic'', userName := Some u, password := Some p, AUTH_BASIC := True\<rparr>"
  have w: "\<not> wireless_forbidden conf env wp'" using assms(8) by (simp add: wireless_forbidden_def wp'_def)
  have "fst (websSecurityHandler conf env ctx now url wp' st) = Pass \<longleftrightarrow> p = MTuserPass conf"
    using assms(4-7,9-11) w by (simp add: websSecurityHandler_def check_password_def wp'_def Let_def)
  then show ?thesis using basic_parsed [OF assms(1-3), of wp] by (simp add: wp'_def)
qed

text \<open>A client whose address is not known counts as wireless when the wireless port is not found either.\<close>

lemma unknown_client_is_wireless:
  "brctl_show env = None \<Longrightarrow> brctl_showmacs env = None \<Longrightarrow> isIPFromWLS env ip"
  by (simp add: isIPFromWLS_def GetBridgPortForMAC_def getWLSBridgePort_def)

text \<open>A header with a scheme and nothing behind it is read past its end.\<close>

lemma digest_header_overrun: "parse_authorization ''Digest'' wp = None"
proof -
  have "isgoodchar c" if "c \<in> set ''Digest''" for c using that by (auto simp: isgoodchar_def gisalpha_def)
  moreover have "gisalpha c" if "c \<in> set ''Digest''" for c using that by (auto simp: gisalpha_def)
  ultimately show ?thesis by (simp add: parse_authorization_def stricmp_eq_def)
qed

section \<open>Samples\<close>

definition ctx0 :: MD5_CONTEXT where
  "ctx0 = \<lparr>state = (0, 0, 0, 0), count = (0, 0), buffer = replicate 64 0\<rparr>"

definition conf0 :: sec_conf where
  "conf0 = \<lparr>MTuserName = ''admin'', MTuserPass = ''secret'', MTAuthTimeout = ''0'', WirelessMgmtEnabled = ''1''\<rparr>"

definition env0 :: wls_env where
  "env0 = \<lparr>brctl_show = None, brctl_showmacs = None, proc_net_arp = None, junk = []\<rparr>"

definition wp0 :: auth where
  "wp0 = \<lparr>userName = None, password = None, authType = None, realm = None, nonce = None, digest = None, uri = None, opaque = None,
          nc = None, cnonce = None, qop = None, AUTH_BASIC = False, AUTH_DIGEST = False, LOCAL_REQUEST = False,
          REQUEST_METHOD = ''GET'', ipaddr = ''192.168.1.9''\<rparr>"

definition st0 :: sec_state where
  "st0 = \<lparr>lastAuth = 0, access_count = 0, error_count = 0\<rparr>"

lemma samples [simp]:
  "length (buffer ctx0) = 64" "MTuserName conf0 = ''admin''" "MTuserPass conf0 = ''secret''" "atoi (MTAuthTimeout conf0) = 0"
  "\<not> wireless_forbidden conf0 env0 wp" "\<not> timed_out conf0 now st" "clean None"
  by (simp_all add: ctx0_def conf0_def wireless_forbidden_def timed_out_def atoi_def scan_int_def isspace_def isdigit_def
      clean_def opt_text_def)

theorem security_pass_sound_witness:
  "password (wp0\<lparr>password := Some ''secret''\<rparr>) = Some (MTuserPass conf0) \<and>
   fst (websSecurityHandler conf0 env0 ctx0 7 ''/index.asp'' (wp0\<lparr>password := Some ''secret''\<rparr>) st0) = Pass"
proof -
  let ?wp = "wp0\<lparr>password := Some ''secret''\<rparr>"
  have p: "fst (websSecurityHandler conf0 env0 ctx0 7 ''/index.asp'' ?wp st0) = Pass"
    by (simp add: websSecurityHandler_def check_password_def Let_def)
  have "\<not> LOCAL_REQUEST ?wp" "\<not> AUTH_DIGEST ?wp" by (simp_all add: wp0_def)
  then show ?thesis using security_pass_sound [OF p] p by simp
qed

theorem security_bypass_witness:
  "fst (websSecurityHandler conf0 env0 ctx0 7 (''/goform/reboot?a='' @ ''/HNAP1'' @ []) wp0 st0) = Pass"
  by (rule security_bypass [where pre = "''/goform/reboot?a=''" and post = "[]"]) simp_all

theorem digest_rfc2617_witness:
  "websCalcDigest ctx0 (wp0\<lparr>userName := Some ''u'', realm := Some ''r'', password := Some ''p'', uri := Some ''/'', nonce := Some ''n''\<rparr>) =
     Some (hashed (hashed ''u:r:p'' @ '':n:'' @ hashed ''GET:/''))"
  using digest_rfc2617 [of ctx0 "wp0\<lparr>userName := Some ''u'', realm := Some ''r'', password := Some ''p'', uri := Some ''/'', nonce := Some ''n''\<rparr>"
      "''u''" "''r''" "''p''" "''/''" "''n''"]
  by (simp add: wp0_def)

definition long_name :: auth where
  "long_name = wp0\<lparr>userName := Some (replicate 191 CHR ''a''), AUTH_DIGEST := True\<rparr>"

lemma websCalcDigest_upd: "websCalcDigest ctx (wp\<lparr>digest := d, password := p\<rparr>) = websCalcDigest ctx (wp\<lparr>password := p\<rparr>)"
  by (simp add: websCalcDigest_def Let_def cong: if_cong)

theorem digest_bypass_witness:
  "fst (websSecurityHandler conf0 env0 ctx0 7 ''/index.asp''
     (long_name\<lparr>digest := websCalcDigest ctx0 (long_name\<lparr>password := Some ''guess''\<rparr>)\<rparr>) st0) = Pass"
proof -
  let ?wp = "long_name\<lparr>digest := websCalcDigest ctx0 (long_name\<lparr>password := Some ''guess''\<rparr>)\<rparr>"
  have "websCalcDigest ctx0 (?wp\<lparr>password := Some ''guess''\<rparr>) = websCalcDigest ctx0 (long_name\<lparr>password := Some ''guess''\<rparr>)"
    by (rule websCalcDigest_upd)
  then show ?thesis
    using digest_bypass [of ctx0 ?wp "replicate 191 CHR ''a''" "''guess''" conf0 env0 7 "''/index.asp''" st0]
    by (simp add: long_name_def wp0_def)
qed

theorem digest_header_roundtrip_witness:
  "map_option userName (parse_authorization (''Digest '' @ fields_text [(''username'', ''bob''), (''qop'', ''auth'')]) wp0) = Some (Some ''bob'')"
proof -
  have "list_all field_ok [(''username'', ''bob''), (''qop'', ''auth'')]" by (simp add: field_ok_def isgoodchar_def gisalpha_def)
  from digest_header_roundtrip [OF _ this, of wp0] show ?thesis by (simp add: set_field_def stricmp_eq_def tolower_def)
qed

theorem basic_login_witness:
  "\<exists>wp'. parse_authorization (basic_header ''admin'' ''secret'') wp0 = Some wp' \<and> password wp' = Some ''secret'' \<and>
     fst (websSecurityHandler conf0 env0 ctx0 7 ''/index.asp'' wp' st0) = Pass"
  using basic_login [of "''admin''" "''secret''" conf0 wp0 env0 7 st0 "''/index.asp''" ctx0] by (auto simp: wp0_def)

end
