(* ===== verification/EjParse.thy ===== *)
theory EjParse
  imports EjLex
begin

text \<open>
  The interpreter of the server-side scripts, \<open>apps/WebServer/ejparse.c\<close>: a recursive descent parser
  that evaluates while it parses, over the lexer of theory \<open>EjLex\<close>.

  A script may run for ever, so the functions that call each other carry fuel; \<open>NoFuel\<close> is the value
  of a run that is cut off. The variables are a list of frames, each a map from names to values (the
  symbol tables of theory \<open>Sym\<close> refine maps), with \<open>None\<close> for the null pointer of a variable that is
  declared only. What the vendor or the pages supply is a parameter (\<open>ext\<close>): the configuration
  store, the functions the scripts call, and the value such a function leaves in \<open>MTretValue\<close>.
  Of the flags of a parse only \<open>FLAGS_EXE\<close> matters, the argument \<open>exe\<close>.
\<close>

section \<open>State\<close>

abbreviation (input) "STATE_ERR \<equiv> (- 1 :: int)"
abbreviation (input) "STATE_EOF \<equiv> (1 :: int)"
abbreviation (input) "STATE_COND \<equiv> (2 :: int)"
abbreviation (input) "STATE_COND_DONE \<equiv> (3 :: int)"
abbreviation (input) "STATE_RELEXP \<equiv> (4 :: int)"
abbreviation (input) "STATE_RELEXP_DONE \<equiv> (5 :: int)"
abbreviation (input) "STATE_EXPR \<equiv> (6 :: int)"
abbreviation (input) "STATE_EXPR_DONE \<equiv> (7 :: int)"
abbreviation (input) "STATE_STMT_DONE \<equiv> (9 :: int)"
abbreviation (input) "STATE_STMT_BLOCK_DONE \<equiv> (10 :: int)"
abbreviation (input) "STATE_ARG_LIST \<equiv> (11 :: int)"
abbreviation (input) "STATE_ARG_LIST_DONE \<equiv> (12 :: int)"
abbreviation (input) "STATE_DEC_LIST \<equiv> (16 :: int)"
abbreviation (input) "STATE_DEC_LIST_DONE \<equiv> (17 :: int)"
abbreviation (input) "STATE_DEC \<equiv> (18 :: int)"
abbreviation (input) "STATE_DEC_DONE \<equiv> (19 :: int)"
abbreviation (input) "STATE_RET \<equiv> (20 :: int)"

type_synonym frame = "bytes \<rightharpoonup> bytes option"

record ejfunc_t =
  fname :: bytes
  args :: "bytes list"

record 'm eng =
  lex :: ej_t
  variables :: "frame list"
  func :: "ejfunc_t option"
  result :: bytes
  mt :: 'm

record 'm ext =
  isInteger :: "bytes \<Rightarrow> bool"
  MT_Get_Param :: "bytes \<Rightarrow> 'm \<Rightarrow> bytes option"
  MT_Set_Param :: "bytes \<Rightarrow> bytes \<Rightarrow> 'm \<Rightarrow> bool \<times> 'm"
  MTretValue :: "'m \<Rightarrow> bytes"
  fn_table :: "bytes \<Rightarrow> (bytes list \<Rightarrow> 'm eng \<Rightarrow> int \<times> 'm eng) option"

text \<open>
  Why a run has no result: it is cut off, or the code follows a null pointer, shifts by more than
  the width, reads a string it may have freed, or has a block left open by a function.
\<close>

datatype stop = NoFuel | NullDeref | BadShift | Dangling | OpenBlocks

type_synonym ('m, 'a) ejm = "'m eng \<Rightarrow> stop + 'a \<times> 'm eng"

definition ret :: "'a \<Rightarrow> ('m, 'a) ejm" where
  "ret a = (\<lambda>ep. Inr (a, ep))"

definition halt :: "stop \<Rightarrow> ('m, 'a) ejm" where
  "halt e = (\<lambda>ep. Inl e)"

definition andthen :: "('m, 'a) ejm \<Rightarrow> ('a \<Rightarrow> ('m, 'b) ejm) \<Rightarrow> ('m, 'b) ejm" where
  "andthen m f = (\<lambda>ep. case m ep of Inl e \<Rightarrow> Inl e | Inr (a, ep) \<Rightarrow> f a ep)"

section \<open>Steps\<close>

definition update :: "('m eng \<Rightarrow> 'm eng) \<Rightarrow> ('m, unit) ejm" where
  "update g = (\<lambda>ep. Inr ((), g ep))"

definition inspect :: "('m eng \<Rightarrow> 'a) \<Rightarrow> ('m, 'a) ejm" where
  "inspect g = (\<lambda>ep. Inr (g ep, ep))"

definition getTok :: "'m ext \<Rightarrow> int \<Rightarrow> ('m, int) ejm" where
  "getTok x st = (\<lambda>ep. let (t, l) = ejLexGetToken (isInteger x) st (lex ep) in Inr (t, ep\<lparr>lex := l\<rparr>))"

text \<open>A token ends, where it is copied, at the first terminator in it, as an escape may put one there.\<close>

definition c_str :: "bytes \<Rightarrow> bytes" where
  "c_str t = takeWhile (\<lambda>b. b \<noteq> 0) t"

lemma c_str_Nil [simp]: "c_str [] = []"
  by (simp add: c_str_def)

definition putback :: "int \<Rightarrow> ('m, unit) ejm" where
  "putback t = update (\<lambda>ep. ep\<lparr>lex := ejLexPutbackToken t (c_str (token (lex ep))) (lex ep)\<rparr>)"

definition raise :: "string \<Rightarrow> ('m, unit) ejm" where
  "raise msg = update (\<lambda>ep. ep\<lparr>lex := ejError msg (lex ep)\<rparr>)"

text \<open>\<open>setString\<close> on the result; \<open>bstrdup\<close> of the null pointer is the empty string.\<close>

definition setResult :: "bytes option \<Rightarrow> ('m, unit) ejm" where
  "setResult t = update (\<lambda>ep. ep\<lparr>result := (case t of None \<Rightarrow> [] | Some t \<Rightarrow> c_str t)\<rparr>)"

text \<open>The first character of a string, which is the terminator of an empty one.\<close>

definition first :: "bytes \<Rightarrow> int" where
  "first t = (case t of [] \<Rightarrow> 0 | b # _ \<Rightarrow> uint b)"

section \<open>Variables\<close>

definition ejSetLocalVar :: "bytes \<Rightarrow> bytes option \<Rightarrow> 'm eng \<Rightarrow> 'm eng" where
  "ejSetLocalVar v a ep =
     (let i = length (variables ep) - 1 in ep\<lparr>variables := (variables ep)[i := (variables ep ! i)(v \<mapsto> a)]\<rparr>)"

definition ejSetGlobalVar :: "bytes \<Rightarrow> bytes option \<Rightarrow> 'm eng \<Rightarrow> 'm eng" where
  "ejSetGlobalVar v a ep = ep\<lparr>variables := (variables ep)[0 := (variables ep ! 0)(v \<mapsto> a)]\<rparr>"

text \<open>The number of the frame a variable is found in, or -1, and its value.\<close>

definition ejGetVar :: "bytes \<Rightarrow> 'm eng \<Rightarrow> int \<times> bytes option" where
  "ejGetVar v ep =
     (let i = length (variables ep) - 1 in
      case (variables ep ! i) v of
        Some a \<Rightarrow> (int i, a)
      | None \<Rightarrow> (case (variables ep ! 0) v of Some a \<Rightarrow> (0, a) | None \<Rightarrow> (- 1, None)))"

definition ejOpenBlock :: "'m eng \<Rightarrow> nat \<times> 'm eng" where
  "ejOpenBlock ep = (length (variables ep), ep\<lparr>variables := variables ep @ [Map.empty]\<rparr>)"

text \<open>A block is closed in the order it was opened; the other order leaves holes and is not modelled.\<close>

definition ejCloseBlock :: "nat \<Rightarrow> ('m, unit) ejm" where
  "ejCloseBlock vid =
     (\<lambda>ep. if length (variables ep) = Suc vid then Inr ((), ep\<lparr>variables := take vid (variables ep)\<rparr>) else Inl OpenBlocks)"

section \<open>Operators\<close>

abbreviation (input) wrap32 :: "int \<Rightarrow> int" where "wrap32 i \<equiv> sint (word_of_int i :: 32 word)"

text \<open>\<open>gatoi\<close> of a string of digits; the C library stops at the greatest \<open>int\<close>.\<close>

definition gatoi :: "bytes \<Rightarrow> int" where
  "gatoi t = min 2147483647 (foldl (\<lambda>a b. a * 10 + (uint b - 48)) 0 (takeWhile (\<lambda>b. gisdigit (uint b)) t))"

text \<open>
  \<open>stritoa\<close> (\<open>apps/WebServer/uemf.c\<close>) into a buffer of 16 characters, which ten digits do not fill:
  the digits from the last to the first, with the sign in front.
\<close>

function itoa_loop :: "int \<Rightarrow> bytes \<Rightarrow> bytes" where
  "itoa_loop n acc = (if n > 9 then itoa_loop (n div 10) (word_of_int (n - n div 10 * 10 + 48) # acc) else word_of_int (n + 48) # acc)"
  by pat_completeness auto
termination by (relation "measure (\<lambda>(n, _). nat n)") auto

declare itoa_loop.simps [simp del]

definition stritoa :: "int \<Rightarrow> bytes" where
  "stritoa n = (if n < 0 then 45 # itoa_loop (wrap32 (- n)) [] else itoa_loop n [])"

definition numeric_text :: "bytes \<Rightarrow> bool" where
  "numeric_text t \<longleftrightarrow> list_all (\<lambda>b. gisdigit (uint b)) t"

fun gstrcmp :: "bytes \<Rightarrow> bytes \<Rightarrow> int" where
  "gstrcmp [] [] = 0"
| "gstrcmp [] (b # bs) = - uint b"
| "gstrcmp (a # as) [] = uint a"
| "gstrcmp (a # as) (b # bs) = (if a = b then gstrcmp as bs else uint a - uint b)"

text \<open>The result of an operation on numbers; \<open>None\<close> for an operator it does not have.\<close>

definition num_op :: "int \<Rightarrow> int \<Rightarrow> int \<Rightarrow> int option" where
  "num_op rel l r =
     (if rel = EXPR_PLUS then Some (wrap32 (l + r))
      else if rel = EXPR_INC then Some (wrap32 (l + 1))
      else if rel = EXPR_MINUS then Some (wrap32 (l - r))
      else if rel = EXPR_DEC then Some (wrap32 (l - 1))
      else if rel = EXPR_MUL then Some (wrap32 (l * r))
      else if rel = EXPR_DIV then Some (if r \<noteq> 0 then l div r else 0)
      else if rel = EXPR_MOD then Some (if r \<noteq> 0 then l mod r else 0)
      else if rel = EXPR_LSHIFT then Some (wrap32 (l * 2 ^ nat r))
      else if rel = EXPR_RSHIFT then Some (l div 2 ^ nat r)
      else if rel = EXPR_EQ then Some (of_bool (l = r))
      else if rel = EXPR_NOTEQ then Some (of_bool (l \<noteq> r))
      else if rel = EXPR_LESS then Some (of_bool (l < r))
      else if rel = EXPR_LESSEQ then Some (of_bool (l \<le> r))
      else if rel = EXPR_GREATER then Some (of_bool (l > r))
      else if rel = EXPR_GREATEREQ then Some (of_bool (l \<ge> r))
      else if rel = EXPR_BOOL_COMP then Some (of_bool (r = 0))
      else None)"

definition str_op :: "int \<Rightarrow> bytes \<Rightarrow> bytes \<Rightarrow> bytes option" where
  "str_op rel lhs rhs =
     (let c = gstrcmp lhs rhs in
      if rel = EXPR_PLUS then Some (lhs @ rhs)
      else if rel = EXPR_LESS then Some (stritoa (of_bool (c < 0)))
      else if rel = EXPR_LESSEQ then Some (stritoa (of_bool (c \<le> 0)))
      else if rel = EXPR_GREATER then Some (stritoa (of_bool (c > 0)))
      else if rel = EXPR_GREATEREQ then Some (stritoa (of_bool (c \<ge> 0)))
      else if rel = EXPR_EQ then Some (stritoa (of_bool (c = 0)))
      else if rel = EXPR_NOTEQ then Some (stritoa (of_bool (c \<noteq> 0)))
      else None)"

text \<open>
  \<open>evalExpr\<close> and \<open>evalCond\<close>: whether they succeed. A shift by 32 or more is not defined in C, and a
  null pointer for the left side is followed.
\<close>

definition evalExpr :: "bytes option \<Rightarrow> int \<Rightarrow> bytes \<Rightarrow> ('m, bool) ejm" where
  "evalExpr lhs rel rhs =
     (case lhs of
        None \<Rightarrow> halt NullDeref
      | Some lhs \<Rightarrow>
          if numeric_text lhs \<and> numeric_text rhs then
            if rel \<in> {EXPR_LSHIFT, EXPR_RSHIFT} \<and> gatoi rhs \<ge> 32 then halt BadShift
            else case num_op rel (gatoi lhs) (gatoi rhs) of
              None \<Rightarrow> andthen (raise ''Bad operator'') (\<lambda>_. ret False)
            | Some v \<Rightarrow> andthen (setResult (Some (stritoa v))) (\<lambda>_. ret True)
          else case str_op rel lhs rhs of
            None \<Rightarrow> andthen (raise ''Bad operator'') (\<lambda>_. ret False)
          | Some t \<Rightarrow> andthen (setResult (Some t)) (\<lambda>_. ret True))"

definition evalCond :: "bytes \<Rightarrow> int \<Rightarrow> bytes \<Rightarrow> ('m, bool) ejm" where
  "evalCond lhs rel rhs =
     (if gisdigit (first lhs) \<and> gisdigit (first rhs) then
        let l = gatoi lhs; r = gatoi rhs in
        if rel = COND_AND then andthen (setResult (Some (stritoa (of_bool (l \<noteq> 0 \<and> r \<noteq> 0))))) (\<lambda>_. ret True)
        else if rel = COND_OR then andthen (setResult (Some (stritoa (of_bool (l \<noteq> 0 \<or> r \<noteq> 0))))) (\<lambda>_. ret True)
        else andthen (raise ''Bad operator'') (\<lambda>_. ret False)
      else andthen (raise ''Conditional must be numeric'') (\<lambda>_. andthen (setResult (Some (stritoa 0))) (\<lambda>_. ret True)))"

definition evalFunction :: "'m ext \<Rightarrow> ('m, bool) ejm" where
  "evalFunction x =
     (\<lambda>ep. case func ep of
        None \<Rightarrow> Inl NullDeref
      | Some f \<Rightarrow>
          (case fn_table x (fname f) of
             None \<Rightarrow> andthen (raise ''Undefined procedure'') (\<lambda>_. ret False) ep
           | Some fn \<Rightarrow> (let (r, ep) = fn (args f) ep in Inr (r \<ge> 0, ep))))"

section \<open>The parser\<close>

text \<open>The state a statement ends with.\<close>

definition stmt_status :: "int \<Rightarrow> int" where
  "stmt_status st =
     (if st = STATE_STMT then STATE_STMT_DONE
      else if st = STATE_DEC then STATE_DEC_DONE
      else if st = STATE_EXPR then STATE_EXPR_DONE
      else if st = STATE_EOF then STATE_EOF
      else STATE_ERR)"

text \<open>
  The functions below call each other. A \<open>call\<close> names one of them (or one of their loops) with its
  arguments; each body takes the function \<open>p\<close> that makes the calls, and \<open>run\<close> ties them together,
  with fuel.
\<close>

datatype call =
    Parse int bool
  | Stmt int bool
  | Declaration int bool
  | Args bool
  | Cond bool int bytes
  | Expr bool int int bytes
  | ForLoop bool ejinput_t ejinput_t ejinput_t bool
  | Block bool
  | Newlines int
  | ToEof int

type_synonym 'm ej_caller = "call \<Rightarrow> ('m, int) ejm"

definition ejRemoveNewlines :: "'m ej_caller \<Rightarrow> 'm ext \<Rightarrow> int \<Rightarrow> ('m, int) ejm" where
  "ejRemoveNewlines p x st =
     andthen (getTok x st) (\<lambda>t. if t = TOK_NEWLINE then p (Newlines st) else andthen (putback t) (\<lambda>_. ret t))"

definition skip_to_eof :: "'m ej_caller \<Rightarrow> 'm ext \<Rightarrow> int \<Rightarrow> ('m, int) ejm" where
  "skip_to_eof p x st = andthen (getTok x st) (\<lambda>t. if t = TOK_EOF then ret t else p (ToEof st))"

text \<open>Behind the loop of \<open>parseStmt\<close>: the semicolon, and the status.\<close>

definition finish :: "'m ej_caller \<Rightarrow> 'm ext \<Rightarrow> bool \<Rightarrow> int \<Rightarrow> ('m, int) ejm" where
  "finish p x expectSemi st =
     (if expectSemi then
        andthen (getTok x st) (\<lambda>t.
          if t \<noteq> TOK_SEMI \<and> t \<noteq> TOK_NEWLINE then ret STATE_ERR
          else andthen (p (Newlines st)) (\<lambda>_. ret (stmt_status st)))
      else ret (stmt_status st))"

text \<open>The assignment to a variable that is not declared here.\<close>

definition assign :: "'m ext \<Rightarrow> int \<Rightarrow> bytes \<Rightarrow> 'm eng \<Rightarrow> 'm eng" where
  "assign x st v ep =
     (if st = STATE_DEC then ejSetLocalVar v (Some (result ep)) ep
      else if fst (ejGetVar v ep) > 0 then ejSetLocalVar v (Some (result ep)) ep
      else
        let (known, m) = MT_Set_Param x v (result ep) (mt ep); ep = ep\<lparr>mt := m\<rparr>
        in if known then ep else ejSetGlobalVar v (Some (result ep)) ep)"

text \<open>The value of a variable or, if there is none, of a parameter of the configuration.\<close>

definition var_value :: "'m ext \<Rightarrow> bytes \<Rightarrow> 'm eng \<Rightarrow> bytes option" where
  "var_value x v ep = (let (i, a) = ejGetVar v ep in if i < 0 then MT_Get_Param x v (mt ep) else a)"

definition need :: "'m ext \<Rightarrow> int \<Rightarrow> int \<Rightarrow> ('m, int) ejm \<Rightarrow> ('m, int) ejm" where
  "need x st t m = andthen (getTok x st) (\<lambda>u. if u \<noteq> t then ret STATE_ERR else m)"

text \<open>The call of a parser that has to end in a given state.\<close>

definition must :: "('m, int) ejm \<Rightarrow> int \<Rightarrow> ('m, int) ejm \<Rightarrow> ('m, int) ejm" where
  "must m st k = andthen m (\<lambda>u. if u \<noteq> st then ret STATE_ERR else k)"

definition save_input :: "('m, ejinput_t) ejm" where
  "save_input = inspect (\<lambda>ep. ejLexSaveInputState (lex ep))"

definition restore_input :: "ejinput_t \<Rightarrow> ('m, unit) ejm" where
  "restore_input i = update (\<lambda>ep. ep\<lparr>lex := ejLexRestoreInputState i (lex ep)\<rparr>)"

definition add_arg :: "('m, unit) ejm" where
  "add_arg = (\<lambda>ep. case func ep of
     None \<Rightarrow> Inl NullDeref
   | Some f \<Rightarrow> Inr ((), ep\<lparr>func := Some (f\<lparr>args := args f @ [result ep]\<rparr>)\<rparr>))"

definition stmt_id :: "'m ej_caller \<Rightarrow> 'm ext \<Rightarrow> int \<Rightarrow> bool \<Rightarrow> bytes \<Rightarrow> ('m, int) ejm" where
  "stmt_id p x st exe v =
     andthen (getTok x st) (\<lambda>tid.
       if tid = TOK_ASSIGNMENT then
         must (p (Parse STATE_RELEXP exe)) STATE_RELEXP_DONE
           (andthen (if exe then update (assign x st v) else ret ()) (\<lambda>_. finish p x (st = STATE_STMT) st))
       else if tid = TOK_INC_DEC then
         (if exe then
            andthen (inspect (\<lambda>ep. (ejGetVar v ep, first (token (lex ep))))) (\<lambda>((i, a), rel).
              if i < 0 then andthen (raise ''Undefined variable'') (\<lambda>_. ret STATE_ERR)
              else
                andthen (setResult a) (\<lambda>_. andthen (evalExpr a rel [49]) (\<lambda>ok.
                  if \<not> ok then p (Stmt STATE_ERR exe)
                  else andthen (update (\<lambda>ep. if i > 0 then ejSetLocalVar v (Some (result ep)) ep
                                            else ejSetGlobalVar v (Some (result ep)) ep))
                         (\<lambda>_. finish p x (st = STATE_STMT) st))))
          else finish p x (st = STATE_STMT) st)
       else if st = STATE_DEC then
         andthen (inspect (\<lambda>ep. (ejGetVar v ep, length (variables ep) = 1))) (\<lambda>((i, a), top).
           if i > 0 then andthen (raise ''Variable already declared'') (\<lambda>_. ret STATE_ERR)
           else if top \<and> a \<noteq> None then halt Dangling
           else
             andthen (update (ejSetLocalVar v None)) (\<lambda>_. andthen (setResult a) (\<lambda>_.
               andthen (putback tid) (\<lambda>_. finish p x (st = STATE_STMT) st))))
       else
         andthen (inspect (\<lambda>ep. if exe then var_value x v ep else None)) (\<lambda>a. andthen (setResult a) (\<lambda>_.
           andthen (putback tid) (\<lambda>_. finish p x (st = STATE_STMT) st))))"

definition stmt_function :: "'m ej_caller \<Rightarrow> 'm ext \<Rightarrow> int \<Rightarrow> bool \<Rightarrow> ('m, int) ejm" where
  "stmt_function p x st exe =
     andthen (inspect func) (\<lambda>saveFunc.
     andthen (update (\<lambda>ep. ep\<lparr>func := Some \<lparr>fname = token (lex ep), args = []\<rparr>, result := []\<rparr>)) (\<lambda>_.
       need x st TOK_LPAREN
         (andthen (p (Parse STATE_ARG_LIST exe)) (\<lambda>u.
            if u \<noteq> STATE_ARG_LIST_DONE then andthen (update (\<lambda>ep. ep\<lparr>func := saveFunc\<rparr>)) (\<lambda>_. ret STATE_ERR)
            else
              andthen (if exe then evalFunction x else ret True) (\<lambda>ok.
                if \<not> ok then andthen (update (\<lambda>ep. ep\<lparr>func := saveFunc\<rparr>)) (\<lambda>_. ret STATE_ERR)
                else
                  andthen (update (\<lambda>ep. ep\<lparr>result := MTretValue x (mt ep), func := saveFunc\<rparr>)) (\<lambda>_.
                    need x st TOK_RPAREN (finish p x (st = STATE_STMT) st)))))))"

definition stmt_if :: "'m ej_caller \<Rightarrow> 'm ext \<Rightarrow> int \<Rightarrow> bool \<Rightarrow> ('m, int) ejm" where
  "stmt_if p x st exe =
     (if st \<noteq> STATE_STMT then ret STATE_ERR
      else
        need x st TOK_LPAREN (must (p (Parse STATE_COND exe)) STATE_COND_DONE (need x st TOK_RPAREN
          (andthen (inspect (\<lambda>ep. first (result ep) = 49)) (\<lambda>c.
           andthen (p (Parse STATE_STMT (exe \<and> c))) (\<lambda>u.
             if u = STATE_RET then ret u
             else if u \<noteq> STATE_STMT_DONE then ret STATE_ERR
             else
               andthen (p (Newlines st)) (\<lambda>_. andthen (getTok x st) (\<lambda>tid.
                 if tid \<noteq> TOK_ELSE then andthen (putback tid) (\<lambda>_. ret (stmt_status st))
                 else
                   andthen (p (Parse STATE_STMT (exe \<and> \<not> c))) (\<lambda>u.
                     if u = STATE_RET then ret u
                     else if u \<noteq> STATE_STMT_DONE then ret STATE_ERR
                     else ret (stmt_status st))))))))))"

definition stmt_for :: "'m ej_caller \<Rightarrow> 'm ext \<Rightarrow> int \<Rightarrow> bool \<Rightarrow> ('m, int) ejm" where
  "stmt_for p x st exe =
     (if st \<noteq> STATE_STMT then ret STATE_ERR
      else
        need x st TOK_LPAREN (must (p (Parse STATE_EXPR exe)) STATE_EXPR_DONE (need x st TOK_SEMI
          (andthen save_input (\<lambda>condScript.
           must (p (Parse STATE_COND exe)) STATE_COND_DONE
          (andthen (inspect (\<lambda>ep. first (result ep) \<noteq> 48)) (\<lambda>cond.
           need x st TOK_SEMI
          (andthen save_input (\<lambda>incrScript.
           must (p (Parse STATE_EXPR False)) STATE_EXPR_DONE (need x st TOK_RPAREN
          (andthen save_input (\<lambda>bodyScript.
           must (p (Parse STATE_STMT False)) STATE_STMT_DONE
          (andthen save_input (\<lambda>endScript.
           andthen (p (ForLoop (cond \<and> exe) bodyScript incrScript condScript exe)) (\<lambda>u.
             if u \<noteq> STATE_STMT_DONE then ret u
             else andthen (restore_input endScript) (\<lambda>_. ret (stmt_status st)))))))))))))))))"

definition for_loop :: "'m ej_caller \<Rightarrow> 'm ext \<Rightarrow> bool \<Rightarrow> ejinput_t \<Rightarrow> ejinput_t \<Rightarrow> ejinput_t \<Rightarrow> bool \<Rightarrow> ('m, int) ejm" where
  "for_loop p x cond body incr condScript exe =
     (if \<not> cond then ret STATE_STMT_DONE
      else
        andthen (restore_input body) (\<lambda>_. andthen (p (Parse STATE_STMT exe)) (\<lambda>u.
          if u = STATE_RET then ret u
          else if u \<noteq> STATE_STMT_DONE then ret STATE_ERR
          else
            andthen (restore_input incr) (\<lambda>_. must (p (Parse STATE_EXPR exe)) STATE_EXPR_DONE
              (andthen (restore_input condScript) (\<lambda>_. must (p (Parse STATE_COND exe)) STATE_COND_DONE
                (andthen (inspect (\<lambda>ep. first (result ep) \<noteq> 48)) (\<lambda>c. p (ForLoop c body incr condScript exe)))))))))"

definition block_loop :: "'m ej_caller \<Rightarrow> 'm ext \<Rightarrow> bool \<Rightarrow> ('m, int) ejm" where
  "block_loop p x exe =
     andthen (p (Parse STATE_STMT exe)) (\<lambda>u. if u = STATE_STMT_DONE then p (Block exe) else ret u)"

definition parseStmt :: "'m ej_caller \<Rightarrow> 'm ext \<Rightarrow> int \<Rightarrow> bool \<Rightarrow> ('m, int) ejm" where
  "parseStmt p x st exe =
     andthen (getTok x st) (\<lambda>tid.
       if tid = TOK_ERR then ret (stmt_status STATE_ERR)
       else if tid = TOK_EOF then ret (stmt_status STATE_EOF)
       else if tid = TOK_NEWLINE then p (Stmt st exe)
       else if tid = TOK_SEMI then
         (if st \<noteq> STATE_STMT then andthen (putback tid) (\<lambda>_. ret (stmt_status st)) else ret (stmt_status st))
       else if tid = TOK_ID then andthen (inspect (\<lambda>ep. token (lex ep))) (\<lambda>v. stmt_id p x st exe v)
       else if tid = TOK_LITERAL then
         andthen (inspect (\<lambda>ep. token (lex ep))) (\<lambda>v. andthen (setResult (Some v)) (\<lambda>_. finish p x (st = STATE_STMT) st))
       else if tid = TOK_FUNCTION then stmt_function p x st exe
       else if tid = TOK_IF then stmt_if p x st exe
       else if tid = TOK_FOR then stmt_for p x st exe
       else if tid = TOK_VAR then must (p (Parse STATE_DEC_LIST exe)) STATE_DEC_LIST_DONE (ret (stmt_status st))
       else if tid = TOK_COMMA then andthen (putback TOK_EXPR) (\<lambda>_. ret (stmt_status st))
       else if tid = TOK_LPAREN then
         (if st = STATE_EXPR then must (p (Parse STATE_RELEXP exe)) STATE_RELEXP_DONE (need x st TOK_RPAREN (ret STATE_EXPR_DONE))
          else ret (stmt_status st))
       else if tid = TOK_RPAREN then andthen (putback tid) (\<lambda>_. ret STATE_EXPR_DONE)
       else if tid = TOK_LBRACE then
         (if st \<noteq> STATE_STMT then ret STATE_ERR
          else andthen (p (Block exe)) (\<lambda>u. if u = STATE_RET then ret u else need x u TOK_RBRACE (ret STATE_STMT_DONE)))
       else if tid = TOK_RBRACE then
         (if st = STATE_STMT then andthen (putback tid) (\<lambda>_. ret STATE_STMT_BLOCK_DONE) else ret STATE_ERR)
       else if tid = TOK_RETURN then
         must (p (Parse STATE_RELEXP exe)) STATE_RELEXP_DONE
           (if exe then andthen (p (ToEof st)) (\<lambda>_. ret STATE_RET) else p (Stmt st exe))
       else andthen (putback TOK_EXPR) (\<lambda>_. ret (stmt_status st)))"

definition parseDeclaration :: "'m ej_caller \<Rightarrow> 'm ext \<Rightarrow> int \<Rightarrow> bool \<Rightarrow> ('m, int) ejm" where
  "parseDeclaration p x st exe =
     andthen (getTok x st) (\<lambda>tid.
       if tid \<noteq> TOK_ID then ret STATE_ERR
       else andthen (putback tid) (\<lambda>_. must (p (Parse STATE_DEC exe)) STATE_DEC_DONE
         (andthen (getTok x st) (\<lambda>tid.
            if tid = TOK_SEMI then ret STATE_DEC_LIST_DONE
            else if tid \<noteq> TOK_COMMA then ret STATE_ERR
            else p (Declaration st exe)))))"

definition parseArgs :: "'m ej_caller \<Rightarrow> 'm ext \<Rightarrow> bool \<Rightarrow> ('m, int) ejm" where
  "parseArgs p x exe =
     andthen (p (Parse STATE_RELEXP exe)) (\<lambda>u.
       if u = STATE_EOF \<or> u = STATE_ERR then ret u
       else
         andthen (if u = STATE_RELEXP_DONE then add_arg else ret ()) (\<lambda>_. andthen (getTok x u) (\<lambda>tid.
           if tid = TOK_COMMA then p (Args exe)
           else andthen (putback tid) (\<lambda>_.
             ret (if tid \<noteq> TOK_RPAREN \<and> u \<noteq> STATE_RELEXP_DONE then STATE_ERR else STATE_ARG_LIST_DONE)))))"

definition parseCond :: "'m ej_caller \<Rightarrow> 'm ext \<Rightarrow> bool \<Rightarrow> int \<Rightarrow> bytes \<Rightarrow> ('m, int) ejm" where
  "parseCond p x exe rel lhs =
     must (p (Parse STATE_RELEXP exe)) STATE_RELEXP_DONE
       (andthen (inspect result) (\<lambda>rhs. andthen (if rel > 0 then evalCond lhs rel rhs else ret True) (\<lambda>ok.
          if \<not> ok then ret STATE_ERR
          else
            andthen (inspect result) (\<lambda>lhs. andthen (getTok x STATE_RELEXP_DONE) (\<lambda>tid.
              if tid = TOK_LOGICAL then andthen (inspect (\<lambda>ep. first (token (lex ep)))) (\<lambda>rel. p (Cond exe rel lhs))
              else if tid = TOK_RPAREN \<or> tid = TOK_SEMI then andthen (putback tid) (\<lambda>_. ret STATE_COND_DONE)
              else andthen (putback tid) (\<lambda>_. p (Cond exe rel lhs)))))))"

definition parseExpr :: "'m ej_caller \<Rightarrow> 'm ext \<Rightarrow> bool \<Rightarrow> int \<Rightarrow> int \<Rightarrow> bytes \<Rightarrow> ('m, int) ejm" where
  "parseExpr p x exe tk rel lhs =
     andthen (if tk = TOK_LOGICAL then p (Parse STATE_RELEXP exe) else p (Parse STATE_EXPR exe)) (\<lambda>u.
       if u \<noteq> (if tk = TOK_LOGICAL then STATE_RELEXP_DONE else STATE_EXPR_DONE) then ret STATE_ERR
       else
         andthen (inspect result) (\<lambda>rhs.
         andthen (if rel > 0 then if tk = TOK_LOGICAL then evalCond lhs rel rhs else evalExpr (Some lhs) rel rhs else ret True) (\<lambda>ok.
           if \<not> ok then ret STATE_ERR
           else
             andthen (inspect result) (\<lambda>lhs. andthen (getTok x u) (\<lambda>tk.
               if tk = TOK_EXPR \<or> tk = TOK_INC_DEC \<or> tk = TOK_LOGICAL then
                 (if u = STATE_EXPR_DONE
                  then andthen (inspect (\<lambda>ep. first (token (lex ep)))) (\<lambda>rel. p (Expr exe tk rel lhs))
                  else ret u)
               else andthen (putback tk) (\<lambda>_. ret STATE_RELEXP_DONE))))))"

definition parse :: "'m ej_caller \<Rightarrow> 'm ext \<Rightarrow> int \<Rightarrow> bool \<Rightarrow> ('m, int) ejm" where
  "parse p x st exe =
     andthen
       (if st = STATE_STMT then
          andthen (p (Stmt st exe)) (\<lambda>u.
            ret (if u \<in> {STATE_STMT_DONE, STATE_EOF, STATE_STMT_BLOCK_DONE, STATE_RET} then u else STATE_ERR))
        else if st = STATE_DEC then
          andthen (p (Stmt st exe)) (\<lambda>u. ret (if u \<in> {STATE_DEC_DONE, STATE_EOF} then u else STATE_ERR))
        else if st = STATE_EXPR then
          andthen (p (Stmt st exe)) (\<lambda>u. ret (if u \<in> {STATE_EXPR_DONE, STATE_EOF} then u else STATE_ERR))
        else if st = STATE_DEC_LIST then p (Declaration st exe)
        else if st = STATE_ARG_LIST then p (Args exe)
        else if st = STATE_COND then andthen (setResult (Some [])) (\<lambda>_. p (Cond exe 0 []))
        else if st = STATE_RELEXP then andthen (setResult (Some [])) (\<lambda>_. p (Expr exe 0 0 []))
        else ret st)
       (\<lambda>u. andthen (inspect (\<lambda>ep. ej_t.error (lex ep))) (\<lambda>e.
          if u = STATE_ERR \<and> e = None then andthen (raise ''Syntax error'') (\<lambda>_. ret u) else ret u))"

definition call_body :: "'m ext \<Rightarrow> 'm ej_caller \<Rightarrow> 'm ej_caller" where
  "call_body x p c =
     (case c of
        Parse st exe \<Rightarrow> parse p x st exe
      | Stmt st exe \<Rightarrow> parseStmt p x st exe
      | Declaration st exe \<Rightarrow> parseDeclaration p x st exe
      | Args exe \<Rightarrow> parseArgs p x exe
      | Cond exe rel lhs \<Rightarrow> parseCond p x exe rel lhs
      | Expr exe tk rel lhs \<Rightarrow> parseExpr p x exe tk rel lhs
      | ForLoop c body incr cs exe \<Rightarrow> for_loop p x c body incr cs exe
      | Block exe \<Rightarrow> block_loop p x exe
      | Newlines st \<Rightarrow> ejRemoveNewlines p x st
      | ToEof st \<Rightarrow> skip_to_eof p x st)"

primrec run :: "nat \<Rightarrow> 'm ext \<Rightarrow> 'm ej_caller" where
  "run 0 x = (\<lambda>c. halt NoFuel)"
| "run (Suc n) x = call_body x (run n x)"

section \<open>Engine and scripts\<close>

text \<open>
  A new engine, over a table of variables if one is given: \<open>null\<close> is declared in it. Its input is
  that of no script.
\<close>

definition ejOpenEngine :: "frame option \<Rightarrow> 'm \<Rightarrow> 'm eng" where
  "ejOpenEngine vars m =
     ejSetGlobalVar (map of_char ''null'') None
       \<lparr>lex = lexer [], variables = [case vars of None \<Rightarrow> Map.empty | Some f \<Rightarrow> f], func = None, result = [], mt = m\<rparr>"

text \<open>
  The loop of \<open>ejEval\<close> over the statements. The read pointer of the script is its number of bytes
  left, as nothing is put behind the script; \<open>stuck\<close> is the pointer of the last round, and \<open>rounds\<close>
  how often it has stayed.
\<close>

primrec eval_loop :: "nat \<Rightarrow> nat \<Rightarrow> 'm ext \<Rightarrow> nat option \<Rightarrow> nat \<Rightarrow> ('m, int) ejm" where
  "eval_loop 0 n x stuck rounds = halt NoFuel"
| "eval_loop (Suc k) n x stuck rounds =
     andthen (run n x (Parse STATE_STMT True)) (\<lambda>st.
       let st = if st = STATE_RET then STATE_EOF else st in
       andthen (inspect (\<lambda>ep. length (script (lex ep)))) (\<lambda>left.
         if stuck = Some left \<and> rounds > 10 then andthen (raise ''Syntax error'') (\<lambda>_. ret STATE_ERR)
         else if st = STATE_EOF \<or> st = STATE_ERR then ret st
         else if stuck = Some left then eval_loop k n x stuck (Suc rounds)
         else eval_loop k n x (Some left) 0))"

text \<open>The input of the script that was evaluated before, as a whole.\<close>

definition restore_block :: "ejinput_t \<Rightarrow> ej_t \<Rightarrow> ej_t" where
  "restore_block old ep =
     ep\<lparr>tokbuf := tokbuf old, script := script old, putBackToken := putBackToken old, putBackTokenId := putBackTokenId old,
        line := line old, lineLength := lineLength old, lineNumber := lineNumber old, lineColumn := lineColumn old,
        line_fault := line_fault old\<rparr>"

text \<open>The result and the message of an error, of which one is null.\<close>

definition ejEval :: "nat \<Rightarrow> 'm ext \<Rightarrow> bytes \<Rightarrow> ('m, (string \<times> int) option + bytes) ejm" where
  "ejEval n x s =
     andthen (setResult (Some [])) (\<lambda>_.
     andthen (inspect (\<lambda>ep. ejinput_t.truncate (lex ep))) (\<lambda>oldBlock.
     andthen (update (\<lambda>ep. ep\<lparr>lex := ejLexOpenScript s (lex ep)\<rparr>)) (\<lambda>_.
     andthen (eval_loop n n x None 0) (\<lambda>st.
     andthen (inspect (\<lambda>ep. (ej_t.error (lex ep), result ep))) (\<lambda>(e, r).
     andthen (update (\<lambda>ep. ep\<lparr>lex := restore_block oldBlock (lex ep)\<rparr>)) (\<lambda>_.
       ret (if st = STATE_ERR then Inl e else Inr r)))))))"

definition ejEvalBlock :: "nat \<Rightarrow> 'm ext \<Rightarrow> bytes \<Rightarrow> ('m, (string \<times> int) option + bytes) ejm" where
  "ejEvalBlock n x s =
     andthen (\<lambda>ep. Inr (ejOpenBlock ep)) (\<lambda>vid. andthen (ejEval n x s) (\<lambda>r. andthen (ejCloseBlock vid) (\<lambda>_. ret r)))"

section \<open>What a run keeps\<close>

text \<open>
  \<open>keeps R m\<close>: every result of \<open>m\<close> stands in the relation \<open>R\<close> to the state before, and no block is
  left open. The locales state which laws of \<open>R\<close> the parser relies on: with those of
  \<open>skipping\<close> it holds of code that is parsed only, with those of \<open>running\<close> of every code.
\<close>

definition keeps :: "('m eng \<Rightarrow> 'm eng \<Rightarrow> bool) \<Rightarrow> ('m, 'a) ejm \<Rightarrow> bool" where
  "keeps R m \<longleftrightarrow> (\<forall>ep. case m ep of Inl e \<Rightarrow> e \<noteq> OpenBlocks | Inr (a, ep') \<Rightarrow> R ep ep')"

fun skips :: "call \<Rightarrow> bool" where
  "skips (Parse st exe) = (\<not> exe)"
| "skips (Stmt st exe) = (\<not> exe)"
| "skips (Declaration st exe) = (\<not> exe)"
| "skips (Args exe) = (\<not> exe)"
| "skips (Cond exe rel lhs) = (\<not> exe)"
| "skips (Expr exe tk rel lhs) = (\<not> exe)"
| "skips (ForLoop c b i cs exe) = (\<not> exe)"
| "skips (Block exe) = (\<not> exe)"
| "skips (Newlines st) = True"
| "skips (ToEof st) = True"

lemma keepsD: "keeps R m \<Longrightarrow> m ep = Inr (a, ep') \<Longrightarrow> R ep ep'"
  by (auto simp: keeps_def split: sum.splits prod.splits)

lemma keeps_open: "keeps R m \<Longrightarrow> m ep \<noteq> Inl OpenBlocks"
  by (auto simp: keeps_def split: sum.splits prod.splits)

locale skipping =
  fixes R :: "'m eng \<Rightarrow> 'm eng \<Rightarrow> bool"
  assumes R_refl: "R ep ep"
    and R_trans: "R ep ep1 \<Longrightarrow> R ep1 ep2 \<Longrightarrow> R ep ep2"
    and R_lex: "R ep (ep\<lparr>lex := l\<rparr>)"
    and R_result: "R ep (ep\<lparr>result := r\<rparr>)"
    and R_func: "R ep (ep\<lparr>func := f\<rparr>)"
    and R_declare: "\<not> fst (ejGetVar v ep) > 0 \<Longrightarrow> length (variables ep) = 1 \<longrightarrow> snd (ejGetVar v ep) = None \<Longrightarrow>
      R ep (ejSetLocalVar v None ep)"
begin

lemma k_ret: "keeps R (ret a)"
  by (simp add: keeps_def ret_def R_refl)

lemma k_halt: "e \<noteq> OpenBlocks \<Longrightarrow> keeps R (halt e)"
  by (simp add: keeps_def halt_def)

lemma k_andthen: "keeps R m \<Longrightarrow> (\<And>a. keeps R (f a)) \<Longrightarrow> keeps R (andthen m f)"
  by (fastforce simp: keeps_def andthen_def split: sum.splits prod.splits intro: R_trans)

lemma k_inspect: "(\<And>a. keeps R (f a)) \<Longrightarrow> keeps R (andthen (inspect g) f)"
  by (simp add: keeps_def andthen_def inspect_def)

lemma k_update: "(\<And>ep. R ep (g ep)) \<Longrightarrow> keeps R (update g)"
  by (simp add: keeps_def update_def)

lemma k_if: "(b \<Longrightarrow> keeps R m) \<Longrightarrow> (\<not> b \<Longrightarrow> keeps R m') \<Longrightarrow> keeps R (if b then m else m')"
  by simp

lemma k_getTok: "keeps R (getTok x st)"
  by (simp add: keeps_def getTok_def R_lex split: prod.split)

lemma k_steps: "keeps R (putback t)" "keeps R (raise msg)" "keeps R (setResult a)" "keeps R (restore_input i)"
  "keeps R (update (\<lambda>ep. ep\<lparr>func := f\<rparr>))"
  by (auto simp: putback_def raise_def setResult_def restore_input_def intro!: k_update R_lex R_result R_func)

lemma k_save: "keeps R save_input"
  by (simp add: keeps_def save_input_def inspect_def R_refl)

lemma k_need: "keeps R m \<Longrightarrow> keeps R (need x st t m)"
  unfolding need_def by (intro k_andthen k_getTok k_if k_ret)

lemma k_must: "keeps R m \<Longrightarrow> keeps R k \<Longrightarrow> keeps R (must m st k)"
  unfolding must_def by (intro k_andthen k_if k_ret)

lemma k_evalExpr: "keeps R (evalExpr lhs rel rhs)"
  unfolding evalExpr_def by (auto intro!: k_andthen k_steps k_ret k_halt split: option.split)

lemma k_evalCond: "keeps R (evalCond lhs rel rhs)"
  unfolding evalCond_def Let_def by (intro k_andthen k_steps k_ret k_if)

lemma k_add_arg: "keeps R add_arg"
  by (simp add: keeps_def add_arg_def R_func split: option.split)

lemma k_start_call: "keeps R (update (\<lambda>ep. ep\<lparr>func := f ep, result := r ep\<rparr>))"
  by (rule k_update) (rule R_trans [OF R_func R_result])

lemma k_end_call: "keeps R (update (\<lambda>ep. ep\<lparr>result := r ep, func := f ep\<rparr>))"
  by (rule k_update) (rule R_trans [OF R_result R_func])

lemma k_declare:
  assumes "\<And>a. keeps R (k a)"
  shows "keeps R (andthen (inspect (\<lambda>ep. (ejGetVar v ep, length (variables ep) = 1))) (\<lambda>((i, a), top).
    if i > 0 then andthen (raise msg) (\<lambda>_. ret u) else if top \<and> a \<noteq> None then halt Dangling
    else andthen (update (ejSetLocalVar v None)) (\<lambda>_. k a)))"
proof -
  have "R ep (ejSetLocalVar v None ep)" if "ejGetVar v ep = (i, a)" "\<not> i > 0" "\<not> (length (variables ep) = 1 \<and> a \<noteq> None)" for ep i a
    using R_declare [of v ep] that by simp
  then show ?thesis
    using assms k_andthen [OF k_steps(2) k_ret, of msg "\<lambda>_. u"]
    by (fastforce simp: keeps_def andthen_def inspect_def update_def halt_def split: sum.splits prod.splits intro: R_trans)
qed

lemmas k_rules = k_inspect k_andthen k_if k_ret k_getTok k_steps k_save k_need k_must k_evalExpr k_evalCond k_add_arg k_start_call k_end_call

text \<open>The bodies, for a caller that keeps \<open>R\<close> in every call that skips.\<close>

lemma k_finish:
  assumes "\<And>c. skips c \<Longrightarrow> keeps R (p c)"
  shows "keeps R (finish p x b st)"
  unfolding finish_def by (intro k_rules assms) simp_all

lemma k_skip_id:
  assumes "\<And>c. skips c \<Longrightarrow> keeps R (p c)"
  shows "keeps R (stmt_id p x st False v)"
  unfolding stmt_id_def by (intro k_rules k_declare k_finish assms; simp add: k_ret k_finish assms)

lemma k_skip_function:
  assumes "\<And>c. skips c \<Longrightarrow> keeps R (p c)"
  shows "keeps R (stmt_function p x st False)"
  unfolding stmt_function_def by (intro k_rules k_finish assms; simp add: k_ret k_finish assms)

lemma k_skip_if:
  assumes "\<And>c. skips c \<Longrightarrow> keeps R (p c)"
  shows "keeps R (stmt_if p x st False)"
  unfolding stmt_if_def by (intro k_rules assms; simp)

lemma k_skip_for:
  assumes "\<And>c. skips c \<Longrightarrow> keeps R (p c)"
  shows "keeps R (stmt_for p x st False)"
  unfolding stmt_for_def by (intro k_rules assms; simp)

lemma k_skip_parseStmt:
  assumes "\<And>c. skips c \<Longrightarrow> keeps R (p c)"
  shows "keeps R (parseStmt p x st False)"
  unfolding parseStmt_def
  by (intro k_rules k_skip_id k_skip_function k_skip_if k_skip_for k_finish assms; simp add: k_ret assms)

lemma k_skip_body:
  assumes p: "\<And>c. skips c \<Longrightarrow> keeps R (p c)" and c: "skips c"
  shows "keeps R (call_body x p c)"
proof (cases c)
  case (Stmt st exe)
  then show ?thesis using k_skip_parseStmt [OF p] c by (simp add: call_body_def)
next
  case (ForLoop c' b i cs exe)
  then show ?thesis using c unfolding call_body_def for_loop_def by simp (intro k_rules p conjI impI; simp)
qed (use c in \<open>simp_all add: call_body_def parse_def parseDeclaration_def parseArgs_def parseCond_def parseExpr_def
       for_loop_def block_loop_def ejRemoveNewlines_def skip_to_eof_def\<close>,
     (intro k_rules p conjI impI; simp)+)

lemma k_skip: "skips c \<Longrightarrow> keeps R (run n x c)"
  by (induction n arbitrary: c) (simp_all add: k_halt k_skip_body)

end

text \<open>The functions a script can call keep \<open>R\<close> too.\<close>

definition functions_keep :: "('m eng \<Rightarrow> 'm eng \<Rightarrow> bool) \<Rightarrow> 'm ext \<Rightarrow> bool" where
  "functions_keep R x \<longleftrightarrow> (\<forall>f g as ep. fn_table x f = Some g \<longrightarrow> R ep (snd (g as ep)))"

locale running = skipping R for R :: "'m eng \<Rightarrow> 'm eng \<Rightarrow> bool" +
  assumes R_local: "R ep (ejSetLocalVar v a ep)"
    and R_global: "R ep (ejSetGlobalVar v a ep)"
    and R_mt: "R ep (ep\<lparr>mt := m\<rparr>)"
begin

lemma k_assign: "keeps R (update (assign x st v))"
proof (rule k_update)
  fix ep :: "'m eng"
  obtain b m where m: "MT_Set_Param x v (result ep) (mt ep) = (b, m)" by fastforce
  have "R ep (ejSetGlobalVar v (Some (result ep)) (ep\<lparr>mt := m\<rparr>))" by (rule R_trans [OF R_mt R_global])
  with m show "R ep (assign x st v ep)" by (simp add: assign_def Let_def R_local R_mt)
qed

lemma k_store: "keeps R (update (\<lambda>ep. if b then ejSetLocalVar v (Some (result ep)) ep else ejSetGlobalVar v (Some (result ep)) ep))"
  by (rule k_update) (simp add: R_local R_global)

lemma k_evalFunction: "functions_keep R x \<Longrightarrow> keeps R (evalFunction x)"
  using k_andthen [OF k_steps(2) k_ret, of "''Undefined procedure''" "\<lambda>_. False"]
  by (auto simp: keeps_def evalFunction_def functions_keep_def split: option.split prod.split) (metis snd_conv)

lemma k_inc_dec:
  assumes p: "\<And>c. keeps R (p c)" and m: "keeps R m"
  shows "keeps R (andthen (inspect (\<lambda>ep. (ejGetVar v ep, g ep))) (\<lambda>((i, a), rel).
    if i < 0 then m else
      andthen (setResult a) (\<lambda>_. andthen (evalExpr a rel [49]) (\<lambda>ok.
        if \<not> ok then p (Stmt STATE_ERR e)
        else andthen (update (\<lambda>ep. if i > 0 then ejSetLocalVar v (Some (result ep)) ep
                                  else ejSetGlobalVar v (Some (result ep)) ep)) (\<lambda>_. finish p x b st)))))"
  unfolding case_prod_unfold by (intro k_rules k_store k_finish p m)

lemma k_run_id:
  assumes "\<And>c. keeps R (p c)"
  shows "keeps R (stmt_id p x st exe v)"
  unfolding stmt_id_def
  by (intro k_inc_dec k_declare k_rules k_assign k_finish assms)

lemma k_run_function:
  assumes "\<And>c. keeps R (p c)" and "functions_keep R x"
  shows "keeps R (stmt_function p x st exe)"
  unfolding stmt_function_def by (intro k_rules k_evalFunction k_finish assms)

lemma k_run_if_for:
  assumes "\<And>c. keeps R (p c)"
  shows "keeps R (stmt_if p x st exe)" "keeps R (stmt_for p x st exe)"
  unfolding stmt_if_def stmt_for_def by (intro k_rules assms)+

lemma k_run_parseStmt:
  assumes "\<And>c. keeps R (p c)" and "functions_keep R x"
  shows "keeps R (parseStmt p x st exe)"
  unfolding parseStmt_def
  by (intro k_rules k_run_id k_run_function k_run_if_for k_finish assms)

lemma k_run_body:
  assumes p: "\<And>c. keeps R (p c)" and f: "functions_keep R x"
  shows "keeps R (call_body x p c)"
proof (cases c)
  case (Stmt st exe)
  then show ?thesis using k_run_parseStmt [OF p f] by (simp add: call_body_def)
qed (simp_all add: call_body_def parse_def parseDeclaration_def parseArgs_def parseCond_def parseExpr_def
       for_loop_def block_loop_def ejRemoveNewlines_def skip_to_eof_def,
     (intro k_rules p conjI impI)+)

lemma k_run: "functions_keep R x \<Longrightarrow> keeps R (run n x c)"
  by (induction n arbitrary: c) (simp_all add: k_halt k_run_body)

lemma k_eval_loop: "functions_keep R x \<Longrightarrow> keeps R (eval_loop k n x stuck rounds)"
proof (induction k arbitrary: stuck rounds)
  case (Suc k)
  then show ?case unfolding eval_loop.simps Let_def by (intro k_rules k_run)
qed (simp add: k_halt)

lemma k_ejEval: "functions_keep R x \<Longrightarrow> keeps R (ejEval n x s)"
  unfolding ejEval_def
  by (intro k_inspect k_andthen k_steps k_update R_lex k_eval_loop k_ret) (auto intro!: k_inspect k_andthen k_update R_lex k_ret)

end

section \<open>Independence of skipped code\<close>

text \<open>The call table and the store are not even consulted by code that is skipped.\<close>

lemma getTok_indep: "isInteger x = isInteger x' \<Longrightarrow> getTok x = getTok x'"
  by (intro ext) (simp add: getTok_def)

lemma skip_indep_body:
  assumes p: "\<And>c. skips c \<Longrightarrow> p c = p' c" and x: "isInteger x = isInteger x'" "MTretValue x = MTretValue x'" and c: "skips c"
  shows "call_body x p c = call_body x' p' c"
  using c by (cases c) (simp_all add: call_body_def parse_def parseStmt_def parseDeclaration_def parseArgs_def parseCond_def parseExpr_def
      for_loop_def block_loop_def ejRemoveNewlines_def skip_to_eof_def stmt_id_def stmt_function_def stmt_if_def stmt_for_def
      finish_def need_def must_def p x getTok_indep [OF x(1)] cong: if_cong)

lemma skip_indep:
  assumes "isInteger x = isInteger x'" "MTretValue x = MTretValue x'" "skips c"
  shows "run n x c = run n x' c"
  using assms(3) by (induction n arbitrary: c) (simp_all add: skip_indep_body [OF _ assms(1,2)])

section \<open>Skipped code and blocks\<close>

text \<open>Code that is skipped leaves the configuration alone and does no more than declare variables.\<close>

definition declares :: "frame \<Rightarrow> frame \<Rightarrow> bool" where
  "declares f g \<longleftrightarrow> (\<forall>v. g v = f v \<or> f v = None \<and> g v = Some None)"

definition untouched :: "'m eng \<Rightarrow> 'm eng \<Rightarrow> bool" where
  "untouched ep ep' \<longleftrightarrow> mt ep' = mt ep \<and>
     (variables ep \<noteq> [] \<longrightarrow>
        length (variables ep') = length (variables ep) \<and> butlast (variables ep') = butlast (variables ep) \<and>
        declares (last (variables ep)) (last (variables ep')))"

lemma declares_trans: "declares f g \<Longrightarrow> declares g h \<Longrightarrow> declares f h"
  unfolding declares_def by (metis option.distinct(1))

lemma declares_new: "f v = None \<or> f v = Some None \<Longrightarrow> declares f (f(v \<mapsto> None))"
  by (auto simp: declares_def)

lemma local_none:
  assumes "variables ep \<noteq> []" "\<not> 0 < fst (ejGetVar v ep)" "length (variables ep) = 1 \<longrightarrow> snd (ejGetVar v ep) = None"
  shows "last (variables ep) v = None \<or> last (variables ep) v = Some None"
proof (cases "length (variables ep) = 1")
  case True
  then show ?thesis using assms by (auto simp: ejGetVar_def Let_def last_conv_nth split: option.splits)
next
  case False
  then have "length (variables ep) > 1" using assms(1) by (cases "variables ep") auto
  then show ?thesis using assms by (auto simp: ejGetVar_def Let_def last_conv_nth split: option.splits)
qed

lemma declare_last:
  assumes "variables ep \<noteq> []"
  shows "last (variables (ejSetLocalVar v a ep)) = (last (variables ep))(v \<mapsto> a)"
    "butlast (variables (ejSetLocalVar v a ep)) = butlast (variables ep)"
proof -
  obtain us f where u: "variables ep = us @ [f]" using assms by (cases "variables ep" rule: rev_cases) auto
  then show "last (variables (ejSetLocalVar v a ep)) = (last (variables ep))(v \<mapsto> a)"
    "butlast (variables (ejSetLocalVar v a ep)) = butlast (variables ep)"
    by (simp_all add: ejSetLocalVar_def Let_def)
qed

lemma frames_length [simp]:
  "length (variables (ejSetLocalVar v a ep)) = length (variables ep)" "mt (ejSetLocalVar v a ep) = mt ep"
  "length (variables (ejSetGlobalVar v a ep)) = length (variables ep)"
  by (simp_all add: ejSetLocalVar_def ejSetGlobalVar_def Let_def)

interpretation skipped: skipping untouched
proof unfold_locales
  fix ep ep1 ep2 :: "'a eng"
  assume "untouched ep ep1" "untouched ep1 ep2"
  then show "untouched ep ep2" by (auto simp: untouched_def intro: declares_trans)
next
  fix ep :: "'a eng" and v
  assume "\<not> 0 < fst (ejGetVar v ep)" "length (variables ep) = 1 \<longrightarrow> snd (ejGetVar v ep) = None"
  then show "untouched ep (ejSetLocalVar v None ep)"
    using local_none [of ep v] declares_new [of "last (variables ep)" v] by (auto simp: untouched_def declare_last)
qed (simp_all add: untouched_def declares_def)

text \<open>What runs changes no frame between the first and the last.\<close>

definition same_middle :: "'m eng \<Rightarrow> 'm eng \<Rightarrow> bool" where
  "same_middle ep ep' \<longleftrightarrow> length (variables ep') = length (variables ep) \<and>
     (\<forall>i. 0 < i \<and> i < length (variables ep) - 1 \<longrightarrow> variables ep' ! i = variables ep ! i)"

interpretation middle: running same_middle
  by unfold_locales (auto simp: same_middle_def ejSetLocalVar_def ejSetGlobalVar_def Let_def)

text \<open>
  C10: Code in a branch that is not taken, when the parser gets through it (with a result or an error
  of the script), changes no parameter of the configuration and no variable: it can only declare
  variables that did not exist, without a value, in the innermost frame. It calls no function and does
  not consult the configuration: its run is the same with any other functions and any other store.
  Not covered, because the code then reads memory it has freed and its behaviour is undefined: an
  engine with a single frame, as the pages use it, in which the branch declares a variable that has
  a value. The declaration is executed there although the branch is not taken, and the variable
  is lost; the run of the model stops with \<open>Dangling\<close>.
\<close>

theorem skipped_code:
  assumes "run n x (Parse st False) ep = Inr (u, ep')"
  shows "mt ep' = mt ep \<and>
    (variables ep \<noteq> [] \<longrightarrow>
      length (variables ep') = length (variables ep) \<and> butlast (variables ep') = butlast (variables ep) \<and>
      (\<forall>v. last (variables ep') v = last (variables ep) v \<or>
           last (variables ep) v = None \<and> last (variables ep') v = Some None)) \<and>
    run n (x\<lparr>fn_table := t, MT_Set_Param := set_p, MT_Get_Param := get_p\<rparr>) (Parse st False) ep = Inr (u, ep')"
  using keepsD [OF skipped.k_skip assms] assms skip_indep [of "x\<lparr>fn_table := t, MT_Set_Param := set_p, MT_Get_Param := get_p\<rparr>" x "Parse st False" n]
  by (simp add: untouched_def declares_def)

text \<open>
  C28: A script evaluated in a block of its own leaves the blocks around it as they were: if the
  functions it calls keep the blocks, its block is closed again, and of the variables outside only the
  global ones can have changed.
\<close>

theorem block_scope:
  assumes "functions_keep same_middle x"
  shows "case ejEvalBlock n x s ep of
      Inl e \<Rightarrow> e \<noteq> OpenBlocks
    | Inr (r, ep') \<Rightarrow> length (variables ep') = length (variables ep) \<and> tl (variables ep') = tl (variables ep)"
proof -
  have k: "keeps same_middle (ejEval n x s)" by (rule middle.k_ejEval [OF assms])
  have len: "length (variables ep2) = Suc (length (variables ep))"
    if "ejEval n x s (ep\<lparr>variables := variables ep @ [Map.empty]\<rparr>) = Inr (a, ep2)" for a ep2
    using keepsD [OF k that] by (simp add: same_middle_def)
  have open_blocks: "ejEvalBlock n x s ep \<noteq> Inl OpenBlocks"
    using keeps_open [OF k] len by (auto simp: ejEvalBlock_def andthen_def ejOpenBlock_def ejCloseBlock_def ret_def split: sum.splits)
  have "length (variables ep') = length (variables ep) \<and> tl (variables ep') = tl (variables ep)"
    if r: "ejEvalBlock n x s ep = Inr (r, ep')" for r ep'
  proof -
  from r obtain ep2 where e: "ejEval n x s (ep\<lparr>variables := variables ep @ [Map.empty]\<rparr>) = Inr (r, ep2)"
      and v: "variables ep' = take (length (variables ep)) (variables ep2)"
    by (auto simp: ejEvalBlock_def andthen_def ejOpenBlock_def ejCloseBlock_def ret_def split: sum.splits if_splits)
  have "tl (variables ep') = tl (variables ep)"
  proof (rule nth_equalityI)
    fix i assume "i < length (tl (variables ep'))"
    with keepsD [OF k e] v len [OF e] show "tl (variables ep') ! i = tl (variables ep) ! i"
      by (simp add: same_middle_def nth_tl nth_append)
  qed (simp add: v len [OF e])
  with v len [OF e] show ?thesis by simp
  qed
  with open_blocks show ?thesis by (auto split: sum.splits)
qed

section \<open>Fuel\<close>

text \<open>More fuel changes a run only if it was cut off.\<close>

definition below :: "('m, 'a) ejm \<Rightarrow> ('m, 'a) ejm \<Rightarrow> bool" where
  "below m m' \<longleftrightarrow> (\<forall>ep. m ep = Inl NoFuel \<or> m' ep = m ep)"

lemma b_refl: "below m m"
  by (simp add: below_def)

lemma b_trans: "below m m' \<Longrightarrow> below m' m'' \<Longrightarrow> below m m''"
  by (auto simp: below_def) metis

lemma b_halt: "below (halt NoFuel) m"
  by (simp add: below_def halt_def)

lemma b_andthen: "below m m' \<Longrightarrow> (\<And>a. below (f a) (f' a)) \<Longrightarrow> below (andthen m f) (andthen m' f')"
  unfolding below_def andthen_def
proof
  fix ep
  assume "\<forall>ep. m ep = Inl NoFuel \<or> m' ep = m ep" and f: "\<And>a. \<forall>ep. f a ep = Inl NoFuel \<or> f' a ep = f a ep"
  then have "m ep = Inl NoFuel \<or> m' ep = m ep" by blast
  then show "(case m ep of Inl e \<Rightarrow> Inl e | Inr (a, ep) \<Rightarrow> f a ep) = Inl NoFuel \<or>
      (case m' ep of Inl e \<Rightarrow> Inl e | Inr (a, ep) \<Rightarrow> f' a ep) = (case m ep of Inl e \<Rightarrow> Inl e | Inr (a, ep) \<Rightarrow> f a ep)"
    using f by (cases "m ep") (auto split: prod.split)
qed

lemma b_if: "(b \<Longrightarrow> below m m') \<Longrightarrow> (\<not> b \<Longrightarrow> below k k') \<Longrightarrow> below (if b then m else k) (if b then m' else k')"
  by simp

lemma b_need: "below m m' \<Longrightarrow> below (need x st t m) (need x st t m')"
  unfolding need_def by (intro b_andthen b_if b_refl)

lemma b_must: "below m m' \<Longrightarrow> below k k' \<Longrightarrow> below (must m st k) (must m' st k')"
  unfolding must_def by (intro b_andthen b_if b_refl)

lemmas b_rules = b_andthen b_if b_need b_must

lemma b_finish: "(\<And>c. below (p c) (p' c)) \<Longrightarrow> below (finish p x b st) (finish p' x b st)"
  unfolding finish_def by (intro b_rules b_refl)

lemma b_parts:
  assumes "\<And>c. below (p c) (p' c)"
  shows "below (stmt_id p x st exe v) (stmt_id p' x st exe v)"
    and "below (stmt_function p x st exe) (stmt_function p' x st exe)"
    and "below (stmt_if p x st exe) (stmt_if p' x st exe)"
    and "below (stmt_for p x st exe) (stmt_for p' x st exe)"
  unfolding stmt_id_def stmt_function_def stmt_if_def stmt_for_def case_prod_unfold
  by (intro b_rules b_finish assms | rule b_refl)+

lemma b_body:
  assumes p: "\<And>c. below (p c) (p' c)"
  shows "below (call_body x p c) (call_body x p' c)"
  by (cases c; simp add: call_body_def parse_def parseStmt_def parseDeclaration_def parseArgs_def parseCond_def parseExpr_def
       for_loop_def block_loop_def ejRemoveNewlines_def skip_to_eof_def;
      (intro b_rules b_finish b_parts p conjI impI | rule b_refl)+)

lemma b_run: "below (run n x c) (run (n + k) x c)"
proof (induction n arbitrary: c)
  case (Suc n)
  then show ?case using b_body [of "run n x" "run (n + k) x"] by simp
qed (simp add: b_halt)

lemma b_eval_loop: "below (eval_loop j n x stuck rounds) (eval_loop (j + i) (n + k) x stuck rounds)"
proof (induction j arbitrary: stuck rounds)
  case (Suc j)
  then show ?case unfolding add_Suc eval_loop.simps Let_def by (intro b_rules b_run b_refl)
qed (simp add: b_halt)

lemma b_ejEval: "below (ejEval n x s) (ejEval (n + k) x s)"
  unfolding ejEval_def by (intro b_rules b_eval_loop b_refl)

text \<open>
  The outcome of a script does not depend on the fuel: two amounts that are enough for the
  script give the same result, message and state.
\<close>

theorem script_result_unique:
  assumes "ejEval n x s ep \<noteq> Inl NoFuel" and "ejEval k x s ep \<noteq> Inl NoFuel"
  shows "ejEval n x s ep = ejEval k x s ep"
proof (cases "n \<le> k")
  case True
  then show ?thesis using b_ejEval [of n x s "k - n"] assms by (auto simp: below_def)
next
  case False
  then show ?thesis using b_ejEval [of k x s "n - k"] assms by (auto simp: below_def)
qed

section \<open>Numbers\<close>

lemma itoa_loop_append: "itoa_loop n acc = itoa_loop n [] @ acc"
proof (induction "nat n" arbitrary: n acc rule: less_induct)
  case less
  show ?case
  proof (cases "n > 9")
    case True
    let ?d = "word_of_int (n - n div 10 * 10 + 48) :: u8"
    have "nat (n div 10) < nat n" using True by simp
    then have "itoa_loop (n div 10) (?d # acc) = itoa_loop (n div 10) [?d] @ acc"
      using less [of "n div 10" "?d # acc"] less [of "n div 10" "[?d]"] by simp
    then show ?thesis using True by (simp add: itoa_loop.simps [of n])
  qed (simp add: itoa_loop.simps [of n])
qed

lemma itoa_loop_step:
  "n > 9 \<Longrightarrow> itoa_loop n [] = itoa_loop (n div 10) [] @ [word_of_int (n mod 10 + 48)]"
  using itoa_loop_append [of "n div 10" "[word_of_int (n - n div 10 * 10 + 48)]"]
  by (simp add: itoa_loop.simps [of n] minus_div_mult_eq_mod)

lemma byte_digit: "0 \<le> d \<Longrightarrow> d \<le> 9 \<Longrightarrow> uint (word_of_int (d + 48) :: u8) = d + 48"
  by (subst uint_word_of_int_eq) (simp add: take_bit_int_eq_self)

lemma itoa_loop_digits:
  "0 \<le> n \<Longrightarrow> list_all (\<lambda>b. gisdigit (uint b)) (itoa_loop n []) \<and>
     foldl (\<lambda>a b. a * 10 + (uint b - 48)) 0 (itoa_loop n []) = n \<and> itoa_loop n [] \<noteq> []"
proof (induction "nat n" arbitrary: n rule: less_induct)
  case less
  show ?case
  proof (cases "n > 9")
    case True
    have m: "uint (word_of_int (n mod 10 + 48) :: u8) = n mod 10 + 48" by (rule byte_digit) (use pos_mod_bound [of 10 n] in simp_all)
    have "0 \<le> n mod 10" "n mod 10 \<le> 9" using pos_mod_bound [of 10 n] by simp_all
    then show ?thesis using less(1) [of "n div 10"] less(2) True m by (simp add: itoa_loop_step gisdigit_def)
  next
    case False
    then show ?thesis using less(2) byte_digit [of n] by (simp add: itoa_loop.simps [of n] gisdigit_def)
  qed
qed

lemma stritoa_digits:
  "0 \<le> n \<Longrightarrow> numeric_text (stritoa n) \<and> stritoa n \<noteq> []"
  using itoa_loop_digits [of n] by (simp add: stritoa_def numeric_text_def)

lemma gatoi_stritoa:
  assumes "0 \<le> n" "n \<le> 2147483647"
  shows "gatoi (stritoa n) = n"
proof -
  have "takeWhile (\<lambda>b. gisdigit (uint b)) (itoa_loop n []) = itoa_loop n []"
    unfolding takeWhile_eq_all_conv using itoa_loop_digits [OF assms(1)] by (simp add: list.pred_set)
  then show ?thesis using itoa_loop_digits [OF assms(1)] assms by (simp del: takeWhile_eq_all_conv add: stritoa_def gatoi_def)
qed

lemma c_str_clean: "0 \<notin> set t \<Longrightarrow> c_str t = t"
  by (auto simp: c_str_def takeWhile_eq_all_conv)

lemma c_str_numeric: "numeric_text t \<Longrightarrow> c_str t = t"
  by (rule c_str_clean) (auto simp: numeric_text_def list.pred_set gisdigit_def)

section \<open>Expressions\<close>

text \<open>The state of the lexer in front of a text, with no token put back.\<close>

definition at_text :: "bytes \<Rightarrow> ej_t \<Rightarrow> bool" where
  "at_text s l \<longleftrightarrow> script l = s \<and> putBackTokenId l \<le> 0"

lemma get_number:
  assumes "at_text (t @ d # rest) l" "numeric_text t" "t \<noteq> []" "ends_word d" "isI t"
  obtains l' where "ejLexGetToken isI st l = (TOK_LITERAL, l')" "at_text (d # rest) l'" "token l' = t"
proof -
  obtain b w where t: "t = b # w" using assms(3) by (cases t) auto
  have "list_all idchar t" using assms(2) by (auto simp: numeric_text_def list.pred_set idchar_def gisalnum_def)
  then obtain e where e: "script e = rest" "token e = t" "putBackTokenId e = putBackTokenId l"
      "getLexicalToken isI st l = (TOK_LITERAL, inputPutback (uint d) e)"
    using word_read [of l b w d rest isI st] assms(1,4,5) t by (auto simp: at_text_def)
  then show ?thesis using that [of "(inputPutback (uint d) e)\<lparr>tid := TOK_LITERAL\<rparr>"] assms(1)
    by (simp add: ejLexGetToken_def at_text_def inputPutback_def Let_def)
qed

text \<open>The operators that are one character.\<close>

definition op_code :: "u8 \<Rightarrow> int" where
  "op_code c =
     (if c = 43 then EXPR_PLUS else if c = 45 then EXPR_MINUS else if c = 42 then EXPR_MUL
      else if c = 47 then EXPR_DIV else if c = 37 then EXPR_MOD else 0)"

lemma getc_at:
  assumes "script l = b # r"
  obtains l' where "inputGetc l = (uint b, l')" "script l' = r" "tokbuf l' = tokbuf l" "putBackTokenId l' = putBackTokenId l"
  using getc_cons [OF assms] putBackTokenId_getc by metis

lemma get_operator:
  assumes "at_text (c # d # rest) l" "op_code c > 0" "gisdigit (uint d)"
  obtains l' where "ejLexGetToken isI st l = (TOK_EXPR, l')" "at_text (d # rest) l'" "token l' = [word_of_int (op_code c)]"
proof -
  let ?l = "l\<lparr>tid := - 1, token := [], tokbuf := []\<rparr>"
  obtain l1 where l1: "inputGetc ?l = (uint c, l1)" "script l1 = d # rest" "tokbuf l1 = []" "putBackTokenId l1 = putBackTokenId l"
    using getc_at [of ?l c "d # rest"] assms(1) by (auto simp: at_text_def)
  obtain l2 where l2: "inputGetc l1 = (uint d, l2)" "script l2 = rest" "tokbuf l2 = []" "putBackTokenId l2 = putBackTokenId l"
    using getc_at [OF l1(2)] l1 by metis
  have c: "c \<in> {43, 45, 42, 47, 37}" using assms(2) by (auto simp: op_code_def split: if_splits)
  have "\<exists>l'. lex_loop isI st (uint c) l1 = (TOK_EXPR, l') \<and> script l' = d # rest \<and> putBackTokenId l' = putBackTokenId l \<and>
      token l' = [word_of_int (op_code c)]"
    using c assms(3) l1 l2
    by (auto simp: lex_loop.simps [of isI st _ l1] one_or_two_def op_code_def gisdigit_def inputPutback_def tokenAddChar_def Let_def)
  then show ?thesis using that assms(1) l1(1) by (auto simp: ejLexGetToken_def getLexicalToken_def Let_def at_text_def)
qed

lemma get_end:
  assumes "at_text (e # rest) l" "e = 59 \<or> e = 41"
  obtains l' where "ejLexGetToken isI st l = (if e = 59 then TOK_SEMI else TOK_RPAREN, l')" "at_text rest l'" "token l' = [e]"
proof -
  let ?l = "l\<lparr>tid := - 1, token := [], tokbuf := []\<rparr>"
  obtain l1 where l1: "inputGetc ?l = (uint e, l1)" "script l1 = rest" "tokbuf l1 = []" "putBackTokenId l1 = putBackTokenId l"
    using getc_at [of ?l e rest] assms(1) by (auto simp: at_text_def)
  show ?thesis using that assms l1
    by (auto simp: ejLexGetToken_def getLexicalToken_def lex_loop.simps [of isI st _ l1] tokenAddChar_def Let_def at_text_def)
qed

text \<open>A number is read and becomes the result, whether the code runs or is skipped.\<close>

definition same_but_lex :: "'m eng \<Rightarrow> 'm eng \<Rightarrow> bool" where
  "same_but_lex ep ep' \<longleftrightarrow> variables ep' = variables ep \<and> func ep' = func ep \<and> mt ep' = mt ep"

lemma getTok_eq: "ejLexGetToken (isInteger x) st (lex ep) = (t, l) \<Longrightarrow> getTok x st ep = Inr (t, ep\<lparr>lex := l\<rparr>)"
  by (simp add: getTok_def)

lemma run_number:
  assumes "at_text (t @ d # rest) (lex ep)" "numeric_text t" "t \<noteq> []" "ends_word d" "isInteger x t"
  obtains ep' where "run (Suc (Suc n)) x (Parse STATE_EXPR exe) ep = Inr (STATE_EXPR_DONE, ep')"
    "at_text (d # rest) (lex ep')" "result ep' = t" "same_but_lex ep ep'"
proof -
  obtain l where l: "ejLexGetToken (isInteger x) STATE_EXPR (lex ep) = (TOK_LITERAL, l)" "at_text (d # rest) l" "token l = t"
    using get_number [OF assms(1-4), of "isInteger x" STATE_EXPR] assms(5) by blast
  show ?thesis
    by (rule that [of "ep\<lparr>lex := l, result := t\<rparr>"])
      (simp_all add: call_body_def parse_def parseStmt_def andthen_def getTok_eq [OF l(1)] inspect_def setResult_def update_def
        finish_def stmt_status_def ret_def l same_but_lex_def c_str_numeric [OF assms(2)])
qed

text \<open>
  The value of an expression in the integers, from left to right; a division by zero is 0, and there
  is no value once a result is negative or above the greatest \<open>int\<close>.
\<close>

definition op_value :: "u8 \<Rightarrow> int \<Rightarrow> int \<Rightarrow> int" where
  "op_value c l r =
     (if c = 43 then l + r else if c = 45 then l - r else if c = 42 then l * r
      else if r = 0 then 0 else if c = 47 then l div r else l mod r)"

fun left_to_right :: "int \<Rightarrow> (u8 \<times> int) list \<Rightarrow> int option" where
  "left_to_right l [] = Some l"
| "left_to_right l ((c, r) # ts) =
     (let v = op_value c l r in if 0 \<le> v \<and> v \<le> 2147483647 then left_to_right v ts else None)"

definition terms_text :: "(u8 \<times> int) list \<Rightarrow> bytes" where
  "terms_text ts = concat (map (\<lambda>(c, r). c # stritoa r) ts)"

definition terms_ok :: "(u8 \<times> int) list \<Rightarrow> bool" where
  "terms_ok ts \<longleftrightarrow> (\<forall>(c, r)\<in>set ts. 0 < op_code c \<and> 0 \<le> r \<and> r \<le> 2147483647)"

lemma num_op_value:
  assumes "0 < op_code c" "v = op_value c l r" "0 \<le> v" "v \<le> 2147483647"
  shows "num_op (op_code c) l r = Some v"
proof -
  have w: "wrap32 i = i" if "0 \<le> i" "i \<le> 2147483647" for i
    using that signed_take_bit_int_eq_self [of 31 i] by (simp add: sint_sbintrunc')
  have "c \<in> {43, 45, 42, 47, 37}" using assms(1) by (auto simp: op_code_def split: if_splits)
  then show ?thesis using assms w [of v] by (auto simp: op_code_def op_value_def num_op_def)
qed

lemma evalExpr_numbers:
  assumes "num_op rel l r = Some v" "0 \<le> v" "0 \<le> l" "l \<le> 2147483647" "0 \<le> r" "r \<le> 2147483647" "rel \<notin> {EXPR_LSHIFT, EXPR_RSHIFT}"
  shows "evalExpr (Some (stritoa l)) rel (stritoa r) ep = Inr (True, ep\<lparr>result := stritoa v\<rparr>)"
  using assms by (simp add: evalExpr_def stritoa_digits gatoi_stritoa andthen_def setResult_def update_def ret_def c_str_numeric)

text \<open>Behind an expression stands its closing character, put back as a token.\<close>

definition behind :: "u8 \<Rightarrow> bytes \<Rightarrow> ej_t \<Rightarrow> bool" where
  "behind e rest l \<longleftrightarrow> script l = rest \<and> putBackToken l = Some [e] \<and> putBackTokenId l = (if e = 59 then TOK_SEMI else TOK_RPAREN)"

lemma ends_word_op: "0 < op_code c \<Longrightarrow> ends_word c" "e = 59 \<or> e = 41 \<Longrightarrow> ends_word e"
  by (auto simp: op_code_def ends_word_def idchar_def gisalnum_def gisdigit_def split: if_splits)

lemma op_code_props: "first [word_of_int (op_code c)] = op_code c" "op_code c \<notin> {EXPR_LSHIFT, EXPR_RSHIFT}"
  by (auto simp: op_code_def first_def)

lemma parseExpr_round:
  assumes "p (Parse STATE_EXPR exe) ep = Inr (STATE_EXPR_DONE, ep1)"
    and "(if rel > 0 then evalExpr (Some lhs) rel (result ep1) else ret True) ep1 = Inr (True, ep2)"
    and "ejLexGetToken (isInteger x) STATE_EXPR_DONE (lex ep2) = (t, l)" "tk \<noteq> TOK_LOGICAL"
  shows "t = TOK_EXPR \<Longrightarrow> parseExpr p x exe tk rel lhs ep = p (Expr exe t (first (token l)) (result ep2)) (ep2\<lparr>lex := l\<rparr>)"
    and "t = TOK_SEMI \<or> t = TOK_RPAREN \<Longrightarrow> parseExpr p x exe tk rel lhs ep = Inr (STATE_RELEXP_DONE, ep2\<lparr>lex := ejLexPutbackToken t (c_str (token l)) l\<rparr>)"
  using assms by (auto simp: parseExpr_def andthen_def inspect_def ret_def putback_def update_def getTok_eq)

lemma expr_step:
  assumes num: "p (Parse STATE_EXPR exe) ep = Inr (STATE_EXPR_DONE, ep1)"
    and ev: "(if rel > 0 then evalExpr (Some lhs) rel (result ep1) else ret True) ep1 = Inr (True, ep1\<lparr>result := stritoa v\<rparr>)"
    and at: "at_text (terms_text ts @ e # rest) (lex ep1)" "e = 59 \<or> e = 41" "terms_ok ts" and tk: "tk \<noteq> TOK_LOGICAL"
  obtains
    (fin) l where "ts = []" "behind e rest l"
      "parseExpr p x exe tk rel lhs ep = Inr (STATE_RELEXP_DONE, ep1\<lparr>result := stritoa v, lex := l\<rparr>)"
  | (nxt) c r us l where "ts = (c, r) # us" "at_text (stritoa r @ terms_text us @ e # rest) l"
      "parseExpr p x exe tk rel lhs ep = p (Expr exe TOK_EXPR (op_code c) (stritoa v)) (ep1\<lparr>result := stritoa v, lex := l\<rparr>)"
proof (cases ts)
  case Nil
  have "at_text (e # rest) (lex ep1)" using at(1) Nil by (simp add: terms_text_def)
  then obtain l where l: "ejLexGetToken (isInteger x) STATE_EXPR_DONE (lex ep1) = (if e = 59 then TOK_SEMI else TOK_RPAREN, l)"
      "at_text rest l" "token l = [e]"
    using get_end [OF _ at(2)] by blast
  show ?thesis
    by (rule fin [of "ejLexPutbackToken (if e = 59 then TOK_SEMI else TOK_RPAREN) (c_str (token l)) l", OF Nil])
      (use l parseExpr_round(2) [where p = p and exe = exe and ep = ep and rel = rel and lhs = lhs and x = x and l = l and t = "if e = 59 then TOK_SEMI else TOK_RPAREN", OF num ev] tk at(2) in
        \<open>auto simp: behind_def ejLexPutbackToken_def at_text_def c_str_def\<close>)
next
  case (Cons y us)
  obtain c r where y: "y = (c, r)" by force
  have ok: "0 < op_code c" "0 \<le> r" using at(3) Cons y by (simp_all add: terms_ok_def)
  obtain d ds where d: "stritoa r = d # ds" using stritoa_digits [OF ok(2)] by (cases "stritoa r") auto
  have dd: "gisdigit (uint d)" using stritoa_digits [OF ok(2)] d by (simp add: numeric_text_def)
  have "at_text (c # d # ds @ terms_text us @ e # rest) (lex ep1)" using at(1) Cons y d by (simp add: terms_text_def)
  then obtain l where l: "ejLexGetToken (isInteger x) STATE_EXPR_DONE (lex ep1) = (TOK_EXPR, l)"
      "at_text (d # ds @ terms_text us @ e # rest) l" "token l = [word_of_int (op_code c)]"
    using get_operator [OF _ ok(1) dd] by blast
  show ?thesis
    by (rule nxt [of c r us l])
      (use Cons y l d parseExpr_round(1) [where p = p and exe = exe and ep = ep and rel = rel and lhs = lhs and x = x and l = l and t = TOK_EXPR, OF num ev] tk in \<open>simp_all add: op_code_props\<close>)
qed

lemma run_terms:
  assumes "left_to_right l ((c, r) # ts) = Some v" "terms_ok ((c, r) # ts)" "0 \<le> l" "l \<le> 2147483647"
    and "at_text (stritoa r @ terms_text ts @ e # rest) (lex ep)" "e = 59 \<or> e = 41"
    and ints: "\<And>t. numeric_text t \<Longrightarrow> t \<noteq> [] \<Longrightarrow> isInteger x t"
  shows "\<exists>ep'. run (length ts + 3) x (Expr exe TOK_EXPR (op_code c) (stritoa l)) ep = Inr (STATE_RELEXP_DONE, ep') \<and>
    result ep' = stritoa v \<and> same_but_lex ep ep' \<and> behind e rest (lex ep')"
  using assms(1-6)
proof (induction ts arbitrary: l c r ep rule: length_induct)
  case (1 ts)
  note IH = 1(1) [rule_format] and prems = 1(2-)
  have c: "0 < op_code c" "0 \<le> r" "r \<le> 2147483647" and us: "terms_ok ts" using prems(2) by (simp_all add: terms_ok_def)
  define w where "w = op_value c l r"
  have range: "0 \<le> w" and wmax: "w \<le> 2147483647" and rest: "left_to_right w ts = Some v"
    using prems(1) by (auto simp: w_def Let_def split: if_splits)
  note w = num_op_value [OF c(1) w_def range wmax] range rest
  obtain d ds where d: "terms_text ts @ e # rest = d # ds" by (cases "terms_text ts @ e # rest") auto
  have "ends_word d"
    using d us prems(6) ends_word_op by (cases ts) (auto simp: terms_text_def terms_ok_def)
  then obtain ep1 where ep1: "run (length ts + 2) x (Parse STATE_EXPR exe) ep = Inr (STATE_EXPR_DONE, ep1)"
      "at_text (d # ds) (lex ep1)" "result ep1 = stritoa r" "same_but_lex ep ep1"
    using run_number [of "stritoa r" d ds ep x "length ts" exe] prems(5) d stritoa_digits [OF c(2)] ints by auto
  have ev: "(if op_code c > 0 then evalExpr (Some (stritoa l)) (op_code c) (result ep1) else ret True) ep1 =
      Inr (True, ep1\<lparr>result := stritoa w\<rparr>)"
    using evalExpr_numbers [OF w(1,2) prems(3,4) c(2,3) op_code_props(2)] c(1) ep1(3) by simp
  have run: "run (length ts + 3) x (Expr exe TOK_EXPR (op_code c) (stritoa l)) ep =
      parseExpr (run (length ts + 2) x) x exe TOK_EXPR (op_code c) (stritoa l) ep"
    by (simp add: call_body_def numeral_3_eq_3)
  from ep1(1) ev show ?case
  proof (rule expr_step [of _ _ _ _ _ _ _ ts e rest TOK_EXPR x])
    show "at_text (terms_text ts @ e # rest) (lex ep1)" using ep1(2) d by simp
  next
    fix l' assume "ts = []" "behind e rest l'"
      "parseExpr (run (length ts + 2) x) x exe TOK_EXPR (op_code c) (stritoa l) ep = Inr (STATE_RELEXP_DONE, ep1\<lparr>result := stritoa w, lex := l'\<rparr>)"
    then show ?case using run w(3) ep1(4) by (auto simp: same_but_lex_def)
  next
    fix c' r' us l' assume n: "ts = (c', r') # us" "at_text (stritoa r' @ terms_text us @ e # rest) l'"
      "parseExpr (run (length ts + 2) x) x exe TOK_EXPR (op_code c) (stritoa l) ep =
        run (length ts + 2) x (Expr exe TOK_EXPR (op_code c') (stritoa w)) (ep1\<lparr>result := stritoa w, lex := l'\<rparr>)"
    let ?ep = "ep1\<lparr>result := stritoa w, lex := l'\<rparr>"
    have "\<exists>ep'. run (length us + 3) x (Expr exe TOK_EXPR (op_code c') (stritoa w)) ?ep = Inr (STATE_RELEXP_DONE, ep') \<and>
        result ep' = stritoa v \<and> same_but_lex ?ep ep' \<and> behind e rest (lex ep')"
      by (rule IH) (use n w us wmax prems(6) in simp_all)
    then obtain ep' where e': "run (length us + 3) x (Expr exe TOK_EXPR (op_code c') (stritoa w)) ?ep = Inr (STATE_RELEXP_DONE, ep')"
      "result ep' = stritoa v" "same_but_lex ?ep ep'" "behind e rest (lex ep')" by blast
    have q: "length ts + 2 = length us + 3" using n(1) by simp
    have "run (length ts + 3) x (Expr exe TOK_EXPR (op_code c) (stritoa l)) ep = Inr (STATE_RELEXP_DONE, ep')"
      unfolding run n(3) unfolding q by (rule e'(1))
    then show ?case using e' ep1(4) by (auto simp: same_but_lex_def)
  qed (use prems(6) us in simp_all)
qed

lemma run_expression:
  assumes "left_to_right n ts = Some v" "terms_ok ts" "0 \<le> n" "n \<le> 2147483647"
    and "at_text (stritoa n @ terms_text ts @ e # rest) (lex ep)" "e = 59 \<or> e = 41"
    and ints: "\<And>t. numeric_text t \<Longrightarrow> t \<noteq> [] \<Longrightarrow> isInteger x t"
  shows "\<exists>ep'. run (length ts + 3) x (Expr exe 0 0 []) ep = Inr (STATE_RELEXP_DONE, ep') \<and>
    result ep' = stritoa v \<and> same_but_lex ep ep' \<and> behind e rest (lex ep')"
proof -
  obtain d ds where d: "terms_text ts @ e # rest = d # ds" by (cases "terms_text ts @ e # rest") auto
  have "ends_word d"
    using d assms(2,6) ends_word_op by (cases ts) (auto simp: terms_text_def terms_ok_def)
  moreover have "at_text (stritoa n @ d # ds) (lex ep)" using assms(5) d by simp
  ultimately obtain ep1 where ep1: "run (length ts + 2) x (Parse STATE_EXPR exe) ep = Inr (STATE_EXPR_DONE, ep1)"
      "at_text (d # ds) (lex ep1)" "result ep1 = stritoa n" "same_but_lex ep ep1"
    using run_number [of "stritoa n" d ds ep x "length ts" exe] stritoa_digits [OF assms(3)] ints
    by (auto simp: same_but_lex_def)
  have ev: "(if (0 :: int) > 0 then evalExpr (Some []) 0 (result ep1) else ret True) ep1 = Inr (True, ep1\<lparr>result := stritoa n\<rparr>)"
    using ep1(3) by (simp add: ret_def)
  have run: "run (length ts + 3) x (Expr exe 0 0 []) ep =
      parseExpr (run (length ts + 2) x) x exe 0 0 [] ep"
    by (simp add: call_body_def numeral_3_eq_3)
  from ep1(1) ev show ?thesis
  proof (rule expr_step [of _ _ _ _ _ _ _ ts e rest 0 x])
    show "at_text (terms_text ts @ e # rest) (lex ep1)" using ep1(2) d by simp
  next
    fix l' assume "ts = []" "behind e rest l'"
      "parseExpr (run (length ts + 2) x) x exe 0 0 [] ep = Inr (STATE_RELEXP_DONE, ep1\<lparr>result := stritoa n, lex := l'\<rparr>)"
    then show ?thesis using run assms(1) ep1(4) by (auto simp: same_but_lex_def)
  next
    fix c' r' us l' assume n: "ts = (c', r') # us" "at_text (stritoa r' @ terms_text us @ e # rest) l'"
      "parseExpr (run (length ts + 2) x) x exe 0 0 [] ep =
        run (length ts + 2) x (Expr exe TOK_EXPR (op_code c') (stritoa n)) (ep1\<lparr>result := stritoa n, lex := l'\<rparr>)"
    have q: "length ts + 2 = length us + 3" using n(1) by simp
    show ?thesis unfolding run n(3) unfolding q
      using run_terms [of n c' r' us v e rest "ep1\<lparr>result := stritoa n, lex := l'\<rparr>" x exe] n(1,2) assms(1-4,6) ints ep1(4)
      by (simp add: same_but_lex_def)
  qed (use assms in simp_all)
qed

text \<open>
  C19: An expression of numbers and the operators \<open>+ - * / %\<close> is evaluated from left to right, without
  precedence: with the numbers and every intermediate result in the range of \<open>int\<close> and not negative, parsing
  the text of the expression up to a semicolon or a closing parenthesis leaves the decimal text of that
  value as the result, the closing character as the next token, and everything else as it was.
\<close>

theorem expression_left_to_right:
  assumes "left_to_right n ts = Some v" "terms_ok ts" "0 \<le> n" "n \<le> 2147483647"
    and "script (lex ep) = stritoa n @ terms_text ts @ e # rest" "putBackTokenId (lex ep) \<le> 0" "e = 59 \<or> e = 41"
    and ints: "\<And>t. numeric_text t \<Longrightarrow> t \<noteq> [] \<Longrightarrow> isInteger x t"
  shows "\<exists>ep'. run (length ts + 4) x (Parse STATE_RELEXP exe) ep = Inr (STATE_RELEXP_DONE, ep') \<and>
    result ep' = stritoa v \<and> variables ep' = variables ep \<and> mt ep' = mt ep \<and>
    script (lex ep') = rest \<and> putBackTokenId (lex ep') = (if e = 59 then TOK_SEMI else TOK_RPAREN)"
proof -
  have "run (length ts + 4) x (Parse STATE_RELEXP exe) ep = parse (run (length ts + 3) x) x STATE_RELEXP exe ep"
    by (simp add: call_body_def numeral_eq_Suc)
  moreover have "at_text (stritoa n @ terms_text ts @ e # rest) (lex (ep\<lparr>result := []\<rparr>))"
    using assms(5,6) by (simp add: at_text_def)
  ultimately show ?thesis
    using run_expression [OF assms(1-4) _ assms(7) ints, of rest "ep\<lparr>result := []\<rparr>" exe]
    by (auto simp: parse_def andthen_def setResult_def update_def inspect_def ret_def same_but_lex_def behind_def)
qed

section \<open>A brace too many\<close>

text \<open>The token put back is read again and put back again.\<close>

lemma run_brace:
  assumes "ejLexGetToken (isInteger x) STATE_STMT (lex ep) = (TOK_RBRACE, l)"
  shows "run (Suc (Suc n)) x (Parse STATE_STMT True) ep =
    Inr (STATE_STMT_BLOCK_DONE, ep\<lparr>lex := ejLexPutbackToken TOK_RBRACE (c_str (token l)) l\<rparr>)"
  by (simp add: call_body_def parse_def parseStmt_def andthen_def getTok_eq [OF assms] inspect_def putback_def update_def ret_def)

definition held :: "nat \<Rightarrow> ej_t \<Rightarrow> bool" where
  "held n l \<longleftrightarrow> putBackTokenId l = TOK_RBRACE \<and> length (script l) = n"

lemma held_again:
  assumes "held n l"
  obtains l' where "ejLexGetToken isI st l = (TOK_RBRACE, l')" "held n (ejLexPutbackToken TOK_RBRACE (c_str (token l')) l')"
  using assms by (auto simp: held_def ejLexGetToken_def getLexicalToken_def Let_def ejLexPutbackToken_def)

lemma eval_stuck:
  assumes "held left (lex ep)" "rounds \<le> 11" "11 - rounds < k" "2 \<le> n"
  shows "\<exists>ep' l. eval_loop k n x (Some left) rounds ep = Inr (STATE_ERR, ep') \<and> ej_t.error (lex ep') = Some (''Syntax error'', l)"
  using assms
proof (induction k arbitrary: rounds ep)
  case (Suc k)
  obtain l' where l': "ejLexGetToken (isInteger x) STATE_STMT (lex ep) = (TOK_RBRACE, l')"
      "held left (ejLexPutbackToken TOK_RBRACE (c_str (token l')) l')"
    using held_again [OF Suc.prems(1)] .
  obtain m where m: "n = Suc (Suc m)" using Suc.prems(4) by (metis add_2_eq_Suc le_Suc_ex)
  let ?ep = "ep\<lparr>lex := ejLexPutbackToken TOK_RBRACE (c_str (token l')) l'\<rparr>"
  note step = run_brace [OF l'(1), of m, folded m] andthen_def inspect_def ret_def
  show ?case
  proof (cases "rounds > 10")
    case True
    then show ?thesis using l'(2) by (simp add: step held_def raise_def update_def ejError_def)
  next
    case False
    then have "\<exists>ep' l. eval_loop k n x (Some left) (Suc rounds) ?ep = Inr (STATE_ERR, ep') \<and> ej_t.error (lex ep') = Some (''Syntax error'', l)"
      using Suc l'(2) by simp
    then show ?thesis using False l'(2) by (simp add: step held_def)
  qed
qed simp

text \<open>
  A script that starts with a closing brace ends with a syntax error, whatever follows: the brace
  is put back by every round of the loop, and the count of rounds in the same place ends it.
\<close>

theorem stray_brace:
  assumes "13 \<le> n"
  shows "\<exists>ep' l. ejEval n x (125 # rest) ep = Inr (Inl (Some (''Syntax error'', l)), ep')"
proof -
  obtain k where k: "n = Suc k" "12 \<le> k" using assms by (cases n) auto
  define ep0 where "ep0 = ep\<lparr>result := [], lex := ejLexOpenScript (125 # rest) (lex ep)\<rparr>"
  let ?l = "lex ep0\<lparr>tid := - 1, token := [], tokbuf := []\<rparr>"
  have "script ?l = 125 # rest" "putBackTokenId (lex ep0) = 0" by (simp_all add: ep0_def ejLexOpenScript_def)
  then obtain l1 where l1: "inputGetc ?l = (125, l1)" "script l1 = rest" "putBackTokenId (lex ep0) = 0" using getc_at [of ?l 125 rest] by auto
  define l2 where "l2 = (tokenAddChar 125 l1)\<lparr>tid := TOK_RBRACE\<rparr>"
  have get: "ejLexGetToken (isInteger x) STATE_STMT (lex ep0) = (TOK_RBRACE, l2)"
    using l1 by (simp add: ejLexGetToken_def getLexicalToken_def Let_def lex_loop.simps [of "isInteger x" _ 125] l2_def)
  let ?l3 = "ejLexPutbackToken TOK_RBRACE (c_str (token l2)) l2"
  have h: "held (length rest) ?l3" using l1(2) by (simp add: held_def ejLexPutbackToken_def l2_def)
  obtain m where m: "n = Suc (Suc m)" using k by (cases k) auto
  obtain ep1 l where "eval_loop k n x (Some (length rest)) 0 (ep0\<lparr>lex := ?l3\<rparr>) = Inr (STATE_ERR, ep1)"
      "ej_t.error (lex ep1) = Some (''Syntax error'', l)"
    using eval_stuck [of "length rest" "ep0\<lparr>lex := ?l3\<rparr>" 0 k n x] h k by auto
  then have "eval_loop n n x None 0 ep0 = Inr (STATE_ERR, ep1)" "ej_t.error (lex ep1) = Some (''Syntax error'', l)"
    using run_brace [OF get, of m, folded m] h by (simp_all add: k(1) andthen_def inspect_def ret_def held_def)
  then show ?thesis
    by (simp add: ejEval_def andthen_def setResult_def update_def inspect_def ret_def ep0_def restore_block_def)
qed

section \<open>Samples\<close>

text \<open>A store that knows the one parameter \<open>p\<close>, and one function that changes it.\<close>

definition sample_ext :: "bytes ext" where
  "sample_ext =
     \<lparr>isInteger = numeric, MT_Get_Param = (\<lambda>v m. if v = [112] then Some m else None),
      MT_Set_Param = (\<lambda>v a m. if v = [112] then (True, a) else (False, m)), MTretValue = (\<lambda>m. m),
      fn_table = (\<lambda>f. if f = [102] then Some (\<lambda>as ep. (0, ep\<lparr>mt := concat as\<rparr>)) else None)\<rparr>"

definition sample_eng :: "string \<Rightarrow> bytes eng" where
  "sample_eng s = \<lparr>lex = lexer (map of_char s), variables = [Map.empty, Map.empty], func = None, result = [], mt = [49]\<rparr>"

definition ends_with :: "'a \<Rightarrow> stop + 'a \<times> 'm eng \<Rightarrow> bool" where
  "ends_with a r = (case r of Inl _ \<Rightarrow> False | Inr (b, _) \<Rightarrow> b = a)"

lemma ends_withE: "ends_with a r \<Longrightarrow> (\<And>ep'. r = Inr (a, ep') \<Longrightarrow> thesis) \<Longrightarrow> thesis"
  by (auto simp: ends_with_def split: sum.splits)

text \<open>An engine as a page has it: one frame, in which \<open>b\<close> is 5.\<close>

definition page_eng :: "string \<Rightarrow> bytes eng" where
  "page_eng s = (sample_eng s)\<lparr>variables := [[[98] \<mapsto> Some [53]]]\<rparr>"

theorem skipped_code_witness:
  "\<exists>ep'. run 30 sample_ext (Parse STATE_STMT False) (page_eng ''{b=2;p=f(2);var a;}'') = Inr (STATE_STMT_DONE, ep') \<and> mt ep' = [49] \<and>
    length (variables ep') = 1 \<and> last (variables ep') [98] = Some (Some [53])"
proof -
  have "ends_with STATE_STMT_DONE (run 30 sample_ext (Parse STATE_STMT False) (page_eng ''{b=2;p=f(2);var a;}''))" by code_simp
  then obtain ep' where e: "run 30 sample_ext (Parse STATE_STMT False) (page_eng ''{b=2;p=f(2);var a;}'') = Inr (STATE_STMT_DONE, ep')"
    by (rule ends_withE)
  have "last (variables (page_eng ''{b=2;p=f(2);var a;}'')) [98] = Some (Some [53])" by (simp add: page_eng_def)
  moreover have ne: "variables (page_eng ''{b=2;p=f(2);var a;}'') \<noteq> []" by (simp add: page_eng_def)
  ultimately have "last (variables ep') [98] = Some (Some [53])"
    using skipped_code [OF e] ne by (metis option.distinct(1))
  moreover have "mt ep' = [49]" "length (variables ep') = 1"
    using skipped_code [OF e] by (simp_all add: page_eng_def sample_eng_def)
  ultimately show ?thesis using e by blast
qed

theorem block_scope_witness:
  "\<exists>ep'. ejEvalBlock 20 sample_ext (map of_char ''var a; a = 5; a;'') (sample_eng []) = Inr (Inr [53], ep') \<and>
    length (variables ep') = 2 \<and> tl (variables ep') = [Map.empty]"
proof -
  have f: "functions_keep same_middle sample_ext" by (simp add: functions_keep_def sample_ext_def same_middle_def)
  have "ends_with (Inr [53]) (ejEvalBlock 20 sample_ext (map of_char ''var a; a = 5; a;'') (sample_eng []))" by code_simp
  then obtain ep' where e: "ejEvalBlock 20 sample_ext (map of_char ''var a; a = 5; a;'') (sample_eng []) = Inr (Inr [53], ep')"
    by (rule ends_withE)
  from block_scope [where n = 20 and s = "map of_char ''var a; a = 5; a;''" and ep = "sample_eng []", OF f] e show ?thesis by (simp add: sample_eng_def)
qed

theorem script_result_unique_witness:
  "ejEval 20 sample_ext (map of_char ''return 7;'') (sample_eng []) = ejEval 25 sample_ext (map of_char ''return 7;'') (sample_eng [])"
proof -
  have "ends_with (Inr [55]) (ejEval 20 sample_ext (map of_char ''return 7;'') (sample_eng []))"
    "ends_with (Inr [55]) (ejEval 25 sample_ext (map of_char ''return 7;'') (sample_eng []))" by code_simp+
  then show ?thesis by (intro script_result_unique) (force simp: ends_with_def)+
qed

theorem expression_left_to_right_witness:
  "\<exists>ep'. run 6 sample_ext (Parse STATE_RELEXP True) (sample_eng ''1+2*3;'') = Inr (STATE_RELEXP_DONE, ep') \<and> result ep' = [57] \<and>
    script (lex ep') = []"
proof -
  have d: "stritoa 1 = [49]" "stritoa 2 = [50]" "stritoa 3 = [51]" "stritoa 9 = [57]" by (simp_all add: stritoa_def itoa_loop.simps)
  have v: "left_to_right 1 [(43, 2), (42, 3)] = Some 9" by (simp add: op_value_def)
  have i: "isInteger sample_ext t" if "numeric_text t" for t
    using that by (auto simp: sample_ext_def numeric_def numeric_text_def list.pred_set gisdigit_def word_le_def)
  show ?thesis
    using expression_left_to_right [OF v, of "sample_eng ''1+2*3;''" 59 "[]" sample_ext True] i
    by (auto simp: terms_ok_def op_code_def terms_text_def d sample_eng_def)
qed

theorem stray_brace_witness:
  "\<exists>ep' l. ejEval 13 sample_ext (125 # map of_char ''a = 1;'') (sample_eng []) = Inr (Inl (Some (''Syntax error'', l)), ep')"
  by (rule stray_brace) simp

text \<open>A negative number is a text for the operators, and \<open>if\<close> is taken for results that start with 1 only.\<close>

theorem negative_is_text:
  "ends_with (Inr (map of_char ''-21'')) (ejEval 30 sample_ext (map of_char ''a = 3 - 5; return a + 1;'') (sample_eng []))"
  by code_simp

theorem if_needs_one:
  "ends_with (Inr (map of_char ''no'')) (ejEval 30 sample_ext (map of_char ''if (2) return 1; else return \"no\";'') (sample_eng []))"
  by code_simp

end
