(* ===== verification/Asp.thy ===== *)
theory Asp
  imports EjParse Fmt
begin

text \<open>
  The pages with scripts, \<open>apps/WebServer/asp.c\<close>, with \<open>scriptEval\<close> of \<open>websuemf.c\<close> and the writing
  routines of \<open>webs.c\<close>: a page is copied to the browser, the scripts between \<open><%\<close> and \<open>%>\<close> run where
  they stand, and text between translation tags is replaced by that of the language in use.

  The state the scripts work on (\<open>mt\<close> of theory \<open>EjParse\<close>) is the page: what was written, whether the
  connection is down, and the configuration. The vendor's \<open>lang_get\<close> and \<open>MT_PreParsePage\<close> are parameters.
\<close>

section \<open>Writing\<close>

record 's page =
  out :: bytes
  down :: bool
  config :: 's

text \<open>The socket takes everything, in parts if need be, or refuses it.\<close>

definition websWriteBlock :: "bytes \<Rightarrow> 's page \<Rightarrow> int \<times> 's page" where
  "websWriteBlock t p =
     (if t = [] then (0, p) else if down p then (- 1, p) else (int (length t), p\<lparr>out := out p @ t\<rparr>))"

abbreviation (input) "WEBS_BUFSIZE \<equiv> (76820 :: int)"

definition chars :: "bytes \<Rightarrow> string" where
  "chars = map (\<lambda>b. char_of (unat b))"

definition websWrite :: "string \<Rightarrow> fmt_arg list \<Rightarrow> 's page \<Rightarrow> int \<times> 's page" where
  "websWrite fmt vargs p =
     (case fmtValloc (\<lambda>_. True) WEBS_BUFSIZE fmt vargs of
        None \<Rightarrow> (0, p)
      | Some (buf, n) \<Rightarrow>
          (case sbuf buf of
             None \<Rightarrow> (0, p)
           | Some cs \<Rightarrow> (case c_string cs of None \<Rightarrow> (0, p) | Some t \<Rightarrow> websWriteBlock (map of_char t) p)))"

section \<open>Functions of the scripts\<close>

fun asp_write_loop :: "bytes list \<Rightarrow> 's page \<Rightarrow> int \<times> 's page" where
  "asp_write_loop [] p = (0, p)"
| "asp_write_loop (a # argv) p =
     (let (n, p) = websWriteBlock a p in
      if n < 0 then (- 1, p)
      else if argv = [] then (0, p)
      else
        let (n, p) = websWriteBlock [32, 0] p
        in if n < 0 then (- 1, p) else asp_write_loop argv p)"

definition websAspWrite :: "bytes list \<Rightarrow> 's page eng \<Rightarrow> int \<times> 's page eng" where
  "websAspWrite argv ep = (let (r, p) = asp_write_loop argv (mt ep) in (r, ep\<lparr>mt := p\<rparr>))"

definition websAspDefine :: "bytes \<Rightarrow> (bytes list \<Rightarrow> 's page eng \<Rightarrow> int \<times> 's page eng) \<Rightarrow> 's page ext \<Rightarrow> 's page ext" where
  "websAspDefine name fn x = x\<lparr>fn_table := (fn_table x)(name \<mapsto> fn)\<rparr>"

text \<open>The first to open the scripts creates the table of functions, the last to close them frees it.\<close>

definition websAspOpen :: "int \<Rightarrow> 's page ext \<Rightarrow> int \<times> 's page ext" where
  "websAspOpen aspOpenCount x =
     (let n = aspOpenCount + 1
      in (n, if n = 1 then websAspDefine (map of_char ''write'') websAspWrite (x\<lparr>fn_table := Map.empty\<rparr>) else x))"

definition websAspClose :: "int \<Rightarrow> 's page ext \<Rightarrow> int \<times> 's page ext" where
  "websAspClose aspOpenCount x =
     (let n = aspOpenCount - 1 in (n, if n \<le> 0 then x\<lparr>fn_table := Map.empty\<rparr> else x))"

section \<open>Text\<close>

definition gisspace :: "u8 \<Rightarrow> bool" where
  "gisspace b \<longleftrightarrow> b \<in> {32, 9, 10, 11, 12, 13}"

definition skipWhite :: "bytes \<Rightarrow> bytes" where
  "skipWhite s = dropWhile gisspace s"

definition tolower :: "u8 \<Rightarrow> u8" where
  "tolower b = (if 65 \<le> b \<and> b \<le> 90 then b + 32 else b)"

fun tokcmp_loop :: "bytes \<Rightarrow> bytes \<Rightarrow> bytes option" where
  "tokcmp_loop s1 [] = Some s1"
| "tokcmp_loop [] (b # s2) = None"
| "tokcmp_loop (a # s1) (b # s2) = (if tolower a = tolower b then tokcmp_loop s1 s2 else None)"

text \<open>The rest of the first text behind the second one.\<close>

definition strtokcmp :: "bytes \<Rightarrow> bytes \<Rightarrow> bytes option" where
  "strtokcmp s1 s2 = tokcmp_loop (skipWhite s1) s2"

text \<open>\<open>gstrstr\<close>: the text before and behind the first occurrence.\<close>

fun gstrstr :: "bytes \<Rightarrow> bytes \<Rightarrow> (bytes \<times> bytes) option" where
  "gstrstr [] pat = (if pat = [] then Some ([], []) else None)"
| "gstrstr (c # cs) pat =
     (if take (length pat) (c # cs) = pat then Some ([], drop (length pat) (c # cs))
      else map_option (\<lambda>(a, b). (c # a, b)) (gstrstr cs pat))"

text \<open>
  The loop that blanks quoted newlines and, in translated text (\<open>every\<close>), other backslashes as well;
  \<open>within\<close> holds in the newlines behind a backslash.
\<close>

fun unquote :: "bool \<Rightarrow> bool \<Rightarrow> bytes \<Rightarrow> bytes" where
  "unquote every within [] = []"
| "unquote every within (c # cs) =
     (if within \<and> c \<in> {13, 10} then 32 # unquote every True cs
      else if c = 92 \<and> cs \<noteq> [] \<and> hd cs \<in> {13, 10} then 32 # unquote every True cs
      else if every \<and> c = 92 then 32 # unquote every False cs
      else c # unquote every False cs)"

section \<open>Pages\<close>

text \<open>How the expansion of a page ends; the last four are faults or an error that is reported.\<close>

datatype asp_end =
    Done
  | ScriptError "(string \<times> int) option"
  | Stuck stop
  | Unterminated
  | NullWrite
  | TagOverflow
  | BadPage

definition scriptEval :: "nat \<Rightarrow> 's page ext \<Rightarrow> bytes \<Rightarrow> ('s page, (string \<times> int) option + bytes) ejm" where
  "scriptEval n x cmd = ejEval n x cmd"

definition decode_language :: "bytes \<Rightarrow> bytes" where
  "decode_language nextp =
     (case strtokcmp nextp (map of_char ''language'') of
        None \<Rightarrow> nextp
      | Some lang \<Rightarrow> (case strtokcmp lang (map of_char ''=javascript'') of None \<Rightarrow> nextp | Some cp \<Rightarrow> cp))"

text \<open>
  A script, from behind its opening bracket: the text that is left and the engine. What is written
  about a script that fails is not part of the model; it ends the page.
\<close>

definition startOrigParser :: "nat \<Rightarrow> 's page ext \<Rightarrow> bytes \<Rightarrow> 's page eng \<Rightarrow> asp_end \<times> 's page eng + bytes \<times> 's page eng" where
  "startOrigParser n x s ep =
     (case gstrstr (decode_language (skipWhite s)) (map of_char ''%>'') of
        None \<Rightarrow> Inl (Unterminated, ep)
      | Some (cmd, rest) \<Rightarrow>
          let cmd = unquote False False (skipWhite cmd) in
          if cmd = [] then Inr (rest, ep)
          else case scriptEval n x cmd ep of
            Inl e \<Rightarrow> Inl (Stuck e, ep)
          | Inr (Inl e, ep) \<Rightarrow> Inl (ScriptError e, ep)
          | Inr (Inr r, ep) \<Rightarrow> Inr (rest, ep))"

text \<open>The name in a translation tag: \<open>None\<close> if it is not quoted, and blanks are removed.\<close>

definition tag_name :: "bytes \<Rightarrow> bytes option" where
  "tag_name t =
     (case gstrstr t [34] of
        None \<Rightarrow> None
      | Some (_, behind_quote) \<Rightarrow> (case gstrstr behind_quote [34] of None \<Rightarrow> None | Some (name, _) \<Rightarrow> Some name))"

definition translate :: "(bytes \<Rightarrow> bytes option) \<Rightarrow> bytes \<Rightarrow> bytes \<Rightarrow> 's page eng \<Rightarrow> asp_end \<times> 's page eng + bytes \<times> 's page eng" where
  "translate lang_get name nextp ep =
     (case gstrstr nextp (map of_char ''<!--#endtr-->'') of
        None \<Rightarrow> Inl (NullWrite, ep)
      | Some (t, rest) \<Rightarrow>
          let t = unquote True False (skipWhite t) in
          if t = [] then Inr (rest, ep)
          else
            let s = (case lang_get (filter (\<lambda>b. b \<noteq> 32) name) of Some other \<Rightarrow> other | None \<Rightarrow> t)
            in Inr (rest, ep\<lparr>mt := snd (websWrite ''%s'' [AStr (Some (chars s))] (mt ep))\<rparr>))"

definition startMultiLangParser ::
  "(bytes \<Rightarrow> bytes option) \<Rightarrow> bytes \<Rightarrow> 's page eng \<Rightarrow> asp_end \<times> 's page eng + bytes \<times> 's page eng" where
  "startMultiLangParser lang_get s ep =
     (case gstrstr (skipWhite s) (map of_char ''-->'') of
        None \<Rightarrow> Inl (NullWrite, ep)
      | Some (tag, rest) \<Rightarrow>
          let tag = unquote True False (skipWhite tag) in
          if tag = [] then translate lang_get [] rest ep
          else case tag_name tag of
            None \<Rightarrow> Inr (rest, ep)
          | Some name \<Rightarrow> if length name \<ge> 32 then Inl (TagOverflow, ep) else translate lang_get name rest ep)"

definition write_text :: "bytes \<Rightarrow> 's page eng \<Rightarrow> 's page eng" where
  "write_text t ep = ep\<lparr>mt := snd (websWriteBlock t (mt ep))\<rparr>"

lemma gstrstr_split: "gstrstr s p = Some (a, b) \<Longrightarrow> s = a @ p @ b"
proof (induction s arbitrary: a)
  case (Cons c cs)
  show ?case
  proof (cases "take (length p) (c # cs) = p")
    case True
    then show ?thesis using Cons.prems append_take_drop_id [of "length p" "c # cs"] by (simp del: append_take_drop_id)
  next
    case False
    then obtain a' where "gstrstr cs p = Some (a', b)" "a = c # a'" using Cons.prems by (auto split: option.splits)
    then show ?thesis using Cons.IH by simp
  qed
qed (auto split: if_splits)

lemma skipWhite_length: "length (skipWhite s) \<le> length s"
  by (simp add: skipWhite_def length_dropWhile_le)

lemma tokcmp_length: "tokcmp_loop s1 s2 = Some r \<Longrightarrow> length r \<le> length s1"
  by (induction s1 s2 rule: tokcmp_loop.induct) (auto split: if_splits)

lemma strtokcmp_length: "strtokcmp s1 s2 = Some r \<Longrightarrow> length r \<le> length s1"
  unfolding strtokcmp_def using tokcmp_length skipWhite_length le_trans by blast

lemma decode_language_length: "length (decode_language s) \<le> length s"
proof (cases "strtokcmp s (map of_char ''language'')")
  case (Some r)
  then have "length r \<le> length s" by (rule strtokcmp_length)
  then show ?thesis using Some strtokcmp_length [of r "map of_char ''=javascript''"]
    by (cases "strtokcmp r (map of_char ''=javascript'')") (force simp: decode_language_def)+
qed (simp add: decode_language_def)

lemma orig_length: "startOrigParser n x s ep = Inr (rest, ep') \<Longrightarrow> length rest \<le> length s"
  using decode_language_length [of "skipWhite s"] skipWhite_length [of s]
  by (auto simp: startOrigParser_def Let_def dest!: gstrstr_split split: option.splits if_splits sum.splits)

lemma translate_length: "translate l name s ep = Inr (rest, ep') \<Longrightarrow> length rest \<le> length s"
  by (auto simp: translate_def Let_def dest!: gstrstr_split split: option.splits if_splits)

lemma multi_length: "startMultiLangParser l s ep = Inr (rest, ep') \<Longrightarrow> length rest \<le> length s"
  using skipWhite_length [of s]
  by (auto simp: startMultiLangParser_def Let_def dest!: gstrstr_split translate_length split: option.splits if_splits)

text \<open>The next tag: whether it opens a script, and the text before and behind it.\<close>

definition next_tag :: "bytes \<Rightarrow> (bool \<times> bytes \<times> bytes) option" where
  "next_tag t =
     (case (gstrstr t (map of_char ''<%''), gstrstr t (map of_char ''<!--#tr'')) of
        (None, None) \<Rightarrow> None
      | (Some (a, b), None) \<Rightarrow> Some (True, a, b)
      | (None, Some (a, b)) \<Rightarrow> Some (False, a, b)
      | (Some (a, b), Some (c, d)) \<Rightarrow> if length a < length c then Some (True, a, b) else Some (False, c, d))"

lemma gstrstr_less: "gstrstr t p = Some (a, b) \<Longrightarrow> p \<noteq> [] \<Longrightarrow> length b < length t"
  by (drule gstrstr_split) simp

lemma next_tag_length: "next_tag t = Some (script_tag, a, b) \<Longrightarrow> length b < length t"
  using gstrstr_less [of t "map of_char ''<%''" a b] gstrstr_less [of t "map of_char ''<!--#tr''" a b]
  by (auto simp: next_tag_def split: option.splits if_splits)

function asp_loop :: "nat \<Rightarrow> 's page ext \<Rightarrow> (bytes \<Rightarrow> bytes option) \<Rightarrow> bytes \<Rightarrow> 's page eng \<Rightarrow> asp_end \<times> 's page eng" where
  "asp_loop n x lang_get t ep =
     (case next_tag t of
        None \<Rightarrow> (Done, write_text t ep)
      | Some (script_tag, pre, s) \<Rightarrow>
          (case (if script_tag then startOrigParser n x s (write_text pre ep) else startMultiLangParser lang_get s (write_text pre ep)) of
             Inl r \<Rightarrow> r
           | Inr (rest, ep) \<Rightarrow> asp_loop n x lang_get rest ep))"
  by pat_completeness auto
termination
proof (relation "measure (\<lambda>(_, _, _, t, _). length t)", goal_cases)
  case (2 n x lang_get t ep a script_tag b pre s c rest ep')
  then have "length s < length t" "length rest \<le> length s"
    using next_tag_length orig_length multi_length by (metis (full_types))+
  then show ?case by simp
qed simp

declare asp_loop.simps [simp del]

text \<open>
  A request for a page: the engine works on the variables of the request and the table of
  functions; \<open>None\<close> stands for a page that cannot be read.
\<close>

definition websAspRequest ::
  "nat \<Rightarrow> 's page ext \<Rightarrow> (bytes \<Rightarrow> bytes option) \<Rightarrow> ('s page eng \<Rightarrow> 's page eng) \<Rightarrow> frame \<Rightarrow> bytes option \<Rightarrow> 's page \<Rightarrow> asp_end \<times> 's page eng" where
  "websAspRequest n x lang_get MT_PreParsePage cgiVars file p =
     (let ep = ejOpenEngine (Some cgiVars) p in
      case file of
        None \<Rightarrow> (BadPage, ep)
      | Some rbuf \<Rightarrow> asp_loop n x lang_get (takeWhile (\<lambda>b. b \<noteq> 0) rbuf) (MT_PreParsePage ep))"

section \<open>The expansion of a page\<close>

text \<open>
  A page as its author sees it: text before each script or translated text, and the text at the
  end. \<open>expand\<close> says what it means.
\<close>

datatype part = Code bytes | Trans bytes bytes

fun part_text :: "part \<Rightarrow> bytes" where
  "part_text (Code c) = map of_char ''<%'' @ c @ map of_char ''%>''"
| "part_text (Trans name t) = map of_char ''<!--#tr id='' @ 34 # name @ 34 # map of_char ''-->'' @ t @ map of_char ''<!--#endtr-->''"

definition page_text :: "(bytes \<times> part) list \<Rightarrow> bytes \<Rightarrow> bytes" where
  "page_text ps t = concat (map (\<lambda>(a, p). a @ part_text p) ps) @ t"

definition free_of :: "string \<Rightarrow> bytes \<Rightarrow> bool" where
  "free_of p t \<longleftrightarrow> gstrstr t (map of_char p) = None"

definition plain_text :: "bytes \<Rightarrow> bool" where
  "plain_text t \<longleftrightarrow> free_of ''<%'' t \<and> free_of ''<!--#tr'' t"

fun part_ok :: "part \<Rightarrow> bool" where
  "part_ok (Code c) \<longleftrightarrow> free_of ''%>'' c \<and> strtokcmp c (map of_char ''language'') = None"
| "part_ok (Trans name t) \<longleftrightarrow>
     length name < 32 \<and> 34 \<notin> set name \<and> 92 \<notin> set name \<and> 62 \<notin> set name \<and> free_of ''<!--#endtr-->'' t \<and> 0 \<notin> set t"

definition page_ok :: "(bytes \<times> part) list \<Rightarrow> bytes \<Rightarrow> bool" where
  "page_ok ps t \<longleftrightarrow> (\<forall>(a, p)\<in>set ps. plain_text a \<and> part_ok p) \<and> plain_text t"

fun expand_part :: "nat \<Rightarrow> 's page ext \<Rightarrow> (bytes \<Rightarrow> bytes option) \<Rightarrow> part \<Rightarrow> 's page eng \<Rightarrow> asp_end \<times> 's page eng" where
  "expand_part n x lang_get (Code c) ep =
     (let cmd = unquote False False (skipWhite c) in
      if cmd = [] then (Done, ep)
      else case ejEval n x cmd ep of
        Inl e \<Rightarrow> (Stuck e, ep) | Inr (Inl e, ep) \<Rightarrow> (ScriptError e, ep) | Inr (Inr r, ep) \<Rightarrow> (Done, ep))"
| "expand_part n x lang_get (Trans name t) ep =
     (let t = unquote True False (skipWhite t) in
      if t = [] then (Done, ep)
      else (Done, write_text (take 76799 (case lang_get (filter (\<lambda>b. b \<noteq> 32) name) of Some s \<Rightarrow> s | None \<Rightarrow> t)) ep))"

fun expand :: "nat \<Rightarrow> 's page ext \<Rightarrow> (bytes \<Rightarrow> bytes option) \<Rightarrow> (bytes \<times> part) list \<Rightarrow> bytes \<Rightarrow> 's page eng \<Rightarrow> asp_end \<times> 's page eng" where
  "expand n x lang_get [] t ep = (Done, write_text t ep)"
| "expand n x lang_get ((a, p) # ps) t ep =
     (case expand_part n x lang_get p (write_text a ep) of
        (Done, ep) \<Rightarrow> expand n x lang_get ps t ep
      | r \<Rightarrow> r)"

subsection \<open>Searching\<close>

text \<open>A pattern whose first character occurs in it only once is found where it was put.\<close>

lemma gstrstr_none: "gstrstr t p = None \<longleftrightarrow> (\<forall>a b. t \<noteq> a @ p @ b)"
proof
  show "gstrstr t p = None \<Longrightarrow> \<forall>a b. t \<noteq> a @ p @ b"
  proof (induction t)
    case (Cons c cs)
    then have n: "take (length p) (c # cs) \<noteq> p" "\<forall>a b. cs \<noteq> a @ p @ b" by (auto split: if_splits)
    show ?case
    proof (intro allI notI)
      fix a b assume e: "c # cs = a @ p @ b"
      show False
      proof (cases a)
        case Nil
        then show ?thesis using e n(1) by simp
      next
        case (Cons d a')
        then show ?thesis using e n(2) by simp
      qed
    qed
  qed (auto split: if_splits)
  show "\<forall>a b. t \<noteq> a @ p @ b \<Longrightarrow> gstrstr t p = None" using gstrstr_split by (metis not_None_eq surj_pair)
qed

lemma gstrstr_skip:
  assumes "gstrstr t (c # p) = None" "c \<notin> set p" "r \<noteq> [] \<Longrightarrow> hd r = c"
  shows "gstrstr (t @ r) (c # p) = map_option (\<lambda>(a, b). (t @ a, b)) (gstrstr r (c # p))"
  using assms(1)
proof (induction t)
  case Nil
  then show ?case by (simp add: option.map_ident_strong split_def)
next
  case (Cons d t)
  have "take (length (c # p)) (d # t @ r) \<noteq> c # p"
  proof
    assume e: "take (length (c # p)) (d # t @ r) = c # p"
    show False
    proof (cases "length p \<le> length t")
      case True
      then show False using e Cons.prems by auto
    next
      case False
      then have "r \<noteq> []" using e by (auto dest: arg_cong [of _ _ length])
      then have "hd r = c" by (rule assms(3))
      moreover have "p = t @ take (length p - length t) r" using e False by auto
      moreover have "take (length p - length t) r \<noteq> []" using False \<open>r \<noteq> []\<close> by simp
      ultimately have "c \<in> set p" by (metis append_is_Nil_conv hd_append2 hd_in_set hd_take list.set_sel(1) set_append Un_iff take_eq_Nil2 not_gr_zero)
      with assms(2) show False by simp
    qed
  qed
  moreover have "gstrstr t (c # p) = None" using Cons.prems by (auto split: if_splits)
  ultimately show ?case using Cons.IH by (auto simp: option.map_comp comp_def split_def)
qed

lemma gstrstr_here: "gstrstr (p @ r) p = Some ([], r)"
proof (cases p)
  case Nil
  then show ?thesis by (cases r) simp_all
qed simp

lemma gstrstr_at:
  assumes "gstrstr t (c # p) = None" "c \<notin> set p"
  shows "gstrstr (t @ c # p @ r) (c # p) = Some (t, r)"
  using gstrstr_skip [OF assms, of "c # p @ r"] gstrstr_here [of "c # p" r] by simp

lemma gstrstr_first_char: "c \<notin> set t \<Longrightarrow> gstrstr t (c # p) = None"
  by (induction t) auto

text \<open>Behind text without tags the next tag is that of the part.\<close>

lemma next_tag_code:
  assumes "plain_text a"
  shows "next_tag (a @ map of_char ''<%'' @ r) = Some (True, a, r)"
proof -
  let ?s = "60 # 37 # r"
  have h: "gstrstr a [60, 37] = None" "gstrstr a [60, 33, 45, 45, 35, 116, 114] = None" using assms by (simp_all add: plain_text_def free_of_def)
  have 1: "gstrstr (a @ ?s) [60, 37] = Some (a, r)" using gstrstr_at [OF h(1), of r] by simp
  have "gstrstr (a @ ?s) [60, 33, 45, 45, 35, 116, 114] = map_option (\<lambda>(u, v). (a @ u, v)) (gstrstr ?s [60, 33, 45, 45, 35, 116, 114])"
    by (rule gstrstr_skip [OF h(2)]) simp_all
  then show ?thesis using 1 by (auto simp: next_tag_def split: option.splits)
qed

lemma next_tag_trans:
  assumes "plain_text a"
  shows "next_tag (a @ map of_char ''<!--#tr'' @ r) = Some (False, a, r)"
proof -
  let ?s = "60 # 33 # 45 # 45 # 35 # 116 # 114 # r"
  have h: "gstrstr a [60, 37] = None" "gstrstr a [60, 33, 45, 45, 35, 116, 114] = None" using assms by (simp_all add: plain_text_def free_of_def)
  have 1: "gstrstr (a @ ?s) [60, 33, 45, 45, 35, 116, 114] = Some (a, r)" using gstrstr_at [OF h(2), of r] by simp
  have "gstrstr (a @ ?s) [60, 37] = map_option (\<lambda>(u, v). (a @ u, v)) (gstrstr ?s [60, 37])"
    by (rule gstrstr_skip [OF h(1)]) simp_all
  then show ?thesis using 1 by (auto simp: next_tag_def split: option.splits)
qed

lemma next_tag_none: "plain_text t \<Longrightarrow> next_tag t = None"
  by (simp add: next_tag_def plain_text_def free_of_def)

subsection \<open>Parts\<close>

lemma skipWhite_idem: "skipWhite (skipWhite s) = skipWhite s"
  by (simp add: skipWhite_def dropWhile_idem)

lemma skipWhite_append: "\<not> gisspace d \<Longrightarrow> skipWhite (s @ d # r) = skipWhite s @ d # r"
  by (induction s) (simp_all add: skipWhite_def)

lemma tokcmp_longer: "tokcmp_loop s1 s2 = None \<Longrightarrow> tokcmp_loop (s1 @ d # r) (s2 :: bytes) = None \<or> tolower d \<in> tolower ` set s2"
proof (induction s1 s2 rule: tokcmp_loop.induct)
  case (2 b s2)
  then show ?case by (auto split: if_splits)
qed (auto split: if_splits)

lemma expand_code:
  assumes "part_ok (Code c)"
  shows "startOrigParser n x (c @ map of_char ''%>'' @ r) ep =
    (case expand_part n x l (Code c) ep of (Done, ep) \<Rightarrow> Inr (r, ep) | z \<Rightarrow> Inl z)"
proof -
  have f: "gstrstr (skipWhite c) [37, 62] = None"
  proof -
    have "c = takeWhile gisspace c @ skipWhite c" by (simp add: skipWhite_def)
    moreover have "\<forall>a b. c \<noteq> a @ [37, 62] @ b" using assms by (simp add: free_of_def gstrstr_none)
    ultimately show ?thesis unfolding gstrstr_none by (metis append.assoc)
  qed
  have w: "skipWhite (c @ 37 # 62 # r) = skipWhite c @ 37 # 62 # r" by (rule skipWhite_append) (simp add: gisspace_def)
  have "tokcmp_loop (skipWhite c) (map of_char ''language'') = None" using assms by (simp add: strtokcmp_def)
  from tokcmp_longer [OF this, of 37 "62 # r"]
  have "tokcmp_loop (skipWhite c @ 37 # 62 # r) (map of_char ''language'') = None" by (auto simp: tolower_def)
  then have "decode_language (skipWhite c @ 37 # 62 # r) = skipWhite c @ 37 # 62 # r"
    using w skipWhite_idem [of "c @ 37 # 62 # r"] by (simp add: decode_language_def strtokcmp_def)
  then show ?thesis
    using gstrstr_at [OF f, of r] w by (simp add: startOrigParser_def scriptEval_def skipWhite_idem Let_def split: sum.split)
qed

text \<open>What \<open>websWrite\<close> puts out for a text.\<close>

lemma byte_char: "of_char (char_of (unat b) :: char) = (b :: u8)"
proof -
  have "of_char (char_of (unat b) :: char) = (of_nat (of_char (char_of (unat b) :: char)) :: u8)" by (simp only: of_nat_of_char)
  also have "\<dots> = b" using unsigned_less [of b, where ?'a = nat] by (simp del: of_nat_of_char)
  finally show ?thesis .
qed

lemma of_char_chars: "map of_char (chars t) = t"
  by (simp add: chars_def byte_char comp_def)

lemma visible_chars:
  assumes "0 \<notin> set t"
  shows "visible (chars t) = chars t"
proof -
  have "char_of (unat b) \<noteq> NUL" if "b \<in> set t" for b
  proof
    assume "char_of (unat b) = NUL"
    then have "b = of_char NUL" using byte_char [of b] by simp
    then show False using that assms by simp
  qed
  then show ?thesis by (auto simp: visible_def chars_def filter_id_conv)
qed

lemma websWrite_text:
  assumes "0 \<notin> set t"
  shows "snd (websWrite ''%s'' [AStr (Some (chars t))] p) = snd (websWriteBlock (take 76799 t) p)"
proof -
  have "render ''%s'' [AStr (Some (chars t))] = Some (chars t)" by (simp add: render_s del: render.simps(2))
  from fmtAlloc_render [OF this, of WEBS_BUFSIZE "take 76799 (chars t)" "\<lambda>_. True"] obtain buf cs where
    "fmtAlloc (\<lambda>_. True) WEBS_BUFSIZE ''%s'' [AStr (Some (chars t))] = Some (buf, int (length (take 76799 (chars t))))"
    "sbuf buf = Some cs" "c_string cs = Some (take 76799 (chars t))"
    using visible_chars [OF assms] by auto
  then show ?thesis by (simp add: websWrite_def fmtAlloc_def fmtValloc_def take_map [symmetric] of_char_chars)
qed

lemma unquote_set: "set (unquote e w t) \<subseteq> insert 32 (set t)"
proof (induction t arbitrary: w)
  case (Cons c t)
  have "set (unquote e True t) \<subseteq> insert 32 (set t)" "set (unquote e False t) \<subseteq> insert 32 (set t)" by (rule Cons)+
  then show ?case by (subst unquote.simps) (simp only: list.set split: if_split, blast)
qed simp

lemma unquote_clean: "92 \<notin> set t \<Longrightarrow> unquote e False t = t"
  by (induction t) auto

lemma gstrstr_sep:
  assumes "gstrstr t p = None" "d \<notin> set p" "p \<noteq> []"
  shows "gstrstr (t @ d # r) p = map_option (\<lambda>(a, b). (t @ d # a, b)) (gstrstr r p)"
  using assms(1)
proof (induction t)
  case Nil
  have "take (length p) (d # r) \<noteq> p" using assms(2,3) by (cases p) auto
  then show ?case by simp
next
  case (Cons e t)
  have "take (length p) (e # t @ d # r) \<noteq> p"
  proof
    assume h: "take (length p) (e # t @ d # r) = p"
    show False
    proof (cases "length p \<le> length (e # t)")
      case True
      then show False using h Cons.prems by (auto split: if_splits simp: take_Cons' split: nat.splits)
    next
      case False
      then have "d \<in> set (take (length p) ((e # t) @ d # r))" by (auto simp: take_Cons')
      then show False using h assms(2) by simp
    qed
  qed
  moreover have "gstrstr t p = None" using Cons.prems by (auto split: if_splits)
  ultimately show ?case using Cons.IH by (auto simp: option.map_comp comp_def split_def)
qed

lemma read_tag:
  assumes "34 \<notin> set name" "92 \<notin> set name" "62 \<notin> set name"
  shows "startMultiLangParser lang_get (map of_char '' id='' @ 34 # name @ 34 # map of_char ''-->'' @ r) ep =
    (if length name \<ge> 32 then Inl (TagOverflow, ep) else translate lang_get name r ep)"
proof -
  let ?q = "map of_char ''-->'' :: bytes" and ?tag = "105 # 100 # 61 # 34 # name @ [34] :: bytes"
  have "gstrstr (105 # 100 # 61 # 34 # name) ?q = None"
    unfolding gstrstr_none
  proof (intro allI notI)
    fix a b assume "105 # 100 # 61 # 34 # name = a @ ?q @ b"
    then have "62 \<in> set (105 # 100 # 61 # 34 # name)" by (simp only: set_append) simp
    then show False using assms(3) by simp
  qed
  then have 1: "gstrstr ((105 # 100 # 61 # 34 # name) @ 34 # ?q @ r) ?q = Some (?tag, r)"
    by (subst gstrstr_sep) (use gstrstr_here [of ?q r] in simp_all)
  have w: "skipWhite (map of_char '' id='' @ 34 # name @ 34 # ?q @ r) = (105 # 100 # 61 # 34 # name) @ 34 # ?q @ r"
    "skipWhite ?tag = ?tag"
    by (simp_all add: skipWhite_def gisspace_def)
  have "gstrstr [105, 100, 61] [34] = None" by (rule gstrstr_first_char) simp
  then have 2: "gstrstr ([105, 100, 61] @ 34 # [] @ (name @ [34])) [34] = Some ([105, 100, 61], name @ [34])" by (rule gstrstr_at) simp
  have "gstrstr name [34] = None" by (rule gstrstr_first_char) (rule assms)
  then have 3: "gstrstr (name @ 34 # [] @ []) [34] = Some (name, [])" by (rule gstrstr_at) simp
  have 4: "tag_name ?tag = Some name" using 2 3 by (simp add: tag_name_def)
  have u: "unquote True False ?tag = ?tag" by (rule unquote_clean) (use assms in simp)
  show ?thesis
    unfolding startMultiLangParser_def w(1) 1 using w(2) u 4 by (simp add: Let_def)
qed

lemma expand_trans:
  assumes "part_ok (Trans name t)" and lang: "\<And>k s. lang_get k = Some s \<Longrightarrow> 0 \<notin> set s"
  shows "startMultiLangParser lang_get (map of_char '' id='' @ 34 # name @ 34 # map of_char ''-->'' @ t @ map of_char ''<!--#endtr-->'' @ r) ep =
    (case expand_part n x lang_get (Trans name t) ep of (Done, ep) \<Rightarrow> Inr (r, ep) | z \<Rightarrow> Inl z)"
proof -
  let ?e = "map of_char ''<!--#endtr-->'' :: bytes"
  have ok: "\<not> length name \<ge> 32" "34 \<notin> set name" "92 \<notin> set name" "62 \<notin> set name" "gstrstr t ?e = None" "0 \<notin> set t"
    using assms(1) by (simp_all add: free_of_def)
  have e: "gstrstr (t @ ?e @ r) ?e = Some (t, r)" using gstrstr_at [OF ok(5) [simplified], of r] by simp
  have "0 \<notin> set (unquote True False (skipWhite t))"
    using unquote_set [of True False "skipWhite t"] ok(6) by (auto simp: skipWhite_def dest!: set_dropWhileD subsetD)
  then show ?thesis
    using lang [of "filter (\<lambda>b. b \<noteq> 32) name"] ok(1) unfolding read_tag [OF ok(2-4)] translate_def e
    by (auto simp: Let_def websWrite_text write_text_def split: option.split)
qed

text \<open>
  C7: A page is expanded as its parts say. The text outside of tags is written unchanged. Each script
  runs once, in its place, on the engine the script before it left; a script that fails ends the
  page (the error text the code writes to the browser then is not part of the model, and a
  script with nothing in it is skipped). For each translated text its leading white space is dropped
  and quoted newlines and every backslash are turned into blanks; if nothing is left, nothing is
  written, not even the translation; otherwise the text of the language for the name, with the blanks
  of the name left out, is written, or the text itself when the language has none, in both cases cut
  at 76799 bytes. This holds for pages whose text outside of tags holds no other tag, whose scripts
  do not hold the closing bracket and do not start with the word \<open>language\<close>, whose names in
  translation tags are shorter than 32 bytes and have no quote, backslash or closing angle bracket,
  and whose texts to translate do not hold the closing tag and, like their translations, have no zero
  byte. A connection takes everything that is written to it or, when it is down, nothing.
\<close>

theorem page_expansion:
  assumes "page_ok ps t" and "\<And>k s. lang_get k = Some s \<Longrightarrow> 0 \<notin> set s"
  shows "asp_loop n x lang_get (page_text ps t) ep = expand n x lang_get ps t ep"
  using assms(1)
proof (induction ps arbitrary: ep)
  case Nil
  then show ?case by (subst asp_loop.simps) (simp add: page_text_def page_ok_def next_tag_none)
next
  case (Cons y ps)
  obtain a p where y: "y = (a, p)" by force
  have ok: "plain_text a" "part_ok p" "page_ok ps t" using Cons.prems y by (auto simp: page_ok_def)
  have IH: "asp_loop n x lang_get (page_text ps t) ep' = expand n x lang_get ps t ep'" for ep' by (rule Cons.IH [OF ok(3)])
  show ?case
  proof (cases p)
    case (Code c)
    have "page_text (y # ps) t = a @ map of_char ''<%'' @ c @ map of_char ''%>'' @ page_text ps t"
      by (simp add: page_text_def y Code)
    then have "asp_loop n x lang_get (page_text (y # ps) t) ep =
        (case startOrigParser n x (c @ map of_char ''%>'' @ page_text ps t) (write_text a ep) of
           Inl r \<Rightarrow> r | Inr (rest, ep) \<Rightarrow> asp_loop n x lang_get rest ep)"
      using next_tag_code [OF ok(1), of "c @ map of_char ''%>'' @ page_text ps t"] by (subst asp_loop.simps) simp
    then show ?thesis unfolding expand_code [OF ok(2) [unfolded Code], of n x _ _ lang_get] y Code
      by (simp add: IH split: asp_end.split prod.split)
  next
    case (Trans name s)
    let ?r = "map of_char '' id='' @ 34 # name @ 34 # map of_char ''-->'' @ s @ map of_char ''<!--#endtr-->'' @ page_text ps t"
    have "page_text (y # ps) t = a @ map of_char ''<!--#tr'' @ ?r"
      by (simp add: page_text_def y Trans)
    then have "asp_loop n x lang_get (page_text (y # ps) t) ep =
        (case startMultiLangParser lang_get ?r (write_text a ep) of
           Inl r \<Rightarrow> r | Inr (rest, ep) \<Rightarrow> asp_loop n x lang_get rest ep)"
      using next_tag_trans [OF ok(1), of ?r] by (subst asp_loop.simps) simp
    also have "startMultiLangParser lang_get ?r (write_text a ep) =
        (case expand_part n x lang_get (Trans name s) (write_text a ep) of (Done, ep) \<Rightarrow> Inr (page_text ps t, ep) | z \<Rightarrow> Inl z)"
      by (rule expand_trans [OF ok(2) [unfolded Trans] assms(2)])
    finally show ?thesis unfolding y Trans by (simp add: IH split: asp_end.split prod.split)
  qed
qed

text \<open>
  A translation tag whose name is 32 characters or longer makes the server write behind the
  buffer for the name.
\<close>

theorem long_tag_overflow:
  assumes "plain_text a" "length name \<ge> 32" "34 \<notin> set name" "92 \<notin> set name" "62 \<notin> set name"
  shows "fst (asp_loop n x lang_get (a @ map of_char ''<!--#tr id='' @ 34 # name @ 34 # map of_char ''-->'' @ r) ep) = TagOverflow"
proof -
  have "next_tag (a @ map of_char ''<!--#tr id='' @ 34 # name @ 34 # map of_char ''-->'' @ r) =
      Some (False, a, map of_char '' id='' @ 34 # name @ 34 # map of_char ''-->'' @ r)"
    using next_tag_trans [OF assms(1), of "map of_char '' id='' @ 34 # name @ 34 # map of_char ''-->'' @ r"] by simp
  then show ?thesis
    using read_tag [OF assms(3-5), of lang_get r "write_text a ep"] assms(2) by (subst asp_loop.simps) simp
qed

text \<open>A translation tag that is not closed, and the separator of \<open>write\<close>.\<close>

theorem unclosed_tag:
  assumes "plain_text a" "gstrstr (skipWhite r) (map of_char ''-->'') = None"
  shows "fst (asp_loop n x lang_get (a @ map of_char ''<!--#tr'' @ r) ep) = NullWrite"
  using next_tag_trans [OF assms(1), of r] assms(2) by (subst asp_loop.simps) (simp add: startMultiLangParser_def)

theorem write_separator:
  assumes "\<not> down p" "a \<noteq> []" "b \<noteq> []"
  shows "asp_write_loop [a, b] p = (0, p\<lparr>out := out p @ a @ [32, 0] @ b\<rparr>)"
  using assms by (simp add: websWriteBlock_def)

section \<open>Writing literals\<close>

text \<open>Reading characters leaves the token and the token put back alone.\<close>

definition core :: "ej_t \<Rightarrow> bytes \<times> bytes \<times> int" where
  "core l = (tokbuf l, token l, putBackTokenId l)"

lemma core_getc:
  assumes "inputGetc l = (c, l')"
  shows "core l' = core l"
proof (cases "script l")
  case Nil
  then show ?thesis using assms getc_nil by simp
next
  case (Cons b r)
  then show ?thesis using assms getc_cons [OF Cons] by (metis core_def prod.inject)
qed

lemma core_putback: "core (inputPutback c l) = core l"
  by (simp add: inputPutback_def core_def Let_def)

lemma core_charConvert: "charConvert base n v l = (w, l') \<Longrightarrow> core l' = core l"
proof (induction base n v l rule: charConvert.induct)
  case (2 base n v l)
  obtain c l1 where g: "inputGetc l = (c, l1)" by (cases "inputGetc l")
  then show ?case using 2(1) [OF g [symmetric] refl] 2(2) core_getc [OF g] by (auto simp: core_putback split: if_splits)
qed simp

lemma core_escape: "escape l = Some (c, l') \<Longrightarrow> core l' = core l"
proof -
  assume e: "escape l = Some (c, l')"
  obtain d l1 where g: "inputGetc l = (d, l1)" by (cases "inputGetc l")
  then show ?thesis using e core_getc [OF g]
    by (auto simp: escape_def Let_def core_putback dest!: core_charConvert split: if_splits prod.splits)
qed

lemma string_loop_core:
  "string_loop q c l = (TOK_LITERAL, l') \<Longrightarrow> token l = tokbuf l \<Longrightarrow> token l' = tokbuf l' \<and> putBackTokenId l' = putBackTokenId l"
proof (induction q c l rule: string_loop.induct)
  case (1 q c l)
  show ?case
  proof (cases "c = q")
    case True
    then show ?thesis using 1(2,3) by (simp add: string_loop.simps [of q q l])
  next
    case False
    then obtain d l1 where e: "(if c = 92 then escape l else Some (c, l)) = Some (d, l1)"
      using 1(2) by (auto simp: string_loop.simps [of q c l] split: option.splits)
    have k: "core l1 = core l" using e by (auto simp: core_escape split: if_splits)
    obtain c2 l2 where g: "inputGetc (tokenAddChar d l1) = (c2, l2)" by (cases "inputGetc (tokenAddChar d l1)")
    have k2: "token l2 = tokbuf l2 \<and> putBackTokenId l2 = putBackTokenId l"
      using core_getc [OF g] k by (simp add: core_def tokenAddChar_def Let_def)
    have "\<not> c2 < 0" "string_loop q c2 l2 = (TOK_LITERAL, l')"
      using 1(2) False e g by (auto simp: string_loop.simps [of q c l] split: if_splits)
    then show ?thesis using 1(1) [OF False e refl refl g [symmetric]] k2 by simp
  qed
qed

lemma get_string:
  assumes "at_text (34 # concat (map quote_byte t) @ 34 # rest) l"
  obtains l' where "ejLexGetToken isI st l = (TOK_LITERAL, l')" "at_text rest l'" "token l' = t"
proof -
  let ?l = "l\<lparr>tid := - 1, token := [], tokbuf := []\<rparr>"
  obtain b r where tail: "concat (map quote_byte t) @ 34 # rest = b # r" by (cases "concat (map quote_byte t) @ 34 # rest") auto
  obtain l1 where l1: "inputGetc ?l = (uint (34 :: u8), l1)" "script l1 = b # r" "core l1 = core ?l"
    using getc_cons [of ?l 34 "b # r"] core_getc assms tail by (auto simp: at_text_def) metis
  obtain l2 where l2: "inputGetc l1 = (uint b, l2)" "script l2 = r" "core l2 = core ?l"
    using getc_cons [OF l1(2)] core_getc l1(3) by metis
  obtain l3 where l3: "string_loop 34 (uint b) l2 = (TOK_LITERAL, l3)" "tokbuf l3 = t" "script l3 = rest"
    using string_loop_quoted [OF tail l2(2)] l2(3) by (auto simp: core_def)
  have k: "token l3 = t" "putBackTokenId l3 = putBackTokenId l"
    using string_loop_core [OF l3(1)] l2(3) l3(2) by (simp_all add: core_def)
  have "lex_loop isI st 34 l1 = (TOK_LITERAL, l3)"
    using l2(1) l3(1) by (simp add: lex_loop.simps [of isI st 34] linorder_not_less)
  then show ?thesis using that [of "l3\<lparr>tid := TOK_LITERAL\<rparr>"] l1(1) l3(3) k assms
    by (simp add: ejLexGetToken_def getLexicalToken_def Let_def at_text_def)
qed

lemma get_held:
  assumes "behind e rest l"
  obtains l' where "ejLexGetToken isI st l = (if e = 59 then TOK_SEMI else TOK_RPAREN, l')" "at_text rest l'" "token l' = [e]"
proof -
  let ?l = "l\<lparr>tokbuf := [e], token := [e], putBackTokenId := 0, tid := putBackTokenId l\<rparr>"
  have "ejLexGetToken isI st l = (putBackTokenId l, ?l)"
    using assms by (simp add: behind_def ejLexGetToken_def getLexicalToken_def Let_def)
  then show ?thesis using that [of ?l] assms by (simp add: behind_def at_text_def)
qed

lemma get_function:
  assumes "at_text (w @ 40 # rest) l" "list_all idchar w" "w \<noteq> []" "\<not> isI w" "reserved w = None"
  obtains l' where "ejLexGetToken isI st l = (TOK_FUNCTION, l')" "at_text (40 # rest) l'" "token l' = w"
proof -
  obtain b v where w: "w = b # v" using assms(3) by (cases w) auto
  have "ends_word 40" by (simp add: ends_word_def idchar_def gisalnum_def gisdigit_def)
  moreover have "script l = b # v @ 40 # rest" "putBackTokenId l \<le> 0" "idchar b" "list_all idchar v"
    using assms(1,2) w by (simp_all add: at_text_def)
  moreover have none: "(if st = STATE_STMT then reserved (b # v) else None) = None" using assms(5) w by simp
  moreover have "uint (40 :: u8) = 40" by simp
  ultimately obtain e where e: "script e = rest" "token e = w" "putBackTokenId e = putBackTokenId l"
      "getLexicalToken isI st l = (let (c, ep2) = skip_blank {32, 9, 13, 10} 40 e in (if c = 40 then TOK_FUNCTION else TOK_ID, inputPutback c ep2))"
    using word_read [of l b v 40 rest isI st, unfolded none option.case] assms(4) w by (auto simp del: uint_numeral)
  then have "getLexicalToken isI st l = (TOK_FUNCTION, inputPutback 40 e)" by (simp add: skip_blank.simps [of _ 40])
  then show ?thesis using that [of "(inputPutback 40 e)\<lparr>tid := TOK_FUNCTION\<rparr>"] e assms(1)
    by (simp add: ejLexGetToken_def at_text_def inputPutback_def Let_def)
qed

lemma get_open:
  assumes "at_text (40 # rest) l"
  obtains l' where "ejLexGetToken isI st l = (TOK_LPAREN, l')" "at_text rest l'"
proof -
  let ?l = "l\<lparr>tid := - 1, token := [], tokbuf := []\<rparr>"
  obtain l1 where l1: "inputGetc ?l = (uint (40 :: u8), l1)" "script l1 = rest" "putBackTokenId l1 = putBackTokenId l"
    using getc_at [of ?l 40 rest] assms by (auto simp: at_text_def)
  then show ?thesis using that assms
    by (auto simp: ejLexGetToken_def getLexicalToken_def lex_loop.simps [of isI st _ l1] tokenAddChar_def Let_def at_text_def)
qed

lemma get_eof:
  assumes "at_text [] l"
  obtains l' where "ejLexGetToken isI st l = (TOK_EOF, l')" "script l' = []" "putBackTokenId l' \<le> 0"
  using assms that by (auto simp: at_text_def ejLexGetToken_def getLexicalToken_def Let_def inputGetc_def)

lemma run_more: "run (m + numeral k) x c = call_body x (run (m + pred_numeral k) x) c"
  by (simp add: numeral_eq_Suc)

lemma run_string:
  assumes "at_text (34 # concat (map quote_byte t) @ 34 # rest) (lex ep)" "0 \<notin> set t"
  obtains ep' where "run (m + 2) x (Parse STATE_EXPR exe) ep = Inr (STATE_EXPR_DONE, ep')"
    "at_text rest (lex ep')" "result ep' = t" "same_but_lex ep ep'"
proof -
  obtain l where l: "ejLexGetToken (isInteger x) STATE_EXPR (lex ep) = (TOK_LITERAL, l)" "at_text rest l" "token l = t"
    using get_string [OF assms(1)] .
  show ?thesis
    by (rule that [of "ep\<lparr>lex := l, result := t\<rparr>"])
      (simp_all add: call_body_def parse_def parseStmt_def andthen_def getTok_eq [OF l(1)] inspect_def setResult_def update_def
        finish_def stmt_status_def ret_def l same_but_lex_def c_str_clean [OF assms(2)])
qed

lemma run_string_expr:
  assumes "at_text (34 # concat (map quote_byte t) @ 34 # 41 # rest) (lex ep)" "0 \<notin> set t"
  obtains ep' where "run (m + 4) x (Parse STATE_RELEXP exe) ep = Inr (STATE_RELEXP_DONE, ep')"
    "behind 41 rest (lex ep')" "result ep' = t" "same_but_lex ep ep'"
proof -
  let ?ep = "ep\<lparr>result := []\<rparr>"
  have "at_text (34 # concat (map quote_byte t) @ 34 # 41 # rest) (lex ?ep)" using assms(1) by simp
  then obtain ep1 where e: "run (m + 2) x (Parse STATE_EXPR exe) ?ep = Inr (STATE_EXPR_DONE, ep1)"
      "at_text (41 # rest) (lex ep1)" "result ep1 = t" "same_but_lex ?ep ep1"
    using run_string [OF _ assms(2)] by blast
  obtain l where l: "ejLexGetToken (isInteger x) STATE_EXPR_DONE (lex ep1) = (TOK_RPAREN, l)" "at_text rest l" "token l = [41]"
    using get_end [OF e(2), of "isInteger x" STATE_EXPR_DONE] by auto
  have "parseExpr (run (m + 2) x) x exe 0 0 [] ?ep = Inr (STATE_RELEXP_DONE, ep1\<lparr>lex := ejLexPutbackToken TOK_RPAREN (c_str (token l)) l\<rparr>)"
    using parseExpr_round(2) [where p = "run (m + 2) x" and rel = 0 and lhs = "[]" and t = TOK_RPAREN and tk = 0 and x = x, OF e(1) _ l(1)]
    by (simp add: ret_def)
  then show ?thesis
    using that [of "ep1\<lparr>lex := ejLexPutbackToken TOK_RPAREN (c_str (token l)) l\<rparr>"] e(3,4) l
    by (simp add: run_more call_body_def parse_def andthen_def setResult_def update_def inspect_def ret_def behind_def
        ejLexPutbackToken_def at_text_def same_but_lex_def c_str_def)
qed

lemma run_string_args:
  assumes "at_text (34 # concat (map quote_byte t) @ 34 # 41 # rest) (lex ep)" "0 \<notin> set t" "func ep = Some f"
  obtains ep' where "run (m + 6) x (Parse STATE_ARG_LIST exe) ep = Inr (STATE_ARG_LIST_DONE, ep')"
    "behind 41 rest (lex ep')" "func ep' = Some (f\<lparr>args := args f @ [t]\<rparr>)" "variables ep' = variables ep" "mt ep' = mt ep"
proof -
  obtain ep1 where e: "run (m + 4) x (Parse STATE_RELEXP exe) ep = Inr (STATE_RELEXP_DONE, ep1)"
      "behind 41 rest (lex ep1)" "result ep1 = t" "same_but_lex ep ep1"
    using run_string_expr [OF assms(1,2)] .
  obtain l where l: "ejLexGetToken (isInteger x) STATE_RELEXP_DONE (lex ep1) = (TOK_RPAREN, l)" "at_text rest l" "token l = [41]"
    using get_held [OF e(2), of "isInteger x" STATE_RELEXP_DONE] by auto
  let ?ep = "ep1\<lparr>func := Some (f\<lparr>args := args f @ [t]\<rparr>), lex := ejLexPutbackToken TOK_RPAREN [41] l\<rparr>"
  have f1: "func ep1 = Some f" using e(4) assms(3) by (simp add: same_but_lex_def)
  have "parseArgs (run (m + 4) x) x exe ep = Inr (STATE_ARG_LIST_DONE, ?ep)"
    using e(1,3) f1 l(3) getTok_eq [of x STATE_RELEXP_DONE "ep1\<lparr>func := Some (f\<lparr>args := args f @ [t]\<rparr>)\<rparr>" TOK_RPAREN l] l(1)
    by (simp add: parseArgs_def andthen_def add_arg_def putback_def update_def ret_def c_str_def)
  then show ?thesis
    using that [of ?ep] e(4) l(2)
    by (simp add: run_more call_body_def parse_def andthen_def inspect_def ret_def behind_def ejLexPutbackToken_def at_text_def same_but_lex_def)
qed

text \<open>The text of a call of \<open>write\<close> with a literal.\<close>

definition write_call :: "bytes \<Rightarrow> bytes" where
  "write_call t = map of_char ''write('' @ 34 # concat (map quote_byte t) @ 34 # map of_char '');''"

lemma run_write:
  assumes "at_text (write_call t) (lex ep)" "0 \<notin> set t" "\<not> down (mt ep)"
    and "fn_table x (map of_char ''write'') = Some websAspWrite" "\<not> isInteger x (map of_char ''write'')"
  obtains ep' where "run (m + 8) x (Parse STATE_STMT True) ep = Inr (STATE_STMT_DONE, ep')"
    "script (lex ep') = []" "putBackTokenId (lex ep') = TOK_EOF" "mt ep' = (mt ep)\<lparr>out := out (mt ep) @ t\<rparr>" "variables ep' = variables ep"
proof -
  let ?w = "map of_char ''write'' :: bytes" and ?q = "34 # concat (map quote_byte t) @ 34 # 41 # [59]"
  have "at_text (?w @ 40 # ?q) (lex ep)" using assms(1) by (simp add: write_call_def)
  then obtain l0 where l0: "ejLexGetToken (isInteger x) STATE_STMT (lex ep) = (TOK_FUNCTION, l0)" "at_text (40 # ?q) l0" "token l0 = ?w"
    by (rule get_function) (use assms(5) in \<open>simp_all add: idchar_def gisalnum_def gisdigit_def reserved_def ch_def\<close>)
  obtain l1 where l1: "ejLexGetToken (isInteger x) STATE_STMT l0 = (TOK_LPAREN, l1)" "at_text ?q l1" using get_open [OF l0(2)] .
  define ep1 where "ep1 = ep\<lparr>func := Some \<lparr>fname = ?w, args = []\<rparr>, result := [], lex := l1\<rparr>"
  obtain ep2 where ep2: "run (m + 6) x (Parse STATE_ARG_LIST True) ep1 = Inr (STATE_ARG_LIST_DONE, ep2)"
      "behind 41 [59] (lex ep2)" "func ep2 = Some \<lparr>fname = ?w, args = [t]\<rparr>" "variables ep2 = variables ep" "mt ep2 = mt ep"
    using run_string_args [of t "[59]" ep1 "\<lparr>fname = ?w, args = []\<rparr>" m x True] l1(2) assms(2) by (auto simp: ep1_def)
  let ?p = "(mt ep)\<lparr>out := out (mt ep) @ t\<rparr>"
  have ev: "evalFunction x ep2 = Inr (True, ep2\<lparr>mt := ?p\<rparr>)"
    using ep2(3,5) assms(3,4) by (simp add: evalFunction_def websAspWrite_def websWriteBlock_def)
  obtain l2 where l2: "ejLexGetToken (isInteger x) STATE_STMT (lex ep2) = (TOK_RPAREN, l2)" "at_text [59] l2"
    using get_held [OF ep2(2), of "isInteger x" STATE_STMT] by auto
  obtain l3 where l3: "ejLexGetToken (isInteger x) STATE_STMT l2 = (TOK_SEMI, l3)" "at_text [] l3"
    using get_end [OF l2(2), of "isInteger x" STATE_STMT] by auto
  obtain l4 where l4: "ejLexGetToken (isInteger x) STATE_STMT l3 = (TOK_EOF, l4)" "script l4 = []" using get_eof [OF l3(2)] .
  define ep3 where "ep3 = ep2\<lparr>mt := ?p, result := MTretValue x ?p, func := func ep, lex := ejLexPutbackToken TOK_EOF (c_str (token l4)) l4\<rparr>"
  have nl: "run (m + 6) x (Newlines STATE_STMT) e = Inr (TOK_EOF, e\<lparr>lex := ejLexPutbackToken TOK_EOF (c_str (token l4)) l4\<rparr>)" if "lex e = l3" for e
    by (simp add: run_more call_body_def ejRemoveNewlines_def andthen_def getTok_def l4(1) that putback_def update_def ret_def)
  have fin: "finish (run (m + 6) x) x True STATE_STMT e = Inr (STATE_STMT_DONE, e\<lparr>lex := ejLexPutbackToken TOK_EOF (c_str (token l4)) l4\<rparr>)"
    if "lex e = l2" for e
    using nl [of "e\<lparr>lex := l3\<rparr>"] by (simp add: finish_def andthen_def getTok_def that l3(1) ret_def stmt_status_def)
  have "stmt_function (run (m + 6) x) x STATE_STMT True (ep\<lparr>lex := l0\<rparr>) = Inr (STATE_STMT_DONE, ep3)"
    using ep2(1,5) ev l0(3) l1(1) l2(1) fin
    by (simp add: stmt_function_def need_def andthen_def getTok_def inspect_def update_def ep1_def ep3_def)
  then have "parseStmt (run (m + 6) x) x STATE_STMT True ep = Inr (STATE_STMT_DONE, ep3)"
    by (simp add: parseStmt_def andthen_def getTok_eq [OF l0(1)])
  then have "run (m + 8) x (Parse STATE_STMT True) ep = Inr (STATE_STMT_DONE, ep3)"
    by (simp add: run_more call_body_def parse_def andthen_def inspect_def ret_def)
  then show ?thesis by (rule that) (simp_all add: ep3_def ejLexPutbackToken_def l4(2) ep2(4))
qed

text \<open>The end of the script, put back, ends the evaluation.\<close>

lemma run_end:
  assumes "putBackTokenId (lex ep) = TOK_EOF"
  shows "\<exists>l. run (m + 2) x (Parse STATE_STMT True) ep = Inr (STATE_EOF, ep\<lparr>lex := l\<rparr>) \<and> script l = script (lex ep)"
proof -
  obtain l where l: "ejLexGetToken (isInteger x) STATE_STMT (lex ep) = (TOK_EOF, l)" "script l = script (lex ep)"
    using assms by (simp add: ejLexGetToken_def getLexicalToken_def Let_def)
  then show ?thesis
    by (intro exI [of _ l]) (simp add: call_body_def parse_def parseStmt_def andthen_def getTok_eq [OF l(1)] stmt_status_def ret_def inspect_def)
qed

lemma eval_write:
  assumes "0 \<notin> set t" "\<not> down (mt ep)"
    and "fn_table x (map of_char ''write'') = Some websAspWrite" "\<not> isInteger x (map of_char ''write'')"
  shows "\<exists>r ep'. ejEval (m + 8) x (write_call t) ep = Inr (Inr r, ep') \<and>
    mt ep' = (mt ep)\<lparr>out := out (mt ep) @ t\<rparr> \<and> variables ep' = variables ep"
proof -
  define ep0 where "ep0 = ep\<lparr>result := [], lex := ejLexOpenScript (write_call t) (lex ep)\<rparr>"
  have "at_text (write_call t) (lex ep0)" "\<not> down (mt ep0)" using assms(2) by (simp_all add: ep0_def at_text_def ejLexOpenScript_def)
  then obtain ep1 where e1: "run (m + 8) x (Parse STATE_STMT True) ep0 = Inr (STATE_STMT_DONE, ep1)"
    "script (lex ep1) = []" "putBackTokenId (lex ep1) = TOK_EOF" "mt ep1 = (mt ep0)\<lparr>out := out (mt ep0) @ t\<rparr>" "variables ep1 = variables ep0"
    using run_write [OF _ assms(1) _ assms(3,4)] by blast
  obtain l where l: "run (m + 8) x (Parse STATE_STMT True) ep1 = Inr (STATE_EOF, ep1\<lparr>lex := l\<rparr>)" "script l = []"
    using run_end [OF e1(3), of "m + 6" x] e1(2) by (auto simp: add.commute [of m])
  define k where "k = m + 6"
  have "eval_loop (Suc (Suc k)) (m + 8) x None 0 ep0 = Inr (STATE_EOF, ep1\<lparr>lex := l\<rparr>)"
    using e1(1,2) l by (simp add: andthen_def inspect_def ret_def)
  then have "eval_loop (m + 8) (m + 8) x None 0 ep0 = Inr (STATE_EOF, ep1\<lparr>lex := l\<rparr>)" by (simp add: k_def add.commute)
  then show ?thesis using e1(4,5)
    by (simp add: ejEval_def andthen_def setResult_def update_def inspect_def ret_def ep0_def)
qed

lemma unquote_no_newline: "13 \<notin> set t \<Longrightarrow> 10 \<notin> set t \<Longrightarrow> unquote False False t = t"
  by (induction t) (auto dest: hd_in_set)

lemma quote_byte_range: "c \<in> set (quote_byte b) \<Longrightarrow> 32 \<le> unat c"
proof -
  have "unat b div 64 < 8" using unat_byte [of b] by auto
  moreover have "unat (of_nat (48 + k) :: u8) = 48 + k" if "k < 8" for k using that by (simp add: unat_of_nat del: of_nat_add of_nat_numeral)
  ultimately have "\<forall>c\<in>set (octal b). 32 \<le> unat c" by (simp add: octal_def del: of_nat_add of_nat_numeral)
  then show "c \<in> set (quote_byte b) \<Longrightarrow> 32 \<le> unat c" by (auto simp: quote_byte_def plain_def split: if_splits)
qed

lemma write_call_part:
  assumes "free_of ''%>'' (concat (map quote_byte t))"
  shows "part_ok (Code (write_call t))" "unquote False False (skipWhite (write_call t)) = write_call t"
proof -
  let ?q = "concat (map quote_byte t)"
  have q: "gstrstr ?q [37, 62] = None" using assms by (simp add: free_of_def)
  have s: "gstrstr [59 :: u8] [37, 62] = None" "gstrstr [41 :: u8, 59] [37, 62] = None" by simp_all
  have w: "gstrstr (map of_char ''write('') [37, 62] = None" by simp
  have "gstrstr (?q @ 34 # [41, 59]) [37, 62] = None" using gstrstr_sep [OF q, of 34 "[41, 59]"] s by simp
  then have "gstrstr (map of_char ''write('' @ 34 # ?q @ 34 # [41, 59]) [37, 62] = None"
    using gstrstr_sep [OF w, of 34 "?q @ 34 # [41, 59]"] by simp
  then show "part_ok (Code (write_call t))"
    by (simp add: write_call_def free_of_def strtokcmp_def skipWhite_def gisspace_def tolower_def)
  have "13 \<notin> set ?q" "10 \<notin> set ?q" using quote_byte_range by fastforce+
  then have "unquote False False (write_call t) = write_call t" by (intro unquote_no_newline) (simp_all add: write_call_def)
  moreover have "skipWhite (write_call t) = write_call t" by (simp add: write_call_def skipWhite_def gisspace_def)
  ultimately show "unquote False False (skipWhite (write_call t)) = write_call t" by simp
qed

text \<open>
  C27: What a page writes reaches the browser byte for byte: a page that calls \<open>write\<close> with a quoted
  literal, between text without tags, gives the text before, the bytes of the literal and the text behind;
  variables are left as they were. Conditions: the literal has no zero byte, its quoted text does not
  hold the bracket \<open>%>\<close> that closes a script (the page is searched for it before the script is read),
  \<open>write\<close> is bound to the function of the server and is not taken for a number, and the connection
  stands and takes what is written.
\<close>

theorem page_write:
  assumes "plain_text a" "plain_text b" "0 \<notin> set t" "concat (map quote_byte t) = q" "free_of ''%>'' q"
    and "\<not> down (mt ep)" "fn_table x (map of_char ''write'') = Some websAspWrite" "\<not> isInteger x (map of_char ''write'')"
  shows "\<exists>ep'. asp_loop (n + 8) x lang_get (a @ map of_char ''<%write('' @ 34 # q @ 34 # map of_char '');%>'' @ b) ep = (Done, ep') \<and>
    out (mt ep') = out (mt ep) @ a @ t @ b \<and> variables ep' = variables ep"
proof -
  let ?c = "write_call t" and ?ep = "write_text a ep"
  have page: "a @ map of_char ''<%write('' @ 34 # q @ 34 # map of_char '');%>'' @ b = page_text [(a, Code ?c)] b"
    by (simp add: page_text_def write_call_def assms(4))
  have c: "part_ok (Code ?c)" "unquote False False (skipWhite ?c) = ?c" using write_call_part [of t] assms(4,5) by simp_all
  have d: "\<not> down (mt ?ep)" "out (mt ?ep) = out (mt ep) @ a" "variables ?ep = variables ep"
    using assms(6) by (auto simp: write_text_def websWriteBlock_def)
  obtain r ep1 where e: "ejEval (n + 8) x ?c ?ep = Inr (Inr r, ep1)" "mt ep1 = (mt ?ep)\<lparr>out := out (mt ?ep) @ t\<rparr>" "variables ep1 = variables ?ep"
    using eval_write [OF assms(3) d(1) assms(7,8)] by blast
  have ne: "?c \<noteq> []" by (simp add: write_call_def)
  have "asp_loop (n + 8) x lang_get (page_text [(a, Code ?c)] b) ep =
      (case startOrigParser (n + 8) x (?c @ map of_char ''%>'' @ b) ?ep of Inl r \<Rightarrow> r | Inr (rest, ep) \<Rightarrow> asp_loop (n + 8) x lang_get rest ep)"
    using next_tag_code [OF assms(1), of "?c @ map of_char ''%>'' @ b"] by (subst asp_loop.simps) (simp add: page_text_def)
  also have "\<dots> = (Done, write_text b ep1)"
    unfolding expand_code [OF c(1), of "n + 8" x b ?ep lang_get]
    using e(1) c(2) ne next_tag_none [OF assms(2)] by (simp add: asp_loop.simps [of _ _ _ b])
  finally show ?thesis unfolding page using e(2,3) d by (auto simp: write_text_def websWriteBlock_def)
qed

section \<open>Samples\<close>

definition asp_ext :: "unit page ext" where
  "asp_ext = snd (websAspOpen 0 \<lparr>isInteger = numeric, MT_Get_Param = (\<lambda>v m. None), MT_Set_Param = (\<lambda>v a m. (False, m)),
     MTretValue = (\<lambda>m. []), fn_table = Map.empty\<rparr>)"

definition asp_eng :: "unit page eng" where
  "asp_eng = ejOpenEngine None \<lparr>out = [], down = False, config = ()\<rparr>"

definition asp_lang :: "bytes \<Rightarrow> bytes option" where
  "asp_lang name = (if name = [116] then Some [72, 105] else None)"

theorem page_expansion_witness:
  "asp_loop 10 asp_ext asp_lang (page_text [([60, 97], Code (map of_char '' write(1);'')), ([98], Trans [116, 32] [99])] [100]) asp_eng =
     expand 10 asp_ext asp_lang [([60, 97], Code (map of_char '' write(1);'')), ([98], Trans [116, 32] [99])] [100] asp_eng \<and>
   (case expand 10 asp_ext asp_lang [([60, 97], Code (map of_char '' write(1);''))] [100] asp_eng of
      (e, ep) \<Rightarrow> e = Done \<and> out (mt ep) = map of_char ''<a1d'')"
proof (intro conjI page_expansion)
  show "page_ok [([60, 97], Code (map of_char '' write(1);'')), ([98], Trans [116, 32] [99])] [100]" by code_simp
  show "case expand 10 asp_ext asp_lang [([60, 97], Code (map of_char '' write(1);''))] [100] asp_eng of
      (e, ep) \<Rightarrow> e = Done \<and> out (mt ep) = map of_char ''<a1d''" by code_simp
qed (auto simp: asp_lang_def split: if_splits)

theorem long_tag_overflow_witness:
  "fst (asp_loop 1 asp_ext asp_lang ([] @ map of_char ''<!--#tr id='' @ 34 # replicate 32 120 @ 34 # map of_char ''-->'' @ []) asp_eng) = TagOverflow"
  by (rule long_tag_overflow) (simp_all add: plain_text_def free_of_def)

theorem page_write_witness:
  "\<exists>ep'. asp_loop (0 + 8) asp_ext asp_lang ([97] @ map of_char ''<%write('' @ 34 # map of_char ''b'' @ 34 # map of_char '');%>'' @ [99]) asp_eng = (Done, ep') \<and>
    out (mt ep') = [] @ [97] @ [98] @ [99] \<and> variables ep' = variables asp_eng"
proof -
  have "out (mt asp_eng) = []" "\<not> down (mt asp_eng)" by code_simp+
  moreover have "fn_table asp_ext (map of_char ''write'') = Some websAspWrite" by (simp add: asp_ext_def websAspOpen_def websAspDefine_def Let_def)
  moreover have "\<not> isInteger asp_ext (map of_char ''write'')" by code_simp
  ultimately show ?thesis
    using page_write [of "[97]" "[99]" "[98]" "map of_char ''b''" asp_eng asp_ext 0 asp_lang]
    by (simp add: plain_text_def free_of_def quote_byte_def plain_def)
qed

end
