(* ===== verification/Sock.thy ===== *)
theory Sock
  imports Ringq
begin

text \<open>
  The sockets of the web server, \<open>apps/WebServer/sock.c\<close> and \<open>sockGen.c\<close>: buffered reading, lines,
  buffered writing and flushing, for stream sockets and the build of \<open>LINUX/Makefile\<close> (\<open>UEMF\<close> and \<open>WEBS\<close>).

  A socket has three ring queues of theory \<open>Ringq\<close> and the flags of its structure. The kernel is the
  environment: \<open>rx\<close> is what it has for \<open>recv\<close>, in order, and \<open>sends\<close> what it answers to \<open>send\<close>; \<open>tx\<close>
  collects the bytes it has taken. A call for which the kernel has no answer yet has no result, as has a
  loop that does not end. The handle of a socket is taken to be valid; \<open>socketAlloc\<close> gives the structure behind a
  new handle, which theory \<open>HAlloc\<close> finds.
\<close>

section \<open>The kernel's side\<close>

text \<open>
  \<open>recv\<close> on a stream: bytes that have arrived are given in pieces of the size asked for, the end of
  the stream is seen by every later call, and an error by one.
\<close>

datatype arrival = Data bytes | Closed | Failure int

fun recv :: "nat \<Rightarrow> arrival list \<Rightarrow> ((int + bytes) \<times> arrival list) option" where
  "recv n [] = None"
| "recv n (Data d # as) =
     (if d = [] then recv n as
      else Some (Inr (take n d), if n < length d then Data (drop n d) # as else as))"
| "recv n (Closed # as) = Some (Inr [], Closed # as)"
| "recv n (Failure e # as) = Some (Inl e, as)"

text \<open>\<open>send\<close>: at most so many bytes are taken, or an error.\<close>

datatype answer = Accept nat | Refuse int

abbreviation (input) EINTR :: int where "EINTR \<equiv> 4"
abbreviation (input) EWOULDBLOCK :: int where "EWOULDBLOCK \<equiv> 11"
abbreviation (input) ECONNRESET :: int where "ECONNRESET \<equiv> 104"

section \<open>Sockets\<close>

abbreviation (input) SOCKET_BUFSIZ :: nat where "SOCKET_BUFSIZ \<equiv> 1024"
abbreviation (input) SOCKET_WRITABLE :: int where "SOCKET_WRITABLE \<equiv> 4"

record socket_t =
  inBuf :: ringq_t
  outBuf :: ringq_t
  lineBuf :: ringq_t
  SOCKET_EOF :: bool
  SOCKET_CONNRESET :: bool
  SOCKET_BLOCK :: bool
  SOCKET_FLUSHING :: bool
  handlerMask :: int
  saveMask :: int
  rx :: "arrival list"
  sends :: "answer list"
  tx :: bytes

text \<open>The buffers of a new socket; a buffer for which there is no memory is left as the cleared structure has it.\<close>

definition opened :: "balloc_fun \<Rightarrow> nat \<Rightarrow> int \<Rightarrow> ringq_t" where
  "opened balloc initSize maxsz =
     (case snd (ringqOpen balloc initSize maxsz) of
        None \<Rightarrow> \<lparr>buf = [], servp = 0, endp = 0, buflen = 0, maxsize = 0, increment = 0\<rparr>
      | Some rq \<Rightarrow> rq)"

definition socketAlloc :: "balloc_fun \<Rightarrow> bool \<Rightarrow> arrival list \<Rightarrow> answer list \<Rightarrow> socket_t" where
  "socketAlloc balloc block arrivals answers =
     \<lparr>inBuf = opened balloc SOCKET_BUFSIZ (int SOCKET_BUFSIZ),
      outBuf = opened balloc (SOCKET_BUFSIZ + 1) (int (SOCKET_BUFSIZ + 1)),
      lineBuf = opened balloc SOCKET_BUFSIZ (- 1),
      SOCKET_EOF = False, SOCKET_CONNRESET = False, SOCKET_BLOCK = block, SOCKET_FLUSHING = False,
      handlerMask = 0, saveMask = - 1, rx = arrivals, sends = answers, tx = []\<rparr>"

definition reopened :: "balloc_fun \<Rightarrow> int \<Rightarrow> ringq_t \<Rightarrow> ringq_t" where
  "reopened balloc n rq =
     (if n \<ge> 0 then
        (case snd (ringqOpen balloc (nat (n + 1)) (n + 1)) of None \<Rightarrow> ringqClose rq | Some q \<Rightarrow> q)
      else rq)"

definition socketSetBufferSize :: "balloc_fun \<Rightarrow> int \<Rightarrow> int \<Rightarrow> int \<Rightarrow> socket_t \<Rightarrow> socket_t" where
  "socketSetBufferSize balloc inp ln outp sp =
     sp\<lparr>inBuf := reopened balloc inp (inBuf sp), lineBuf := reopened balloc ln (lineBuf sp),
        outBuf := reopened balloc outp (outBuf sp)\<rparr>"

definition socketEof :: "socket_t \<Rightarrow> bool" where
  "socketEof sp = SOCKET_EOF sp"

definition socketInputBuffered :: "socket_t \<Rightarrow> int" where
  "socketInputBuffered sp = (if socketEof sp then - 1 else ringqLen (lineBuf sp) + ringqLen (inBuf sp))"

definition socketCanWrite :: "socket_t \<Rightarrow> int" where
  "socketCanWrite sp = int (buflen (outBuf sp)) - ringqLen (outBuf sp) - 1"

definition socketRegisterInterest :: "int \<Rightarrow> socket_t \<Rightarrow> socket_t" where
  "socketRegisterInterest m sp = sp\<lparr>handlerMask := m\<rparr>"

definition socketSetBlock :: "bool \<Rightarrow> socket_t \<Rightarrow> bool \<times> socket_t" where
  "socketSetBlock on sp = (SOCKET_BLOCK sp, sp\<lparr>SOCKET_BLOCK := on\<rparr>)"

section \<open>Reading\<close>

text \<open>The number of bytes with the error code, and the bytes.\<close>

definition socketGetInput :: "nat \<Rightarrow> socket_t \<Rightarrow> ((int \<times> int) \<times> bytes \<times> socket_t) option" where
  "socketGetInput toRead sp =
     (if SOCKET_EOF sp then Some ((0, 0), [], sp)
      else case recv toRead (rx sp) of
             None \<Rightarrow> None
           | Some (Inl e, as) \<Rightarrow>
               if e = ECONNRESET then Some ((0, e), [], sp\<lparr>rx := as, SOCKET_CONNRESET := True\<rparr>)
               else Some ((- 1, e), [], sp\<lparr>rx := as\<rparr>)
           | Some (Inr d, as) \<Rightarrow> Some ((int (length d), 0), d, sp\<lparr>rx := as\<rparr>))"

text \<open>
  Taking \<open>len\<close> bytes off the buffer: \<open>memcpy\<close> reads them in a line from \<open>servp\<close>.
\<close>

definition take_input :: "nat \<Rightarrow> socket_t \<Rightarrow> bytes \<times> socket_t" where
  "take_input n sp =
     (let rq = inBuf sp
      in (take n (drop (servp rq) (buf rq)), sp\<lparr>inBuf := snd (ringqGetBlkAdj rq n)\<rparr>))"

text \<open>The bytes that have arrived, written at \<open>endp\<close>.\<close>

definition store_input :: "bytes \<Rightarrow> socket_t \<Rightarrow> socket_t" where
  "store_input d sp =
     (let rq = inBuf sp
      in sp\<lparr>inBuf := snd (ringqPutBlkAdj (rq\<lparr>buf := memcpy (buf rq) (endp rq) d\<rparr>) (length d))\<rparr>)"

text \<open>
  The loop of \<open>socketRead\<close>: \<open>out\<close> is what has been copied to the caller, \<open>sz\<close> what is left of
  \<open>bufsize\<close>. The result is the value returned with the bytes copied.
\<close>

partial_function (option) read_loop :: "bytes \<Rightarrow> nat \<Rightarrow> socket_t \<Rightarrow> (int \<times> bytes \<times> socket_t) option" where
  "read_loop out sz sp =
     (if sz = 0 then Some (int (length out), out, sp)
      else
        let len = min (ringqLen (inBuf sp)) (int sz) in
        if len \<le> 0 then
          if SOCKET_BLOCK sp \<and> out \<noteq> [] then Some (int (length out), out, sp)
          else
            let sp = sp\<lparr>inBuf := ringqFlush (inBuf sp)\<rparr>;
                room = ringqPutBlkMax (inBuf sp)
            in case socketGetInput (nat room) sp of
                 None \<Rightarrow> None
               | Some ((n, errCode), d, sp) \<Rightarrow>
                   if n < 0 then
                     if errCode = EWOULDBLOCK then
                       if SOCKET_BLOCK sp \<and> out = [] then read_loop out sz sp
                       else Some (int (length out), out, sp)
                     else Some (- 1, out, sp)
                   else if n = 0 then
                     Some (int (length out), out, if out = [] then sp\<lparr>SOCKET_EOF := True\<rparr> else sp)
                   else
                     let m = nat (min n (int sz));
                         (c, sp) = take_input m (store_input d sp)
                     in read_loop (out @ c) (sz - m) sp
        else
          let m = nat len; (c, sp) = take_input m sp in read_loop (out @ c) (sz - m) sp)"

definition socketRead :: "nat \<Rightarrow> socket_t \<Rightarrow> (int \<times> bytes \<times> socket_t) option" where
  "socketRead bufsize sp = (if SOCKET_EOF sp then Some (0, [], sp) else read_loop [] bufsize sp)"

text \<open>
  \<open>socketGets\<close>: the value returned, the line as a block of memory, and the socket. That a byte
  does not fit in the line buffer is not noticed.
\<close>

partial_function (option) socketGets :: "balloc_fun \<Rightarrow> socket_t \<Rightarrow> (int \<times> bytes option \<times> socket_t) option" where
  "socketGets balloc sp =
     (case socketRead 1 sp of
        None \<Rightarrow> None
      | Some (rc, c, sp) \<Rightarrow>
          if rc < 0 then Some (rc, None, sp)
          else if rc = 0 \<and> \<not> (ringqLen (lineBuf sp) > 0 \<and> SOCKET_EOF sp) then Some (- 1, None, sp)
          else
            let ch = (if rc = 0 then 10 else hd c); lq = lineBuf sp in
            if ch = 10 then
              let len = ringqLen lq;
                  text = (if len > 0 \<and> balloc (nat len + 1) \<noteq> None
                          then Some (take (nat len) (drop (servp lq) (buf lq))) else None)
              in Some (len, text, sp\<lparr>lineBuf := ringqFlush lq\<rparr>)
            else if ch = 13 then socketGets balloc sp
            else
              case ringqPutc balloc lq ch of
                None \<Rightarrow> None
              | Some (_, lq) \<Rightarrow> socketGets balloc (sp\<lparr>lineBuf := lq\<rparr>))"

section \<open>Writing\<close>

definition socketDoOutput :: "bytes \<Rightarrow> socket_t \<Rightarrow> ((int \<times> int) \<times> socket_t) option" where
  "socketDoOutput data sp =
     (case sends sp of
        [] \<Rightarrow> None
      | Refuse e # as \<Rightarrow> Some ((- 1, e), sp\<lparr>sends := as\<rparr>)
      | Accept n # as \<Rightarrow>
          let b = min n (length data) in
          if b = 0 \<and> b \<noteq> length data then Some ((- 1, EWOULDBLOCK), sp\<lparr>sends := as\<rparr>)
          else Some ((int b, 0), sp\<lparr>sends := as, tx := tx sp @ take b data\<rparr>))"

lemma socketDoOutput_sends: "socketDoOutput data sp = Some (r, sp') \<Longrightarrow> length (sends sp') < length (sends sp)"
  by (auto simp: socketDoOutput_def Let_def split: list.splits answer.splits if_splits)

text \<open>The loop of \<open>socketFlush\<close> with the part behind it: the value returned.\<close>

definition flush_done :: "socket_t \<Rightarrow> socket_t" where
  "flush_done sp =
     (let sp = (if ringqLen (outBuf sp) = 0 then sp\<lparr>outBuf := ringqFlush (outBuf sp)\<rparr> else sp);
          sp = (if saveMask sp \<ge> 0 then (socketRegisterInterest (saveMask sp) sp)\<lparr>saveMask := - 1\<rparr> else sp)
      in sp\<lparr>SOCKET_FLUSHING := False\<rparr>)"

function flush_loop :: "socket_t \<Rightarrow> (int \<times> socket_t) option" where
  "flush_loop sp =
     (if ringqLen (outBuf sp) > 0 then
        let rq = outBuf sp; len = ringqGetBlkMax rq in
        case socketDoOutput (take (nat len) (drop (servp rq) (buf rq))) sp of
          None \<Rightarrow> None
        | Some ((bytesWritten, errCode), sp) \<Rightarrow>
            if bytesWritten < 0 then
              if errCode = EINTR then flush_loop sp
              else if errCode = EWOULDBLOCK then
                Some (0, if saveMask sp < 0
                         then socketRegisterInterest (handlerMask sp OR SOCKET_WRITABLE) (sp\<lparr>saveMask := handlerMask sp\<rparr>)
                         else sp)
              else Some (- 1, sp)
            else flush_loop (sp\<lparr>outBuf := snd (ringqGetBlkAdj (outBuf sp) (nat bytesWritten))\<rparr>)
      else Some (0, flush_done sp))"
  by pat_completeness auto
termination
  by (relation "measure (length \<circ> sends)") (auto dest: socketDoOutput_sends)

declare flush_loop.simps [simp del]

definition socketFlush :: "socket_t \<Rightarrow> (int \<times> socket_t) option" where
  "socketFlush sp = flush_loop (if SOCKET_BLOCK sp then sp else sp\<lparr>SOCKET_FLUSHING := True\<rparr>)"

text \<open>The loop of \<open>socketWrite\<close>: \<open>written\<close> counts the bytes taken from the caller's buffer.\<close>

partial_function (option) write_loop :: "balloc_fun \<Rightarrow> nat \<Rightarrow> bytes \<Rightarrow> socket_t \<Rightarrow> (int \<times> socket_t) option" where
  "write_loop balloc written data sp =
     (if data = [] then Some (int written, sp)
      else
        let room = ringqPutBlkMax (outBuf sp) in
        if room = 0 then
          case socketFlush sp of
            None \<Rightarrow> None
          | Some (rc, sp) \<Rightarrow>
              if rc < 0 then Some (- 1, sp)
              else if ringqPutBlkMax (outBuf sp) = 0 then
                if SOCKET_BLOCK sp then write_loop balloc written data sp else Some (int written, sp)
              else write_loop balloc written data sp
        else
          let n = nat (min room (int (length data))) in
          case ringqPutBlk balloc (outBuf sp) (take n data) of
            None \<Rightarrow> None
          | Some (_, rq) \<Rightarrow> write_loop balloc (written + n) (drop n data) (sp\<lparr>outBuf := rq\<rparr>))"

definition socketWrite :: "balloc_fun \<Rightarrow> bytes \<Rightarrow> socket_t \<Rightarrow> (int \<times> socket_t) option" where
  "socketWrite balloc data sp = write_loop balloc 0 data sp"

definition socketWriteString :: "balloc_fun \<Rightarrow> bytes \<Rightarrow> socket_t \<Rightarrow> (int \<times> socket_t) option" where
  "socketWriteString balloc str sp = socketWrite balloc (cstr str) sp"

section \<open>Reading gives the stream\<close>

text \<open>What \<open>recv\<close> can give before the stream ends, fails or has nothing more, and what comes then.\<close>

fun ready :: "arrival list \<Rightarrow> bytes" where
  "ready (Data d # as) = d @ ready as"
| "ready as = []"

fun after :: "arrival list \<Rightarrow> arrival list" where
  "after (Data d # as) = after as"
| "after as = as"

lemma recv_ready:
  "ready as \<noteq> [] \<Longrightarrow> 0 < n \<Longrightarrow> \<exists>d as'. recv n as = Some (Inr d, as') \<and> d \<noteq> [] \<and> length d \<le> n \<and>
     ready as = d @ ready as' \<and> after as' = after as"
  by (induction as rule: ready.induct) auto

lemma recv_after: "ready as = [] \<Longrightarrow> recv n as = recv n (after as)"
  by (induction as rule: ready.induct) auto

definition in_ok :: "ringq_t \<Rightarrow> bool" where
  "in_ok rq \<longleftrightarrow> ringq_inv rq \<and> servp rq \<le> endp rq \<and> 1 < buflen rq"

definition pending :: "socket_t \<Rightarrow> bytes" where
  "pending sp = contents (inBuf sp) @ ready (rx sp)"

lemma contents_len: "in_ok rq \<Longrightarrow> length (contents rq) = endp rq - servp rq" "in_ok rq \<Longrightarrow> ringqLen rq = int (length (contents rq))"
  by (auto simp: in_ok_def contents_def ringq_inv_def ringqLen_def)

lemma nat_min_int: "nat (min (int a) (int b)) = min a b"
  by (simp add: min_def)

lemma read_loop_0: "read_loop out 0 sp = Some (int (length out), out, sp)"
  by (subst read_loop.simps) simp

lemma in_ok_flush: "in_ok rq \<Longrightarrow> in_ok (ringqFlush rq)"
  by (auto simp: in_ok_def ringq_inv_def ringqFlush_def)

lemma flush_room: "in_ok rq \<Longrightarrow> ringqPutBlkMax (ringqFlush rq) = int (buflen rq - 1)"
  by (auto simp: in_ok_def ringqPutBlkMax_def ringqFlush_def RINGQ_LEN_def Let_def of_nat_diff)

lemma take_input:
  assumes "in_ok (inBuf sp)" "n \<le> length (contents (inBuf sp))"
  obtains q where "take_input n sp = (take n (contents (inBuf sp)), sp\<lparr>inBuf := q\<rparr>)" "in_ok q"
    "contents q = drop n (contents (inBuf sp))"
proof
  let ?rq = "inBuf sp" and ?q = "(inBuf sp)\<lparr>servp := servp (inBuf sp) + n\<rparr>"
  have le: "servp ?rq + n \<le> endp ?rq" "endp ?rq < buflen ?rq" "length (buf ?rq) = buflen ?rq"
    using assms contents_len(1) [OF assms(1)] by (auto simp: in_ok_def ringq_inv_def)
  show "take_input n sp = (take n (contents ?rq), sp\<lparr>inBuf := ?q\<rparr>)"
    using le by (auto simp: take_input_def ringqGetBlkAdj_def contents_def Let_def)
  show "in_ok ?q" using assms(1) le by (auto simp: in_ok_def ringq_inv_def)
  show "contents ?q = drop n (contents ?rq)" using le by (simp add: contents_def drop_take add.commute)
qed

lemma store_input:
  assumes "in_ok rq" "length d \<le> buflen rq - 1"
  obtains q where "store_input d (sp\<lparr>inBuf := ringqFlush rq\<rparr>) = sp\<lparr>inBuf := q\<rparr>" "in_ok q" "contents q = d"
proof
  let ?q = "(ringqFlush rq)\<lparr>buf := d @ drop (length d) (buf (ringqFlush rq)), endp := length d\<rparr>"
  have le: "length d < buflen rq" "length (buf rq) = buflen rq" using assms by (auto simp: in_ok_def ringq_inv_def)
  show "store_input d (sp\<lparr>inBuf := ringqFlush rq\<rparr>) = sp\<lparr>inBuf := ?q\<rparr>"
    using le by (simp add: store_input_def ringqPutBlkAdj_def ringqFlush_def memcpy_def Let_def)
  show "in_ok ?q" using assms(1) le by (auto simp: in_ok_def ringq_inv_def ringqFlush_def)
  show "contents ?q = d" by (simp add: contents_def ringqFlush_def)
qed

text \<open>A round of the loop when bytes are at hand, in the buffer or in the kernel.\<close>

lemma read_step:
  assumes "in_ok (inBuf sp)" "\<not> SOCKET_BLOCK sp" "\<not> SOCKET_EOF sp" "0 < sz" "pending sp \<noteq> []"
  obtains m q as where "0 < m" "m \<le> sz" "m \<le> length (pending sp)" "in_ok q"
    "read_loop out sz sp = read_loop (out @ take m (pending sp)) (sz - m) (sp\<lparr>inBuf := q, rx := as\<rparr>)"
    "contents q @ ready as = drop m (pending sp)" "after as = after (rx sp)"
proof (cases "contents (inBuf sp) = []")
  case False
  let ?m = "min (length (contents (inBuf sp))) sz"
  obtain q where q: "take_input ?m sp = (take ?m (contents (inBuf sp)), sp\<lparr>inBuf := q\<rparr>)" "in_ok q"
    "contents q = drop ?m (contents (inBuf sp))"
    using take_input [OF assms(1), of ?m] by auto
  have m: "nat (min (ringqLen (inBuf sp)) (int sz)) = ?m" "\<not> min (ringqLen (inBuf sp)) (int sz) \<le> 0"
    using False assms(4) contents_len(2) [OF assms(1)] by (auto simp: min_def)
  have "read_loop out sz sp = read_loop (out @ take ?m (contents (inBuf sp))) (sz - ?m) (sp\<lparr>inBuf := q\<rparr>)"
    using assms(4) m q(1) by (subst read_loop.simps) (simp add: Let_def)
  then show ?thesis
    using that [of ?m q "rx sp"] q False assms(4) by (simp add: pending_def)
next
  case True
  let ?rq = "ringqFlush (inBuf sp)"
  have r: "ready (rx sp) \<noteq> []" using assms(5) True by (simp add: pending_def)
  have b: "0 < buflen (inBuf sp) - 1" using assms(1) by (auto simp: in_ok_def)
  obtain d as where d: "recv (buflen (inBuf sp) - 1) (rx sp) = Some (Inr d, as)" "d \<noteq> []"
    "length d \<le> buflen (inBuf sp) - 1" "ready (rx sp) = d @ ready as" "after as = after (rx sp)"
    using recv_ready [OF r b] by blast
  obtain q where q: "store_input d (sp\<lparr>rx := as, inBuf := ?rq\<rparr>) = sp\<lparr>rx := as, inBuf := q\<rparr>" "in_ok q" "contents q = d"
    using store_input [OF assms(1) d(3), of "sp\<lparr>rx := as\<rparr>"] by auto
  let ?m = "min (length d) sz"
  obtain q' where q': "take_input ?m (sp\<lparr>rx := as, inBuf := q\<rparr>) = (take ?m d, sp\<lparr>rx := as, inBuf := q'\<rparr>)" "in_ok q'"
    "contents q' = drop ?m d"
    using take_input [of "sp\<lparr>rx := as, inBuf := q\<rparr>" ?m] q by auto
  have l: "ringqLen (inBuf sp) = 0" using True contents_len(2) [OF assms(1)] by simp
  have g: "socketGetInput (nat (ringqPutBlkMax ?rq)) (sp\<lparr>inBuf := ?rq\<rparr>) =
      Some ((int (length d), 0), d, sp\<lparr>inBuf := ?rq, rx := as\<rparr>)"
    using assms(3) d(1) by (simp add: socketGetInput_def flush_room [OF assms(1)])
  have sw: "sp\<lparr>inBuf := x, rx := as\<rparr> = sp\<lparr>rx := as, inBuf := x\<rparr>" for x by simp
  have "read_loop out sz sp = read_loop (out @ take ?m d) (sz - ?m) (sp\<lparr>inBuf := q', rx := as\<rparr>)"
    using assms(2,4) l g q(1) q'(1) d(2) by (subst read_loop.simps) (simp add: Let_def sw nat_min_int)
  moreover have "take ?m d = take ?m (pending sp)" "contents q' @ ready as = drop ?m (pending sp)"
    using True d(4) q'(3) by (simp_all add: pending_def)
  moreover have "0 < ?m" "?m \<le> length (pending sp)" using d(2,4) assms(4) True by (auto simp: pending_def)
  ultimately show ?thesis using that [of ?m q' as] q'(2) d(5) by simp
qed

lemma read_enough:
  assumes "in_ok (inBuf sp)" "\<not> SOCKET_BLOCK sp" "\<not> SOCKET_EOF sp" "sz \<le> length (pending sp)"
  obtains q as where "read_loop out sz sp = Some (int (length out + sz), out @ take sz (pending sp), sp\<lparr>inBuf := q, rx := as\<rparr>)"
    "in_ok q" "contents q @ ready as = drop sz (pending sp)" "after as = after (rx sp)"
  using assms
proof (induction sz arbitrary: out sp thesis rule: less_induct)
  case (less sz)
  show ?case
  proof (cases "sz = 0")
    case True
    then show ?thesis
      by (intro less.prems(1) [where q = "inBuf sp" and as = "rx sp"]) (use less.prems(2) in \<open>simp_all add: read_loop_0 pending_def\<close>)
  next
    case False
    then have "0 < sz" "pending sp \<noteq> []" using less.prems(5) by auto
    then obtain m q as where m: "0 < m" "m \<le> sz" "m \<le> length (pending sp)" "in_ok q"
      "read_loop out sz sp = read_loop (out @ take m (pending sp)) (sz - m) (sp\<lparr>inBuf := q, rx := as\<rparr>)"
      "contents q @ ready as = drop m (pending sp)" "after as = after (rx sp)"
      using read_step [OF less.prems(2-4), of sz out] by metis
    let ?s = "sp\<lparr>inBuf := q, rx := as\<rparr>"
    have p: "pending ?s = drop m (pending sp)" using m(6) by (simp add: pending_def)
    have t: "take m (pending sp) @ take (sz - m) (drop m (pending sp)) = take sz (pending sp)"
      using m(2) by (metis le_add_diff_inverse take_add)
    have "sz - m < sz" "sz - m \<le> length (pending ?s)" using m(1) False less.prems(5) p by auto
    then obtain q' as' where "read_loop (out @ take m (pending sp)) (sz - m) ?s =
        Some (int (length (out @ take m (pending sp)) + (sz - m)), (out @ take m (pending sp)) @ take (sz - m) (pending ?s), ?s\<lparr>inBuf := q', rx := as'\<rparr>)"
      "in_ok q'" "contents q' @ ready as' = drop (sz - m) (pending ?s)" "after as' = after as"
      using less.IH [where y = "sz - m" and sp = ?s and out = "out @ take m (pending sp)"] m(4) less.prems(3,4) by auto
    then show ?thesis
      by (intro less.prems(1) [where q = q' and as = as']) (use m p t in \<open>simp_all add: of_nat_diff\<close>)
  qed
qed

text \<open>How a call ends that asks for more than there is: the bytes there are, or an error.\<close>

definition ended :: "bytes \<Rightarrow> socket_t \<Rightarrow> (int \<times> bytes \<times> socket_t) option" where
  "ended out sp =
     (case rx sp of
        Closed # _ \<Rightarrow> Some (int (length out), out, sp\<lparr>SOCKET_EOF := (out = [])\<rparr>)
      | Failure e # as \<Rightarrow>
          if e = EWOULDBLOCK then Some (int (length out), out, sp\<lparr>rx := as\<rparr>)
          else if e = ECONNRESET then
            Some (int (length out), out, sp\<lparr>rx := as, SOCKET_CONNRESET := True, SOCKET_EOF := (out = [])\<rparr>)
          else Some (- 1, out, sp\<lparr>rx := as\<rparr>)
      | _ \<Rightarrow> None)"

lemma after_forms: "after as = [] \<or> (\<exists>as'. after as = Closed # as') \<or> (\<exists>e as'. after as = Failure e # as')"
  by (induction as rule: after.induct) auto

lemma read_end:
  assumes "in_ok (inBuf sp)" "\<not> SOCKET_BLOCK sp" "\<not> SOCKET_EOF sp" "0 < sz" "pending sp = []"
  shows "read_loop out sz sp = ended out (sp\<lparr>inBuf := ringqFlush (inBuf sp), rx := after (rx sp)\<rparr>)"
proof -
  have l: "ringqLen (inBuf sp) = 0" "ready (rx sp) = []" using assms(5) contents_len(2) [OF assms(1)] by (auto simp: pending_def)
  have "read_loop out sz sp =
      (case socketGetInput (buflen (inBuf sp) - 1) (sp\<lparr>inBuf := ringqFlush (inBuf sp)\<rparr>) of
         None \<Rightarrow> None
       | Some ((n, e), d, sp) \<Rightarrow>
           if n < 0 then if e = EWOULDBLOCK then if SOCKET_BLOCK sp \<and> out = [] then read_loop out sz sp else Some (int (length out), out, sp)
                         else Some (- 1, out, sp)
           else if n = 0 then Some (int (length out), out, if out = [] then sp\<lparr>SOCKET_EOF := True\<rparr> else sp)
           else let m = nat (min n (int sz)); (c, sp) = take_input m (store_input d sp) in read_loop (out @ c) (sz - m) sp)"
    using assms(2,4) l(1) flush_room [OF assms(1)] by (subst read_loop.simps) (simp add: Let_def)
  moreover have "sp\<lparr>SOCKET_EOF := False\<rparr> = sp" using assms(3) by simp
  ultimately show ?thesis
    using assms(2,3) after_forms [of "rx sp"]
    by (elim disjE exE) (simp_all add: socketGetInput_def recv_after [OF l(2)] ended_def)
qed

lemma read_short:
  assumes "in_ok (inBuf sp)" "\<not> SOCKET_BLOCK sp" "\<not> SOCKET_EOF sp" "length (pending sp) < sz"
  obtains q where "read_loop out sz sp = ended (out @ pending sp) (sp\<lparr>inBuf := q, rx := after (rx sp)\<rparr>)"
    "in_ok q" "contents q = []"
  using assms
proof (induction sz arbitrary: out sp thesis rule: less_induct)
  case (less sz)
  show ?case
  proof (cases "pending sp = []")
    case True
    then show ?thesis
      by (intro less.prems(1) [where q = "ringqFlush (inBuf sp)"])
        (use less.prems read_end [OF less.prems(2-4)] in \<open>simp_all add: in_ok_flush\<close>)
  next
    case False
    moreover have "0 < sz" using less.prems(5) by simp
    ultimately obtain m q as where m: "0 < m" "m \<le> sz" "m \<le> length (pending sp)" "in_ok q"
      "read_loop out sz sp = read_loop (out @ take m (pending sp)) (sz - m) (sp\<lparr>inBuf := q, rx := as\<rparr>)"
      "contents q @ ready as = drop m (pending sp)" "after as = after (rx sp)"
      using read_step [OF less.prems(2-4), of sz out] by metis
    let ?s = "sp\<lparr>inBuf := q, rx := as\<rparr>"
    have p: "pending ?s = drop m (pending sp)" using m(6) by (simp add: pending_def)
    have "sz - m < sz" "length (pending ?s) < sz - m" using m(1,3) less.prems(5) p by auto
    then obtain q' where "read_loop (out @ take m (pending sp)) (sz - m) ?s =
        ended ((out @ take m (pending sp)) @ pending ?s) (?s\<lparr>inBuf := q', rx := after as\<rparr>)" "in_ok q'" "contents q' = []"
      using less.IH [where y = "sz - m" and sp = ?s and out = "out @ take m (pending sp)"] m(4) less.prems(3,4) by auto
    then show ?thesis
      by (intro less.prems(1) [where q = q']) (use m p in simp_all)
  qed
qed

section \<open>Lines\<close>

text \<open>An allocator that has memory, as far as the lines need it.\<close>

definition memory :: "balloc_fun \<Rightarrow> bool" where
  "memory balloc \<longleftrightarrow> balloc_ok balloc \<and> (\<forall>n. balloc n \<noteq> None)"

lemma memory_plenty: "memory plenty"
  by (simp add: memory_def balloc_ok_plenty) (simp add: plenty_def)

definition line_ok :: "ringq_t \<Rightarrow> bool" where
  "line_ok lq \<longleftrightarrow> ringq_inv lq \<and> servp lq = 0 \<and> maxsize lq < 0"

lemma line_contents: "line_ok lq \<Longrightarrow> contents lq = take (endp lq) (buf lq)" "line_ok lq \<Longrightarrow> ringqLen lq = int (length (contents lq))"
  using length_contents(1) [of lq] by (auto simp: line_ok_def contents_def)

lemma line_flush: "line_ok lq \<Longrightarrow> line_ok (ringqFlush lq)"
  by (auto simp: line_ok_def ringq_inv_def ringqFlush_def)

lemma putc_line:
  assumes "memory balloc" "line_ok lq"
  obtains lq' where "ringqPutc balloc lq c = Some (0, lq')" "line_ok lq'" "contents lq' = contents lq @ [c]"
proof -
  have ok: "ringq_inv lq" "servp lq = 0" "maxsize lq < 0" "balloc_ok balloc" using assms by (auto simp: memory_def line_ok_def)
  have p: "line_ok (put_line q [c])" "contents (put_line q [c]) = contents q @ [c]"
    if "ringq_inv q" "0 < room q" "servp q = 0" "maxsize q < 0" for q
    using put_line [OF that(1), of "[c]"] that by (auto simp: ringq_inv_def line_ok_def)
  show ?thesis
  proof (cases "room lq = 0")
    case False
    then have "ringqPutc balloc lq c = Some (0, put_line lq [c])"
      using putBlkMax_room(3) [OF ok(1)] put_byte [OF ok(1)] by (simp add: ringqPutc_def Let_def)
    then show ?thesis using that p [OF ok(1) _ ok(2,3)] False by blast
  next
    case True
    have "can_grow balloc lq" using assms(1) ok(3) by (auto simp: can_grow_def memory_def)
    then obtain q where g: "ringqGrow balloc lq = Some (True, q)" "ringq_inv q" "contents q = contents lq"
      "maxsize q = maxsize lq" "servp q = 0" "0 < room q"
      using ringqGrow_correct [OF ok(1,4)] by auto
    then have "ringqPutc balloc lq c = Some (0, put_line q [c])"
      using True putBlkMax_room(3) [OF ok(1)] put_byte [OF g(2)] by (simp add: ringqPutc_def Let_def)
    then show ?thesis by (rule that) (use p [OF g(2,6,5)] g(3,4) ok(3) in simp_all)
  qed
qed

definition sock_ok :: "socket_t \<Rightarrow> bool" where
  "sock_ok sp \<longleftrightarrow> in_ok (inBuf sp) \<and> line_ok (lineBuf sp) \<and> \<not> SOCKET_BLOCK sp \<and> \<not> SOCKET_EOF sp"

text \<open>The socket after reading: only the buffers and what the kernel holds have changed.\<close>

definition reads :: "bytes \<Rightarrow> arrival list \<Rightarrow> bytes \<Rightarrow> socket_t \<Rightarrow> socket_t \<Rightarrow> bool" where
  "reads rest as partial sp sp' \<longleftrightarrow> sock_ok sp' \<and> pending sp' = rest \<and> after (rx sp') = as \<and> contents (lineBuf sp') = partial \<and>
     outBuf sp' = outBuf sp \<and> SOCKET_CONNRESET sp' = SOCKET_CONNRESET sp \<and> SOCKET_FLUSHING sp' = SOCKET_FLUSHING sp \<and>
     handlerMask sp' = handlerMask sp \<and> saveMask sp' = saveMask sp \<and> sends sp' = sends sp \<and> tx sp' = tx sp"

lemma read_byte:
  assumes "sock_ok sp" "pending sp = c # cs"
  obtains sp' where "socketRead 1 sp = Some (1, [c], sp')" "reads cs (after (rx sp)) (contents (lineBuf sp)) sp sp'"
    "lineBuf sp' = lineBuf sp"
proof -
  have ok: "in_ok (inBuf sp)" "\<not> SOCKET_BLOCK sp" "\<not> SOCKET_EOF sp" using assms(1) by (auto simp: sock_ok_def)
  have l: "1 \<le> length (pending sp)" using assms(2) by simp
  have "\<exists>q as. read_loop [] 1 sp = Some (1, [c], sp\<lparr>inBuf := q, rx := as\<rparr>) \<and> in_ok q \<and> contents q @ ready as = cs \<and> after as = after (rx sp)"
    by (rule read_enough [OF ok l, of "[]"]) (use assms(2) in auto)
  then obtain q as where r: "read_loop [] 1 sp = Some (1, [c], sp\<lparr>inBuf := q, rx := as\<rparr>)"
    "in_ok q" "contents q @ ready as = cs" "after as = after (rx sp)" by blast
  let ?s = "sp\<lparr>inBuf := q, rx := as\<rparr>"
  have "reads cs (after (rx sp)) (contents (lineBuf sp)) sp ?s"
    using r assms by (simp add: reads_def sock_ok_def pending_def)
  then show ?thesis using that [of ?s] r assms(2) ok(3) by (simp add: socketRead_def)
qed

lemma reads_trans:
  "reads r1 a1 p1 sp sp1 \<Longrightarrow> reads r2 a2 p2 sp1 sp2 \<Longrightarrow> reads r2 a2 p2 sp sp2"
  by (auto simp: reads_def)

lemma reads_put:
  assumes "reads r a p sp sp'" "line_ok lq"
  shows "reads r a (contents lq) sp (sp'\<lparr>lineBuf := lq\<rparr>)"
  using assms by (auto simp: reads_def sock_ok_def pending_def)

text \<open>One turn of \<open>socketGets\<close> when a byte is at hand.\<close>

lemma gets_newline:
  assumes "memory balloc" "sock_ok sp" "pending sp = 10 # ys"
  obtains sp' where "socketGets balloc sp = Some (int (length (contents (lineBuf sp))),
      if contents (lineBuf sp) = [] then None else Some (contents (lineBuf sp)), sp')"
    "reads ys (after (rx sp)) [] sp sp'"
proof -
  obtain s1 where r: "socketRead 1 sp = Some (1, [10], s1)" "reads ys (after (rx sp)) (contents (lineBuf sp)) sp s1" "lineBuf s1 = lineBuf sp"
    using read_byte [OF assms(2,3)] .
  have lo: "line_ok (lineBuf sp)" using assms(2) by (simp add: sock_ok_def)
  have "balloc n \<noteq> None" for n using assms(1) by (simp add: memory_def)
  moreover have "take (length (contents (lineBuf sp))) (drop (servp (lineBuf sp)) (buf (lineBuf sp))) = contents (lineBuf sp)"
    using lo line_contents(1) [OF lo] by (simp add: line_ok_def min_def)
  ultimately have "socketGets balloc sp = Some (int (length (contents (lineBuf sp))),
      if contents (lineBuf sp) = [] then None else Some (contents (lineBuf sp)), s1\<lparr>lineBuf := ringqFlush (lineBuf sp)\<rparr>)"
    using r(1,3) line_contents(2) [OF lo] by (subst socketGets.simps) (simp add: Let_def)
  then show ?thesis using that reads_put [OF r(2) line_flush [OF lo]] by simp
qed

lemma gets_other:
  assumes "memory balloc" "sock_ok sp" "pending sp = c # cs" "c \<noteq> 10"
  obtains sp' where "socketGets balloc sp = socketGets balloc sp'"
    "reads cs (after (rx sp)) (contents (lineBuf sp) @ (if c = 13 then [] else [c])) sp sp'"
proof -
  obtain s1 where r: "socketRead 1 sp = Some (1, [c], s1)" "reads cs (after (rx sp)) (contents (lineBuf sp)) sp s1" "lineBuf s1 = lineBuf sp"
    using read_byte [OF assms(2,3)] .
  obtain lq where p: "ringqPutc balloc (lineBuf sp) c = Some (0, lq)" "line_ok lq" "contents lq = contents (lineBuf sp) @ [c]"
    using putc_line [OF assms(1)] assms(2) by (auto simp: sock_ok_def)
  show ?thesis
  proof (cases "c = 13")
    case True
    then have "socketGets balloc sp = socketGets balloc s1"
      using r(1) by (subst socketGets.simps) (simp add: Let_def)
    then show ?thesis using that r(2) True by simp
  next
    case False
    then have "socketGets balloc sp = socketGets balloc (s1\<lparr>lineBuf := lq\<rparr>)"
      using r(1,3) p(1) assms(4) by (subst socketGets.simps) (simp add: Let_def)
    then show ?thesis using that [of "s1\<lparr>lineBuf := lq\<rparr>"] reads_put [OF r(2) p(2)] p(3) False by simp
  qed
qed

abbreviation (input) no_cr :: "bytes \<Rightarrow> bytes" where "no_cr xs \<equiv> filter (\<lambda>b. b \<noteq> 13) xs"

text \<open>Bytes without a newline only move to the line buffer.\<close>

lemma gets_skip:
  assumes "memory balloc" "sock_ok sp" "pending sp = xs @ ys" "10 \<notin> set xs"
  obtains sp' where "socketGets balloc sp = socketGets balloc sp'"
    "reads ys (after (rx sp)) (contents (lineBuf sp) @ no_cr xs) sp sp'"
  using assms(2-4)
proof (induction xs arbitrary: sp thesis)
  case Nil
  show ?case by (rule Nil.prems(1)) (use Nil.prems in \<open>auto simp: reads_def\<close>)
next
  case (Cons c xs)
  obtain s1 where s1: "socketGets balloc sp = socketGets balloc s1"
    "reads (xs @ ys) (after (rx sp)) (contents (lineBuf sp) @ (if c = 13 then [] else [c])) sp s1"
    using gets_other [OF assms(1) Cons.prems(2), of c "xs @ ys"] Cons.prems(3,4) by auto
  then have ok: "sock_ok s1" "pending s1 = xs @ ys" "after (rx s1) = after (rx sp)"
    "contents (lineBuf s1) = contents (lineBuf sp) @ (if c = 13 then [] else [c])" by (simp_all add: reads_def)
  have "10 \<notin> set xs" using Cons.prems(4) by simp
  then obtain s2 where s2: "socketGets balloc s1 = socketGets balloc s2"
    "reads ys (after (rx s1)) (contents (lineBuf s1) @ no_cr xs) s1 s2"
    using Cons.IH [OF _ ok(1,2)] by blast
  show ?case by (rule Cons.prems(1) [of s2]) (use s1 s2 ok reads_trans [OF s1(2) s2(2)] in \<open>simp_all split: if_splits\<close>)
qed

lemma gets_line:
  assumes "memory balloc" "sock_ok sp" "pending sp = xs @ 10 # ys" "10 \<notin> set xs"
  defines "l \<equiv> contents (lineBuf sp) @ no_cr xs"
  obtains sp' where "socketGets balloc sp = Some (int (length l), if l = [] then None else Some l, sp')"
    "reads ys (after (rx sp)) [] sp sp'"
proof -
  obtain s1 where s1: "socketGets balloc sp = socketGets balloc s1" "reads (10 # ys) (after (rx sp)) l sp s1"
    using gets_skip [OF assms(1-4)] unfolding l_def .
  then have ok: "sock_ok s1" "pending s1 = 10 # ys" "contents (lineBuf s1) = l" "after (rx s1) = after (rx sp)" by (simp_all add: reads_def)
  obtain s2 where "socketGets balloc s1 = Some (int (length l), if l = [] then None else Some l, s2)" "reads ys (after (rx s1)) [] s1 s2"
    using gets_newline [OF assms(1) ok(1,2)] ok(3) by metis
  then show ?thesis using that s1 ok(4) reads_trans [OF s1(2)] by simp
qed

lemma read_nothing:
  assumes "sock_ok sp" "pending sp = []" "after (rx sp) = Failure EWOULDBLOCK # as"
  obtains sp' where "socketRead 1 sp = Some (0, [], sp')" "reads (ready as) (after as) (contents (lineBuf sp)) sp sp'"
    "rx sp' = as" "lineBuf sp' = lineBuf sp"
proof -
  have ok: "in_ok (inBuf sp)" "\<not> SOCKET_BLOCK sp" "\<not> SOCKET_EOF sp" using assms(1) by (auto simp: sock_ok_def)
  let ?s = "sp\<lparr>inBuf := ringqFlush (inBuf sp), rx := as\<rparr>"
  have "socketRead 1 sp = Some (0, [], ?s)"
    using read_end [OF ok, of 1 "[]"] assms(2,3) ok(3) by (simp add: socketRead_def ended_def)
  moreover have "reads (ready as) (after as) (contents (lineBuf sp)) sp ?s"
    using assms(1) in_ok_flush by (simp add: reads_def sock_ok_def pending_def)
  ultimately show ?thesis using that [of ?s] by simp
qed

lemma gets_wait:
  assumes "memory balloc" "sock_ok sp" "10 \<notin> set (pending sp)" "after (rx sp) = Failure EWOULDBLOCK # as"
  obtains sp' where "socketGets balloc sp = Some (- 1, None, sp')"
    "reads (ready as) (after as) (contents (lineBuf sp) @ no_cr (pending sp)) sp sp'" "rx sp' = as"
proof -
  obtain s1 where s1: "socketGets balloc sp = socketGets balloc s1"
    "reads [] (after (rx sp)) (contents (lineBuf sp) @ no_cr (pending sp)) sp s1"
    using gets_skip [OF assms(1,2), of "pending sp" "[]"] assms(3) by auto
  then have ok: "sock_ok s1" "pending s1 = []" "after (rx s1) = Failure EWOULDBLOCK # as" using assms(4) by (simp_all add: reads_def)
  obtain s2 where s2: "socketRead 1 s1 = Some (0, [], s2)" "reads (ready as) (after as) (contents (lineBuf s1)) s1 s2"
    "rx s2 = as" "lineBuf s2 = lineBuf s1"
    using read_nothing [OF ok] .
  have "\<not> SOCKET_EOF s2" using s2(2) by (simp add: reads_def sock_ok_def)
  then have "socketGets balloc s1 = Some (- 1, None, s2)" using s2(1) by (subst socketGets.simps) simp
  moreover have "contents (lineBuf s1) = contents (lineBuf sp) @ no_cr (pending sp)" using s1(2) by (simp add: reads_def)
  ultimately show ?thesis using that s1 s2(2,3) reads_trans [OF s1(2)] by metis
qed

text \<open>
  A reader that takes all lines there are, and its calls on a number of read events. \<open>feed\<close> is what
  it should get: the lines of the stream, and the unfinished line behind them.
\<close>

partial_function (option) gets_all :: "('s \<Rightarrow> (int \<times> bytes option \<times> 's) option) \<Rightarrow> 's \<Rightarrow> (bytes list \<times> 's) option" where
  "gets_all gets sp =
     (case gets sp of
        None \<Rightarrow> None
      | Some (n, t, sp) \<Rightarrow>
          if n < 0 then Some ([], sp)
          else Option.bind (gets_all gets sp)
                 (\<lambda>(ls, sp). Some ((case t of None \<Rightarrow> [] | Some l \<Rightarrow> l) # ls, sp)))"

fun read_events :: "('s \<Rightarrow> (int \<times> bytes option \<times> 's) option) \<Rightarrow> nat \<Rightarrow> 's \<Rightarrow> (bytes list \<times> 's) option" where
  "read_events gets 0 sp = Some ([], sp)"
| "read_events gets (Suc k) sp =
     (case gets_all gets sp of
        None \<Rightarrow> None
      | Some (ls, sp) \<Rightarrow> map_option (\<lambda>(ls', sp). (ls @ ls', sp)) (read_events gets k sp))"

fun feed :: "bytes \<Rightarrow> bytes \<Rightarrow> bytes list \<times> bytes" where
  "feed acc [] = ([], acc)"
| "feed acc (c # cs) =
     (if c = 10 then (case feed [] cs of (ls, r) \<Rightarrow> (acc # ls, r))
      else feed (if c = 13 then acc else acc @ [c]) cs)"

lemma feed_append:
  "feed acc (xs @ ys) = (case feed acc xs of (ls, r) \<Rightarrow> case feed r ys of (ls', r') \<Rightarrow> (ls @ ls', r'))"
  by (induction xs arbitrary: acc) (auto split: prod.splits)

lemma feed_no_newline: "10 \<notin> set xs \<Longrightarrow> feed acc xs = ([], acc @ no_cr xs)"
  by (induction xs arbitrary: acc) auto

text \<open>
  The interface of a source of lines: \<open>coming\<close> are the bytes at hand in this event, \<open>later\<close> those of
  the events to come, \<open>unfinished\<close> the part of a line that is kept between the calls.
\<close>

locale line_source =
  fixes gets :: "'s \<Rightarrow> (int \<times> bytes option \<times> 's) option" and ok :: "'s \<Rightarrow> bool"
    and coming :: "'s \<Rightarrow> bytes" and later :: "'s \<Rightarrow> bytes list" and unfinished :: "'s \<Rightarrow> bytes"
  assumes line_law: "ok s \<Longrightarrow> coming s = xs @ 10 # ys \<Longrightarrow> 10 \<notin> set xs \<Longrightarrow> l = unfinished s @ no_cr xs \<Longrightarrow>
      \<exists>s'. gets s = Some (int (length l), if l = [] then None else Some l, s') \<and> ok s' \<and> coming s' = ys \<and>
        later s' = later s \<and> unfinished s' = []"
    and wait_law: "ok s \<Longrightarrow> 10 \<notin> set (coming s) \<Longrightarrow> later s = d # ds \<Longrightarrow>
      \<exists>s'. gets s = Some (- 1, None, s') \<and> ok s' \<and> coming s' = d \<and> later s' = ds \<and> unfinished s' = unfinished s @ no_cr (coming s)"
begin

lemma event:
  assumes "ok s" "later s = d # ds" "feed (unfinished s) (coming s) = (ls, r)"
  shows "\<exists>s'. gets_all gets s = Some (ls, s') \<and> ok s' \<and> coming s' = d \<and> later s' = ds \<and> unfinished s' = r"
  using assms
proof (induction "length (coming s)" arbitrary: s ls rule: less_induct)
  case less
  show ?case
  proof (cases "10 \<in> set (coming s)")
    case False
    obtain s' where s': "gets s = Some (- 1, None, s')" "ok s'" "coming s' = d" "later s' = ds"
      "unfinished s' = unfinished s @ no_cr (coming s)"
      using wait_law [OF less.prems(1) False less.prems(2)] by blast
    then show ?thesis using feed_no_newline [OF False, of "unfinished s"] less.prems(3) by (auto simp: gets_all.simps [of _ s])
  next
    case True
    then obtain xs ys where xy: "coming s = xs @ 10 # ys" "10 \<notin> set xs" by (meson split_list_first)
    let ?l = "unfinished s @ no_cr xs"
    obtain s1 where s1: "gets s = Some (int (length ?l), if ?l = [] then None else Some ?l, s1)" "ok s1" "coming s1 = ys"
      "later s1 = later s" "unfinished s1 = []"
      using line_law [OF less.prems(1) xy] by blast
    obtain ls' where f: "feed [] ys = (ls', r)" "ls = ?l # ls'"
      using less.prems(3) by (auto simp: xy(1) feed_append feed_no_newline [OF xy(2)] split: prod.splits)
    have "length (coming s1) < length (coming s)" using s1(3) xy(1) by simp
    then obtain s2 where s2: "gets_all gets s1 = Some (ls', s2)" "ok s2" "coming s2 = d" "later s2 = ds" "unfinished s2 = r"
      using less.hyps [of s1 ls'] s1 f(1) less.prems(2) by auto
    have "gets_all gets s = Some (ls, s2)"
      using s1(1) s2(1) f(2) by (subst gets_all.simps) auto
    then show ?thesis using s2 by blast
  qed
qed

lemma all_events:
  assumes "ok s" "later s = ds @ [[]]" "feed (unfinished s) (coming s @ concat ds) = (ls, r)"
  shows "\<exists>s'. read_events gets (Suc (length ds)) s = Some (ls, s') \<and> coming s' = [] \<and> unfinished s' = r"
  using assms
proof (induction ds arbitrary: s ls)
  case Nil
  then show ?case using event [of s "[]" "[]" ls r] by auto
next
  case (Cons d ds)
  obtain l1 r1 where f: "feed (unfinished s) (coming s) = (l1, r1)" by (cases "feed (unfinished s) (coming s)")
  obtain s1 where s1: "gets_all gets s = Some (l1, s1)" "ok s1" "coming s1 = d" "later s1 = ds @ [[]]" "unfinished s1 = r1"
    using event [OF Cons.prems(1) _ f, of d "ds @ [[]]"] Cons.prems(2) by auto
  obtain l2 where l2: "feed r1 (d @ concat ds) = (l2, r)" "ls = l1 @ l2"
    using Cons.prems(3) f by (auto simp: feed_append [of _ "coming s"] split: prod.splits)
  show ?case using Cons.IH [of s1 l2] s1 l2 by auto
qed

end

text \<open>The socket as such a source, when the stream comes in pieces with a read event for each.\<close>

fun in_pieces :: "bytes list \<Rightarrow> arrival list" where
  "in_pieces [] = []"
| "in_pieces (d # ds) = Data d # Failure EWOULDBLOCK # in_pieces ds"

lemma length_after: "length (after as) \<le> length as"
  by (induction as rule: after.induct) auto

function pieces :: "arrival list \<Rightarrow> bytes list" where
  "pieces as = (case as of Failure e # bs \<Rightarrow> if e = EWOULDBLOCK then ready bs # pieces (after bs) else [] | _ \<Rightarrow> [])"
  by pat_completeness auto

termination
  by (relation "measure length") (auto simp: less_Suc_eq_le length_after)

declare pieces.simps [simp del]

lemma pieces_in_pieces: "pieces (after (in_pieces (d # ds))) = ds @ [[]]"
proof (induction ds arbitrary: d)
  case Nil
  show ?case by (simp add: pieces.simps)
next
  case (Cons e ds)
  have "pieces (after (in_pieces (d # e # ds))) = ready (in_pieces (e # ds)) # pieces (after (in_pieces (e # ds)))"
    by (simp add: pieces.simps [of "Failure 11 # _"])
  then show ?case using Cons [of e] by simp
qed

lemma ready_in_pieces: "ready (in_pieces (d # ds)) = d"
  by simp

interpretation sock: line_source "socketGets balloc" "\<lambda>sp. memory balloc \<and> sock_ok sp" pending "\<lambda>sp. pieces (after (rx sp))"
  "\<lambda>sp. contents (lineBuf sp)" for balloc
proof
  fix s xs ys l
  assume "memory balloc \<and> sock_ok s" "pending s = xs @ 10 # ys" "10 \<notin> set xs" "l = contents (lineBuf s) @ no_cr xs"
  then show "\<exists>s'. socketGets balloc s = Some (int (length l), if l = [] then None else Some l, s') \<and> (memory balloc \<and> sock_ok s') \<and>
      pending s' = ys \<and> pieces (after (rx s')) = pieces (after (rx s)) \<and> contents (lineBuf s') = []"
    using gets_line [of balloc s xs ys] by (metis reads_def)
next
  fix s d ds
  assume a: "memory balloc \<and> sock_ok s" "10 \<notin> set (pending s)" "pieces (after (rx s)) = d # ds"
  obtain as where w: "after (rx s) = Failure EWOULDBLOCK # as" "d = ready as" "ds = pieces (after as)"
    using a(3) by (auto simp: pieces.simps [of "after (rx s)"] split: list.splits arrival.splits if_splits)
  then show "\<exists>s'. socketGets balloc s = Some (- 1, None, s') \<and> (memory balloc \<and> sock_ok s') \<and> pending s' = d \<and> pieces (after (rx s')) = ds \<and>
      contents (lineBuf s') = contents (lineBuf s) @ no_cr (pending s)"
    using gets_wait [of balloc s as] a by (metis reads_def)
qed

lemma opened_ok:
  assumes "memory balloc"
  shows "ringq_inv (opened balloc k mx)" "servp (opened balloc k mx) = 0" "endp (opened balloc k mx) = 0"
    "buflen (opened balloc k mx) = getBinBlockSize k" "maxsize (opened balloc k mx) = mx" "contents (opened balloc k mx) = []"
proof -
  obtain b where b: "balloc (getBinBlockSize k) = Some b" using assms by (force simp: memory_def)
  then have "length b = getBinBlockSize k" using assms by (simp add: memory_def balloc_ok_def)
  with b show "ringq_inv (opened balloc k mx)" "servp (opened balloc k mx) = 0" "endp (opened balloc k mx) = 0"
    "buflen (opened balloc k mx) = getBinBlockSize k" "maxsize (opened balloc k mx) = mx" "contents (opened balloc k mx) = []"
    using getBinBlockSize_pos [of k] by (simp_all add: opened_def ringqOpen_def ringq_inv_def contents_def Let_def)
qed

lemma socketAlloc_ok:
  assumes "memory balloc"
  shows "sock_ok (socketAlloc balloc False as bs)" "contents (inBuf (socketAlloc balloc False as bs)) = []"
    "contents (lineBuf (socketAlloc balloc False as bs)) = []" "rx (socketAlloc balloc False as bs) = as"
    "ringq_inv (outBuf (socketAlloc balloc False as bs))" "1 < buflen (outBuf (socketAlloc balloc False as bs))"
    "contents (outBuf (socketAlloc balloc False as bs)) = []"
proof -
  note o = opened_ok [OF assms]
  have g: "1 < getBinBlockSize 1024" "1 < getBinBlockSize (1024 + 1)"
    using getBinBlockSize_bounds(1) [of 1024] getBinBlockSize_bounds(1) [of "1024 + 1"] by linarith+
  then show "sock_ok (socketAlloc balloc False as bs)"
    using o by (simp add: sock_ok_def in_ok_def line_ok_def socketAlloc_def)
  show "contents (inBuf (socketAlloc balloc False as bs)) = []" "contents (lineBuf (socketAlloc balloc False as bs)) = []"
    "rx (socketAlloc balloc False as bs) = as" "ringq_inv (outBuf (socketAlloc balloc False as bs))"
    "1 < buflen (outBuf (socketAlloc balloc False as bs))" "contents (outBuf (socketAlloc balloc False as bs)) = []"
    using o g(2) unfolding socketAlloc_def by (simp_all only: socket_t.simps)
qed

text \<open>
  C8: However the network cuts the stream into pieces, the read events on a new connection that does not block
  give the lines of the stream, without carriage returns, and keep the unfinished line: nothing is lost, added
  or reordered, as long as every allocation succeeds. (When the line buffer cannot grow \<open>socketGets\<close> drops bytes.) The
  pieces arrive one to an event, without an error or the end of the stream in between.
\<close>

theorem lines_any_split:
  assumes "memory balloc" "ds \<noteq> []"
  shows "\<exists>sp'. read_events (socketGets balloc) (length ds) (socketAlloc balloc False (in_pieces ds) answers) = Some (fst (feed [] (concat ds)), sp') \<and>
    contents (lineBuf sp') = snd (feed [] (concat ds)) \<and> contents (inBuf sp') = []"
proof -
  obtain e es where ds: "ds = e # es" using assms(2) by (cases ds) auto
  let ?s = "socketAlloc balloc False (in_pieces ds) answers"
  obtain ls r where f: "feed [] (concat ds) = (ls, r)" by (cases "feed [] (concat ds)")
  note ok = socketAlloc_ok [OF assms(1), of "in_pieces ds" answers]
  have "\<exists>sp'. read_events (socketGets balloc) (Suc (length es)) ?s = Some (ls, sp') \<and> pending sp' = [] \<and> contents (lineBuf sp') = r"
    by (rule sock.all_events) (use ok f assms(1) ds in \<open>simp_all only: pending_def pieces_in_pieces ready_in_pieces, auto\<close>)
  then show ?thesis using f ds by (auto simp: pending_def)
qed

theorem lines_any_split_witness:
  "\<exists>sp'. read_events (socketGets plenty) 3 (socketAlloc plenty False (in_pieces [[71, 13], [10, 72], [10]]) []) = Some ([[71], [72]], sp') \<and>
     contents (lineBuf sp') = [] \<and> contents (inBuf sp') = []"
  using lines_any_split [OF memory_plenty, of "[[71, 13], [10, 72], [10]]" "[]"]
  by (simp add: numeral_3_eq_3 del: read_events.simps in_pieces.simps)

section \<open>Writing keeps the order\<close>

text \<open>How many answers of \<open>send\<close> there are that are not interruptions; after an interruption \<open>send\<close> is called again.\<close>

definition answered :: "answer list \<Rightarrow> nat" where
  "answered as = length (filter (\<lambda>a. a \<noteq> Refuse EINTR) as)"

lemma answered_simps [simp]:
  "answered [] = 0" "answered (Accept n # as) = Suc (answered as)"
  "answered (Refuse e # as) = (if e = EINTR then answered as else Suc (answered as))"
  by (simp_all add: answered_def)

text \<open>An error among the answers that ends a flush.\<close>

definition broken :: "answer list \<Rightarrow> bool" where
  "broken as \<longleftrightarrow> (\<exists>e. Refuse e \<in> set as \<and> e \<noteq> EINTR \<and> e \<noteq> EWOULDBLOCK)"

lemma broken_mono: "broken bs \<Longrightarrow> set bs \<subseteq> set as \<Longrightarrow> broken as"
  by (auto simp: broken_def)

abbreviation told :: "socket_t \<Rightarrow> nat" where "told sp \<equiv> answered (sends sp)"

definition out_ok :: "socket_t \<Rightarrow> bool" where
  "out_ok sp \<longleftrightarrow> ringq_inv (outBuf sp) \<and> 1 < buflen (outBuf sp) \<and> \<not> SOCKET_BLOCK sp"

text \<open>The bytes the client has got or will get, in order.\<close>

definition outgoing :: "socket_t \<Rightarrow> bytes" where
  "outgoing sp = tx sp @ contents (outBuf sp)"

abbreviation queued :: "socket_t \<Rightarrow> nat" where "queued sp \<equiv> length (contents (outBuf sp))"

lemma getBlkAdj_line:
  assumes "ringq_inv rq" "n \<le> buflen rq - servp rq"
  shows "snd (ringqGetBlkAdj rq n) = get_line rq n"
  using assms by (auto simp: ringqGetBlkAdj_def get_line_def ringq_inv_def Let_def)

lemma len_pos:
  assumes "ringq_inv rq"
  shows "0 < ringqLen rq \<longleftrightarrow> contents rq \<noteq> []" "0 < RINGQ_LEN rq \<longleftrightarrow> contents rq \<noteq> []" "ringqLen rq = 0 \<longleftrightarrow> contents rq = []"
  using length_contents [OF assms, symmetric] by simp_all

lemma out_ok_flush:
  assumes "out_ok sp" "contents (outBuf sp) = []"
  shows "out_ok (flush_done sp)" "outgoing (flush_done sp) = outgoing sp" "queued (flush_done sp) = 0" "sends (flush_done sp) = sends sp"
  using assms len_pos(3) [of "outBuf sp"]
  by (auto simp: out_ok_def outgoing_def flush_done_def socketRegisterInterest_def ringq_inv_def Let_def ringqFlush_def contents_def)

text \<open>A round of \<open>socketFlush\<close> in which the kernel takes bytes.\<close>

lemma flush_step:
  assumes "out_ok sp" "contents (outBuf sp) \<noteq> []" "sends sp = Accept n # as" "0 < n"
  obtains sp' where "flush_loop sp = flush_loop sp'" "out_ok sp'" "outgoing sp' = outgoing sp" "queued sp' < queued sp" "sends sp' = as"
proof -
  let ?rq = "outBuf sp"
  define k where "k = nat (ringqGetBlkMax ?rq)"
  define d where "d = take k (drop (servp ?rq) (buf ?rq))"
  define b where "b = min n k"
  have inv: "ringq_inv ?rq" and n: "0 < n" using assms(1,4) by (auto simp: out_ok_def)
  have k: "0 < k" "k \<le> buflen ?rq - servp ?rq" "k \<le> length (contents ?rq)"
    using inv assms(2) length_contents(2) [OF inv] len_pos(2) [OF inv] by (auto simp: k_def ringqGetBlkMax_def ringq_inv_def Let_def)
  have lk: "length d = k" using inv k(2) by (simp add: ringq_inv_def d_def)
  have b: "0 < b" "b \<le> k" using n k(1) by (auto simp: b_def)
  have g: "ringq_inv (get_line ?rq b)" "contents (get_line ?rq b) = drop b (contents ?rq)"
    "take b (drop (servp ?rq) (buf ?rq)) = take b (contents ?rq)"
    using get_line [OF inv, of b] b k by auto
  let ?s = "sp\<lparr>sends := as, tx := tx sp @ take b (contents ?rq), outBuf := get_line ?rq b\<rparr>"
  have "take b d = take b (contents ?rq)" using g(3) b(2) by (simp add: d_def min_absorb1)
  then have o: "socketDoOutput d sp = Some ((int b, 0), sp\<lparr>sends := as, tx := tx sp @ take b (contents ?rq)\<rparr>)"
    using assms(3) b(1) lk by (simp add: socketDoOutput_def Let_def b_def [symmetric])
  have "0 < ringqLen ?rq" using assms(2) len_pos(1) [OF inv] by simp
  moreover have "snd (ringqGetBlkAdj ?rq b) = get_line ?rq b" using getBlkAdj_line [OF inv, of b] b k by simp
  ultimately have "flush_loop sp = flush_loop ?s"
    using o by (subst flush_loop.simps) (simp add: Let_def k_def [symmetric] d_def [symmetric])
  moreover have "queued ?s < queued sp" using g(2) b(1) assms(2) by simp
  moreover have "out_ok ?s" "outgoing ?s = outgoing sp" using assms(1) g by (auto simp: out_ok_def outgoing_def)
  ultimately show ?thesis using that [of ?s] by simp
qed

text \<open>A round in which the kernel takes nothing: the call is repeated, or the flush ends here.\<close>

definition stopped :: "int \<Rightarrow> answer list \<Rightarrow> socket_t \<Rightarrow> int \<times> socket_t" where
  "stopped e as sp =
     (let s = sp\<lparr>sends := as\<rparr> in
      if e = EWOULDBLOCK then
        (0, if saveMask sp < 0 then socketRegisterInterest (handlerMask sp OR SOCKET_WRITABLE) (s\<lparr>saveMask := handlerMask sp\<rparr>) else s)
      else (- 1, s))"

lemma flush_stop:
  assumes "out_ok sp" "contents (outBuf sp) \<noteq> []"
  shows "sends sp = Refuse e # as \<Longrightarrow> flush_loop sp = (if e = EINTR then flush_loop (sp\<lparr>sends := as\<rparr>) else Some (stopped e as sp))"
    and "sends sp = Accept 0 # as \<Longrightarrow> flush_loop sp = Some (stopped EWOULDBLOCK as sp)"
proof -
  have inv: "ringq_inv (outBuf sp)" using assms(1) by (simp add: out_ok_def)
  have p: "0 < ringqLen (outBuf sp)" using assms(2) len_pos(1) [OF inv] by simp
  show "flush_loop sp = (if e = EINTR then flush_loop (sp\<lparr>sends := as\<rparr>) else Some (stopped e as sp))" if "sends sp = Refuse e # as"
    using that p by (subst flush_loop.simps) (simp add: socketDoOutput_def stopped_def Let_def)
  have "0 < ringqGetBlkMax (outBuf sp)" "nat (ringqGetBlkMax (outBuf sp)) \<le> buflen (outBuf sp) - servp (outBuf sp)"
    using inv len_pos(2) [OF inv] assms(2) by (auto simp: ringqGetBlkMax_def ringq_inv_def Let_def)
  then have "length (take (nat (ringqGetBlkMax (outBuf sp))) (drop (servp (outBuf sp)) (buf (outBuf sp)))) \<noteq> 0"
    using inv by (simp add: ringq_inv_def)
  then show "flush_loop sp = Some (stopped EWOULDBLOCK as sp)" if "sends sp = Accept 0 # as"
    using that p by (subst flush_loop.simps) (simp add: socketDoOutput_def stopped_def Let_def)
qed

lemma stopped_ok:
  assumes "out_ok sp"
  shows "out_ok (snd (stopped e as sp))" "outgoing (snd (stopped e as sp)) = outgoing sp" "queued (snd (stopped e as sp)) = queued sp"
    "sends (snd (stopped e as sp)) = as" "fst (stopped e as sp) = (if e = EWOULDBLOCK then 0 else - 1)"
  using assms by (auto simp: stopped_def out_ok_def outgoing_def socketRegisterInterest_def Let_def)

lemma flush_returns:
  assumes "out_ok sp" "queued sp < told sp"
  obtains rc sp' where "flush_loop sp = Some (rc, sp')" "out_ok sp'" "outgoing sp' = outgoing sp" "rc = 0 \<or> rc = - 1 \<and> broken (sends sp)"
    "queued sp' \<le> queued sp" "told sp + queued sp' \<le> told sp' + queued sp + 1" "set (sends sp') \<subseteq> set (sends sp)"
  using assms
proof (induction "length (sends sp)" arbitrary: sp thesis)
  case (Suc m)
  show ?case
  proof (cases "contents (outBuf sp) = []")
    case True
    then have "\<not> ringqLen (outBuf sp) > 0" using Suc.prems(2) len_pos(1) [of "outBuf sp"] by (simp add: out_ok_def)
    then have "flush_loop sp = Some (0, flush_done sp)" by (subst flush_loop.simps) simp
    then show ?thesis by (rule Suc.prems(1)) (use out_ok_flush [OF Suc.prems(2) True] True in simp_all)
  next
    case False
    obtain a as where s: "sends sp = a # as" using Suc.hyps(2) by (cases "sends sp") auto
    have again: thesis if "flush_loop sp = flush_loop s1" "out_ok s1" "outgoing s1 = outgoing sp" "sends s1 = as"
      "queued s1 \<le> queued sp" "told sp + queued s1 \<le> told s1 + queued sp" for s1
    proof (rule Suc.hyps(1) [of s1, OF _ _ that(2)])
      show "m = length (sends s1)" using s that(4) Suc.hyps(2) by simp
      show "queued s1 < told s1" using that(6) Suc.prems(3) by linarith
      fix rc sp'
      assume "flush_loop s1 = Some (rc, sp')" "out_ok sp'" "outgoing sp' = outgoing s1" "rc = 0 \<or> rc = - 1 \<and> broken (sends s1)"
        "queued sp' \<le> queued s1" "told s1 + queued sp' \<le> told sp' + queued s1 + 1" "set (sends sp') \<subseteq> set (sends s1)"
      moreover have "broken (sends s1) \<Longrightarrow> broken (sends sp)" by (rule broken_mono) (use s that(4) in auto)
      ultimately show thesis by (intro Suc.prems(1) [of rc sp']) (use that s in auto)
    qed
    have ended: thesis if "flush_loop sp = Some (stopped e as sp)" "e \<noteq> EWOULDBLOCK \<Longrightarrow> broken (sends sp)" for e
    proof (rule Suc.prems(1))
      show "flush_loop sp = Some (fst (stopped e as sp), snd (stopped e as sp))" using that(1) by simp
      show "fst (stopped e as sp) = 0 \<or> fst (stopped e as sp) = - 1 \<and> broken (sends sp)"
        using stopped_ok(5) [OF Suc.prems(2), of e as] that(2) by simp
      show "told sp + queued (snd (stopped e as sp)) \<le> told (snd (stopped e as sp)) + queued sp + 1"
        using stopped_ok(3,4) [OF Suc.prems(2), of e as] s by (cases a) simp_all
      show "set (sends (snd (stopped e as sp))) \<subseteq> set (sends sp)" using stopped_ok(4) [OF Suc.prems(2), of e as] s by auto
    qed (use stopped_ok [OF Suc.prems(2), of e as] in simp_all)
    show ?thesis
    proof (cases a)
      case (Accept n)
      show ?thesis
      proof (cases "n = 0")
        case True
        then show ?thesis using ended flush_stop(2) [OF Suc.prems(2) False] s Accept by blast
      next
        case n: False
        then obtain s1 where "flush_loop sp = flush_loop s1" "out_ok s1" "outgoing s1 = outgoing sp" "queued s1 < queued sp" "sends s1 = as"
          using flush_step [OF Suc.prems(2) False] s Accept by (metis not_gr0)
        then show ?thesis using again [of s1] s Accept by simp
      qed
    next
      case (Refuse e)
      show ?thesis
      proof (cases "e = EINTR")
        case True
        then have "flush_loop sp = flush_loop (sp\<lparr>sends := as\<rparr>)" using flush_stop(1) [OF Suc.prems(2) False] s Refuse by simp
        then show ?thesis using again [of "sp\<lparr>sends := as\<rparr>"] Suc.prems(2) s Refuse True by (simp add: out_ok_def outgoing_def)
      next
        case e: False
        have "broken (sends sp)" if "e \<noteq> EWOULDBLOCK" using s Refuse e that by (auto simp: broken_def)
        then show ?thesis using ended [of e] flush_stop(1) [OF Suc.prems(2) False] s Refuse e by simp
      qed
    qed
  qed
qed simp

lemma put_fits:
  assumes "ringq_inv rq" "d \<noteq> []" "int (length d) \<le> ringqPutBlkMax rq"
  shows "ringqPutBlk balloc rq d = Some (length d, put_line rq d)" "ringq_inv (put_line rq d)" "contents (put_line rq d) = contents rq @ d"
    "buflen (put_line rq d) = buflen rq"
proof -
  have l: "length d \<le> room rq" "length d \<le> buflen rq - endp rq" using assms(3) putBlkMax_room(1) [OF assms(1)] by auto
  then have "line_len rq d = length d" "0 < room rq" using assms(2) by (auto simp: line_len_def neq_Nil_conv)
  moreover have e: "length d + 4 = Suc (Suc (length d + 2))" by simp
  ultimately show "ringqPutBlk balloc rq d = Some (length d, put_line rq d)"
    using putBlk_round [OF assms(1) _ assms(2), of "Suc (length d + 2)" balloc 0] by (simp add: ringqPutBlk_def e)
  show "ringq_inv (put_line rq d)" "contents (put_line rq d) = contents rq @ d" "buflen (put_line rq d) = buflen rq"
    using put_line [OF assms(1) l] by simp_all
qed

text \<open>What a call of \<open>socketWrite\<close> does: it takes a part of the data, all of it unless the queue is full or the connection fails.\<close>

definition writes :: "balloc_fun \<Rightarrow> nat \<Rightarrow> bytes \<Rightarrow> socket_t \<Rightarrow> bool" where
  "writes balloc w data sp \<longleftrightarrow> (\<exists>rc n sp'. write_loop balloc w data sp = Some (rc, sp') \<and> n \<le> length data \<and>
     outgoing sp' = outgoing sp @ take n data \<and> (rc = - 1 \<and> broken (sends sp) \<or> rc = int (w + n) \<and> (n < length data \<longrightarrow> socketCanWrite sp' = 0)))"

lemma canWrite_room: "ringq_inv (outBuf sp) \<Longrightarrow> socketCanWrite sp = 0 \<longleftrightarrow> ringqPutBlkMax (outBuf sp) = 0"
  using length_contents(1) [of "outBuf sp"] putBlkMax_room [of "outBuf sp"]
  by (auto simp: socketCanWrite_def room_def ringq_inv_def)

lemma write_part:
  assumes "out_ok sp" "ringqPutBlkMax (outBuf sp) \<noteq> 0" "queued sp + 2 * length data \<le> told sp" "data \<noteq> []"
    and IH: "\<And>w d s. length d < length data \<Longrightarrow> out_ok s \<Longrightarrow> queued s + 2 * length d < told s \<Longrightarrow> writes balloc w d s"
  shows "writes balloc w data sp"
proof -
  let ?rq = "outBuf sp"
  have inv: "ringq_inv ?rq" using assms(1) by (simp add: out_ok_def)
  define k where "k = nat (min (ringqPutBlkMax ?rq) (int (length data)))"
  have max: "0 < ringqPutBlkMax ?rq" using assms(2) putBlkMax_room(1) [OF inv] by linarith
  then have k: "0 < k" "k \<le> length data" "int k \<le> ringqPutBlkMax ?rq" using assms(4) by (auto simp: k_def min_def)
  have "take k data \<noteq> []" "int (length (take k data)) \<le> ringqPutBlkMax ?rq" "length (take k data) = k" using k assms(4) by auto
  note p = put_fits [OF inv this(1,2)]
  let ?s = "sp\<lparr>outBuf := put_line ?rq (take k data)\<rparr>"
  have e: "write_loop balloc w data sp = write_loop balloc (w + k) (drop k data) ?s"
    using assms(2,4) p(1) by (subst write_loop.simps) (simp add: Let_def k_def [symmetric])
  have "writes balloc (w + k) (drop k data) ?s"
  proof (rule IH)
    show "out_ok ?s" using assms(1) p by (simp add: out_ok_def)
    show "queued ?s + 2 * length (drop k data) < told ?s" using assms(3) k p(3) by simp
  qed (use k in simp)
  then obtain rc n sp' where r: "write_loop balloc (w + k) (drop k data) ?s = Some (rc, sp')" "n \<le> length (drop k data)"
    "outgoing sp' = outgoing ?s @ take n (drop k data)" "rc = - 1 \<and> broken (sends sp) \<or> rc = int (w + k + n) \<and> (n < length (drop k data) \<longrightarrow> socketCanWrite sp' = 0)"
    unfolding writes_def by auto
  have "outgoing sp' = outgoing sp @ take (k + n) data" using r(3) p(3) by (simp add: outgoing_def take_add)
  moreover have "k + n \<le> length data" using r(2) k(2) by simp
  moreover have "rc = - 1 \<and> broken (sends sp) \<or> rc = int (w + (k + n)) \<and> (k + n < length data \<longrightarrow> socketCanWrite sp' = 0)" using r(4) by auto
  ultimately show ?thesis unfolding writes_def e using r(1) by blast
qed

lemma write_returns:
  assumes "out_ok sp" "queued sp + 2 * length data < told sp"
  shows "writes balloc w data sp"
  using assms
proof (induction "length data" arbitrary: w data sp rule: less_induct)
  case less
  note step = write_part [where balloc = balloc and data = data, OF _ _ _ _ less.hyps]
  show ?case
  proof (cases "data = [] \<or> ringqPutBlkMax (outBuf sp) \<noteq> 0")
    case True
    show ?thesis
    proof (cases "data = []")
      case True
      then show ?thesis unfolding writes_def by (subst write_loop.simps) auto
    qed (use True step [OF less.prems(1)] less.prems(2) in auto)
  next
    case False
    have o: "out_ok (sp\<lparr>SOCKET_FLUSHING := True\<rparr>)" "socketFlush sp = flush_loop (sp\<lparr>SOCKET_FLUSHING := True\<rparr>)"
      using less.prems(1) by (auto simp: out_ok_def socketFlush_def)
    obtain rc s1 where f: "socketFlush sp = Some (rc, s1)" "out_ok s1" "outgoing s1 = outgoing sp" "rc = 0 \<or> rc = - 1 \<and> broken (sends sp)"
      "queued s1 \<le> queued sp" "told sp + queued s1 \<le> told s1 + queued sp + 1" "set (sends s1) \<subseteq> set (sends sp)"
      using flush_returns [OF o(1)] less.prems(2) o(2) by (auto simp: outgoing_def)
    have b: "\<not> SOCKET_BLOCK s1" "ringq_inv (outBuf s1)" using f(2) by (auto simp: out_ok_def)
    have e: "write_loop balloc w data sp =
        (if rc < 0 then Some (- 1, s1) else if ringqPutBlkMax (outBuf s1) = 0 then Some (int w, s1) else write_loop balloc w data s1)"
      using False f(1) b(1) by (subst write_loop.simps) (simp add: Let_def)
    show ?thesis
    proof (cases "rc < 0 \<or> ringqPutBlkMax (outBuf s1) = 0")
      case True
      then show ?thesis unfolding writes_def e using f(3,4) canWrite_room [OF b(2)] by (intro exI [of _ "if rc < 0 then - 1 else int w"] exI [of _ 0] exI [of _ s1]) auto
    next
      case more: False
      have "writes balloc w data s1"
        by (rule step [OF f(2)]) (use more False less.prems(2) f(6) in auto)
      then show ?thesis using e more f(3) broken_mono [OF _ f(7)] by (auto simp: writes_def)
    qed
  qed
qed

text \<open>
  C13: \<open>socketWrite\<close> on a socket that does not block returns, whatever \<open>send\<close> answers (some or all of the bytes, none,
  an interruption or another error), once the kernel has given more answers other than interruptions than there
  are bytes in the queue and twice the bytes to write. The bytes the kernel has taken, followed by those
  in the queue, are then the ones there were before and the first \<open>n\<close> of the data, in order. It returns -1,
  which needs an error among the answers, or \<open>n\<close>; and \<open>n\<close> is less than the length of the data only when the queue is full.
\<close>

theorem write_in_order:
  assumes "ringq_inv (outBuf sp)" "1 < buflen (outBuf sp)" "\<not> SOCKET_BLOCK sp"
    and "length (contents (outBuf sp)) + 2 * length data < answered (sends sp)"
  shows "\<exists>rc n sp'. socketWrite balloc data sp = Some (rc, sp') \<and> n \<le> length data \<and>
    tx sp' @ contents (outBuf sp') = tx sp @ contents (outBuf sp) @ take n data \<and>
    (rc = - 1 \<and> (\<exists>e. Refuse e \<in> set (sends sp) \<and> e \<noteq> EINTR \<and> e \<noteq> EWOULDBLOCK) \<or> rc = int n \<and> (n < length data \<longrightarrow> socketCanWrite sp' = 0))"
  using write_returns [of sp data balloc 0] assms by (auto simp: out_ok_def writes_def outgoing_def socketWrite_def broken_def)

theorem write_in_order_witness:
  "\<exists>rc n sp'. socketWrite plenty [1, 2] (socketAlloc plenty False [] ([Refuse EINTR, Accept 0] @ replicate 4 (Accept 1))) = Some (rc, sp') \<and> n \<le> 2 \<and>
     tx sp' @ contents (outBuf sp') = take n [1, 2] \<and> rc = int n \<and> (n < 2 \<longrightarrow> socketCanWrite sp' = 0)"
  using write_in_order [of "socketAlloc plenty False [] ([Refuse EINTR, Accept 0] @ replicate 4 (Accept 1))" "[1, 2]" plenty]
    socketAlloc_ok(5-7) [OF memory_plenty, of "[]" "[Refuse EINTR, Accept 0] @ replicate 4 (Accept 1)"]
  by (auto simp: socketAlloc_def eval_nat_numeral)

end
