(* ===== verification/Request.thy ===== *)
theory Request
  imports Sock Url Auth
begin

text \<open>
  Reading a request: the parts of a URL (\<open>apps/WebServer/url.c\<close>), and from \<open>apps/WebServer/webs.c\<close> the
  variables of a request, the first line, the header, the input from the socket and the state machine of the read event.

  Strings are those of theories \<open>Url\<close> and \<open>Fmt\<close>: the characters before the terminator. The socket is that
  of theory \<open>Sock\<close>, the header is collected in a ring queue of theory \<open>Ringq\<close>, the Authorization header is read by
  theory \<open>Auth\<close>, and the variables are a map, which is what theory \<open>Sym\<close> shows of the symbol
  table they are kept in. A read behind a buffer has no result. Memory for copies of
  strings, for the parts of a URL and for posted data is taken to suffice.
\<close>

section \<open>The parts of a URL\<close>

record url_parts =
  host :: string
  path :: string
  port :: "string option"
  query :: string
  ext :: string

text \<open>
  The loop over the host: the text behind the last colon, if there is one. The character behind a
  colon is skipped; a colon at the end makes the loop run on behind the terminator.
\<close>

fun scan_host :: "string \<Rightarrow> string option option" where
  "scan_host [] = Some None"
| "scan_host (c # cs) =
     (if c = CHR ''/'' then Some None
      else if c = CHR '':'' then
        (case cs of
           [] \<Rightarrow> None
         | d # ds \<Rightarrow> map_option (\<lambda>r. Some (case r of None \<Rightarrow> cs | Some p \<Rightarrow> p)) (scan_host ds))
      else scan_host cs)"

text \<open>
  Query and fragment: \<open>tok\<close> is the text they are looked for in. Where \<open>path\<close> points to then: to the
  value it had, to \<open>tok\<close> or to the query; the text left in \<open>tok\<close>, and the query.
\<close>

datatype target = Before | Tok | Query

definition before :: "char \<Rightarrow> string \<Rightarrow> string" where
  "before c s = takeWhile (\<lambda>x. x \<noteq> c) s"

definition behind :: "char \<Rightarrow> string \<Rightarrow> string" where
  "behind c s = tl (dropWhile (\<lambda>x. x \<noteq> c) s)"

definition split_tail :: "string \<Rightarrow> target \<times> string \<times> string" where
  "split_tail tok =
     (if CHR ''?'' \<in> set tok then
        let q = behind CHR ''?'' tok; tok = before CHR ''?'' tok in
        if CHR ''#'' \<in> set q then
          let q = before CHR ''#'' q in if q = [] then (Query, tok, q) else (Tok, tok, q)
        else (Tok, tok, q)
      else if CHR ''#'' \<in> set tok then (Tok, before CHR ''#'' tok, [])
      else (Before, tok, []))"

text \<open>The extension: the path is cut where slashes follow it.\<close>

definition garbage :: "char \<Rightarrow> bool" where
  "garbage c \<longleftrightarrow> c = CHR ''/'' \<or> c = CHR 0x5C"

definition last_dot :: "string \<Rightarrow> string" where
  "last_dot p = rev (takeWhile (\<lambda>c. c \<noteq> CHR ''.'') (rev p))"

definition split_ext :: "string \<Rightarrow> string \<times> string" where
  "split_ext p =
     (if CHR ''.'' \<in> set p then
        let cp = CHR ''.'' # last_dot p;
            e = takeWhile (\<lambda>c. \<not> garbage c) cp
        in if list_all garbage (drop (length e) cp)
           then (take (length p - length cp) p @ e, e) else (p, ''.htm'')
      else (p, ''.htm''))"

abbreviation (input) MAX_PORT_LEN :: nat where "MAX_PORT_LEN \<equiv> 10"

text \<open>
  \<open>websUrlParse\<close>, with the text of the server's own port. The host and the port of a full URL with a path are
  copied, the port to a field that is not terminated when it is full; without a path the path may be what
  the host or the port is in the buffer. \<open>None\<close> is a read behind the buffer.
\<close>

definition websUrlParse :: "string \<Rightarrow> string \<Rightarrow> url_parts option" where
  "websUrlParse ownport url =
     (let u = cstring (websDecodeUrl url (length url)) in
      if take 7 u = ''http://'' then
        let t = drop 7 u in
        case scan_host t of
          None \<Rightarrow> None
        | Some pt \<Rightarrow>
            let tok = (case pt of None \<Rightarrow> t | Some p \<Rightarrow> p) in
            if CHR ''/'' \<in> set tok then
              let h = (if pt = None then before CHR ''/'' t else before CHR '':'' t);
                  p = (if pt = None then ownport else before CHR ''/'' tok);
                  tok = dropWhile (\<lambda>c. c \<noteq> CHR ''/'') tok;
                  (to, tok, q) = split_tail tok;
                  (pa, e) = split_ext (if to = Query then q else tok)
              in Some \<lparr>host = h, path = pa, port = (if length p < MAX_PORT_LEN then Some p else None), query = q, ext = e\<rparr>
            else
              let (to, tok, q) = split_tail tok;
                  (pa, e) = split_ext (case to of Before \<Rightarrow> ''/'' | Tok \<Rightarrow> tok | Query \<Rightarrow> q);
                  tok = (if to = Tok then pa else tok)
              in Some \<lparr>host = (if pt = None then tok else before CHR '':'' t), path = pa,
                       port = Some (if pt = None then ownport else tok), query = q, ext = e\<rparr>
      else
        let (to, tok, q) = split_tail u;
            (pa, e) = split_ext (if to = Query then q else tok)
        in Some \<lparr>host = ''localhost'', path = pa, port = Some ownport, query = q, ext = e\<rparr>)"

definition websMimeList :: "(string \<times> string) list" where
  "websMimeList =
     [(''application/java'', ''.class''), (''application/java'', ''.jar''), (''text/html'', ''.asp''),
      (''text/html'', ''.htm''), (''text/html'', ''.html''), (''text/xml'', ''.xml''), (''image/gif'', ''.gif''),
      (''image/jpeg'', ''.jpg''), (''text/css'', ''.css''), (''text/plain'', ''.txt''),
      (''application/x-javascript'', ''.js''), (''application/x-shockwave-flash'', ''.swf'')]"

definition websUrlType :: "string \<Rightarrow> string \<Rightarrow> string option" where
  "websUrlType ownport url =
     (if url = [] then Some ''text/plain'' else
      map_option (\<lambda>p. case map_of (map prod.swap websMimeList) (map Url.tolower (ext p)) of None \<Rightarrow> ''text/plain'' | Some t \<Rightarrow> t)
       (websUrlParse ownport url))"

section \<open>The request\<close>

datatype webs_state = WEBS_BEGIN | WEBS_HEADER | WEBS_POST | WEBS_POST_CLEN

datatype webs_flag = WEBS_COOKIE | WEBS_POST_REQUEST | WEBS_ASP | WEBS_HEAD_REQUEST | WEBS_CLEN | WEBS_POST_DATA |
  WEBS_CGI_REQUEST | WEBS_MULTIPART_FORM | WEBS_HNAP_FW_UPGRADE

text \<open>
  The fields of \<open>webs_t\<close>: those the parsers fill are a record of their own. The file for the input of a CGI
  program is the bytes it holds.
\<close>

record request =
  rflags :: "webs_flag set"
  rurl :: string
  rquery :: string
  rhost :: string
  rpath :: string
  protoVersion :: string
  rtype :: string
  rport :: int
  cgiVars :: "string \<rightharpoonup> string"
  clen :: int
  postData :: "bytes option"
  FileContentLen :: int
  cookie :: "string option"
  userAgent :: "string option"
  multiPartBoundary :: "string option"
  credentials :: auth
  cgiStdin :: bytes

record webs_t =
  req_state :: webs_state
  sock :: socket_t
  header :: ringq_t
  req :: request

text \<open>
  The server around a request: the text of its port, the port of the listening socket or a negative
  value, the size of the flash, whether an image is being burnt, and whether \<open>malloc\<close> has memory for an upload.
\<close>

record server =
  ownport :: string
  listenPort :: int
  getFlashSize :: int
  burning :: bool
  upload_memory :: bool

text \<open>How a request ends early: \<open>websError\<close>, \<open>websDone\<close>, or a fault of the program.\<close>

datatype stop = Refused nat string | Dropped | Fault

definition websSetVar :: "string \<Rightarrow> string option \<Rightarrow> request \<Rightarrow> request" where
  "websSetVar var v wp = wp\<lparr>cgiVars := (cgiVars wp)(var \<mapsto> (case v of None \<Rightarrow> [] | Some t \<Rightarrow> t))\<rparr>"

definition websTestVar :: "string option \<Rightarrow> request \<Rightarrow> bool" where
  "websTestVar var wp = (case var of None \<Rightarrow> False | Some n \<Rightarrow> n \<noteq> [] \<and> cgiVars wp n \<noteq> None)"

definition websGetVar :: "string \<Rightarrow> string option \<Rightarrow> request \<Rightarrow> string option" where
  "websGetVar var defaultGetValue wp = (case cgiVars wp var of Some v \<Rightarrow> Some v | None \<Rightarrow> defaultGetValue)"

definition websCompareVar :: "string \<Rightarrow> string \<Rightarrow> request \<Rightarrow> bool" where
  "websCompareVar var v wp \<longleftrightarrow> websGetVar var (Some '' __UNDEF__ '') wp = Some v"

text \<open>\<open>atoi\<close> of the C library, which stops at the greatest and the least \<open>int\<close>.\<close>

definition atoi32 :: "string \<Rightarrow> int" where
  "atoi32 s = max (- 2147483648) (min 2147483647 (atoi s))"

section \<open>The first line\<close>

text \<open>\<open>strtok\<close>: the token and the text behind the delimiter that ends it.\<close>

definition strtok :: "string \<Rightarrow> string \<Rightarrow> (string \<times> string) option" where
  "strtok delims s =
     (let s = dropWhile (\<lambda>c. c \<in> set delims) s in
      if s = [] then None
      else Some (takeWhile (\<lambda>c. c \<notin> set delims) s, tl (dropWhile (\<lambda>c. c \<notin> set delims) s)))"

abbreviation (input) blanks :: string where "blanks \<equiv> [CHR '' '', CHR 0x09]"
abbreviation (input) white :: string where "white \<equiv> [CHR '' '', CHR 0x09, CHR 0x0A]"

text \<open>The method is also kept where theory \<open>Auth\<close> looks for that variable.\<close>

definition parse_first :: "server \<Rightarrow> bytes \<Rightarrow> request \<Rightarrow> stop + request" where
  "parse_first srv text wp =
     (case strtok blanks (to_string text) of
        None \<Rightarrow> Inl (Refused 400 ''Bad HTTP request'')
      | Some (op, rest) \<Rightarrow>
          if op \<noteq> ''GET'' \<and> op \<noteq> ''POST'' \<and> op \<noteq> ''HEAD'' then Inl (Refused 400 ''Bad request type'')
          else
            let wp = (if op = ''POST'' then wp\<lparr>rflags := insert WEBS_POST_REQUEST (rflags wp)\<rparr>
                      else if op = ''HEAD'' then wp\<lparr>rflags := insert WEBS_HEAD_REQUEST (rflags wp)\<rparr> else wp);
                wp = websSetVar ''REQUEST_METHOD'' (Some op) (wp\<lparr>credentials := (credentials wp)\<lparr>REQUEST_METHOD := op\<rparr>\<rparr>)
            in case strtok white rest of
                 None \<Rightarrow> Inl (Refused 400 ''Bad HTTP request'')
               | Some (url, rest) \<Rightarrow>
                   let protoVer = (case strtok white rest of None \<Rightarrow> [] | Some (v, _) \<Rightarrow> v) in
                   case websUrlParse (ownport srv) url of
                     None \<Rightarrow> Inl Fault
                   | Some p \<Rightarrow>
                       let wp = wp\<lparr>rurl := url\<rparr>;
                           wp = (if strstr url ''cgi-bin'' then wp\<lparr>rflags := insert WEBS_CGI_REQUEST (rflags wp)\<rparr> else wp);
                           wp = wp\<lparr>rquery := query p, rhost := host p, rpath := path p, protoVersion := protoVer, postData := None\<rparr>
                       in if listenPort srv < 0 \<and> port p = None then Inl Fault
                          else
                            let wp = wp\<lparr>rport := (if listenPort srv \<ge> 0 then listenPort srv else atoi32 (the (port p)))\<rparr>;
                                wp = (if ext p = ''.asp'' \<or> ext p = ''.js'' then wp\<lparr>rflags := insert WEBS_ASP (rflags wp)\<rparr> else wp);
                                wp = wp\<lparr>rtype := (case websUrlType (ownport srv) url of None \<Rightarrow> ''text/plain'' | Some t \<Rightarrow> t)\<rparr>
                            in Inr wp)"

definition websParseFirst :: "server \<Rightarrow> bytes \<Rightarrow> webs_t \<Rightarrow> stop + webs_t" where
  "websParseFirst srv text wp =
     map_sum id (\<lambda>r. wp\<lparr>req := r, header := ringqFlush (header wp)\<rparr>) (parse_first srv text (req wp))"

section \<open>The header\<close>

text \<open>
  Where \<open>strtok\<close> finds a token in the text \<open>s\<close> from the position \<open>i\<close>: its start and its end, which it
  overwrites with a terminator.
\<close>

definition token_at :: "string \<Rightarrow> string \<Rightarrow> nat \<Rightarrow> (nat \<times> nat) option" where
  "token_at delims s i =
     (let b = i + length (takeWhile (\<lambda>c. c \<in> set delims) (drop i s));
          e = b + length (takeWhile (\<lambda>c. c \<notin> set delims) (drop b s))
      in if b < length s then Some (b, e) else None)"

definition toupper :: "char \<Rightarrow> char" where
  "toupper c = (let n = of_char c :: nat in if 97 \<le> n \<and> n \<le> 122 then char_of (n - 32) else c)"

definition http_name :: "string \<Rightarrow> string option" where
  "http_name key =
     map_option (map (\<lambda>c. toupper (if c = CHR ''-'' then CHR ''_'' else c)))
       (formatted (int (length key) + 6) ''HTTP_%s'' [AStr (Some key)])"

fun strstr_at :: "string \<Rightarrow> string \<Rightarrow> string option" where
  "strstr_at [] pat = (if pat = [] then Some [] else None)"
| "strstr_at (c # cs) pat = (if is_prefix pat (c # cs) then Some (c # cs) else strstr_at cs pat)"

text \<open>What a field of the header does to the request; its variable is set first.\<close>

definition header_field :: "string \<Rightarrow> string \<Rightarrow> request \<Rightarrow> request option" where
  "header_field key v wp =
     (if key = ''user-agent'' then Some (wp\<lparr>userAgent := Some v\<rparr>)
      else if key = ''authorization'' then
        map_option (\<lambda>a. wp\<lparr>credentials := a\<rparr>) (parse_authorization v (credentials wp))
      else if key = ''content-length'' then
        let wp = wp\<lparr>clen := atoi32 v\<rparr> in
        Some (if clen wp > 0 then websSetVar ''CONTENT_LENGTH'' (Some v) (wp\<lparr>rflags := insert WEBS_CLEN (rflags wp)\<rparr>)
              else wp\<lparr>clen := 0\<rparr>)
      else if key = ''content-type'' then
        let wp = websSetVar ''CONTENT_TYPE'' (Some v) wp in
        Some (if is_prefix ''multipart/form-data'' v then
                let wp = wp\<lparr>rflags := insert WEBS_MULTIPART_FORM (rflags wp)\<rparr> in
                (case strstr_at v ''boundary='' of
                   None \<Rightarrow> wp
                 | Some p \<Rightarrow> wp\<lparr>multiPartBoundary := Some (''--'' @ drop (length ''boundary='') p)\<rparr>)
              else wp)
      else if key = ''cookie'' then Some (wp\<lparr>rflags := insert WEBS_COOKIE (rflags wp), cookie := Some v\<rparr>)
      else if key = ''soapaction'' then
        Some (if strstr v ''FirmwareUpload'' then wp\<lparr>rflags := insert WEBS_HNAP_FW_UPGRADE (rflags wp)\<rparr> else wp)
      else Some wp)"

definition header_line :: "string \<Rightarrow> string \<Rightarrow> request \<Rightarrow> request option" where
  "header_line key v wp =
     (case http_name key of None \<Rightarrow> None | Some upperKey \<Rightarrow> header_field key v (websSetVar upperKey (Some v) wp))"

abbreviation (input) key_delims :: string where "key_delims \<equiv> [CHR '':'', CHR '' '', CHR 0x09, CHR 0x0A]"
abbreviation (input) newline :: string where "newline \<equiv> [CHR 0x0A]"

text \<open>
  The loop over the header: \<open>s\<close> is the text at \<open>lp\<close> up to the next terminator. The next \<open>lp\<close> is behind
  the first newline of \<open>s\<close>; the two tokens may lie behind it, and their terminators then cut the text.
\<close>

definition next_lp :: "string \<Rightarrow> nat" where
  "next_lp s = length (before CHR 0x0A s) + 1"

definition cut_at :: "nat \<Rightarrow> string \<Rightarrow> string" where
  "cut_at e s = s[e := CHR 0x00]"

text \<open>
  The end of the value in the text. A value for Basic authentication is cut at its first blank when
  the field has been read.
\<close>

definition value_end :: "string \<Rightarrow> string \<Rightarrow> nat" where
  "value_end key t =
     (let v = dropWhile isspace t in
      if key = ''authorization'' \<and> stricmp_eq (takeWhile gisalpha v) ''basic''
      then length t - length v + length (takeWhile (\<lambda>c. c \<noteq> CHR '' '') v) else length t)"

lemma cstring_shorter: "length (cstring s) \<le> length s"
  by (simp add: cstring_def length_takeWhile_le)

function header_loop :: "string \<Rightarrow> request \<Rightarrow> request option" where
  "header_loop s wp =
     (if s = [] then Some wp
      else
        case token_at key_delims s 0 of
          None \<Rightarrow> header_loop (drop (next_lp s) s) wp
        | Some (kb, ke) \<Rightarrow>
            let key = map Url.tolower (take (ke - kb) (drop kb s));
                (v, s') = (case token_at newline s (ke + 1) of
                             None \<Rightarrow> ([], cut_at ke s)
                           | Some (vb, ve) \<Rightarrow>
                               let t = take (ve - vb) (drop vb s)
                               in (t, cut_at (vb + value_end key t) (cut_at ve (cut_at ke s))));
                v = dropWhile isspace v
            in case header_line key v wp of
                 None \<Rightarrow> None
               | Some wp \<Rightarrow> header_loop (cstring (drop (next_lp s) s')) wp)"
  by pat_completeness auto

termination
proof (relation "measure (length \<circ> fst)", goal_cases)
  case (2 s wp)
  then show ?case by (cases s) (auto simp: next_lp_def)
next
  case (3 s wp x kb ke key y v s' v' wp')
  have "length s' = length s" using 3(5,6) by (auto simp: cut_at_def Let_def split: option.splits)
  then have "length (cstring (drop (next_lp s) s')) \<le> length s - next_lp s" using cstring_shorter [of "drop (next_lp s) s'"] by simp
  moreover have "0 < length s" "0 < next_lp s" using 3(1) by (simp_all add: next_lp_def)
  ultimately have "length (cstring (drop (next_lp s) s')) < length s" by linarith
  then show ?case by simp
qed simp

declare header_loop.simps [simp del]

definition websParseRequest :: "webs_t \<Rightarrow> webs_t option" where
  "websParseRequest wp =
     map_option (\<lambda>r. wp\<lparr>req := r\<rparr>)
       (header_loop (to_string (drop (servp (header wp)) (buf (header wp)))) (websSetVar ''HTTP_AUTHORIZATION'' (Some []) (req wp)))"

section \<open>Input\<close>

text \<open>
  How a read event ends: the connection waits for the next one, the request is handed to
  \<open>websUrlHandlerRequest\<close>, or it has ended early. Input is: call again, a text, no text, or the end of the event.
\<close>

datatype outcome = Waiting webs_t | Handed webs_t | Ended stop

datatype input = Again webs_t | Got bytes webs_t | Nothing webs_t | Finish outcome

abbreviation (input) WEBS_SOCKET_BUFSIZ :: int where "WEBS_SOCKET_BUFSIZ \<equiv> 1024"
abbreviation (input) MAX_LINE :: nat where "MAX_LINE \<equiv> 1024"

text \<open>The end of the header: an empty line.\<close>

definition header_end :: "webs_t \<Rightarrow> input" where
  "header_end wp =
     (case websParseRequest wp of
        None \<Rightarrow> Finish (Ended Fault)
      | Some wp \<Rightarrow>
          if WEBS_POST_REQUEST \<in> rflags (req wp) then
            if WEBS_CLEN \<in> rflags (req wp) then
              let wp = wp\<lparr>req_state := WEBS_POST_CLEN\<rparr> in if clen (req wp) > 0 then Again wp else Nothing wp
            else Again (wp\<lparr>req_state := WEBS_POST\<rparr>)
          else Finish (Handed wp))"

definition websGetInput :: "balloc_fun \<Rightarrow> webs_t \<Rightarrow> input option" where
  "websGetInput balloc wp =
     (let len = (if req_state wp = WEBS_POST_CLEN then min (clen (req wp)) WEBS_SOCKET_BUFSIZ else 0) in
      if len > 0 then
        (case socketRead (nat len) (sock wp) of
           None \<Rightarrow> None
         | Some (nbytes, d, sp) \<Rightarrow>
             let wp = wp\<lparr>sock := sp\<rparr> in
             Some (if nbytes < 0 then Finish (Ended Dropped)
                   else if nbytes = 0 then Finish (Waiting wp)
                   else if balloc (length d + 1) = None then Finish (Ended (Refused 503 ''Insufficient memory''))
                   else Got d wp))
      else
        (case socketGets balloc (sock wp) of
           None \<Rightarrow> None
         | Some (nbytes, text, sp) \<Rightarrow>
             let wp = wp\<lparr>sock := sp\<rparr> in
             Some (if nbytes < 0 then
                     if socketEof sp then Finish (if req_state wp = WEBS_POST then Handed wp else Ended Dropped)
                     else if req_state wp = WEBS_POST then Finish (Ended (Refused 500 ''INCORRECT HTTP CONTENT''))
                     else Finish (Waiting wp)
                   else if nbytes = 0 then
                     if req_state wp = WEBS_HEADER then header_end wp else Finish (Waiting wp)
                   else case text of None \<Rightarrow> Finish (Ended Fault) | Some t \<Rightarrow> Got t wp)))"

section \<open>The read event\<close>

text \<open>One turn of the loop: the next one, with the offset in the open file, or the end of the event.\<close>

datatype turn = Next "nat option" webs_t | Done outcome

definition put_header :: "balloc_fun \<Rightarrow> bytes \<Rightarrow> ringq_t \<Rightarrow> ringq_t" where
  "put_header balloc t q = (case ringqPutStr balloc q t of None \<Rightarrow> q | Some (_, q) \<Rightarrow> q)"

definition write_file :: "bytes \<Rightarrow> nat option \<Rightarrow> request \<Rightarrow> nat option \<times> request" where
  "write_file d fd wp =
     (let off = (case fd of None \<Rightarrow> 0 | Some n \<Rightarrow> n)
      in (Some (off + length d), wp\<lparr>cgiStdin := take off (cgiStdin wp) @ d @ drop (off + length d) (cgiStdin wp)\<rparr>))"

text \<open>
  Reading the rest of an uploaded image, whose size is \<open>clen\<close>: to throw it away, and to keep it. An
  error of the socket counts as a byte less read.
\<close>

partial_function (option) discard_loop :: "int \<Rightarrow> int \<Rightarrow> socket_t \<Rightarrow> (int \<times> int \<times> socket_t) option" where
  "discard_loop nbytes c sp =
     (if c > 0 then
        case socketRead MAX_LINE sp of None \<Rightarrow> None | Some (nbytes, _, sp) \<Rightarrow> discard_loop nbytes (c - nbytes) sp
      else Some (nbytes, c, sp))"

partial_function (option) keep_loop :: "bytes \<Rightarrow> int \<Rightarrow> socket_t \<Rightarrow> (stop + bytes \<times> int \<times> socket_t) option" where
  "keep_loop data c sp =
     (if c > 0 then
        case socketRead (nat c) sp of
          None \<Rightarrow> None
        | Some (nbytes, d, sp) \<Rightarrow>
            if nbytes < 0 then if data = [] then Some (Inl Fault) else keep_loop (butlast data) (c - nbytes) sp
            else keep_loop (data @ d) (c - nbytes) sp
      else Some (Inr (data, c, sp)))"

definition upload_refused :: "server \<Rightarrow> request \<Rightarrow> bool" where
  "upload_refused srv wp \<longleftrightarrow> burning srv \<or> FileContentLen wp < 0 \<or>
     clen wp > getFlashSize srv \<and> WEBS_HNAP_FW_UPGRADE \<notin> rflags wp \<or>
     clen wp > getFlashSize srv + 0x50000 \<and> WEBS_HNAP_FW_UPGRADE \<in> rflags wp \<or> \<not> upload_memory srv"

definition upload :: "server \<Rightarrow> bytes \<Rightarrow> socket_t \<Rightarrow> request \<Rightarrow> (stop + socket_t \<times> request) option" where
  "upload srv text sp wp =
     (if upload_refused srv wp then
        let wp = (if FileContentLen wp = 0 then wp\<lparr>FileContentLen := (if clen wp > getFlashSize srv then - 1 else - 2)\<rparr> else wp)
        in map_option (\<lambda>(nbytes, c, sp). Inr (sp, wp\<lparr>clen := c - nbytes\<rparr>))
             (discard_loop (int (length text)) (clen wp - int (length text)) sp)
      else
        map_option (map_sum id (\<lambda>(data, c, sp). (sp, wp\<lparr>postData := Some data, clen := c\<rparr>)))
          (keep_loop ((case postData wp of None \<Rightarrow> [] | Some d \<Rightarrow> d) @ text) (clen wp - int (length text)) sp))"

definition is_upload :: "request \<Rightarrow> bool" where
  "is_upload wp \<longleftrightarrow> rurl wp = ''/goform/upldImage'' \<or> WEBS_HNAP_FW_UPGRADE \<in> rflags wp"

text \<open>A part of the data of a POST request whose length is known.\<close>

definition store_part :: "nat option \<Rightarrow> bytes \<Rightarrow> request \<Rightarrow> nat option \<times> request" where
  "store_part fd text wp =
     (if WEBS_CGI_REQUEST \<in> rflags wp then
        (case write_file text fd wp of (fd, wp) \<Rightarrow> (fd, wp\<lparr>postData := Some text\<rparr>))
      else (fd, wp\<lparr>postData := Some ((case postData wp of None \<Rightarrow> [] | Some d \<Rightarrow> d) @ text)\<rparr>))"

definition post_part :: "server \<Rightarrow> nat option \<Rightarrow> bytes \<Rightarrow> webs_t \<Rightarrow> turn option" where
  "post_part srv fd text wp =
     (let seen = (\<lambda>r. r\<lparr>rflags := insert WEBS_POST_DATA (rflags r)\<rparr>) in
      if WEBS_CGI_REQUEST \<notin> rflags (req wp) \<and> is_upload (req wp) then
        map_option (\<lambda>x. Done (case x of Inl e \<Rightarrow> Ended e | Inr (sp, r) \<Rightarrow> Handed (wp\<lparr>sock := sp, req := seen r\<rparr>)))
          (upload srv text (sock wp) (req wp))
      else
        let (fd, r) = store_part fd text (req wp);
            wp = wp\<lparr>req := (seen r)\<lparr>clen := clen r - int (length text)\<rparr>\<rparr>
        in Some (if clen (req wp) > 0 then if text \<noteq> [] then Next fd wp else Done (Waiting wp) else Done (Handed wp)))"

definition post_line :: "nat option \<Rightarrow> bytes \<Rightarrow> request \<Rightarrow> request" where
  "post_line fd text wp =
     (let t = to_string text;
          wp = (if WEBS_CGI_REQUEST \<in> rflags wp then snd (write_file (cstr text @ [10]) fd wp)
                else if rquery wp \<noteq> [] \<and> WEBS_POST_DATA \<notin> rflags wp then wp\<lparr>rquery := rquery wp @ ''&'' @ t\<rparr>
                else wp\<lparr>rquery := t\<rparr>)
      in wp\<lparr>rflags := insert WEBS_POST_DATA (rflags wp)\<rparr>)"

definition read_turn :: "balloc_fun \<Rightarrow> server \<Rightarrow> nat option \<Rightarrow> bytes \<Rightarrow> webs_t \<Rightarrow> turn option" where
  "read_turn balloc srv fd text wp =
     (case req_state wp of
        WEBS_BEGIN \<Rightarrow>
          Some (case websParseFirst srv text wp of Inl e \<Rightarrow> Done (Ended e) | Inr wp \<Rightarrow> Next fd (wp\<lparr>req_state := WEBS_HEADER\<rparr>))
      | WEBS_HEADER \<Rightarrow>
          let q = (if ringqLen (header wp) > 0 then put_header balloc [10] (header wp) else header wp)
          in Some (Next fd (wp\<lparr>header := put_header balloc text q\<rparr>))
      | WEBS_POST_CLEN \<Rightarrow> post_part srv fd text wp
      | WEBS_POST \<Rightarrow> Some (Done (Waiting (wp\<lparr>req := post_line fd text (req wp)\<rparr>))))"

partial_function (option) read_loop_event :: "balloc_fun \<Rightarrow> server \<Rightarrow> nat option \<Rightarrow> webs_t \<Rightarrow> outcome option" where
  "read_loop_event balloc srv fd wp =
     (case websGetInput balloc wp of
        None \<Rightarrow> None
      | Some (Again wp) \<Rightarrow> read_loop_event balloc srv fd wp
      | Some (Finish r) \<Rightarrow> Some r
      | Some (Got text wp) \<Rightarrow>
          (case read_turn balloc srv fd text wp of
             None \<Rightarrow> None | Some (Done r) \<Rightarrow> Some r | Some (Next fd wp) \<Rightarrow> read_loop_event balloc srv fd wp)
      | Some (Nothing wp) \<Rightarrow>
          (case read_turn balloc srv fd [] wp of
             None \<Rightarrow> None | Some (Done r) \<Rightarrow> Some r | Some (Next fd wp) \<Rightarrow> read_loop_event balloc srv fd wp))"

definition websReadEvent :: "balloc_fun \<Rightarrow> server \<Rightarrow> webs_t \<Rightarrow> outcome option" where
  "websReadEvent balloc srv wp = read_loop_event balloc srv None wp"

section \<open>The variables of a request\<close>

record env =
  websHost :: string
  websHostUrl :: string
  websIpaddr :: string
  websPort :: string

definition set_all :: "(string \<times> string) list \<Rightarrow> request \<Rightarrow> request" where
  "set_all vs wp = fold (\<lambda>(n, v). websSetVar n (Some v)) vs wp"

text \<open>One pair of the query, with the formatted text of theory \<open>Fmt\<close> when the variable is there already.\<close>

definition set_pair :: "string \<Rightarrow> request \<Rightarrow> request" where
  "set_pair keyword wp =
     (let (k, v) = (if CHR ''='' \<in> set keyword
                    then (let k = before CHR ''='' keyword; v = behind CHR ''='' keyword
                          in (cstring (websDecodeUrl k (length k)), cstring (websDecodeUrl v (length v))))
                    else (keyword, []))
      in if k \<noteq> [] then
           (case websGetVar k None wp of
              Some old \<Rightarrow> websSetVar k (formatted 256 ''%s %s'' [AStr (Some old), AStr (Some v)]) wp
            | None \<Rightarrow> websSetVar k (Some v) wp)
         else wp)"

lemma strtok_shorter: "strtok d s = Some (t, r) \<Longrightarrow> length r < length s"
proof -
  assume a: "strtok d s = Some (t, r)"
  let ?s = "dropWhile (\<lambda>c. c \<in> set d) s"
  have "?s \<noteq> []" "r = tl (dropWhile (\<lambda>c. c \<notin> set d) ?s)" using a by (auto simp: strtok_def Let_def split: if_splits)
  moreover have "length (dropWhile (\<lambda>c. c \<notin> set d) ?s) \<le> length ?s" "length ?s \<le> length s"
    by (rule length_dropWhile_le)+
  moreover have "length r \<le> length (dropWhile (\<lambda>c. c \<notin> set d) ?s) - 1" "0 < length ?s" using calculation(1,2) by simp_all
  ultimately show ?thesis by linarith
qed

function tokens :: "string \<Rightarrow> string list" where
  "tokens s = (case strtok ''&'' s of None \<Rightarrow> [] | Some (t, r) \<Rightarrow> t # tokens r)"
  by pat_completeness auto

termination
  by (relation "measure length") (auto dest: strtok_shorter)

declare tokens.simps [simp del]

text \<open>\<open>websSetEnv\<close>; what is taken out of a form with several parts is a parameter.\<close>

definition websSetEnv :: "(request \<Rightarrow> request) \<Rightarrow> env \<Rightarrow> request \<Rightarrow> request" where
  "websSetEnv extractUploadedFileContent en wp =
     (let wp = set_all
            [(''QUERY_STRING'', rquery wp), (''GATEWAY_INTERFACE'', ''CGI/1.1''), (''SERVER_HOST'', websHost en),
             (''SERVER_NAME'', websHost en), (''SERVER_URL'', websHostUrl en), (''REMOTE_HOST'', ipaddr (credentials wp)),
             (''REMOTE_ADDR'', ipaddr (credentials wp)), (''PATH_INFO'', rpath wp), (''SERVER_PORT'', websPort en),
             (''SERVER_ADDR'', websIpaddr en), (''SERVER_SOFTWARE'', ''GoAhead-Webs/2.1.8''), (''SERVER_PROTOCOL'', protoVersion wp),
             (''SERVER_TYPE'', ''LINUX'')] wp;
          wp = (if WEBS_MULTIPART_FORM \<in> rflags wp then extractUploadedFileContent wp
                else case postData wp of
                       None \<Rightarrow> wp
                     | Some d \<Rightarrow> wp\<lparr>rquery := (if rquery wp \<noteq> [] then rquery wp @ ''&'' @ to_string d else to_string d)\<rparr>)
      in fold set_pair (tokens (rquery wp)) wp)"

section \<open>A new request\<close>

text \<open>The structure \<open>websAlloc\<close> makes for a connection, with what \<open>websAccept\<close> knows of the client.\<close>

definition new_request :: "auth \<Rightarrow> request" where
  "new_request au =
     \<lparr>rflags = {}, rurl = [], rquery = [], rhost = [], rpath = [], protoVersion = [], rtype = [], rport = 0,
      cgiVars = (\<lambda>_. None), clen = 0, postData = None, FileContentLen = 0, cookie = None, userAgent = None,
      multiPartBoundary = None, credentials = au, cgiStdin = []\<rparr>"

definition websAlloc :: "balloc_fun \<Rightarrow> socket_t \<Rightarrow> auth \<Rightarrow> webs_t" where
  "websAlloc balloc sp au = \<lparr>req_state = WEBS_BEGIN, sock = sp, header = opened balloc 512 5120, req = new_request au\<rparr>"

text \<open>The read events of a connection, as many as there are, until the request is handed over or ends.\<close>

fun serve :: "balloc_fun \<Rightarrow> server \<Rightarrow> nat \<Rightarrow> webs_t \<Rightarrow> outcome option" where
  "serve balloc srv 0 wp = Some (Waiting wp)"
| "serve balloc srv (Suc k) wp =
     (case websReadEvent balloc srv wp of Some (Waiting wp) \<Rightarrow> serve balloc srv k wp | r \<Rightarrow> r)"

section \<open>The header queue\<close>

definition hdr_ok :: "ringq_t \<Rightarrow> bool" where
  "hdr_ok q \<longleftrightarrow> ringq_inv q \<and> servp q = 0 \<and> maxsize q = 5120 \<and> buf q ! endp q = 0"

lemma hdr_text:
  assumes "hdr_ok q" "0 \<notin> set (contents q)"
  shows "to_string (drop (servp q) (buf q)) = map (\<lambda>b. char_of (unat b)) (contents q)"
proof -
  have q: "endp q < length (buf q)" "buf q ! endp q = 0" "servp q = 0" using assms(1) by (auto simp: hdr_ok_def ringq_inv_def)
  then have c: "contents q = take (endp q) (buf q)" by (simp add: contents_def)
  have "buf q = contents q @ 0 # drop (Suc (endp q)) (buf q)" using q c id_take_nth_drop [of "endp q" "buf q"] by simp
  then have "takeWhile (\<lambda>b. b \<noteq> 0) (buf q) = contents q"
    using assms(2) by (metis (mono_tags, lifting) takeWhile.simps(2) takeWhile_append append_Nil2)
  then show ?thesis using q(3) by (simp add: to_string_def)
qed

lemma flush_hdr: "ringq_inv q \<Longrightarrow> maxsize q = 5120 \<Longrightarrow> hdr_ok (ringqFlush q)"
  by (auto simp: hdr_ok_def ringq_inv_def ringqFlush_def)

lemma put_header_fits:
  assumes "memory balloc" "hdr_ok q" "0 \<notin> set t" "length (contents q) + length t < 5120"
  shows "hdr_ok (put_header balloc t q)" "contents (put_header balloc t q) = contents q @ t"
proof -
  have ok: "ringq_inv q" "servp q = 0" "maxsize q = 5120" "balloc_ok balloc" using assms(1,2) by (auto simp: hdr_ok_def memory_def)
  obtain n q' where p: "ringqPutBlk balloc q t = Some (n, q')" "put_spec balloc q t n q'"
    using ringqPutBlk_correct [OF ok(1,4)] by blast
  have inv: "ringq_inv q'" and c: "contents q' = contents q @ take n t" using p(2) by (auto simp: put_spec_def)
  have "n = length t"
  proof (rule ccontr)
    assume "n \<noteq> length t"
    then have n: "n < length t" "room q' = 0" "\<not> can_grow balloc q'" "maxsize q' = 5120" using p(2) ok(3) by (auto simp: put_spec_def)
    moreover have "balloc (buflen q' + increment q') \<noteq> None" using assms(1) unfolding memory_def by blast
    ultimately have "5120 \<le> buflen q'" by (simp add: can_grow_def)
    moreover have "length (contents q') < length (contents q) + length t" using c n(1) by simp
    ultimately show False using n(2) assms(4) by (simp add: room_def)
  qed
  then have c': "contents q' = contents q @ t" using c by simp
  have e: "endp q' < length (buf q')" "servp q' = 0" "maxsize q' = 5120" using p(2) ok(2,3) by (auto simp: put_spec_def ringq_inv_def)
  have "cstr t = t" using assms(3) by (induction t) auto
  then have h: "put_header balloc t q = q'\<lparr>buf := (buf q')[endp q' := 0]\<rparr>" using p(1) by (simp add: put_header_def ringqPutStr_def)
  show "hdr_ok (put_header balloc t q)" unfolding h using inv e by (auto simp: hdr_ok_def ringq_inv_def)
  show "contents (put_header balloc t q) = contents q @ t" unfolding h c' [symmetric] using e by (simp add: contents_def)
qed

text \<open>The lines of the header as the queue keeps them.\<close>

fun join_lines :: "bytes list \<Rightarrow> bytes" where
  "join_lines [] = []"
| "join_lines [l] = l"
| "join_lines (l # ls) = l @ 10 # join_lines ls"

lemma join_lines_snoc: "join_lines (ls @ [l]) = (if ls = [] then l else join_lines ls @ 10 # l)"
  by (induction ls rule: join_lines.induct) (auto simp: neq_Nil_conv)

lemma join_lines_Nil: "[] \<notin> set ls \<Longrightarrow> join_lines ls = [] \<longleftrightarrow> ls = []"
  by (induction ls rule: join_lines.induct) auto

lemma set_join_lines: "set (join_lines ls) \<subseteq> insert 10 (\<Union> (set ` set ls))"
  by (induction ls rule: join_lines.induct) auto

definition add_line :: "balloc_fun \<Rightarrow> bytes \<Rightarrow> ringq_t \<Rightarrow> ringq_t" where
  "add_line balloc l q = put_header balloc l (if ringqLen q > 0 then put_header balloc [10] q else q)"

lemma add_line:
  assumes "memory balloc" "hdr_ok q" "contents q = join_lines ls" "[] \<notin> set (ls @ [l])" "0 \<notin> set l"
    and "length (join_lines (ls @ [l])) < 5120"
  shows "hdr_ok (add_line balloc l q)" "contents (add_line balloc l q) = join_lines (ls @ [l])"
proof -
  have e: "0 < ringqLen q \<longleftrightarrow> ls \<noteq> []" using len_pos(1) [of q] join_lines_Nil [of ls] assms(2-4) by (simp add: hdr_ok_def)
  have s: "hdr_ok (put_header balloc [10] q)" "contents (put_header balloc [10] q) = join_lines ls @ [10]" if "ls \<noteq> []"
    using put_header_fits [OF assms(1,2), of "[10]"] assms(3,6) that by (simp_all add: join_lines_snoc)
  have "hdr_ok (add_line balloc l q) \<and> contents (add_line balloc l q) = join_lines (ls @ [l])"
  proof (cases "ls = []")
    case True
    then show ?thesis using put_header_fits [OF assms(1,2,5)] assms(3,6) e by (simp add: add_line_def)
  next
    case False
    then show ?thesis using put_header_fits [OF assms(1) s(1) assms(5)] s(2) assms(6) e by (simp add: add_line_def join_lines_snoc)
  qed
  then show "hdr_ok (add_line balloc l q)" "contents (add_line balloc l q) = join_lines (ls @ [l])" by simp_all
qed

section \<open>Reading does not depend on the pieces\<close>

text \<open>The rest of this event and the \<open>k\<close> events behind it.\<close>

definition cont :: "balloc_fun \<Rightarrow> server \<Rightarrow> nat \<Rightarrow> webs_t \<Rightarrow> outcome option" where
  "cont balloc srv k wp = (case read_loop_event balloc srv None wp of Some (Waiting wp) \<Rightarrow> serve balloc srv k wp | r \<Rightarrow> r)"

lemma serve_cont: "serve balloc srv (Suc k) wp = cont balloc srv k wp"
  by (simp add: cont_def websReadEvent_def)

text \<open>The bytes that come to a socket, in this event and in the pieces \<open>ds\<close> of those to come.\<close>

definition stream :: "socket_t \<Rightarrow> bytes list \<Rightarrow> bytes \<Rightarrow> bool" where
  "stream sp ds xs \<longleftrightarrow> sock_ok sp \<and> pieces (after (rx sp)) = ds @ [[]] \<and> pending sp @ concat ds = xs"

lemma first_newline: "a @ z # b = x @ z # y \<Longrightarrow> z \<notin> set a \<Longrightarrow> z \<notin> set x \<Longrightarrow> a = x \<and> b = y"
proof (induction a arbitrary: x)
  case (Cons c a)
  then show ?case by (cases x) auto
qed (auto simp: Cons_eq_append_conv)

lemma next_line:
  assumes "memory balloc" "stream (sock wp) ds (xs @ 10 # ys)" "10 \<notin> set xs" "req_state wp \<in> {WEBS_BEGIN, WEBS_HEADER}"
  defines "l \<equiv> contents (lineBuf (sock wp)) @ no_cr xs"
  shows "\<exists>s s' ds'. cont balloc srv (length ds) wp = cont balloc srv (length ds') (wp\<lparr>sock := s\<rparr>) \<and>
    socketGets balloc s = Some (int (length l), if l = [] then None else Some l, s') \<and> stream s' ds' ys \<and> contents (lineBuf s') = []"
  using assms(2-4) unfolding l_def
proof (induction ds arbitrary: wp xs)
  case Nil
  then have "pending (sock wp) = xs @ 10 # ys" "sock_ok (sock wp)" by (simp_all add: stream_def)
  then obtain s' where s': "socketGets balloc (sock wp) = Some (int (length (contents (lineBuf (sock wp)) @ no_cr xs)),
      if contents (lineBuf (sock wp)) @ no_cr xs = [] then None else Some (contents (lineBuf (sock wp)) @ no_cr xs), s')"
    "sock_ok s'" "pending s' = ys" "pieces (after (rx s')) = pieces (after (rx (sock wp)))" "contents (lineBuf s') = []"
    using sock.line_law [of balloc "sock wp" xs ys] assms(1) Nil.prems(2) by blast
  moreover have "wp\<lparr>sock := sock wp\<rparr> = wp" by simp
  moreover have "stream s' [] ys" using s' Nil.prems(1) by (simp add: stream_def)
  ultimately show ?case by metis
next
  case (Cons d ds)
  have st: "sock_ok (sock wp)" "pieces (after (rx (sock wp))) = d # ds @ [[]]" "pending (sock wp) @ d @ concat ds = xs @ 10 # ys"
    using Cons.prems(1) by (simp_all add: stream_def)
  show ?case
  proof (cases "10 \<in> set (pending (sock wp))")
    case True
    then obtain a b where ab: "pending (sock wp) = a @ 10 # b" "10 \<notin> set a" by (meson split_list_first)
    have "a @ 10 # (b @ d @ concat ds) = xs @ 10 # ys" using st(3) ab(1) by simp
    from first_newline [OF this ab(2) Cons.prems(2)] have ax: "a = xs" "b @ d @ concat ds = ys" by simp_all
    obtain s' where s': "socketGets balloc (sock wp) = Some (int (length (contents (lineBuf (sock wp)) @ no_cr xs)),
        if contents (lineBuf (sock wp)) @ no_cr xs = [] then None else Some (contents (lineBuf (sock wp)) @ no_cr xs), s')"
      "sock_ok s'" "pending s' = b" "pieces (after (rx s')) = pieces (after (rx (sock wp)))" "contents (lineBuf s') = []"
      using sock.line_law [of balloc "sock wp" a b] assms(1) st(1) ab ax(1) by blast
    moreover have "wp\<lparr>sock := sock wp\<rparr> = wp" by simp
    moreover have "stream s' (d # ds) ys" using s' st(2) ax(2) by (simp add: stream_def)
    ultimately show ?thesis by metis
  next
    case False
    obtain s1 where s1: "socketGets balloc (sock wp) = Some (- 1, None, s1)" "sock_ok s1" "pending s1 = d" "pieces (after (rx s1)) = ds @ [[]]"
      "contents (lineBuf s1) = contents (lineBuf (sock wp)) @ no_cr (pending (sock wp))"
      using sock.wait_law [of balloc "sock wp" d "ds @ [[]]"] assms(1) st(1,2) False by blast
    obtain us where "pending (sock wp) = xs @ us \<and> us @ d @ concat ds = 10 # ys \<or> pending (sock wp) @ us = xs \<and> d @ concat ds = us @ 10 # ys"
      using st(3) unfolding append_eq_append_conv2 by blast
    then have "\<exists>xs2. xs = pending (sock wp) @ xs2 \<and> d @ concat ds = xs2 @ 10 # ys" using False by (cases us) auto
    then obtain xs2 where x2: "xs = pending (sock wp) @ xs2" "d @ concat ds = xs2 @ 10 # ys" by blast
    have "\<not> socketEof s1" using s1(2) by (simp add: sock_ok_def socketEof_def)
    then have "websGetInput balloc wp = Some (Finish (Waiting (wp\<lparr>sock := s1\<rparr>)))"
      using s1(1) Cons.prems(3) by (auto simp: websGetInput_def Let_def)
    then have e: "cont balloc srv (length (d # ds)) wp = cont balloc srv (length ds) (wp\<lparr>sock := s1\<rparr>)"
      by (simp add: cont_def read_loop_event.simps [of _ _ _ wp] websReadEvent_def)
    have "stream (sock (wp\<lparr>sock := s1\<rparr>)) ds (xs2 @ 10 # ys)" "10 \<notin> set xs2" "req_state (wp\<lparr>sock := s1\<rparr>) \<in> {WEBS_BEGIN, WEBS_HEADER}"
      using s1 x2 Cons.prems(2,3) by (auto simp: stream_def)
    note IH = Cons.IH [OF this]
    have l: "contents (lineBuf (sock wp)) @ no_cr xs = contents (lineBuf (sock (wp\<lparr>sock := s1\<rparr>))) @ no_cr xs2" using s1(5) x2(1) by simp
    show ?thesis unfolding l e using IH by simp
  qed
qed

text \<open>What a line does: the first one, a field of the header, and the empty one.\<close>

lemma line_step:
  assumes "socketGets balloc s = Some (int (length l), if l = [] then None else Some l, s')" "req_state wp \<noteq> WEBS_POST_CLEN" "l \<noteq> []"
    "read_turn balloc srv None l (wp\<lparr>sock := s'\<rparr>) = Some (Next None wp')"
  shows "cont balloc srv k (wp\<lparr>sock := s\<rparr>) = cont balloc srv k wp'"
proof -
  have "websGetInput balloc (wp\<lparr>sock := s\<rparr>) = Some (Got l (wp\<lparr>sock := s'\<rparr>))"
    using assms(1-3) by (auto simp: websGetInput_def Let_def)
  then show ?thesis using assms(4) by (simp add: cont_def read_loop_event.simps [of _ _ _ "wp\<lparr>sock := s\<rparr>"])
qed

lemma first_step:
  assumes "memory balloc" "stream (sock wp) ds (xs @ 10 # ys)" "10 \<notin> set xs" "req_state wp = WEBS_BEGIN"
    and "contents (lineBuf (sock wp)) = []" "no_cr xs \<noteq> []" "parse_first srv (no_cr xs) (req wp) = Inr r"
  shows "\<exists>s ds'. cont balloc srv (length ds) wp =
      cont balloc srv (length ds') (wp\<lparr>req_state := WEBS_HEADER, sock := s, header := ringqFlush (header wp), req := r\<rparr>) \<and>
    stream s ds' ys \<and> contents (lineBuf s) = []"
proof -
  obtain s s' ds' where n: "cont balloc srv (length ds) wp = cont balloc srv (length ds') (wp\<lparr>sock := s\<rparr>)"
    "socketGets balloc s = Some (int (length (no_cr xs)), if no_cr xs = [] then None else Some (no_cr xs), s')" "stream s' ds' ys" "contents (lineBuf s') = []"
    using next_line [OF assms(1-3), of srv] assms(4,5) by auto
  have "read_turn balloc srv None (no_cr xs) (wp\<lparr>sock := s'\<rparr>) =
      Some (Next None (wp\<lparr>req_state := WEBS_HEADER, sock := s', header := ringqFlush (header wp), req := r\<rparr>))"
    using assms(4,7) by (simp add: read_turn_def websParseFirst_def)
  from line_step [OF n(2) _ assms(6) this] show ?thesis using n assms(4) by auto
qed

lemma join_prefix: "length (join_lines ls) \<le> length (join_lines (ls @ ms))"
proof (induction ms rule: rev_induct)
  case (snoc m ms)
  have "length (join_lines (ls @ ms)) \<le> length (join_lines ((ls @ ms) @ [m]))" by (subst join_lines_snoc) simp
  with snoc show ?case by simp
qed simp

text \<open>Lines as they come from the network, each with its newline.\<close>

abbreviation (input) wire :: "bytes list \<Rightarrow> bytes" where "wire ls \<equiv> concat (map (\<lambda>l. l @ [10]) ls)"

lemma header_lines:
  assumes "memory balloc" "req_state wp = WEBS_HEADER" "hdr_ok (header wp)" "contents (header wp) = join_lines got"
    and "contents (lineBuf (sock wp)) = []" "stream (sock wp) ds (wire hs @ ys)"
    and "\<forall>h\<in>set hs. 10 \<notin> set h \<and> 0 \<notin> set h \<and> no_cr h \<noteq> []" "[] \<notin> set got" "length (join_lines (got @ map no_cr hs)) < 5120"
  shows "\<exists>s q ds'. cont balloc srv (length ds) wp = cont balloc srv (length ds') (wp\<lparr>sock := s, header := q\<rparr>) \<and>
    hdr_ok q \<and> contents q = join_lines (got @ map no_cr hs) \<and> stream s ds' ys \<and> contents (lineBuf s) = []"
  using assms(2-9)
proof (induction hs arbitrary: wp got ds)
  case Nil
  then show ?case by (intro exI [of _ "sock wp"] exI [of _ "header wp"] exI [of _ ds]) simp
next
  case (Cons h hs)
  have h: "10 \<notin> set h" "0 \<notin> set (no_cr h)" "no_cr h \<noteq> []" using Cons.prems(6) by auto
  have "stream (sock wp) ds (h @ 10 # (wire hs @ ys))" using Cons.prems(5) by simp
  then obtain s s' ds' where n: "cont balloc srv (length ds) wp = cont balloc srv (length ds') (wp\<lparr>sock := s\<rparr>)"
    "socketGets balloc s = Some (int (length (no_cr h)), if no_cr h = [] then None else Some (no_cr h), s')" "stream s' ds' (wire hs @ ys)" "contents (lineBuf s') = []"
    using next_line [OF assms(1) _ h(1), of wp ds "wire hs @ ys" srv] Cons.prems(1,4) by auto
  let ?q = "add_line balloc (no_cr h) (header wp)"
  let ?wp = "wp\<lparr>sock := s', header := ?q\<rparr>"
  have "read_turn balloc srv None (no_cr h) (wp\<lparr>sock := s'\<rparr>) = Some (Next None ?wp)"
    using Cons.prems(1) by (simp add: read_turn_def add_line_def Let_def)
  from line_step [OF n(2) _ h(3) this] have e: "cont balloc srv (length ds) wp = cont balloc srv (length ds') ?wp" using n(1) Cons.prems(1) by auto
  have len: "length (join_lines (got @ [no_cr h])) < 5120"
    using join_prefix [of "got @ [no_cr h]" "map no_cr hs"] Cons.prems(8) by simp
  have nz: "[] \<notin> set (got @ [no_cr h])" using Cons.prems(7) h(3) by auto
  note q = add_line [OF assms(1) Cons.prems(2,3) nz h(2) len]
  have "\<exists>s q ds''. cont balloc srv (length ds') ?wp = cont balloc srv (length ds'') (?wp\<lparr>sock := s, header := q\<rparr>) \<and>
      hdr_ok q \<and> contents q = join_lines ((got @ [no_cr h]) @ map no_cr hs) \<and> stream s ds'' ys \<and> contents (lineBuf s) = []"
    by (rule Cons.IH) (use q n Cons.prems nz in auto)
  then show ?case using e by auto
qed

text \<open>The empty line behind the header.\<close>

lemma end_step:
  assumes "memory balloc" "stream (sock wp) ds (e @ 10 # ys)" "10 \<notin> set e" "no_cr e = []" "req_state wp = WEBS_HEADER"
    and "contents (lineBuf (sock wp)) = []" "hdr_ok (header wp)" "contents (header wp) = join_lines ls" "\<forall>l\<in>set ls. 0 \<notin> set l"
    and "header_loop (map (\<lambda>b. char_of (unat b)) (join_lines ls)) (websSetVar ''HTTP_AUTHORIZATION'' (Some []) (req wp)) = Some r"
    and "WEBS_POST_REQUEST \<in> rflags r \<longrightarrow> WEBS_CLEN \<in> rflags r \<and> clen r > 0"
  shows "\<exists>s' ds'. stream s' ds' ys \<and> cont balloc srv (length ds) wp =
      (if WEBS_POST_REQUEST \<in> rflags r then cont balloc srv (length ds') (wp\<lparr>sock := s', req := r, req_state := WEBS_POST_CLEN\<rparr>)
       else Some (Handed (wp\<lparr>sock := s', req := r\<rparr>)))"
proof -
  obtain s s' ds' where n: "cont balloc srv (length ds) wp = cont balloc srv (length ds') (wp\<lparr>sock := s\<rparr>)"
    "socketGets balloc s = Some (0, None, s')" "stream s' ds' ys"
    using next_line [OF assms(1-3), of srv] assms(4-6) by auto
  have z: "0 \<notin> set (contents (header wp))" using set_join_lines [of ls] assms(8,9) by auto
  have p: "websParseRequest (wp\<lparr>sock := s'\<rparr>) = Some (wp\<lparr>sock := s', req := r\<rparr>)"
    using assms(8,10) hdr_text [OF assms(7) z] by (simp add: websParseRequest_def)
  have g: "websGetInput balloc (wp\<lparr>sock := s\<rparr>) = Some (header_end (wp\<lparr>sock := s'\<rparr>))"
    using n(2) assms(5) by (simp add: websGetInput_def Let_def)
  have "cont balloc srv (length ds') (wp\<lparr>sock := s\<rparr>) =
      (if WEBS_POST_REQUEST \<in> rflags r then cont balloc srv (length ds') (wp\<lparr>sock := s', req := r, req_state := WEBS_POST_CLEN\<rparr>)
       else Some (Handed (wp\<lparr>sock := s', req := r\<rparr>)))"
    using g assms(11) by (auto simp: cont_def read_loop_event.simps [of _ _ _ "wp\<lparr>sock := s\<rparr>"] header_end_def p Let_def)
  then show ?thesis using n(1,3) by (intro exI [of _ s'] exI [of _ ds']) simp
qed

text \<open>The whole head of a request: what the parsers make of its lines is what arrives at its end.\<close>

definition head_ok :: "bytes \<Rightarrow> bytes list \<Rightarrow> bytes \<Rightarrow> bool" where
  "head_ok f hs e \<longleftrightarrow> 10 \<notin> set f \<and> no_cr f \<noteq> [] \<and> (\<forall>h\<in>set hs. 10 \<notin> set h \<and> 0 \<notin> set h \<and> no_cr h \<noteq> []) \<and>
     10 \<notin> set e \<and> no_cr e = [] \<and> length (join_lines (map no_cr hs)) < 5120"

definition parsed :: "server \<Rightarrow> auth \<Rightarrow> bytes \<Rightarrow> bytes list \<Rightarrow> request \<Rightarrow> bool" where
  "parsed srv au f hs r \<longleftrightarrow> (\<exists>r1. parse_first srv (no_cr f) (new_request au) = Inr r1 \<and>
     header_loop (map (\<lambda>b. char_of (unat b)) (join_lines (map no_cr hs))) (websSetVar ''HTTP_AUTHORIZATION'' (Some []) r1) = Some r)"

lemma head_read:
  assumes "memory balloc" "ds \<noteq> []" "concat ds = wire (f # hs @ [e]) @ ys" "head_ok f hs e" "parsed srv au f hs r"
    and "WEBS_POST_REQUEST \<in> rflags r \<longrightarrow> WEBS_CLEN \<in> rflags r \<and> clen r > 0"
  shows "\<exists>s ds' q. stream s ds' ys \<and>
    serve balloc srv (length ds) (websAlloc balloc (socketAlloc balloc False (in_pieces ds) answers) au) =
      (if WEBS_POST_REQUEST \<in> rflags r then cont balloc srv (length ds') \<lparr>req_state = WEBS_POST_CLEN, sock = s, header = q, req = r\<rparr>
       else Some (Handed \<lparr>req_state = WEBS_HEADER, sock = s, header = q, req = r\<rparr>))"
proof -
  obtain d ds1 where ds: "ds = d # ds1" using assms(2) by (cases ds) auto
  let ?sp = "socketAlloc balloc False (in_pieces ds) answers" and ?wp = "websAlloc balloc (socketAlloc balloc False (in_pieces ds) answers) au"
  note so = socketAlloc_ok [OF assms(1), of "in_pieces ds" answers] and h = assms(4) [unfolded head_ok_def]
  obtain r1 where r1: "parse_first srv (no_cr f) (new_request au) = Inr r1"
    "header_loop (map (\<lambda>b. char_of (unat b)) (join_lines (map no_cr hs))) (websSetVar ''HTTP_AUTHORIZATION'' (Some []) r1) = Some r"
    using assms(5) by (auto simp: parsed_def)
  have "pending ?sp = d" "pieces (after (rx ?sp)) = ds1 @ [[]]" using so(2,4) ds pieces_in_pieces [of d ds1] by (simp_all add: pending_def)
  then have st: "stream (sock ?wp) ds1 (f @ 10 # (wire hs @ e @ 10 # ys))" using so(1) assms(3) ds by (simp add: stream_def websAlloc_def)
  obtain s1 d1 where s1: "cont balloc srv (length ds1) ?wp =
      cont balloc srv (length d1) (?wp\<lparr>req_state := WEBS_HEADER, sock := s1, header := ringqFlush (header ?wp), req := r1\<rparr>)"
    "stream s1 d1 (wire hs @ e @ 10 # ys)" "contents (lineBuf s1) = []"
    using first_step [OF assms(1) st, of srv r1] h so(3) r1(1) by (auto simp: websAlloc_def)
  let ?w1 = "?wp\<lparr>req_state := WEBS_HEADER, sock := s1, header := ringqFlush (header ?wp), req := r1\<rparr>"
  have hd: "hdr_ok (header ?w1)" using flush_hdr opened_ok [OF assms(1), of 512 5120] by (simp add: websAlloc_def)
  obtain s2 q d2 where s2: "cont balloc srv (length d1) ?w1 = cont balloc srv (length d2) (?w1\<lparr>sock := s2, header := q\<rparr>)"
    "hdr_ok q" "contents q = join_lines (map no_cr hs)" "stream s2 d2 (e @ 10 # ys)" "contents (lineBuf s2) = []"
    using header_lines [OF assms(1) _ hd, of "[]" d1 hs "e @ 10 # ys" srv] s1(2,3) h by auto
  let ?w2 = "?w1\<lparr>sock := s2, header := q\<rparr>"
  have "\<exists>s' ds'. stream s' ds' ys \<and> cont balloc srv (length d2) ?w2 =
      (if WEBS_POST_REQUEST \<in> rflags r then cont balloc srv (length ds') (?w2\<lparr>sock := s', req := r, req_state := WEBS_POST_CLEN\<rparr>)
       else Some (Handed (?w2\<lparr>sock := s', req := r\<rparr>)))"
    by (rule end_step [OF assms(1), where ls = "map no_cr hs"]) (use s2 h r1(2) assms(6) in auto)
  then obtain s' ds' where e: "stream s' ds' ys" "cont balloc srv (length d2) ?w2 =
      (if WEBS_POST_REQUEST \<in> rflags r then cont balloc srv (length ds') (?w2\<lparr>sock := s', req := r, req_state := WEBS_POST_CLEN\<rparr>)
       else Some (Handed (?w2\<lparr>sock := s', req := r\<rparr>)))" by blast
  have "serve balloc srv (length ds) ?wp = cont balloc srv (length d2) ?w2" using ds s1(1) s2(1) by (simp add: serve_cont del: serve.simps)
  then show ?thesis using e by (intro exI [of _ s'] exI [of _ ds'] exI [of _ q]) (simp add: websAlloc_def)
qed

lemma handed_any_split:
  assumes "memory balloc" "ds \<noteq> []" "concat ds = wire (f # hs @ [e]) @ ys" "head_ok f hs e" "parsed srv au f hs r" "WEBS_POST_REQUEST \<notin> rflags r"
  obtains wp where "serve balloc srv (length ds) (websAlloc balloc (socketAlloc balloc False (in_pieces ds) answers) au) = Some (Handed wp)" "req wp = r"
  using head_read [OF assms(1-5), of answers] assms(6) by auto

text \<open>
  C5: However the network cuts a request that is not a POST into pieces, one to a read event, the request that is
  handed to the handlers is what the parsers make of its first line and of the lines of its header. The
  header is less than 5120 bytes long, carriage returns aside, and has no zero byte: the queue it is kept in holds no more, and the
  parser stops at a zero. Every allocation succeeds, and the parsers accept the request.
\<close>

theorem request_any_split:
  assumes "memory balloc" "ds \<noteq> []" "concat ds = concat (map (\<lambda>l. l @ [10]) (f # hs @ [e])) @ ys" "head_ok f hs e"
    and "parsed srv au f hs r" "WEBS_POST_REQUEST \<notin> rflags r"
  shows "\<exists>wp. serve balloc srv (length ds) (websAlloc balloc (socketAlloc balloc False (in_pieces ds) answers) au) = Some (Handed wp) \<and> req wp = r"
  using head_read [OF assms(1-5), of answers] assms(6) by auto

section \<open>The data of a POST request\<close>

text \<open>Reading at most \<open>k\<close> bytes of a stream that has them: all, or what this event has.\<close>

lemma read_some:
  assumes "stream sp ds xs" "0 < k" "k \<le> length xs"
  obtains d sp' ds' xs' where "socketRead k sp = Some (int (length d), d, sp')" "xs = d @ xs'" "stream sp' ds' xs'" "length d \<le> k"
    "ds' = ds \<and> d \<noteq> [] \<or> (\<exists>e. ds = e # ds')"
proof -
  have ok: "in_ok (inBuf sp)" "\<not> SOCKET_BLOCK sp" "\<not> SOCKET_EOF sp" "line_ok (lineBuf sp)" "pieces (after (rx sp)) = ds @ [[]]" "pending sp @ concat ds = xs"
    using assms(1) by (auto simp: stream_def sock_ok_def)
  show ?thesis
  proof (cases "k \<le> length (pending sp)")
    case True
    have "\<exists>q as. read_loop [] k sp = Some (int k, take k (pending sp), sp\<lparr>inBuf := q, rx := as\<rparr>) \<and> in_ok q \<and>
        contents q @ ready as = drop k (pending sp) \<and> after as = after (rx sp)"
      by (rule read_enough [OF ok(1-3) True, of "[]"]) auto
    then obtain q as where r: "read_loop [] k sp = Some (int k, take k (pending sp), sp\<lparr>inBuf := q, rx := as\<rparr>)" "in_ok q"
      "contents q @ ready as = drop k (pending sp)" "after as = after (rx sp)" by blast
    have "stream (sp\<lparr>inBuf := q, rx := as\<rparr>) ds (drop k (pending sp) @ concat ds)"
      using r ok by (simp add: stream_def sock_ok_def pending_def)
    moreover have "take k (pending sp) @ drop k (pending sp) @ concat ds = xs" using ok(6) by (metis append.assoc append_take_drop_id)
    moreover have "take k (pending sp) \<noteq> []" "length (take k (pending sp)) = k" using True assms(2) by auto
    ultimately show ?thesis using that [of "take k (pending sp)" "sp\<lparr>inBuf := q, rx := as\<rparr>" "drop k (pending sp) @ concat ds" ds] r(1) ok(3)
      by (simp add: socketRead_def)
  next
    case False
    obtain as where a: "after (rx sp) = Failure EWOULDBLOCK # as" "pieces (after as) = tl (ds @ [[]])" "ready as = hd (ds @ [[]])"
      using ok(5) by (cases ds) (auto simp: pieces.simps [of "after (rx sp)"] split: list.splits arrival.splits if_splits)
    have "\<exists>q. read_loop [] k sp = ended (pending sp) (sp\<lparr>inBuf := q, rx := after (rx sp)\<rparr>) \<and> in_ok q \<and> contents q = []"
      by (rule read_short [OF ok(1-3), of k "[]"]) (use False in auto)
    then obtain q where q: "read_loop [] k sp = ended (pending sp) (sp\<lparr>inBuf := q, rx := after (rx sp)\<rparr>)" "in_ok q" "contents q = []" by blast
    let ?s = "sp\<lparr>inBuf := q, rx := as\<rparr>"
    have r: "socketRead k sp = Some (int (length (pending sp)), pending sp, ?s)" using q(1) a(1) ok(3) by (simp add: socketRead_def ended_def)
    obtain e es where "ds = e # es" using False assms(3) ok(6) by (cases ds) auto
    moreover from this have "stream ?s es (e @ concat es)" using a q ok by (simp add: stream_def sock_ok_def pending_def)
    ultimately show ?thesis using that [of "pending sp" ?s "e @ concat es" es] r ok(6) False by simp
  qed
qed

text \<open>The data that has come so far, and the request when it is complete.\<close>

abbreviation (input) got_data :: "request \<Rightarrow> bytes" where "got_data r \<equiv> (case postData r of None \<Rightarrow> [] | Some d \<Rightarrow> d)"

definition with_data :: "bytes \<Rightarrow> request \<Rightarrow> request" where
  "with_data body r = r\<lparr>postData := Some (got_data r @ body), rflags := insert WEBS_POST_DATA (rflags r), clen := clen r - int (length body)\<rparr>"

lemma with_data_append: "with_data b (with_data a r) = with_data (a @ b) r"
  by (simp add: with_data_def)

definition plain_post :: "request \<Rightarrow> bool" where
  "plain_post r \<longleftrightarrow> WEBS_CGI_REQUEST \<notin> rflags r \<and> \<not> is_upload r"

lemma plain_with_data: "plain_post r \<Longrightarrow> plain_post (with_data a r)"
  by (simp add: plain_post_def is_upload_def with_data_def)

lemma body_read:
  assumes "memory balloc" "req_state wp = WEBS_POST_CLEN" "plain_post (req wp)" "clen (req wp) = int (length body)" "body \<noteq> []"
    and "stream (sock wp) ds (body @ ys)" "length ds \<le> k"
  shows "\<exists>wp'. cont balloc srv k wp = Some (Handed wp') \<and> req wp' = with_data body (req wp)"
  using assms(2-7)
proof (induction "length ds + length body" arbitrary: wp ds body k rule: less_induct)
  case less
  let ?n = "nat (min (clen (req wp)) 1024)"
  have n: "0 < ?n" "?n \<le> length (body @ ys)" "?n \<le> length body" "min (clen (req wp)) 1024 > 0" using less.prems(3,4) by auto
  obtain d s' ds' xs' where r: "socketRead ?n (sock wp) = Some (int (length d), d, s')" "body @ ys = d @ xs'" "stream s' ds' xs'" "length d \<le> ?n"
    "ds' = ds \<and> d \<noteq> [] \<or> (\<exists>e. ds = e # ds')"
    using read_some [OF less.prems(5) n(1,2)] .
  define rest where "rest = drop (length d) body"
  have "take (length d) (body @ ys) = d" "length d \<le> length body" using r(2,4) n(3) by simp_all
  then have b1: "body = d @ rest" using append_take_drop_id [of "length d" body] by (simp add: rest_def)
  then have b: "body = d @ rest" "xs' = rest @ ys" using r(2) by (simp_all (no_asm_simp)) simp
  have mem: "balloc (length d + 1) \<noteq> None" using assms(1) unfolding memory_def by blast
  show ?case
  proof (cases "d = []")
    case True
    then obtain e where e: "ds = e # ds'" using r(5) by auto
    then obtain k' where k: "k = Suc k'" "length ds' \<le> k'" using less.prems(6) by (cases k) auto
    have "websGetInput balloc wp = Some (Finish (Waiting (wp\<lparr>sock := s'\<rparr>)))"
      using r(1) n(4) less.prems(1) True by (simp add: websGetInput_def Let_def)
    then have c: "cont balloc srv k wp = cont balloc srv k' (wp\<lparr>sock := s'\<rparr>)"
      using k(1) by (simp add: cont_def read_loop_event.simps [of _ _ _ wp] websReadEvent_def)
    show ?thesis unfolding c using less.hyps [of ds' body "wp\<lparr>sock := s'\<rparr>" k'] less.prems e k(2) r(3) b True by simp
  next
    case False
    have g: "websGetInput balloc wp = Some (Got d (wp\<lparr>sock := s'\<rparr>))"
      using r(1) n(4) less.prems(1) False mem by (simp add: websGetInput_def Let_def)
    let ?w = "wp\<lparr>sock := s', req := with_data d (req wp)\<rparr>"
    have t: "read_turn balloc srv None d (wp\<lparr>sock := s'\<rparr>) = Some (if rest = [] then Done (Handed ?w) else Next None ?w)"
      using less.prems(1,2,3) b(1) False by (simp add: read_turn_def post_part_def store_part_def plain_post_def with_data_def Let_def)
    show ?thesis
    proof (cases "rest = []")
      case True
      then have "cont balloc srv k wp = Some (Handed ?w)" using g t by (simp add: cont_def read_loop_event.simps [of _ _ _ wp])
      then show ?thesis using b True by simp
    next
      case more: False
      then have c: "cont balloc srv k wp = cont balloc srv k ?w" using g t by (simp add: cont_def read_loop_event.simps [of _ _ _ wp])
      have "length ds' \<le> length ds" using r(5) by auto
      moreover from this have "length ds' < length ds + length d" using False by (cases d) auto
      moreover have "clen (with_data d (req wp)) = int (length rest)" using less.prems(3) b(1) by (simp add: with_data_def)
      ultimately show ?thesis unfolding c
        using less.hyps [of ds' rest ?w k] less.prems(1,2,6) b r(3) False more plain_with_data by (simp add: with_data_append)
    qed
  qed
qed

text \<open>
  C9: However the network cuts a POST request with a positive content length into pieces, one to a read event, it is
  handed to the handlers when that many bytes have come behind the header, with exactly these bytes as its data.
  This is for requests that are neither for a CGI program, whose data goes to a file, nor
  uploads of an image, which have loops of their own; the header is less than 5120 bytes long, carriage
  returns aside, and has no zero byte, every allocation succeeds, and the parsers accept the request.
\<close>

theorem post_any_split:
  assumes "memory balloc" "ds \<noteq> []" "concat ds = concat (map (\<lambda>l. l @ [10]) (f # hs @ [e])) @ body @ ys" "head_ok f hs e"
    and "parsed srv au f hs r" "{WEBS_POST_REQUEST, WEBS_CLEN} \<subseteq> rflags r" "clen r = int (length body)" "body \<noteq> []"
    and "WEBS_CGI_REQUEST \<notin> rflags r" "\<not> is_upload r" "postData r = None"
  shows "\<exists>wp. serve balloc srv (length ds) (websAlloc balloc (socketAlloc balloc False (in_pieces ds) answers) au) = Some (Handed wp) \<and>
    req wp = r\<lparr>postData := Some body, rflags := insert WEBS_POST_DATA (rflags r), clen := 0\<rparr>"
proof -
  obtain s ds' q where s: "stream s ds' (body @ ys)"
    "serve balloc srv (length ds) (websAlloc balloc (socketAlloc balloc False (in_pieces ds) answers) au) =
      cont balloc srv (length ds') \<lparr>req_state = WEBS_POST_CLEN, sock = s, header = q, req = r\<rparr>"
    using head_read [OF assms(1-5), of answers] assms(6,7,8) by auto
  show ?thesis unfolding s(2)
    using body_read [OF assms(1), of "\<lparr>req_state = WEBS_POST_CLEN, sock = s, header = q, req = r\<rparr>" body ds' ys "length ds'" srv] s(1) assms(7-11)
    by (simp add: plain_post_def with_data_def)
qed

section \<open>URLs\<close>

lemma decode_encode_append: "websDecodeUrl (encode_url s @ t) (length s + n) = s @ websDecodeUrl t n"
proof (induction s)
  case (Cons c s)
  then show ?case using decode_encode_char [of c "encode_url s @ t" "length s + n"] by (simp add: encode_url_def)
qed (simp add: encode_url_def)

lemma decode_pair:
  "websDecodeUrl (encode_url p @ CHR ''?'' # encode_url q) (length (encode_url p @ CHR ''?'' # encode_url q)) = p @ CHR ''?'' # q"
proof -
  define n where "n = length (encode_url p @ CHR ''?'' # encode_url q) - length p - 1 - length q"
  have "length (encode_url p @ CHR ''?'' # encode_url q) = length p + Suc (length q + n)"
    using length_encode [of p] length_encode [of q] by (simp add: n_def)
  then show ?thesis
    by (simp only: decode_encode_append) (simp add: websDecodeUrl.simps [of "CHR ''?'' # _"] decode_encode)
qed

lemma before_append: "c \<notin> set a \<Longrightarrow> before c (a @ c # b) = a" "c \<notin> set a \<Longrightarrow> behind c (a @ c # b) = b"
  by (simp_all add: before_def behind_def takeWhile_append dropWhile_append)

lemma cstring_id: "CHR 0x00 \<notin> set s \<Longrightarrow> cstring s = s"
  by (auto simp: cstring_def takeWhile_eq_all_conv)

lemma split_ext_dot:
  assumes "CHR ''.'' \<notin> set e" "\<forall>c\<in>set e. \<not> garbage c" "list_all garbage g"
  shows "split_ext (p @ CHR ''.'' # e @ g) = (p @ CHR ''.'' # e, CHR ''.'' # e)"
proof -
  have ng: "\<not> garbage CHR ''.''" by (simp add: garbage_def)
  then have g: "CHR ''.'' \<notin> set g" using assms(3) by (auto simp: list_all_iff)
  have "takeWhile (\<lambda>c. c \<noteq> CHR ''.'') (rev (p @ CHR ''.'' # e @ g)) = rev (e @ g)"
    using assms(1) g by (auto simp: takeWhile_append)
  then have l: "last_dot (p @ CHR ''.'' # e @ g) = e @ g" by (simp add: last_dot_def)
  have "takeWhile (\<lambda>c. \<not> garbage c) g = []" using assms(3) by (cases g) auto
  then have t: "takeWhile (\<lambda>c. \<not> garbage c) (CHR ''.'' # e @ g) = CHR ''.'' # e" using ng assms(2) by (simp add: takeWhile_append)
  then show ?thesis using assms(3) l by (simp add: split_ext_def Let_def)
qed

lemma split_tail_query:
  assumes "CHR ''?'' \<notin> set p" "CHR ''#'' \<notin> set q"
  shows "split_tail (p @ CHR ''?'' # q) = (Tok, p, q)"
  using assms by (simp add: split_tail_def before_append Let_def)

lemma url_parts_back:
  assumes "CHR 0x00 \<notin> set (p @ CHR ''.'' # e @ g @ q)" "CHR ''?'' \<notin> set (p @ e @ g)" "CHR ''#'' \<notin> set q"
    and "take 7 (p @ CHR ''.'' # e @ g) \<noteq> ''http://''" "CHR ''.'' \<notin> set e" "\<forall>c\<in>set e. \<not> garbage c" "list_all garbage g"
  shows "websUrlParse own (encode_url (p @ CHR ''.'' # e @ g) @ CHR ''?'' # encode_url q) =
    Some \<lparr>host = ''localhost'', path = p @ CHR ''.'' # e, port = Some own, query = q, ext = CHR ''.'' # e\<rparr>"
proof -
  let ?p = "p @ CHR ''.'' # e @ g"
  have d: "cstring (?p @ CHR ''?'' # q) = ?p @ CHR ''?'' # q" using assms(1) by (intro cstring_id) auto
  have "take 7 (?p @ CHR ''?'' # q) \<noteq> ''http://''"
  proof
    assume h: "take 7 (?p @ CHR ''?'' # q) = ''http://''"
    then have "CHR ''?'' \<notin> set (take 7 (?p @ CHR ''?'' # q))" by simp
    then have "7 \<le> length ?p" by (cases "7 \<le> length ?p") (auto simp: take_Cons')
    then have "take 7 (?p @ CHR ''?'' # q) = take 7 ?p" by (simp only: take_append) simp
    then show False using h assms(4) by simp
  qed
  moreover have "split_tail (?p @ CHR ''?'' # q) = (Tok, ?p, q)" using assms(2,3) by (intro split_tail_query) auto
  ultimately show ?thesis
    using split_ext_dot [OF assms(5-7), of p] unfolding websUrlParse_def decode_pair d by (simp add: Let_def)
qed

text \<open>
  C14: A path and a query that a browser has encoded come out of \<open>websUrlParse\<close> as they were, the
  path with an extension behind its last dot and without slashes and backslashes that follow it. Since the URL is
  decoded before it is split, this needs a path without question mark and a query without number sign, even
  though they were encoded; further there is no zero character in them, and the path does not begin with \<open>http://\<close>.
\<close>

theorem url_roundtrip:
  assumes "CHR 0x00 \<notin> set (p @ CHR ''.'' # e @ g @ q)" "CHR ''?'' \<notin> set (p @ e @ g)" "CHR ''#'' \<notin> set q"
    and "take 7 (p @ CHR ''.'' # e @ g) \<noteq> ''http://''" "CHR ''.'' \<notin> set e" "\<forall>c\<in>set e. \<not> garbage c" "list_all garbage g"
  shows "websUrlParse own (encode_url (p @ CHR ''.'' # e @ g) @ CHR ''?'' # encode_url q) =
    Some \<lparr>host = ''localhost'', path = p @ CHR ''.'' # e, port = Some own, query = q, ext = CHR ''.'' # e\<rparr>"
  using assms by (rule url_parts_back)

section \<open>Decoding twice\<close>

lemma decode_plain_append:
  assumes "CHR ''%'' \<notin> set s" "CHR ''+'' \<notin> set s"
  shows "websDecodeUrl (s @ t) (length s + k) = s @ websDecodeUrl t k"
  using assms
proof (induction s)
  case (Cons c s)
  then show ?case by (auto simp: websDecodeUrl.simps [of "c # _"])
qed simp

lemma decode_escape:
  "websDecodeUrl ''%2570'' (length ''%2570'') = ''%70''" "websDecodeUrl ''%70'' (length ''%70'') = ''p''"
  by code_simp+

definition plain_name :: "string \<Rightarrow> bool" where
  "plain_name n \<longleftrightarrow> (\<forall>c\<in>set n. c \<notin> set ''%+/?#'' \<and> c \<noteq> CHR 0x5C \<and> c \<noteq> CHR 0x00)"

text \<open>
  C39: A page of scripts can be fetched as it is: with \<open>p\<close> encoded twice, the request is not marked as one
  for a page with scripts, since its extension is \<open>.as%70\<close> after the first decoding, but the path of
  the document is decoded again, and names the page.
\<close>

theorem asp_source:
  assumes "plain_name n" "dir \<noteq> []"
  shows "\<exists>p sz. websUrlParse own (''/'' @ n @ ''.as%2570'') = Some p \<and> ext p \<notin> {''.asp'', ''.js''} \<and>
    websValidateUrl (Some dir) (path p) = (0, Some (dir @ ''/'' @ n @ ''.asp'', sz))"
proof -
  let ?s = "''/'' @ n @ ''.as''"
  have s: "CHR ''%'' \<notin> set ?s" "CHR ''+'' \<notin> set ?s" "CHR 0x00 \<notin> set ?s" using assms(1) by (auto simp: plain_name_def)
  have d1: "websDecodeUrl (?s @ ''%2570'') (length (?s @ ''%2570'')) = ?s @ ''%70''"
    using decode_plain_append [OF s(1,2), of "''%2570''" "length ''%2570''"] decode_escape(1) by (simp only: length_append)
  have d2: "websDecodeUrl (?s @ ''%70'') (length (?s @ ''%70'')) = ?s @ ''p''"
    using decode_plain_append [OF s(1,2), of "''%70''" "length ''%70''"] decode_escape(2) by (simp only: length_append)
  have c: "cstring (?s @ ''%70'') = ?s @ ''%70''" by (rule cstring_id) (use s(3) in auto)
  have t: "split_tail (?s @ ''%70'') = (Before, ?s @ ''%70'', [])" using assms(1) by (auto simp: split_tail_def plain_name_def)
  have e: "split_ext (?s @ ''%70'') = (?s @ ''%70'', ''.as%70'')"
    using split_ext_dot [of "''as%70''" "[]" "''/'' @ n"] by (simp add: garbage_def)
  have p: "websUrlParse own (?s @ ''%2570'') =
      Some \<lparr>host = ''localhost'', path = ?s @ ''%70'', port = Some own, query = [], ext = ''.as%70''\<rparr>"
    unfolding websUrlParse_def Let_def d1 c t using e by simp
  obtain tl where "decode_insitu ((?s @ ''%70'') @ [CHR 0x00]) 0 0 (length (?s @ ''%70'')) = (?s @ ''p'') @ CHR 0x00 # tl"
    using decode_insitu_full [of "?s @ ''%70''" "[]" "length (?s @ ''%70'')"] s(3) d2 by auto
  then have c2: "cstring (decode_insitu ((?s @ ''%70'') @ [CHR 0x00]) 0 0 (length (?s @ ''%70''))) = ''/'' @ n @ ''.asp''"
    using cstring_prefix [of "?s @ ''p''" tl] s(3) by (simp only: append.assoc) auto
  have m: "map (\<lambda>c. if c = CHR 0x5C then CHR ''/'' else c) (''/'' @ n @ ''.asp'') = ''/'' @ n @ ''.asp''"
    using assms(1) by (intro map_idI) (auto simp: plain_name_def)
  have "strtok_all (''/'' @ n @ ''.asp'') = [n @ ''.asp'']"
    using strtok_all_join [of "[n @ ''.asp'']"] assms(1) by (auto simp: plain_name_def)
  moreover have "n @ ''.asp'' \<noteq> ''.''" "n @ ''.asp'' \<noteq> ''..''" by (auto simp: append_eq_Cons_conv)
  ultimately have "\<exists>sz. websValidateUrl (Some dir) (?s @ ''%70'') = (0, Some (dir @ ''/'' @ n @ ''.asp'', sz))"
    unfolding websValidateUrl_def Let_def option.case c2 m using assms(2) by simp
  then show ?thesis using p by auto
qed

theorem asp_source_witness:
  "\<exists>p sz. websUrlParse ''80'' ''/index.as%2570'' = Some p \<and> ext p \<notin> {''.asp'', ''.js''} \<and>
     websValidateUrl (Some ''/web'') (path p) = (0, Some (''/web/index.asp'', sz))"
  using asp_source [of "''index''" "''/web''" "''80''"] by (simp add: plain_name_def)

section \<open>Headers that get lost\<close>

lemma token_key:
  assumes "k \<noteq> []" "\<forall>c\<in>set k. c \<notin> set key_delims"
  shows "token_at key_delims (k @ CHR '':'' # t) 0 = Some (0, length k)"
proof -
  have "takeWhile (\<lambda>c. c \<in> set key_delims) (k @ CHR '':'' # t) = []" using assms by (cases k) auto
  moreover have "takeWhile (\<lambda>c. c \<notin> set key_delims) (k @ CHR '':'' # t) = k" using assms(2) by (simp add: takeWhile_append)
  ultimately show ?thesis by (simp add: token_at_def Let_def)
qed

lemma token_next_line:
  assumes "l \<noteq> []" "CHR 0x0A \<notin> set l" "t = [] \<or> hd t = CHR 0x0A"
  shows "token_at newline (k @ CHR '':'' # CHR 0x0A # l @ t) (length k + 1) = Some (length k + 2, length k + 2 + length l)"
proof -
  have d: "drop (length k + 1) (k @ CHR '':'' # CHR 0x0A # l @ t) = CHR 0x0A # l @ t" by simp
  have "takeWhile (\<lambda>c. c \<in> set newline) (CHR 0x0A # l @ t) = [CHR 0x0A]" using assms(1,2) by (cases l) auto
  moreover have "takeWhile (\<lambda>c. c \<notin> set newline) (l @ t) = l" using assms(2,3) by (cases t) (auto simp: takeWhile_append)
  ultimately show ?thesis using assms(1) unfolding token_at_def d by (simp add: Let_def)
qed

lemma value_end_le: "value_end key t \<le> length t"
proof -
  have "length (takeWhile (\<lambda>c. c \<noteq> CHR '' '') (dropWhile isspace t)) \<le> length (dropWhile isspace t)" "length (dropWhile isspace t) \<le> length t"
    by (simp_all add: length_takeWhile_le length_dropWhile_le)
  then show ?thesis by (auto simp: value_end_def Let_def)
qed

lemma cstring_cut:
  assumes "CHR 0x00 \<notin> set l" "n \<le> length l"
  shows "cstring ((l @ t)[length l := CHR 0x00, n := CHR 0x00]) = take n l"
proof -
  let ?x = "(l @ t)[length l := CHR 0x00, n := CHR 0x00]"
  have tk: "take n ?x = take n l" using assms(2) by simp
  have z: "CHR 0x00 \<notin> set (take n l)" using assms(1) by (meson in_set_takeD)
  have "?x = take n l @ drop n ?x" using tk append_take_drop_id [of n ?x] by simp
  moreover have "drop n ?x = [] \<or> hd (drop n ?x) = CHR 0x00"
    by (cases "n < length ?x") (simp_all add: hd_drop_conv_nth)
  moreover have "takeWhile (\<lambda>c. c \<noteq> CHR 0x00) (take n l @ y) = take n l" if "y = [] \<or> hd y = CHR 0x00" for y
    using z that by (cases y) (auto simp: takeWhile_append)
  ultimately have "takeWhile (\<lambda>c. c \<noteq> CHR 0x00) ?x = take n l" by metis
  then show ?thesis by (simp add: cstring_def)
qed

text \<open>
  A field of the header whose value is empty, with nothing behind its colon, hides everything
  behind the line after it: that line is taken for its value, and then read a second time, as the
  last one, so that the rest of the header has no effect on the request.
\<close>

theorem header_lost:
  assumes "k \<noteq> []" "\<forall>c\<in>set k. c \<notin> {CHR '':'', CHR '' '', CHR 0x09, CHR 0x0A}" "l \<noteq> []" "CHR 0x0A \<notin> set l" "CHR 0x00 \<notin> set l"
  shows "header_loop (k @ CHR '':'' # CHR 0x0A # l @ CHR 0x0A # rest) wp = header_loop (k @ CHR '':'' # CHR 0x0A # l) wp"
proof -
  let ?s = "\<lambda>t. k @ CHR '':'' # CHR 0x0A # l @ t" and ?n = "value_end (map Url.tolower k) l"
  have nl: "before CHR 0x0A (?s t) = k @ '':''" for t using before_append(1) [of "CHR 0x0A" "k @ '':''" "l @ t"] assms(2) by auto
  then have lp: "next_lp (?s t) = length k + 2" for t by (simp add: next_lp_def)
  have k: "token_at key_delims (?s t) 0 = Some (0, length k)" for t
    using token_key [OF assms(1), of "CHR 0x0A # l @ t"] assms(2) by simp
  have e: "header_loop (?s t) wp = (case header_line (map Url.tolower k) (dropWhile isspace l) wp of
      None \<Rightarrow> None | Some wp \<Rightarrow> header_loop (take ?n l) wp)" if t: "t = [] \<or> hd t = CHR 0x0A" for t
  proof -
    have "cstring (drop (length k + 2) (cut_at (length k + 2 + ?n) (cut_at (length k + 2 + length l) (cut_at (length k) (?s t))))) = take ?n l"
    proof -
      have "drop (length k + 2) (cut_at (length k + 2 + ?n) (cut_at (length k + 2 + length l) (cut_at (length k) (?s t)))) =
          (l @ t)[length l := CHR 0x00, ?n := CHR 0x00]"
        by (simp add: cut_at_def drop_update_swap list_update_append)
      also have "cstring \<dots> = take ?n l" using assms(5) value_end_le [of "map Url.tolower k" l] by (rule cstring_cut)
      finally show ?thesis .
    qed
    then show ?thesis
      using k [of t] token_next_line [OF assms(3,4) t, of k] assms(1) lp [of t]
      by (subst header_loop.simps) (simp add: Let_def split: option.split)
  qed
  show ?thesis using e [of "CHR 0x0A # rest"] e [of "[]"] by simp
qed

section \<open>Uploads that never end\<close>

text \<open>A connection that the client has closed, or will have behind the bytes that are pending.\<close>

definition closing :: "socket_t \<Rightarrow> bool" where
  "closing sp \<longleftrightarrow> in_ok (inBuf sp) \<and> \<not> SOCKET_BLOCK sp \<and> (\<exists>as. after (rx sp) = Closed # as) \<and> (SOCKET_EOF sp \<longrightarrow> pending sp = [])"

lemma closed_read:
  assumes "closing sp" "0 < n"
  shows "\<exists>d sp'. socketRead n sp = Some (int (length d), d, sp') \<and> length d \<le> length (pending sp) \<and>
    closing sp' \<and> length (pending sp') = length (pending sp) - length d"
proof -
  obtain as where c: "in_ok (inBuf sp)" "\<not> SOCKET_BLOCK sp" "after (rx sp) = Closed # as" using assms(1) by (auto simp: closing_def)
  show ?thesis
  proof (cases "SOCKET_EOF sp")
    case True
    then show ?thesis using assms(1) by (intro exI [of _ "[]"] exI [of _ sp]) (simp add: socketRead_def)
  next
    case eof: False
    show ?thesis
    proof (cases "n \<le> length (pending sp)")
      case True
      have "\<exists>q as. read_loop [] n sp = Some (int n, take n (pending sp), sp\<lparr>inBuf := q, rx := as\<rparr>) \<and> in_ok q \<and>
          contents q @ ready as = drop n (pending sp) \<and> after as = after (rx sp)"
        by (rule read_enough [OF c(1,2) eof True, of "[]"]) auto
      then obtain q bs where r: "read_loop [] n sp = Some (int n, take n (pending sp), sp\<lparr>inBuf := q, rx := bs\<rparr>)" "in_ok q"
        "contents q @ ready bs = drop n (pending sp)" "after bs = after (rx sp)" by blast
      then show ?thesis using True eof c
        by (intro exI [of _ "take n (pending sp)"] exI [of _ "sp\<lparr>inBuf := q, rx := bs\<rparr>"])
          (simp add: socketRead_def closing_def, simp add: pending_def)
    next
      case False
      have "\<exists>q. read_loop [] n sp = ended (pending sp) (sp\<lparr>inBuf := q, rx := after (rx sp)\<rparr>) \<and> in_ok q \<and> contents q = []"
        by (rule read_short [OF c(1,2) eof, of n "[]"]) (use False in auto)
      then obtain q where q: "read_loop [] n sp = ended (pending sp) (sp\<lparr>inBuf := q, rx := after (rx sp)\<rparr>)" "in_ok q" "contents q = []" by blast
      then show ?thesis using eof c
        by (intro exI [of _ "pending sp"] exI [of _ "sp\<lparr>inBuf := q, rx := Closed # as, SOCKET_EOF := (pending sp = [])\<rparr>"])
          (simp add: socketRead_def ended_def closing_def, simp add: pending_def)
    qed
  qed
qed

lemma keep_endless: "keep_loop data c sp = Some y \<Longrightarrow> closing sp \<longrightarrow> c \<le> int (length (pending sp))"
proof (erule keep_loop.raw_induct [rotated], intro impI, rule ccontr)
  fix rec and data :: bytes and c sp y
  assume IH: "\<And>data c sp y. rec data c sp = Some y \<Longrightarrow> closing sp \<longrightarrow> c \<le> int (length (pending sp))"
    and b: "(if 0 < c
         then case socketRead (nat c) sp of None \<Rightarrow> None
              | Some (nbytes, d, sp) \<Rightarrow>
                  if nbytes < 0 then if data = [] then Some (Inl Fault) else rec (butlast data) (c - nbytes) sp
                  else rec (data @ d) (c - nbytes) sp
         else Some (Inr (data, c, sp))) = Some y"
    and cl: "closing sp" and n: "\<not> c \<le> int (length (pending sp))"
  have c: "0 < c" "0 < nat c" using n by auto
  obtain d sp' where r: "socketRead (nat c) sp = Some (int (length d), d, sp')" "length d \<le> length (pending sp)"
    "closing sp'" "length (pending sp') = length (pending sp) - length d"
    using closed_read [OF cl c(2)] by blast
  then have "rec (data @ d) (c - int (length d)) sp' = Some y" using b c by simp
  then show False using IH r(2-4) n by (fastforce simp: of_nat_diff)
qed

lemma discard_endless: "discard_loop k c sp = Some y \<Longrightarrow> closing sp \<longrightarrow> c \<le> int (length (pending sp))"
proof (erule discard_loop.raw_induct [rotated], intro impI, rule ccontr)
  fix rec and k c :: int and sp y
  assume IH: "\<And>k c sp y. rec k c sp = Some y \<Longrightarrow> closing sp \<longrightarrow> c \<le> int (length (pending sp))"
    and b: "(if 0 < c
         then case socketRead 1024 sp of None \<Rightarrow> None | Some (nbytes, _, sp) \<Rightarrow> rec nbytes (c - nbytes) sp
         else Some (k, c, sp)) = Some y"
    and cl: "closing sp" and n: "\<not> c \<le> int (length (pending sp))"
  obtain d sp' where r: "socketRead 1024 sp = Some (int (length d), d, sp')" "length d \<le> length (pending sp)"
    "closing sp'" "length (pending sp') = length (pending sp) - length d"
    using closed_read [OF cl, of 1024] by auto
  moreover have "0 < c" using n by auto
  ultimately have "rec (int (length d)) (c - int (length d)) sp' = Some y" using b by simp
  then show False using IH r(2-4) n by (fastforce simp: of_nat_diff)
qed

text \<open>
  C40: A client that announces an image and closes the connection before all of it has been sent stops
  the server: every call of \<open>socketRead\<close> returns, but the loop that waits for the rest of the data does
  not end, whether the data is kept or thrown away.
\<close>

theorem upload_never_ends:
  assumes "closing sp" "clen r > int (length text) + int (length (pending sp))"
  shows "upload srv text sp r = None \<and> (\<forall>n>0. \<exists>d sp'. socketRead n sp = Some (int (length d), d, sp') \<and> closing sp')"
proof -
  have "keep_loop data (clen r - int (length text)) sp = None" for data
    using keep_endless [of data "clen r - int (length text)" sp] assms by (cases "keep_loop data (clen r - int (length text)) sp") fastforce+
  moreover have "discard_loop k (clen r - int (length text)) sp = None" for k
    using discard_endless [of k "clen r - int (length text)" sp] assms by (cases "discard_loop k (clen r - int (length text)) sp") fastforce+
  moreover have "\<exists>d sp'. socketRead n sp = Some (int (length d), d, sp') \<and> closing sp'" if "0 < n" for n
    using closed_read [OF assms(1) that] by blast
  ultimately show ?thesis by (simp add: upload_def Let_def)
qed

section \<open>Forms\<close>

text \<open>The text a browser sends for the fields of a form.\<close>

definition form_field :: "string \<times> string \<Rightarrow> string" where
  "form_field kv = encode_url (fst kv) @ CHR ''='' # encode_url (snd kv)"

fun form_text :: "(string \<times> string) list \<Rightarrow> string" where
  "form_text [] = []"
| "form_text [f] = form_field f"
| "form_text (f # fs) = form_field f @ CHR ''&'' # form_text fs"

lemma encode_chars: "c \<in> set (encode_url s) \<Longrightarrow> unreserved c \<or> c = CHR ''%''"
proof -
  have h: "unreserved (hexdig n)" for n
  proof -
    have "n mod 16 < 16" by simp
    from upto16 [OF this] show ?thesis by (elim disjE) (simp_all add: hexdig_def unreserved_def)
  qed
  assume "c \<in> set (encode_url s)"
  then show ?thesis using h by (auto simp: encode_url_def encode_char_def split: if_splits)
qed

lemma encode_no: "CHR ''&'' \<notin> set (encode_url s)" "CHR ''='' \<notin> set (encode_url s)"
  using encode_chars [of "CHR ''&''" s] encode_chars [of "CHR ''=''" s] by (auto simp: unreserved_def Let_def)

lemma field_no_amp: "CHR ''&'' \<notin> set (form_field f)" "form_field f \<noteq> []"
  using encode_no by (auto simp: form_field_def)

lemma tokens_step:
  assumes "t \<noteq> []" "CHR ''&'' \<notin> set t"
  shows "tokens (t @ CHR ''&'' # r) = t # tokens r" "tokens t = [t]"
proof -
  have d: "dropWhile (\<lambda>c. c = CHR ''&'') (t @ r) = t @ r" for r using assms by (cases t) auto
  have t: "takeWhile (\<lambda>c. c \<noteq> CHR ''&'') (t @ CHR ''&'' # r) = t" "dropWhile (\<lambda>c. c \<noteq> CHR ''&'') (t @ CHR ''&'' # r) = CHR ''&'' # r"
    "takeWhile (\<lambda>c. c \<noteq> CHR ''&'') t = t" "dropWhile (\<lambda>c. c \<noteq> CHR ''&'') t = []"
    using assms(2) by (induction t) auto
  have "strtok ''&'' (t @ CHR ''&'' # r) = Some (t, r)" by (simp add: strtok_def Let_def d t)
  moreover have "strtok ''&'' t = Some (t, [])" using d [of "[]"] assms(1) by (simp add: strtok_def Let_def t)
  moreover have "tokens [] = []" by (simp add: tokens.simps [of "[]"] strtok_def)
  ultimately show "tokens (t @ CHR ''&'' # r) = t # tokens r" "tokens t = [t]"
    by (simp_all add: tokens.simps [of "t @ _"] tokens.simps [of t])
qed

lemma tokens_form: "tokens (form_text fs) = map form_field fs"
proof (induction fs rule: form_text.induct)
  case 1
  show ?case by (simp add: tokens.simps [of "[]"] strtok_def)
qed (use field_no_amp tokens_step in auto)

lemma decode_full: "CHR 0x00 \<notin> set s \<Longrightarrow> cstring (websDecodeUrl (encode_url s) (length (encode_url s))) = s"
  using decode_encode [of s "length (encode_url s) - length s"] length_encode [of s] by (simp add: cstring_id)

lemma set_pair_field:
  assumes "k \<noteq> []" "CHR 0x00 \<notin> set (k @ v)" "cgiVars wp k = None"
  shows "set_pair (form_field (k, v)) wp = websSetVar k (Some v) wp"
  using assms encode_no(2) [of k] decode_full [of k] decode_full [of v]
  by (simp add: set_pair_def form_field_def before_append websGetVar_def Let_def)

lemma set_pairs_form:
  assumes "distinct (map fst fs)" "\<forall>(k, v)\<in>set fs. k \<noteq> [] \<and> CHR 0x00 \<notin> set (k @ v) \<and> cgiVars wp k = None"
  shows "cgiVars (fold set_pair (tokens (form_text fs)) wp) = cgiVars wp ++ map_of fs"
  unfolding tokens_form using assms
proof (induction fs arbitrary: wp)
  case (Cons f fs)
  obtain k v where f: "f = (k, v)" by (cases f)
  let ?w = "websSetVar k (Some v) wp"
  have "set_pair (form_field f) wp = ?w" using Cons.prems(2) f by (intro set_pair_field [of k v, folded f]) auto
  moreover have "cgiVars (fold set_pair (map form_field fs) ?w) = cgiVars ?w ++ map_of fs"
  proof (rule Cons.IH)
    have "k \<noteq> fst x" if "x \<in> set fs" for x using Cons.prems(1) f that by auto
    then show "\<forall>(k, v)\<in>set fs. k \<noteq> [] \<and> CHR 0x00 \<notin> set (k @ v) \<and> cgiVars ?w k = None"
      using Cons.prems(2) by (fastforce simp: websSetVar_def)
  qed (use Cons.prems(1) in simp)
  moreover have "k \<notin> dom (map_of fs)" using Cons.prems(1) f by (simp add: dom_map_of_conv_image_fst)
  ultimately show ?case using f by (auto simp: websSetVar_def fun_eq_iff map_add_def split: option.split)
qed simp

lemma form_no_nul: "CHR 0x00 \<notin> set (form_text fs)"
proof -
  have "CHR 0x00 \<notin> set (encode_url t)" for t using encode_chars [of "CHR 0x00" t] by (auto simp: unreserved_def Let_def)
  then have "CHR 0x00 \<notin> set (form_field f)" for f by (auto simp: form_field_def)
  then show ?thesis by (induction fs rule: form_text.induct) auto
qed

lemma set_all_keeps: "rquery (set_all vs wp) = rquery wp" "rflags (set_all vs wp) = rflags wp" "postData (set_all vs wp) = postData wp"
  by (induction vs arbitrary: wp) (auto simp: set_all_def websSetVar_def)

lemma set_var_data: "websSetVar n x (wp\<lparr>postData := d\<rparr>) = (websSetVar n x wp)\<lparr>postData := d\<rparr>"
  by (cases wp) (simp add: websSetVar_def)

lemma set_all_data: "set_all vs (wp\<lparr>postData := d\<rparr>) = (set_all vs wp)\<lparr>postData := d\<rparr>"
proof (induction vs arbitrary: wp)
  case (Cons v vs)
  obtain n t where v: "v = (n, t)" by (cases v)
  have "set_all (v # vs) (wp\<lparr>postData := d\<rparr>) = set_all vs ((websSetVar n (Some t) wp)\<lparr>postData := d\<rparr>)"
    by (simp add: set_all_def v set_var_data)
  also have "\<dots> = (set_all (v # vs) wp)\<lparr>postData := d\<rparr>" unfolding Cons.IH by (simp add: set_all_def v)
  finally show ?case .
qed (simp add: set_all_def)

lemma same_data: "postData wp = d \<Longrightarrow> wp\<lparr>postData := d, rquery := q\<rparr> = wp\<lparr>rquery := q\<rparr>"
  by (cases wp) simp

text \<open>
  C15: The fields of a form that is sent as the data of a POST request become variables of the
  request when \<open>websSetEnv\<close> runs: names and values are what the browser encoded, whatever characters but zero they
  have, and the other variables are those of the request without the data. The URL has no query, the form
  is not one with several parts, names are not empty and differ from each other and from those
  other variables (a value would be appended to theirs). A form in the query of a URL is not covered: \<open>websUrlParse\<close> decodes the query once before.
\<close>

theorem form_roundtrip:
  assumes "postData wp = Some (to_bytes (form_text fs))" "rquery wp = []" "WEBS_MULTIPART_FORM \<notin> rflags wp"
    and "distinct (map fst fs)" "\<forall>(k, v)\<in>set fs. k \<noteq> [] \<and> CHR 0x00 \<notin> set (k @ v)"
    and "\<forall>(k, v)\<in>set fs. cgiVars (websSetEnv extract en (wp\<lparr>postData := None\<rparr>)) k = None"
  shows "cgiVars (websSetEnv extract en wp) = cgiVars (websSetEnv extract en (wp\<lparr>postData := None\<rparr>)) ++ map_of fs"
proof -
  let ?w0 = "websSetEnv extract en (wp\<lparr>postData := None\<rparr>)"
  let ?w = "?w0\<lparr>postData := postData wp, rquery := form_text fs\<rparr>"
  have t: "tokens [] = []" by (simp add: tokens.simps [of "[]"] strtok_def)
  have "websSetEnv extract en wp = fold set_pair (tokens (form_text fs)) ?w"
    using assms(1-3) to_string_to_bytes [OF form_no_nul [of fs]] by (simp add: websSetEnv_def Let_def set_all_keeps set_all_data same_data t)
  moreover have "cgiVars ?w = cgiVars ?w0" by simp
  ultimately show ?thesis using set_pairs_form [OF assms(4), of ?w] assms(5,6) by fastforce
qed

text \<open>
  A form in the query of a URL: an ampersand in a value separates pairs although it was encoded, since
  \<open>websUrlParse\<close> has decoded it before \<open>websSetEnv\<close> splits the query. The value is cut there, and what
  follows becomes a variable of its own.
\<close>

theorem query_form_splits:
  assumes "CHR 0x00 \<notin> set (p @ CHR ''.'' # e)" "CHR ''?'' \<notin> set (p @ e)" "take 7 (p @ CHR ''.'' # e) \<noteq> ''http://''"
    and "CHR ''.'' \<notin> set e" "\<forall>c\<in>set e. \<not> garbage c"
    and "\<forall>c\<in>set (k @ a @ b). unreserved c" "k \<noteq> []" "b \<noteq> []" "k \<noteq> b" "cgiVars wp k = None" "cgiVars wp b = None"
  shows "\<exists>u. websUrlParse own (encode_url (p @ CHR ''.'' # e) @ CHR ''?'' # encode_url (k @ ''='' @ a @ ''&'' @ b)) = Some u \<and>
    cgiVars (fold set_pair (tokens (query u)) wp) = (cgiVars wp)(k \<mapsto> a, b \<mapsto> [])"
proof -
  let ?q = "k @ ''='' @ a @ ''&'' @ b"
  have no: "c \<notin> set (k @ a @ b)" if "\<not> unreserved c" for c using assms(6) that by auto
  have u: "\<not> unreserved CHR ''&''" "\<not> unreserved CHR ''=''" "\<not> unreserved CHR ''#''" "\<not> unreserved CHR 0x00" "\<not> unreserved CHR ''%''"
    "\<not> unreserved CHR ''+''" by (simp_all add: unreserved_def)
  note n = u [THEN no]
  have "websUrlParse own (encode_url (p @ CHR ''.'' # e @ []) @ CHR ''?'' # encode_url ?q) =
      Some \<lparr>host = ''localhost'', path = p @ CHR ''.'' # e, port = Some own, query = ?q, ext = CHR ''.'' # e\<rparr>"
    by (rule url_parts_back) (use assms n in auto)
  moreover have "cgiVars (fold set_pair (tokens ?q) wp) = (cgiVars wp)(k \<mapsto> a, b \<mapsto> [])"
  proof -
    have "tokens ((k @ ''='' @ a) @ CHR ''&'' # b) = [k @ ''='' @ a, b]" using tokens_step(1) [of "k @ ''='' @ a" b] tokens_step(2) [of b] n(1) assms(7,8) by simp
    moreover have "set_pair (k @ ''='' @ a) wp = websSetVar k (Some a) wp"
    proof -
      have "before CHR ''='' (k @ CHR ''='' # a) = k" "behind CHR ''='' (k @ CHR ''='' # a) = a" using n(2) by (simp_all add: before_append)
      moreover have "cstring (websDecodeUrl k (length k)) = k" "cstring (websDecodeUrl a (length a)) = a"
        using decode_plain_append [of k "[]" 0] decode_plain_append [of a "[]" 0] n(4-6) by (simp_all add: cstring_id websDecodeUrl.simps [of "[]"])
      ultimately show ?thesis using assms(7,10) by (simp add: set_pair_def websGetVar_def Let_def)
    qed
    moreover have "set_pair b w = websSetVar b (Some []) w" if "cgiVars w b = None" for w
      using n(2) assms(8) that by (simp add: set_pair_def websGetVar_def Let_def)
    ultimately show ?thesis using assms(9,11) by (simp add: websSetVar_def)
  qed
  ultimately show ?thesis by simp
qed

section \<open>POST without a length\<close>

text \<open>
  A POST request without a content length is refused when its data has not arrived with the header:
  that no complete line is there yet is taken for an error.
\<close>

theorem post_without_length:
  assumes "memory balloc" "sock_ok (sock wp)" "req_state wp = WEBS_POST" "10 \<notin> set (pending (sock wp))"
    and "after (rx (sock wp)) = Failure EWOULDBLOCK # as"
  shows "websReadEvent balloc srv wp = Some (Ended (Refused 500 ''INCORRECT HTTP CONTENT''))"
proof -
  obtain s1 where s1: "socketGets balloc (sock wp) = Some (- 1, None, s1)" "sock_ok s1"
    using gets_wait [OF assms(1,2,4,5)] by (metis reads_def)
  then have "websGetInput balloc wp = Some (Finish (Ended (Refused 500 ''INCORRECT HTTP CONTENT'')))"
    using assms(3) by (simp add: websGetInput_def sock_ok_def socketEof_def Let_def)
  then show ?thesis by (simp add: websReadEvent_def read_loop_event.simps [of _ _ _ wp])
qed

section \<open>Samples\<close>

definition srv0 :: server where
  "srv0 = \<lparr>ownport = ''80'', listenPort = 80, getFlashSize = 0x400000, burning = False, upload_memory = True\<rparr>"

definition get_line1 :: bytes where
  "get_line1 = map of_char ''GET /a.asp?x=1 HTTP/1.0'' @ [13]"

definition post_line1 :: bytes where
  "post_line1 = map of_char ''POST /goform/x HTTP/1.0'' @ [13]"

definition cookie_line :: bytes where
  "cookie_line = map of_char ''Cookie: a'' @ [13]"

definition length_line :: bytes where
  "length_line = map of_char ''Content-Length: 2''"

definition sample_parse :: "bytes \<Rightarrow> bytes list \<Rightarrow> request option" where
  "sample_parse f hs =
     (case parse_first srv0 (no_cr f) (new_request Auth.wp0) of
        Inl _ \<Rightarrow> None
      | Inr r \<Rightarrow> header_loop (map (\<lambda>b. char_of (unat b)) (join_lines (map no_cr hs))) (websSetVar ''HTTP_AUTHORIZATION'' (Some []) r))"

lemma sample_parsed: "sample_parse f hs = Some r \<Longrightarrow> parsed srv0 Auth.wp0 f hs r"
  by (auto simp: sample_parse_def parsed_def split: sum.splits)

lemma sample_get:
  "case sample_parse get_line1 [cookie_line] of
     None \<Rightarrow> False
   | Some r \<Rightarrow> rflags r = {WEBS_COOKIE, WEBS_ASP} \<and> rpath r = ''/a.asp'' \<and> rquery r = ''x=1'' \<and> cookie r = Some ''a'' \<and> rtype r = ''text/html'' \<and>
       rurl r = ''/a.asp?x=1'' \<and> \<not> LOCAL_REQUEST (credentials r) \<and> \<not> AUTH_DIGEST (credentials r) \<and> password (credentials r) = None"
  by code_simp

lemma sample_post:
  "case sample_parse post_line1 [length_line] of
     None \<Rightarrow> False
   | Some r \<Rightarrow> rflags r = {WEBS_POST_REQUEST, WEBS_CLEN} \<and> clen r = 2 \<and> rurl r = ''/goform/x'' \<and> postData r = None"
  by code_simp

text \<open>A request cut in the middle of its lines.\<close>

definition get_pieces :: "bytes list" where
  "get_pieces = [take 7 get_line1, drop 7 get_line1 @ [10] @ take 3 cookie_line, drop 3 cookie_line @ [10, 13], [10]]"

definition post_pieces :: "bytes list" where
  "post_pieces = [post_line1 @ [10] @ length_line, [10, 10, 7], [8, 9]]"

lemma head_ok_samples: "head_ok get_line1 [cookie_line] [13]" "head_ok post_line1 [length_line] []"
  by (simp_all add: head_ok_def) code_simp+

lemma pieces_samples:
  "concat get_pieces = concat (map (\<lambda>l. l @ [10]) (get_line1 # [cookie_line] @ [[13]])) @ []"
  "concat post_pieces = concat (map (\<lambda>l. l @ [10]) (post_line1 # [length_line] @ [[]])) @ [7, 8] @ [9]"
  by code_simp+

theorem request_any_split_witness:
  "\<exists>wp. serve plenty srv0 4 (websAlloc plenty (socketAlloc plenty False (in_pieces get_pieces) []) Auth.wp0) = Some (Handed wp) \<and>
     rpath (req wp) = ''/a.asp'' \<and> rquery (req wp) = ''x=1'' \<and> cookie (req wp) = Some ''a'' \<and> WEBS_ASP \<in> rflags (req wp)"
proof -
  obtain r where r: "sample_parse get_line1 [cookie_line] = Some r" "rflags r = {WEBS_COOKIE, WEBS_ASP}" "rpath r = ''/a.asp''" "rquery r = ''x=1''"
    "cookie r = Some ''a''"
    using sample_get by (auto split: option.splits)
  have l: "length get_pieces = 4" "get_pieces \<noteq> []" by (simp_all add: get_pieces_def)
  show ?thesis
    using request_any_split [OF memory_plenty l(2) pieces_samples(1) head_ok_samples(1) sample_parsed [OF r(1)], of "[]"] r(2-5) l(1) by auto
qed

theorem post_any_split_witness:
  "\<exists>wp. serve plenty srv0 3 (websAlloc plenty (socketAlloc plenty False (in_pieces post_pieces) []) Auth.wp0) = Some (Handed wp) \<and>
     postData (req wp) = Some [7, 8] \<and> clen (req wp) = 0"
proof -
  obtain r where r: "sample_parse post_line1 [length_line] = Some r" "rflags r = {WEBS_POST_REQUEST, WEBS_CLEN}" "clen r = 2" "rurl r = ''/goform/x''"
    "postData r = None"
    using sample_post by (auto split: option.splits)
  have l: "length post_pieces = 3" "post_pieces \<noteq> []" by (simp_all add: post_pieces_def)
  show ?thesis
    using post_any_split [OF memory_plenty l(2) pieces_samples(2) head_ok_samples(2) sample_parsed [OF r(1)], of "[]"] r(2-5) l(1)
    by (auto simp: is_upload_def)
qed

theorem url_roundtrip_witness:
  "websUrlParse ''80'' (encode_url ''/a b.asp/'' @ ''?'' @ encode_url ''x=1&y'') =
     Some \<lparr>host = ''localhost'', path = ''/a b.asp'', port = Some ''80'', query = ''x=1&y'', ext = ''.asp''\<rparr>"
  using url_roundtrip [of "''/a b''" "''asp''" "''/''" "''x=1&y''" "''80''"] by (simp add: garbage_def)

theorem header_lost_witness:
  "header_loop (''Accept:'' @ CHR 0x0A # ''Host: x'' @ CHR 0x0A # ''Authorization: y'') (new_request Auth.wp0) =
     header_loop (''Accept:'' @ CHR 0x0A # ''Host: x'') (new_request Auth.wp0)"
  using header_lost [of "''Accept''" "''Host: x''" "''Authorization: y''" "new_request Auth.wp0"] by simp

theorem upload_never_ends_witness:
  "upload srv0 [1] (socketAlloc plenty False [Data [2], Closed] []) ((new_request Auth.wp0)\<lparr>clen := 3\<rparr>) = None"
proof -
  let ?sp = "socketAlloc plenty False [Data [2], Closed] []"
  have "closing ?sp" "pending ?sp = [2]"
    using socketAlloc_ok(1,2,4) [OF memory_plenty, of "[Data [2], Closed]" "[]"] by (simp_all add: closing_def pending_def sock_ok_def)
  then show ?thesis using upload_never_ends [of ?sp "[1]" "(new_request Auth.wp0)\<lparr>clen := 3\<rparr>" srv0] by simp
qed

definition env_sample :: env where
  "env_sample = \<lparr>websHost = ''h'', websHostUrl = ''h'', websIpaddr = ''i'', websPort = ''80''\<rparr>"

lemma env_sample_none:
  "cgiVars (websSetEnv id env_sample ((new_request Auth.wp0)\<lparr>postData := None\<rparr>)) ''a'' = None"
  "cgiVars (websSetEnv id env_sample ((new_request Auth.wp0)\<lparr>postData := None\<rparr>)) ''b'' = None"
  by code_simp+

theorem form_roundtrip_witness:
  "cgiVars (websSetEnv id env_sample ((new_request Auth.wp0)\<lparr>postData := Some (to_bytes (form_text [(''a'', ''1 2''), (''b'', ''&'')]))\<rparr>)) ''b'' = Some ''&''"
  using form_roundtrip [of "(new_request Auth.wp0)\<lparr>postData := Some (to_bytes (form_text [(''a'', ''1 2''), (''b'', ''&'')]))\<rparr>"
      "[(''a'', ''1 2''), (''b'', ''&'')]" id env_sample] env_sample_none by (simp add: new_request_def)

theorem query_form_splits_witness:
  "\<exists>u. websUrlParse ''80'' (encode_url ''/f.asp'' @ CHR ''?'' # encode_url ''x=1&y'') = Some u \<and>
     cgiVars (fold set_pair (tokens (query u)) (new_request Auth.wp0)) = (cgiVars (new_request Auth.wp0))(''x'' \<mapsto> ''1'', ''y'' \<mapsto> [])"
  using query_form_splits [of "''/f''" "''asp''" "''x''" "''1''" "''y''" "new_request Auth.wp0" "''80''"]
  by (simp add: new_request_def garbage_def unreserved_def)

theorem post_without_length_witness:
  "websReadEvent plenty srv0 ((websAlloc plenty (socketAlloc plenty False [Failure EWOULDBLOCK] []) Auth.wp0)\<lparr>req_state := WEBS_POST\<rparr>) =
     Some (Ended (Refused 500 ''INCORRECT HTTP CONTENT''))"
  by (rule post_without_length [OF memory_plenty])
    (use socketAlloc_ok(1,2,4) [OF memory_plenty, of "[Failure EWOULDBLOCK]" "[]"] in \<open>simp_all add: websAlloc_def pending_def\<close>)

end
