(* ===== verification/Spec2Isabelle.thy ===== *)
theory Spec2Isabelle
  imports Prelude Crc EnvParam Tools Gpio GpioDevice Ringq HAlloc Sym Base64 SpiFlash Switch LinkUtil BrLoop Md5 Balloc HttpDate Url Handler WpsMonitor EjLex Fmt Auth EjParse Asp Sock Request
begin

text \<open>
  Verification of the firmware of a wireless access point: the code of the product itself, not the
  kernel, boot loader and tools it is built on.

  \<^bold>\<open>The program.\<close> A box with a switch, a wireless station and a small flash chip. Its own code has
  four layers, all under \<open>src/\<close>:

  \<^item> drivers of the board in \<open>kernel/linux-2.6.16-star/drivers\<close>: the GPIO controller
    (\<open>char/str9100_gpio.c\<close>), the SPI flash (\<open>mtd/devices/str8131_spiflash.c\<close>), the switch
    (\<open>net/str9100/star_gsw_phy.c\<close>), and the device for buttons and LEDs (\<open>apps/gpio_driver\<close>);
  \<^item> small tools in \<open>apps\<close>: checksums (\<open>crc\<close>), the environment sector of the boot loader
    (\<open>set_env_param\<close>, \<open>get_env_param\<close>), a file comparison (\<open>simpdiff\<close>), an event sender (\<open>ipc_api\<close>);
  \<^item> daemons: the detection of bridge loops, which reads the wireless link status and writes the
    switch's proc files (\<open>detected_BrLoop\<close>), the forced renewal of wired addresses (\<open>force_ethpc_renew_ip\<close>), and the
    monitor of the WPS status for the HNAP server (\<open>hnap_wps_status_monitor\<close>);
  \<^item> the web server (\<open>apps/WebServer\<close>): allocator, ring queues, handles and symbol tables at the bottom;
    formatting, Base64, MD5 and dates above them; buffered sockets and the reading of requests from them; URL
    paths, the table of URL handlers and the security handler that decides on each request; the interpreter of
    the scripts in its pages, and the expansion of the pages.

  \<^bold>\<open>The theories.\<close> Each models one component with the names of the source; structs are records, enums
  datatypes, loops recursive functions, faults and error returns values.

  \<^item> \<open>Prelude\<close>: machine words, lists, C strings, runs of step functions, and the locale
    \<open>invariant_system\<close> that the state machines interpret.
  \<^item> \<open>Crc\<close> (\<open>crc.c\<close> and the CRC-32 of \<open>set_env_param.c\<close>): tables, loops and chunked reads; equal to the
    bitwise definition. \<open>EnvParam\<close>: the sector with its header; writing refines the update of an
    association list, and reading returns what was written. \<open>Tools\<close>: \<open>simpdiff\<close> and \<open>send_event\<close>.
  \<^item> \<open>Gpio\<close>, \<open>GpioDevice\<close>: registers as words, the interrupt handler, buttons and LED patterns as a step
    function with its invariant. \<open>SpiFlash\<close>: commands as bytes sent to a chip that is a parameter; erase, program and read.
    The chip may be busy for any number of status reads.
    \<open>Switch\<close>: bus transactions with the driver's polling and its time-outs, paged registers and port states.
  \<^item> \<open>LinkUtil\<close>, \<open>BrLoop\<close>, \<open>WpsMonitor\<close>: the daemons, with what files and commands give as observations;
    one step is one turn of a loop. Invariants, progress, termination behind the monitoring loop.
  \<^item> \<open>Balloc\<close>, \<open>Ringq\<close>, \<open>HAlloc\<close>, \<open>Sym\<close>: the server's data structures. Blocks never overlap, queues are first in first
    out, symbol tables refine maps. The locales \<open>byte_fifo\<close> and \<open>name_map\<close> state what a client relies on.
  \<^item> \<open>Fmt\<close> (\<open>misc.c\<close>), \<open>Base64\<close>, \<open>Md5\<close> (\<open>md5c.c\<close>), \<open>HttpDate\<close> (the calendar of \<open>webs.c\<close>): equal to reference
    definitions, with round trips.
  \<^item> \<open>Url\<close> (\<open>default.c\<close>, \<open>webs.c\<close>), \<open>Handler\<close> (\<open>handler.c\<close>, \<open>LINUX/main.c\<close>), \<open>Auth\<close> (\<open>websda.c\<close>, \<open>security.c\<close> and the
    Authorization header of \<open>webs.c\<close>): paths stay inside the document root, handlers are called in
    order, and what passes the security handler.
  \<^item> \<open>EjLex\<close> (\<open>ejlex.c\<close>), \<open>EjParse\<close> (\<open>ejparse.c\<close>), \<open>Asp\<close> (\<open>asp.c\<close>, with \<open>scriptEval\<close> and the writing of \<open>webs.c\<close>): the
    tokens of the scripts, the parser that evaluates as it parses, and the pages the scripts stand in. The parser
    is an error-state monad; a \<open>call\<close> names one of its functions, and \<open>run\<close> ties them together. The locales
    \<open>skipping\<close> and \<open>running\<close> say which relations between states a run keeps: skipped code changes nothing but
    declarations, and a block leaves the frames around it. Expressions go from left to right; a page
    is expanded as its parts say, and what it writes reaches the browser.
  \<^item> \<open>Sock\<close> (\<open>sock.c\<close>, \<open>sockGen.c\<close>): a stream socket is three ring queues of \<open>Ringq\<close> and two lists, what the kernel
    will answer to the next \<open>recv\<close> and \<open>send\<close>. Lines and flushed bytes are the same however the kernel cuts the
    stream into pieces. The locale \<open>line_source\<close> states what the reader of requests relies on.
  \<^item> \<open>Request\<close> (\<open>webs.c\<close>, \<open>url.c\<close>): the read event with its states, the first line, the fields of the header, POST data,
    uploads as they are read, the parts of an URL, the variables of a request. The parsed request does not depend
    on the pieces it arrives in; URLs and form data are read back as they were written.
  \<^item> This theory: requests through the table of handlers with the security handler in it, from the bytes of a
    connection to the refusal of a request without the password; and what the script lexer does to the
    allocator's headers.

  \<^bold>\<open>Correspondence.\<close> Unsigned integers of the source are words of their width; \<open>int\<close> is a word where it
  may wrap and a mathematical integer where it is bounded by the code; widths in format strings and the sums of
  times in \<open>Auth\<close> are mathematical integers without such a bound. \<open>char\<close> is unsigned, as on
  the target. Memory is explicit where the code depends on it: the arena and headers in \<open>Balloc\<close>, the
  index arithmetic in \<open>Ringq\<close>, buffers rewritten in place in \<open>Url\<close>, uninitialised cells and failing allocations in \<open>Fmt\<close>, variables never written in \<open>Switch\<close> and \<open>WpsMonitor\<close>.
  Code that is not in the repository is a parameter: \<open>qsort\<close>, the flash chip, the vendor's \<open>isInteger\<close>, translations and
  configuration store, the functions of the scripts but \<open>write\<close>, other URL handlers. Where a property rests on such a parameter its
  documented behaviour is a hypothesis, and the witness instantiates it.

  \<^bold>\<open>Fuel.\<close> Loops of the source are total functions with a measure, apart from \<open>Ringq\<close>'s copying loop,
  whose fuel is the number of bytes to copy (each round moves at least one, which is proved), the daemons, which
  run as long as there are observations, the loops of \<open>Sock\<close> and \<open>Request\<close>, which are partial functions into
  \<open>option\<close>, and \<open>EjParse\<close>: a script may run for ever, so its functions carry fuel and
  a run that is cut off is the value \<open>NoFuel\<close>. More fuel changes no other outcome
  (\<open>script_result_unique\<close>), and the theorems about scripts say how much is enough. In \<open>Sock\<close> and \<open>Request\<close> the value
  \<open>None\<close> is a loop that never ends or a blocking call the kernel does not answer; the theorems state that a value is
  returned, and one that a loop over uploads does not return.

  \<^bold>\<open>Not modelled.\<close> The kernel, U-Boot and BusyBox are third-party code. Of the board's drivers the
  registration with the kernel and the set-up of VLANs, QoS and PHYs are left out. Of the web server: the
  event loop, opening, accepting and selecting of sockets (system calls), the sending of pages, the functions of scripts,
  forms and HNAP, what is done with an uploaded file,
  CGI (processes), and user management, which is not compiled in.
\<close>

section \<open>Requests and their handlers\<close>

text \<open>
  The handlers of the server's table with the security handler as theory \<open>Auth\<close> models it; the other
  handlers are a parameter. A denial is answered with \<open>websError\<close>, which ends the request.
\<close>

definition server_call ::
  "sec_conf \<Rightarrow> wls_env \<Rightarrow> MD5_CONTEXT \<Rightarrow> int \<Rightarrow> auth \<Rightarrow> sec_state \<Rightarrow> server_handler caller \<Rightarrow> server_handler caller" where
  "server_call conf env ctx now au st others h pre d a ul pa q wp =
     (if h = server_handler.websSecurityHandler then
        (case fst (Auth.websSecurityHandler conf env ctx now ul au st) of
           Pass \<Rightarrow> (False, wp)
         | Denied n m \<Rightarrow> (True, wp\<lparr>events := events wp @ [Error n m]\<rparr>)
         | Crash \<Rightarrow> (True, wp\<lparr>valid := False\<rparr>))
      else others h pre d a ul pa q wp)"

definition security_def :: "server_handler handler_def" where
  "security_def = \<lparr>d_prefix = [], d_dir = None, d_arg = 0, d_handler = server_handler.websSecurityHandler, d_flags = 1\<rparr>"

definition form_def :: "server_handler handler_def" where
  "form_def = \<lparr>d_prefix = ''/goform'', d_dir = None, d_arg = 0, d_handler = websFormHandler, d_flags = 0\<rparr>"

lemma initWebs_members: "security_def \<in> set (initWebs_handlers vd)" "form_def \<in> set (initWebs_handlers vd)"
  by (simp_all add: initWebs_handlers_def security_def_def form_def_def)

lemma security_entry:
  assumes "is_qsort qsort"
  obtains ts where "entries (define_all qsort (initWebs_handlers vd) fresh) = Inr (entry_of security_def # ts)"
  using first_entry [OF assms initWebs_ok initWebs_members(1)] by (auto simp: security_def_def)

lemma request_refused:
  assumes "is_qsort qsort" "MTuserName conf \<noteq> []" "MTuserPass conf \<noteq> []" "\<not> LOCAL_REQUEST au" "\<not> AUTH_DIGEST au"
    and "password au \<noteq> Some (MTuserPass conf) \<or> timed_out conf now st"
    and "\<not> strstr (condensed (Handler.url wp)) ''/mt_stat''" "\<not> strstr (condensed (Handler.url wp)) ''/HNAP1''"
  obtains n m where "n \<in> {401, 403}"
    "websUrlHandlerRequest (server_call conf env ctx now au st others) df (define_all qsort (initWebs_handlers vd) fresh) wp =
      Inr (1, (prepared df wp)\<lparr>events := events (prepared df wp) @ [Error n m]\<rparr>)"
proof -
  obtain ts where t: "entries (define_all qsort (initWebs_handlers vd) fresh) = Inr (entry_of security_def # ts)"
    using security_entry [OF assms(1)] .
  obtain n m where d: "fst (Auth.websSecurityHandler conf env ctx now (condensed (Handler.url wp)) au st) = Denied n m" "n \<in> {401, 403}"
    using security_denied [OF assms(2-4,7,8,5,6)] .
  have "websUrlHandlerRequest (server_call conf env ctx now au st others) df (define_all qsort (initWebs_handlers vd) fresh) wp =
      Inr (1, (prepared df wp)\<lparr>events := events (prepared df wp) @ [Error n m]\<rparr>)"
    using request_prepared [OF t, of "server_handler.websSecurityHandler"] d(1)
    by (simp add: security_def_def entry_of_def server_call_def)
  then show ?thesis using that d(2) by blast
qed

text \<open>
  C3: No request without the configured password reaches a handler of the server: with a user name
  and a password configured, a request from elsewhere without the password or after the timeout, and
  without digest authentication, is answered with an error by the security handler, whatever the other
  handlers do, unless its URL has one of the two texts that are excepted.
\<close>

theorem request_protected:
  assumes "is_qsort qsort" "MTuserName conf \<noteq> []" "MTuserPass conf \<noteq> []" "\<not> LOCAL_REQUEST au" "\<not> AUTH_DIGEST au"
    and "password au \<noteq> Some (MTuserPass conf) \<or> timed_out conf now st"
    and "\<not> strstr (condensed (Handler.url wp)) ''/mt_stat''" "\<not> strstr (condensed (Handler.url wp)) ''/HNAP1''"
  shows "\<exists>n m. n \<in> {401, 403} \<and>
    websUrlHandlerRequest (server_call conf env ctx now au st others) df (define_all qsort (initWebs_handlers vd) fresh) wp =
      Inr (1, (prepared df wp)\<lparr>events := events (prepared df wp) @ [Error n m]\<rparr>)"
  using request_refused [OF assms] by metis

text \<open>
  C38: A request for a form reaches the form handler without any password if its URL has the text
  \<open>/HNAP1\<close> anywhere, for example in its query, unless it comes from a wireless client while these are forbidden to
  manage the device: the security handler looks for that text in the whole URL, while the
  dispatcher goes by the path. The form handler answers the request, and \<open>qsort\<close> sorts.
\<close>

theorem form_without_password:
  assumes "is_qsort qsort" "\<not> wireless_forbidden conf env au" "valid wp"
    and "condensed (Handler.url wp) = pre @ ''/HNAP1'' @ post" "condensed (Handler.path wp) = ''/goform/'' @ name"
    and "others websFormHandler ''/goform'' [] 0 (condensed (Handler.url wp)) (condensed (Handler.path wp)) (Handler.query wp) (prepared df wp) = (True, wp')"
  shows "websUrlHandlerRequest (server_call conf env ctx now au st others) df (define_all qsort (initWebs_handlers vd) fresh) wp = Inr (1, wp')"
proof -
  have "strstr (condensed (Handler.url wp)) ''/HNAP1''" unfolding assms(4) by (rule strstr_infix)
  then have p: "fst (Auth.websSecurityHandler conf env ctx now (condensed (Handler.url wp)) au st) = Pass"
    using assms(2) by (auto simp: Auth.websSecurityHandler_def Let_def)
  show ?thesis
  proof (rule dispatch_longest [OF assms(1) initWebs_ok _ initWebs_members(1), where e = form_def and wp' = "prepared df wp"])
    show "\<forall>d\<in>set (initWebs_handlers vd). d_flags d AND 3 \<noteq> 0 \<longrightarrow> d_prefix d = []" using initWebs_flags by blast
    show "server_call conf env ctx now au st others (d_handler security_def) [] (webDir (entry_of security_def)) (d_arg security_def)
        (condensed (Handler.url wp)) (condensed (Handler.path wp)) (Handler.query wp) (prepared df wp) = (False, prepared df wp)"
      using p by (simp add: server_call_def security_def_def)
    show "valid (prepared df wp)" using assms(3) by (simp add: prepared_def)
    show "matches (Handler.path (prepared df wp)) form_def" using assms(5) by (simp add: matches_def form_def_def)
    show "\<forall>x\<in>set (initWebs_handlers vd). matches (Handler.path (prepared df wp)) x \<longrightarrow>
        x = form_def \<or> length (d_prefix x) < length (d_prefix form_def)"
      using assms(5) by (auto simp: initWebs_handlers_def matches_def form_def_def)
    show "server_call conf env ctx now au st others (d_handler form_def) (d_prefix form_def) (webDir (entry_of form_def)) (d_arg form_def)
        (Handler.url (prepared df wp)) (Handler.path (prepared df wp)) (Handler.query (prepared df wp)) (prepared df wp) = (True, wp')"
      using assms(6) by (simp add: server_call_def form_def_def entry_of_def)
  qed (simp_all add: security_def_def initWebs_members)
qed

text \<open>The request that theory \<open>Request\<close> has read, as the dispatcher of theory \<open>Handler\<close> takes it.\<close>

definition to_dispatch :: "request \<Rightarrow> webs" where
  "to_dispatch r =
     \<lparr>valid = True, wstate = 0, wflags = (if Request.WEBS_HNAP_FW_UPGRADE \<in> rflags r then 0x01000000 else 0), webs.url = rurl r,
      webs.path = rpath r, webs.query = rquery r, dir = [], events = []\<rparr>"

text \<open>
  C4: From the network to the answer: however a request that is not a POST is cut into pieces, it is handed to
  the handlers, and if its Authorization header does not give the configured password, or the login has timed out, it gets
  the error 401 or 403 from the security handler. This is for requests that are not local, do not use digest
  authentication, and have neither \<open>/mt_stat\<close> nor \<open>/HNAP1\<close> in their URL, on a server with a user name and
  a password. The parsers accept the request; its header is less than 5120 bytes long, carriage returns aside, and has no zero byte, every
  allocation succeeds, and \<open>qsort\<close> sorts.
\<close>

theorem wire_to_refusal:
  assumes "memory alloc" "ds \<noteq> []" "concat ds = concat (map (\<lambda>l. l @ [10]) (f # hs @ [e])) @ ys" "head_ok f hs e"
    and "parsed srv au f hs r" "WEBS_POST_REQUEST \<notin> rflags r"
    and "is_qsort qsort" "MTuserName conf \<noteq> []" "MTuserPass conf \<noteq> []" "\<not> LOCAL_REQUEST (credentials r)" "\<not> AUTH_DIGEST (credentials r)"
    and "password (credentials r) \<noteq> Some (MTuserPass conf) \<or> timed_out conf now st"
    and "\<not> strstr (condensed (rurl r)) ''/mt_stat''" "\<not> strstr (condensed (rurl r)) ''/HNAP1''"
  shows "\<exists>wp n m. serve alloc srv (length ds) (websAlloc alloc (socketAlloc alloc False (in_pieces ds) answers) au) = Some (Handed wp) \<and>
    n \<in> {401, 403} \<and>
    websUrlHandlerRequest (server_call conf env ctx now (credentials (req wp)) st others) df (define_all qsort (initWebs_handlers vd) fresh) (to_dispatch (req wp)) =
      Inr (1, (prepared df (to_dispatch (req wp)))\<lparr>events := events (prepared df (to_dispatch (req wp))) @ [Error n m]\<rparr>)"
proof -
  obtain wp where wp: "serve alloc srv (length ds) (websAlloc alloc (socketAlloc alloc False (in_pieces ds) answers) au) = Some (Handed wp)" "req wp = r"
    using handed_any_split [OF assms(1-6)] .
  have u: "Handler.url (to_dispatch r) = rurl r" by (simp add: to_dispatch_def)
  obtain n m where "n \<in> {401, 403}"
    "websUrlHandlerRequest (server_call conf env ctx now (credentials r) st others) df (define_all qsort (initWebs_handlers vd) fresh) (to_dispatch r) =
      Inr (1, (prepared df (to_dispatch r))\<lparr>events := events (prepared df (to_dispatch r)) @ [Error n m]\<rparr>)"
    using request_refused [OF assms(7-12), of "to_dispatch r", unfolded u, OF assms(13,14)] .
  then show ?thesis using wp by blast
qed

text \<open>A sample: handlers that take every request, and no header in it.\<close>

definition takes_all :: "server_handler caller" where
  "takes_all h pre d a ul pa q wp = (True, wp)"

theorem request_protected_witness:
  "\<exists>n m. n \<in> {401, 403} \<and>
     websUrlHandlerRequest (server_call conf0 env0 ctx0 7 Auth.wp0 st0 takes_all) ''/web'' (define_all isort (initWebs_handlers ''/tmp'') fresh) Handler.wp0 =
       Inr (1, (prepared ''/web'' Handler.wp0)\<lparr>events := events (prepared ''/web'' Handler.wp0) @ [Error n m]\<rparr>)"
proof (rule request_protected [OF isort_qsort])
  have "condensed ''/goform/x'' = ''/goform/x''" by code_simp
  then have u: "condensed (Handler.url Handler.wp0) = ''/goform/x''" by (simp add: Handler.wp0_def)
  show "\<not> strstr (condensed (Handler.url Handler.wp0)) ''/mt_stat''" "\<not> strstr (condensed (Handler.url Handler.wp0)) ''/HNAP1''"
    by (simp_all add: u)
qed (simp_all add: Auth.wp0_def)

theorem wire_to_refusal_witness:
  "\<exists>wp n m. serve plenty srv0 4 (websAlloc plenty (socketAlloc plenty False (in_pieces get_pieces) []) Auth.wp0) = Some (Handed wp) \<and> n \<in> {401, 403} \<and>
     websUrlHandlerRequest (server_call conf0 env0 ctx0 7 (credentials (req wp)) st0 takes_all) ''/web'' (define_all isort (initWebs_handlers ''/tmp'') fresh) (to_dispatch (req wp)) =
       Inr (1, (prepared ''/web'' (to_dispatch (req wp)))\<lparr>events := events (prepared ''/web'' (to_dispatch (req wp))) @ [Error n m]\<rparr>)"
proof -
  obtain r where r: "sample_parse get_line1 [cookie_line] = Some r" "rflags r = {WEBS_COOKIE, WEBS_ASP}" "rurl r = ''/a.asp?x=1''"
    "\<not> LOCAL_REQUEST (credentials r)" "\<not> AUTH_DIGEST (credentials r)" "password (credentials r) = None"
    using sample_get by (auto split: option.splits)
  have l: "length get_pieces = 4" "get_pieces \<noteq> []" by (simp_all add: get_pieces_def)
  have c: "condensed ''/a.asp?x=1'' = ''/a.asp?x=1''" by code_simp
  show ?thesis
    using wire_to_refusal [OF memory_plenty l(2) pieces_samples(1) head_ok_samples(1) sample_parsed [OF r(1)] _ isort_qsort, of conf0 7 st0 "[]" env0 ctx0 takes_all "''/web''" "''/tmp''"]
      r(2-6) l(1) c by simp
qed

theorem form_without_password_witness:
  "websUrlHandlerRequest (server_call conf0 env0 ctx0 7 Auth.wp0 st0 takes_all) ''/web'' (define_all isort (initWebs_handlers ''/tmp'') fresh)
     (Handler.wp0\<lparr>Handler.url := ''/goform/x?/HNAP1''\<rparr>) =
   Inr (1, prepared ''/web'' (Handler.wp0\<lparr>Handler.url := ''/goform/x?/HNAP1''\<rparr>))"
proof (rule form_without_password [OF isort_qsort, where pre = "''/goform/x?''" and post = "[]" and name = "''x''"])
  have "condensed ''/goform/x?/HNAP1'' = ''/goform/x?/HNAP1''" "condensed ''/goform/x'' = ''/goform/x''" by code_simp+
  then show "condensed (Handler.url (Handler.wp0\<lparr>Handler.url := ''/goform/x?/HNAP1''\<rparr>)) = ''/goform/x?'' @ ''/HNAP1'' @ []"
    "condensed (Handler.path (Handler.wp0\<lparr>Handler.url := ''/goform/x?/HNAP1''\<rparr>)) = ''/goform/'' @ ''x''"
    by (simp_all add: Handler.wp0_def)
qed (simp_all add: Handler.wp0_def takes_all_def)

section \<open>Scripts and the heap\<close>

text \<open>
  The line buffer of the script lexer is a block of the allocator, and its header stands before it: four bytes
  for the size and four for the flags, the last of them the most significant on the little-endian target.
  A terminator written one byte before the line clears that byte.
\<close>

definition clear_before :: "nat \<Rightarrow> balloc_state \<Rightarrow> balloc_state" where
  "clear_before mp st =
     st\<lparr>hdr := (hdr st)(mp - sizeof_bType := map_option (\<lambda>h. h\<lparr>bType.flags := bType.flags h AND 0x00FFFFFF\<rparr>) (hdr st (mp - sizeof_bType)))\<rparr>"

lemma integrity_top_byte: "\<not> integrity (h\<lparr>bType.flags := bType.flags h AND 0x00FFFFFF\<rparr>)"
proof
  assume "integrity (h\<lparr>bType.flags := bType.flags h AND 0x00FFFFFF\<rparr>)"
  then have e: "bType.flags h AND 0xFFF000 = 0x8124000" by (simp add: integrity_def and.assoc)
  have "(bType.flags h AND 0xFFF000) AND 0x8000000 = bType.flags h AND (0xFFF000 AND 0x8000000)" by (simp only: and.assoc)
  then show False unfolding e by simp
qed

text \<open>
  A number at the end of a line of a script makes the lexer clear the byte before its line buffer,
  and then the buffer is never freed: the header has lost its mark, and \<open>bfree\<close> leaves the heap as it is.
\<close>

theorem number_leaks_line:
  assumes "script ep = b # w @ 10 # rest" "putBackTokenId ep \<le> 0" "idchar b" "list_all idchar w" "is_int (b # w)"
  shows "(\<exists>ep'. getLexicalToken is_int st ep = (TOK_LITERAL, ep') \<and> line_fault ep') \<and>
    bfree mp (clear_before mp heap) = clear_before mp heap"
proof -
  have "bfree mp (clear_before mp heap) = clear_before mp heap"
    by (cases "hdr heap (mp - sizeof_bType)") (simp_all add: bfree_def clear_before_def integrity_top_byte Let_def)
  then show ?thesis using number_line_fault [of ep b w rest is_int st] assms by blast
qed

theorem number_leaks_line_witness:
  "(\<exists>ep'. getLexicalToken numeric STATE_STMT (lexer [53, 10]) = (TOK_LITERAL, ep') \<and> line_fault ep')"
  using number_leaks_line [of "lexer [53, 10]" 53 "[]" "[]" numeric STATE_STMT]
  by (simp add: idchar_def EjLex.gisalnum_def EjLex.gisdigit_def numeric_def)

end
